(* ===== verification/Omni_Prelude.thy ===== *)
theory Omni_Prelude
  imports Main "HOL-Library.Word" "HOL-Library.Char_ord" "HOL-Library.List_Lexorder"
    "HOL-Library.AList" "HOL-Library.Sublist" "HOL-Library.Multiset"
begin

section \<open>Prelude: Go values, strings, slices, maps and errors\<close>

text \<open>
  What the component theories share. Go strings and byte slices are byte sequences, so a
  string is HOL's \<^typ>\<open>string\<close> (a list of 8-bit characters) ordered bytewise. A byte slice
  distinguishes nil from a value, so it is an optional string. A Go map is an association
  list with distinct keys, whose order is one iteration order the runtime might choose;
  statements are made through lookups wherever the code's result may not depend on it.
  Sentinel errors, which the callers test with errors.Is through any wrapping, are a
  datatype; every other error is \<open>ErrOther\<close> with a short tag.
\<close>

named_theorems gomap_simps \<open>lookups in updated Go maps\<close>
named_theorems go_string_simps \<open>evaluation of the modelled strings functions\<close>

subsection \<open>Errors and results\<close>

datatype err =
    ErrLedgerConflict
  | ErrLedgerNotFound
  | ErrLedgerPhase
  | ErrLeaseHeld
  | ErrCompensationBlocked
  | ErrOther string

type_synonym 'a result = "err + 'a"

text \<open>Sequencing of fallible steps: the early return of \<open>if err != nil\<close>.\<close>

fun rbind :: "'e + 'a \<Rightarrow> ('a \<Rightarrow> 'e + 'b) \<Rightarrow> 'e + 'b" where
  "rbind (Inl e) f = Inl e"
| "rbind (Inr x) f = f x"

lemma rbind_Inr_iff: "rbind r f = Inr y \<longleftrightarrow> (\<exists>x. r = Inr x \<and> f x = Inr y)"
  by (cases r) auto

lemma rbind_Inl_iff: "rbind r f = Inl e \<longleftrightarrow> r = Inl e \<or> (\<exists>x. r = Inr x \<and> f x = Inl e)"
  by (cases r) auto

text \<open>A pure step after a fallible one.\<close>

fun rfmap :: "('a \<Rightarrow> 'b) \<Rightarrow> 'e + 'a \<Rightarrow> 'e + 'b" where
  "rfmap f (Inl e) = Inl e"
| "rfmap f (Inr x) = Inr (f x)"

lemma rfmap_Inr_iff: "rfmap f r = Inr y \<longleftrightarrow> (\<exists>x. r = Inr x \<and> y = f x)"
  by (cases r) auto

lemma rfmap_Inl_iff: "rfmap f r = Inl e \<longleftrightarrow> r = Inl e"
  by (cases r) auto

text \<open>A fallible loop body over a list, stopping at the first error.\<close>

fun rmap :: "('a \<Rightarrow> 'e + 'b) \<Rightarrow> 'a list \<Rightarrow> 'e + 'b list" where
  "rmap f [] = Inr []"
| "rmap f (x # xs) = (case f x of Inl e \<Rightarrow> Inl e
     | Inr y \<Rightarrow> (case rmap f xs of Inl e \<Rightarrow> Inl e | Inr ys \<Rightarrow> Inr (y # ys)))"

lemma rmap_cong [fundef_cong]:
  "xs = ys \<Longrightarrow> (\<And>x. x \<in> set ys \<Longrightarrow> f x = g x) \<Longrightarrow> rmap f xs = rmap g ys"
proof (induction ys arbitrary: xs)
  case (Cons y ys)
  then have "f y = g y" and "rmap f ys = rmap g ys" by auto
  with Cons.prems(1) show ?case by (simp split: sum.split)
qed simp

lemma rmap_Inr_iff: "rmap f xs = Inr ys \<longleftrightarrow> list_all2 (\<lambda>x y. f x = Inr y) xs ys"
proof (induction xs arbitrary: ys)
  case Nil
  show ?case by (auto simp: eq_commute)
next
  case (Cons x xs)
  have "rmap f (x # xs) = Inr ys \<longleftrightarrow>
    (\<exists>z zs. f x = Inr z \<and> rmap f xs = Inr zs \<and> ys = z # zs)"
    by (auto split: sum.splits)
  then show ?case by (auto simp: Cons.IH list_all2_Cons1)
qed

lemma set_map_filter: "set (List.map_filter f xs) = {y. \<exists>x\<in>set xs. f x = Some y}"
  by (force simp: List.map_filter_def)

lemma list_has_max: "xs \<noteq> [] \<Longrightarrow> \<exists>m\<in>set xs. \<forall>x\<in>set xs. (f x :: 'b :: linorder) \<le> f m"
proof (induction xs rule: list_nonempty_induct)
  case (cons x xs)
  then obtain m where m: "m \<in> set xs" "\<forall>y\<in>set xs. f y \<le> f m" by blast
  show ?case
  proof (cases "f x \<le> f m")
    case True
    with m show ?thesis by auto
  next
    case False
    with m have "\<forall>y\<in>set (x # xs). f y \<le> f x" by fastforce
    then show ?thesis by auto
  qed
qed simp

subsection \<open>Byte slices\<close>

type_synonym bytes = "string option"

definition slice_bytes :: "bytes \<Rightarrow> string" where
  "slice_bytes b = (case b of None \<Rightarrow> [] | Some s \<Rightarrow> s)"

definition slice_len :: "bytes \<Rightarrow> nat" where
  "slice_len b = length (slice_bytes b)"

text \<open>bytes.Equal: a nil slice equals an empty one.\<close>

definition bytes_Equal :: "bytes \<Rightarrow> bytes \<Rightarrow> bool" where
  "bytes_Equal a b \<longleftrightarrow> slice_bytes a = slice_bytes b"

text \<open>
  What a byte slice is after \<open>append([]byte(nil), b...)\<close>, and also after a trip through an
  \<open>omitempty\<close> JSON field: an empty slice becomes nil, any other is unchanged.
\<close>

definition slice_norm :: "bytes \<Rightarrow> bytes" where
  "slice_norm b = (if slice_len b = 0 then None else b)"

lemma slice_bytes_simps [simp]: "slice_bytes None = []" "slice_bytes (Some s) = s"
  by (simp_all add: slice_bytes_def)

lemma slice_norm_simps [simp]:
  "slice_norm None = None" "slice_norm (Some []) = None" "slice_norm (Some (c # s)) = Some (c # s)"
  "slice_norm (slice_norm b) = slice_norm b" "slice_bytes (slice_norm b) = slice_bytes b"
  by (simp_all add: slice_norm_def slice_len_def slice_bytes_def split: option.splits)

lemma bytes_Equal_norm: "bytes_Equal a b \<longleftrightarrow> slice_norm a = slice_norm b"
  by (cases a; cases b)
    (auto simp: bytes_Equal_def slice_norm_def slice_len_def slice_bytes_def split: if_splits)

subsection \<open>Maps\<close>

type_synonym ('k, 'v) gomap = "('k \<times> 'v) list"

abbreviation gm_get :: "('k, 'v) gomap \<Rightarrow> 'k \<Rightarrow> 'v option" where
  "gm_get m k \<equiv> map_of m k"

abbreviation gm_set :: "'k \<Rightarrow> 'v \<Rightarrow> ('k, 'v) gomap \<Rightarrow> ('k, 'v) gomap" where
  "gm_set k v m \<equiv> AList.update k v m"

abbreviation gm_del :: "'k \<Rightarrow> ('k, 'v) gomap \<Rightarrow> ('k, 'v) gomap" where
  "gm_del k m \<equiv> AList.delete k m"

abbreviation gm_keys :: "('k, 'v) gomap \<Rightarrow> 'k list" where
  "gm_keys m \<equiv> map fst m"

definition gm_wf :: "('k, 'v) gomap \<Rightarrow> bool" where
  "gm_wf m \<longleftrightarrow> distinct (gm_keys m)"

lemma gm_get_set [simp, gomap_simps]:
  "gm_get (gm_set k v m) k' = (if k' = k then Some v else gm_get m k')"
  by (simp add: update_conv')

lemma gm_get_del [simp, gomap_simps]:
  "gm_get (gm_del k m) k' = (if k' = k then None else gm_get m k')"
  by (simp add: delete_conv')

lemma gm_wf_simps [simp]:
  "gm_wf []" "gm_wf m \<Longrightarrow> gm_wf (gm_set k v m)" "gm_wf m \<Longrightarrow> gm_wf (gm_del k m)"
  by (simp_all add: gm_wf_def distinct_update distinct_delete)

lemma gm_wf_Cons [simp]: "gm_wf ((k, v) # m) \<longleftrightarrow> k \<notin> set (gm_keys m) \<and> gm_wf m"
  by (simp add: gm_wf_def)

lemma gm_get_None_iff: "gm_get m k = None \<longleftrightarrow> k \<notin> set (gm_keys m)"
  by (simp add: map_of_eq_None_iff)

lemma gm_get_Some_iff: "gm_wf m \<Longrightarrow> gm_get m k = Some v \<longleftrightarrow> (k, v) \<in> set m"
  by (simp add: gm_wf_def)

subsection \<open>Strings\<close>

text \<open>The functions of package strings the code uses, on byte strings.\<close>

definition HasPrefix :: "string \<Rightarrow> string \<Rightarrow> bool" where
  "HasPrefix s p \<longleftrightarrow> take (length p) s = p"

definition HasSuffix :: "string \<Rightarrow> string \<Rightarrow> bool" where
  "HasSuffix s p \<longleftrightarrow> length p \<le> length s \<and> drop (length s - length p) s = p"

definition TrimSuffix :: "string \<Rightarrow> string \<Rightarrow> string" where
  "TrimSuffix s p = (if HasSuffix s p then take (length s - length p) s else s)"

definition ContainsAny :: "string \<Rightarrow> string \<Rightarrow> bool" where
  "ContainsAny s cs \<longleftrightarrow> list_ex (\<lambda>c. c \<in> set cs) s"

text \<open>\<open>strings.Split\<close> and \<open>strings.Cut\<close> with a one-character separator.\<close>

fun Split :: "char \<Rightarrow> string \<Rightarrow> string list" where
  "Split c [] = [[]]"
| "Split c (x # xs) = (if x = c then [] # Split c xs
     else (case Split c xs of [] \<Rightarrow> [[x]] | y # ys \<Rightarrow> (x # y) # ys))"

fun Cut :: "char \<Rightarrow> string \<Rightarrow> string \<times> string \<times> bool" where
  "Cut c [] = ([], [], False)"
| "Cut c (x # xs) = (if x = c then ([], xs, True)
     else (case Cut c xs of (a, b, f) \<Rightarrow> (x # a, b, f)))"

fun strings_Join :: "string \<Rightarrow> string list \<Rightarrow> string" where
  "strings_Join sep [] = []"
| "strings_Join sep [x] = x"
| "strings_Join sep (x # y # xs) = x @ sep @ strings_Join sep (y # xs)"

text \<open>
  \<open>strings.ToLower\<close> on the ASCII letters; the source only compares the result with
  ASCII keywords.
\<close>

definition ToLower_char :: "char \<Rightarrow> char" where
  "ToLower_char c = (if 65 \<le> (of_char c :: nat) \<and> (of_char c :: nat) \<le> 90
     then char_of (of_char c + 32 :: nat) else c)"

definition ToLower :: "string \<Rightarrow> string" where
  "ToLower s = map ToLower_char s"

lemma HasPrefix_iff: "HasPrefix s p \<longleftrightarrow> (\<exists>r. s = p @ r)"
  by (auto simp: HasPrefix_def) (metis append_take_drop_id)

lemma HasSuffix_iff: "HasSuffix s p \<longleftrightarrow> (\<exists>r. s = r @ p)"
  by (auto simp: HasSuffix_def) (metis append_take_drop_id)

lemma TrimSuffix_append [simp]: "TrimSuffix (s @ p) p = s"
  by (auto simp: TrimSuffix_def HasSuffix_def)

lemma Split_not_Nil [simp]: "Split c s \<noteq> []"
  by (induction s) (auto split: list.splits)

lemma Join_Split [simp]: "strings_Join [c] (Split c s) = s"
proof (induction s)
  case (Cons x s)
  obtain y ys where ys: "Split c s = y # ys" by (cases "Split c s") auto
  with Cons show ?case by (cases ys) auto
qed simp

lemma Split_inj: "Split c s = Split c t \<longleftrightarrow> s = t"
  by (metis Join_Split)

text \<open>A string determines where the last occurrence of a character splits it.\<close>

lemma append_last_inj:
  "a @ x # u = b @ x # w \<Longrightarrow> x \<notin> set u \<Longrightarrow> x \<notin> set w \<Longrightarrow> a = b \<and> u = w"
proof (induction a arbitrary: b)
  case Nil
  then show ?case by (cases b) auto
next
  case (Cons y a)
  show ?case
  proof (cases b)
    case Nil
    with Cons.prems have "x \<in> set w" by auto
    with Cons.prems show ?thesis by simp
  next
    case (Cons z b')
    with Cons.IH[of b'] Cons.prems show ?thesis by simp
  qed
qed

lemma Cut_correct:
  "Cut c s = (a, b, f) \<Longrightarrow> c \<notin> set a \<and> (if f then s = a @ c # b else s = a \<and> b = [])"
  by (induction s arbitrary: a b f) (fastforce split: if_splits prod.splits)+

lemma Cut_shorter: "Cut c s = (a, b, True) \<Longrightarrow> length b < length s"
  by (drule Cut_correct) simp

lemma Cut_found: "c \<notin> set a \<Longrightarrow> Cut c (a @ c # b) = (a, b, True)"
  by (induction a) auto

subsection \<open>Decimal numerals\<close>

text \<open>\<open>strconv.FormatUint(n, 10)\<close> and \<open>strconv.ParseUint(s, 10, 64)\<close>.\<close>

definition digit_char :: "nat \<Rightarrow> char" where
  "digit_char d = char_of (48 + d)"

fun fmt_nat :: "nat \<Rightarrow> string" where
  "fmt_nat n = (if n < 10 then [digit_char n] else fmt_nat (n div 10) @ [digit_char (n mod 10)])"

declare fmt_nat.simps [simp del]

definition is_digit :: "char \<Rightarrow> bool" where
  "is_digit c \<longleftrightarrow> 48 \<le> (of_char c :: nat) \<and> (of_char c :: nat) \<le> 57"

definition digit_val :: "char \<Rightarrow> nat" where
  "digit_val c = of_char c - 48"

definition nat_of_digits :: "string \<Rightarrow> nat" where
  "nat_of_digits s = foldl (\<lambda>n c. 10 * n + digit_val c) 0 s"

definition parse_nat :: "string \<Rightarrow> nat option" where
  "parse_nat s = (if s \<noteq> [] \<and> list_all is_digit s then Some (nat_of_digits s) else None)"

definition ParseUint64 :: "string \<Rightarrow> nat option" where
  "ParseUint64 s = (case parse_nat s of None \<Rightarrow> None
     | Some n \<Rightarrow> if n < 2 ^ 64 then Some n else None)"

lemma digit_char_val [simp]: "d < 10 \<Longrightarrow> digit_val (digit_char d) = d"
  by (simp add: digit_val_def digit_char_def)

lemma digit_char_is_digit [simp]: "d < 10 \<Longrightarrow> is_digit (digit_char d)"
  by (simp add: is_digit_def digit_char_def)

lemma nat_of_digits_snoc [simp]: "nat_of_digits (s @ [c]) = 10 * nat_of_digits s + digit_val c"
  by (simp add: nat_of_digits_def)

lemma nat_of_digits_single [simp]: "nat_of_digits [c] = digit_val c" "nat_of_digits [] = 0"
  by (simp_all add: nat_of_digits_def)

lemma fmt_nat_not_Nil [simp]: "fmt_nat n \<noteq> []"
  by (subst fmt_nat.simps) simp

lemma fmt_nat_digits: "list_all is_digit (fmt_nat n)"
proof (induction n rule: fmt_nat.induct)
  case (1 n)
  then show ?case by (subst fmt_nat.simps) auto
qed

lemma nat_of_digits_fmt_nat [simp]: "nat_of_digits (fmt_nat n) = n"
proof (induction n rule: fmt_nat.induct)
  case (1 n)
  then show ?case by (subst fmt_nat.simps) auto
qed

lemma parse_nat_fmt_nat [simp]: "parse_nat (fmt_nat n) = Some n"
  by (simp add: parse_nat_def fmt_nat_digits)

lemma fmt_nat_inj [simp]: "fmt_nat m = fmt_nat n \<longleftrightarrow> m = n"
  by (metis nat_of_digits_fmt_nat)

lemma ParseUint64_fmt_nat [simp]: "n < 2 ^ 64 \<Longrightarrow> ParseUint64 (fmt_nat n) = Some n"
  by (simp add: ParseUint64_def)

lemma parse_nat_digits: "parse_nat s = Some n \<Longrightarrow> list_all is_digit s"
  by (simp add: parse_nat_def split: if_splits)

text \<open>Signed decimal text.\<close>

definition fmt_int :: "int \<Rightarrow> string" where
  "fmt_int i = (if i < 0 then CHR ''-'' # fmt_nat (nat (- i)) else fmt_nat (nat i))"

definition parse_int :: "string \<Rightarrow> int option" where
  "parse_int s = (case s of
     c # r \<Rightarrow> if c = CHR ''-'' then map_option (\<lambda>n. - int n) (parse_nat r) else map_option int (parse_nat s)
   | [] \<Rightarrow> None)"

lemma parse_int_fmt_int [simp]: "parse_int (fmt_int i) = Some i"
proof (cases "i < 0")
  case True
  then show ?thesis by (simp add: parse_int_def fmt_int_def)
next
  case False
  obtain c r where s: "fmt_nat (nat i) = c # r" by (cases "fmt_nat (nat i)") auto
  with fmt_nat_digits[of "nat i"] have "c \<noteq> CHR ''-''" by (auto simp: is_digit_def)
  moreover have "parse_nat (c # r) = Some (nat i)" using parse_nat_fmt_nat[of "nat i"] s by simp
  ultimately show ?thesis using s False by (simp add: parse_int_def fmt_int_def)
qed

subsection \<open>64-bit integers as integers\<close>

text \<open>What is left of a mathematical result in an int64.\<close>

definition wrap64 :: "int \<Rightarrow> int" where
  "wrap64 x = (x + 2 ^ 63) mod 2 ^ 64 - 2 ^ 63"

lemma wrap64_id [simp]: "- (2 ^ 63) \<le> x \<Longrightarrow> x < 2 ^ 63 \<Longrightarrow> wrap64 x = x"
  by (simp add: wrap64_def)

lemma wrap64_bounds: "- (2 ^ 63) \<le> wrap64 x \<and> wrap64 x < 2 ^ 63"
  using pos_mod_bound[of "2 ^ 64 :: int" "x + 2 ^ 63"] pos_mod_sign[of "2 ^ 64 :: int" "x + 2 ^ 63"]
  by (simp add: wrap64_def)

subsection \<open>Stable sorting by a comparison function\<close>

text \<open>
  \<open>slices.SortStableFunc\<close>: a comparison returns a negative number, zero or a positive number.
  For a comparison that is a total preorder there is one stable sorted list, which insertion
  from the right computes.
\<close>

fun insert_cmp :: "('a \<Rightarrow> 'a \<Rightarrow> int) \<Rightarrow> 'a \<Rightarrow> 'a list \<Rightarrow> 'a list" where
  "insert_cmp cmp x [] = [x]"
| "insert_cmp cmp x (y # ys) = (if cmp x y \<le> 0 then x # y # ys else y # insert_cmp cmp x ys)"

definition SortStableFunc :: "('a \<Rightarrow> 'a \<Rightarrow> int) \<Rightarrow> 'a list \<Rightarrow> 'a list" where
  "SortStableFunc cmp xs = foldr (insert_cmp cmp) xs []"

definition total_cmp :: "('a \<Rightarrow> 'a \<Rightarrow> int) \<Rightarrow> bool" where
  "total_cmp cmp \<longleftrightarrow> (\<forall>x y. cmp x y \<le> 0 \<or> cmp y x \<le> 0) \<and>
     (\<forall>x y z. cmp x y \<le> 0 \<longrightarrow> cmp y z \<le> 0 \<longrightarrow> cmp x z \<le> 0)"

text \<open>\<open>strings.Compare\<close> and \<open>cmp.Compare\<close>.\<close>

definition Compare :: "'a :: linorder \<Rightarrow> 'a \<Rightarrow> int" where
  "Compare a b = (if a < b then - 1 else if a = b then 0 else 1)"

lemma mset_insert_cmp [simp]: "mset (insert_cmp cmp x xs) = add_mset x (mset xs)"
  by (induction xs) auto

lemma mset_SortStableFunc [simp]: "mset (SortStableFunc cmp xs) = mset xs"
  by (induction xs) (simp_all add: SortStableFunc_def)

lemma set_SortStableFunc [simp]: "set (SortStableFunc cmp xs) = set xs"
  using mset_SortStableFunc by (metis set_mset_mset)

lemma distinct_SortStableFunc [simp]: "distinct (SortStableFunc cmp xs) = distinct xs"
  using mset_SortStableFunc by (metis mset_eq_imp_distinct_iff)

lemma set_insert_cmp [simp]: "set (insert_cmp cmp x xs) = insert x (set xs)"
  by (induction xs) auto

lemma sorted_insert_cmp:
  assumes "total_cmp cmp"
  shows "sorted_wrt (\<lambda>a b. cmp a b \<le> 0) xs \<Longrightarrow> sorted_wrt (\<lambda>a b. cmp a b \<le> 0) (insert_cmp cmp x xs)"
proof (induction xs)
  case (Cons y ys)
  have tot: "\<not> cmp x y \<le> 0 \<Longrightarrow> cmp y x \<le> 0" and tr: "\<And>z. cmp x y \<le> 0 \<Longrightarrow> cmp y z \<le> 0 \<Longrightarrow> cmp x z \<le> 0"
    using assms unfolding total_cmp_def by blast+
  with Cons show ?case by auto
qed simp

lemma sorted_SortStableFunc: "total_cmp cmp \<Longrightarrow> sorted_wrt (\<lambda>a b. cmp a b \<le> 0) (SortStableFunc cmp xs)"
  by (induction xs) (simp_all add: SortStableFunc_def sorted_insert_cmp)

text \<open>Listing lists in another order changes neither their elements nor their distinctness.\<close>

lemma concat_perm:
  assumes "mset xs = mset ys"
  shows "distinct (concat (map f xs)) = distinct (concat (map f ys))" "set (concat (map f xs)) = set (concat (map f ys))"
proof -
  have "mset (concat (map f xs)) = mset (concat (map f ys))" using assms by (metis mset_concat mset_map sum_mset_sum_list)
  then show "distinct (concat (map f xs)) = distinct (concat (map f ys))" "set (concat (map f xs)) = set (concat (map f ys))"
    by (rule mset_eq_imp_distinct_iff, rule mset_eq_setD)
qed

lemma map_nth_perm:
  assumes "distinct v" "set v = {..<length xs}"
  shows "mset (map (\<lambda>i. xs ! i) v) = mset xs"
proof -
  have "mset v = mset [0..<length xs]"
    using assms set_eq_iff_mset_eq_distinct[of v "[0..<length xs]"] by (simp add: lessThan_atLeast0)
  then have "mset (map (\<lambda>i. xs ! i) v) = mset (map (\<lambda>i. xs ! i) [0..<length xs])" by (simp only: mset_map)
  then show ?thesis by (simp only: map_nth)
qed

text \<open>Elements that compare equal keep their order.\<close>

lemma filter_insert_cmp:
  assumes "\<And>y. P x \<Longrightarrow> P y \<Longrightarrow> cmp x y \<le> 0"
  shows "filter P (insert_cmp cmp x xs) = (if P x then x # filter P xs else filter P xs)"
  using assms by (induction xs) auto

lemma SortStableFunc_stable:
  assumes "\<And>x y. P x \<Longrightarrow> P y \<Longrightarrow> cmp x y \<le> 0"
  shows "filter P (SortStableFunc cmp xs) = filter P xs"
  by (induction xs) (simp_all add: SortStableFunc_def filter_insert_cmp assms)

end
