(* ===== verification/Facade.thy ===== *)
theory Facade
  imports Omni_Prelude
begin

section \<open>The contract root: internal/system\_g/facade\<close>

text \<open>
  The types and interfaces every other package is written against. A Go interface value is
  a record of operations over an explicit state \<open>'s\<close>; the laws its implementations promise
  are a locale. The central one is the ledger: \<open>spec_begin\<close>, \<open>spec_resolve\<close> and
  \<open>spec_forget\<close> are the abstract specification of one cell of it, \<open>refines_op\<close> says that an
  operation implements them, and the locale \<open>ledger_contract\<close> is the interface the lease,
  the unwinder and every other client is verified against.
\<close>

subsection \<open>Form classes\<close>

text \<open>An integer in Go: a value outside the four constants is \<open>FormOther\<close>.\<close>

datatype FormClass = FormRead | FormCreate | FormUpdate | FormDelete | FormOther int

fun FormClass_Inverse :: "FormClass \<Rightarrow> FormClass \<times> bool" where
  "FormClass_Inverse FormRead = (FormRead, True)"
| "FormClass_Inverse FormCreate = (FormDelete, True)"
| "FormClass_Inverse FormUpdate = (FormUpdate, True)"
| "FormClass_Inverse FormDelete = (FormDelete, False)"
| "FormClass_Inverse (FormOther n) = (FormOther n, False)"

subsection \<open>Ledger data\<close>

type_synonym LedgerKey = string
type_synonym LedgerVersion = string

datatype LedgerPhase = LedgerPending | LedgerLive

definition LedgerVersionNone :: LedgerVersion where
  "LedgerVersionNone = []"

record LedgerEntry =
  ent_key :: LedgerKey
  ent_phase :: LedgerPhase
  ent_plan :: bytes
  ent_proposed :: bytes
  ent_identity :: bytes
  ent_about :: bytes

type_synonym cell = "(LedgerEntry \<times> LedgerVersion) option"

record 's Ledger =
  Get :: "'s \<Rightarrow> LedgerKey \<Rightarrow> cell result"
  Begin :: "'s \<Rightarrow> LedgerKey \<Rightarrow> bytes \<Rightarrow> LedgerVersion \<Rightarrow> 's \<times> unit result"
  Resolve :: "'s \<Rightarrow> LedgerKey \<Rightarrow> bytes \<Rightarrow> bytes \<Rightarrow> LedgerVersion \<Rightarrow> 's \<times> unit result"
  Forget :: "'s \<Rightarrow> LedgerKey \<Rightarrow> LedgerVersion \<Rightarrow> 's \<times> unit result"

subsection \<open>Effects\<close>

record EffectInput =
  Params :: "(string, string) gomap"
  Mutation :: bytes
  Identity :: bytes

text \<open>
  The effector acts on the outside world \<open>'w\<close>, a state the model never looks into. A read
  returns the actual document, the identity and whether the target was readable.
\<close>

record 'w Effector =
  Effect :: "'w \<Rightarrow> string \<Rightarrow> LedgerKey \<Rightarrow> EffectInput \<Rightarrow> 'w \<times> bytes result"
  Read :: "'w \<Rightarrow> string \<Rightarrow> LedgerKey \<Rightarrow> EffectInput \<Rightarrow> (bytes \<times> bytes \<times> bool) result"

subsection \<open>Abstract specification of one ledger cell\<close>

datatype cell_effect = Keep | Put LedgerEntry | Remove

text \<open>
  Compare-and-swap: the empty version asserts absence, any other must be the current one.
\<close>

definition spec_check :: "cell \<Rightarrow> LedgerVersion \<Rightarrow> LedgerEntry option result" where
  "spec_check c v =
     (if v = LedgerVersionNone
      then (case c of Some _ \<Rightarrow> Inl ErrLedgerConflict | None \<Rightarrow> Inr None)
      else (case c of None \<Rightarrow> Inl ErrLedgerNotFound
        | Some (e, cur) \<Rightarrow> if v \<noteq> cur then Inl ErrLedgerConflict else Inr (Some e)))"

definition same_proposal :: "cell \<Rightarrow> bytes \<Rightarrow> bool" where
  "same_proposal c p = (case c of None \<Rightarrow> False
     | Some (e, _) \<Rightarrow> ent_phase e = LedgerPending \<and> bytes_Equal (ent_proposed e) p)"

definition fresh_entry :: "LedgerKey \<Rightarrow> bytes \<Rightarrow> LedgerEntry" where
  "fresh_entry k p = \<lparr>ent_key = k, ent_phase = LedgerPending, ent_plan = None,
     ent_proposed = slice_norm p, ent_identity = None, ent_about = None\<rparr>"

text \<open>Begin leaves the plan, the last resolved intent, exactly as it was.\<close>

definition spec_begin :: "cell \<Rightarrow> LedgerKey \<Rightarrow> bytes \<Rightarrow> LedgerVersion \<Rightarrow> cell_effect result" where
  "spec_begin c k p v =
     (if same_proposal c p then Inr Keep
      else rbind (spec_check c v) (\<lambda>cur. case cur of
          None \<Rightarrow> Inr (Put (fresh_entry k p))
        | Some e \<Rightarrow> Inr (Put (e\<lparr>ent_phase := LedgerPending, ent_proposed := slice_norm p\<rparr>))))"

definition spec_resolve :: "cell \<Rightarrow> bytes \<Rightarrow> bytes \<Rightarrow> LedgerVersion \<Rightarrow> cell_effect result" where
  "spec_resolve c ident about v =
     rbind (spec_check c v) (\<lambda>cur. case cur of
         None \<Rightarrow> Inl ErrLedgerNotFound
       | Some e \<Rightarrow> if ent_phase e \<noteq> LedgerPending then Inl ErrLedgerPhase
           else Inr (Put (e\<lparr>ent_phase := LedgerLive, ent_plan := ent_proposed e,
             ent_proposed := None, ent_identity := slice_norm ident,
             ent_about := (if about = None then ent_about e else slice_norm about)\<rparr>)))"

definition spec_forget :: "cell \<Rightarrow> LedgerVersion \<Rightarrow> cell_effect result" where
  "spec_forget c v = rbind (spec_check c v) (\<lambda>cur. case cur of
       None \<Rightarrow> Inl ErrLedgerNotFound | Some _ \<Rightarrow> Inr Remove)"

text \<open>The three specifications with the check unfolded, one equation per shape of the cell.\<close>

lemma spec_begin_simps:
  "spec_begin None k p v =
     (if v = LedgerVersionNone then Inr (Put (fresh_entry k p)) else Inl ErrLedgerNotFound)"
  "spec_begin (Some (e, cur)) k p v =
     (if same_proposal (Some (e, cur)) p then Inr Keep
      else if v = LedgerVersionNone \<or> v \<noteq> cur then Inl ErrLedgerConflict
      else Inr (Put (e\<lparr>ent_phase := LedgerPending, ent_proposed := slice_norm p\<rparr>)))"
  by (simp_all add: spec_begin_def spec_check_def same_proposal_def)

lemma spec_resolve_simps:
  "spec_resolve None i a v = Inl ErrLedgerNotFound"
  "spec_resolve (Some (e, cur)) i a v =
     (if v = LedgerVersionNone \<or> v \<noteq> cur then Inl ErrLedgerConflict
      else if ent_phase e \<noteq> LedgerPending then Inl ErrLedgerPhase
      else Inr (Put (e\<lparr>ent_phase := LedgerLive, ent_plan := ent_proposed e,
             ent_proposed := None, ent_identity := slice_norm i,
             ent_about := (if a = None then ent_about e else slice_norm a)\<rparr>)))"
  by (simp_all add: spec_resolve_def spec_check_def)

lemma spec_forget_simps:
  "spec_forget None v = Inl ErrLedgerNotFound"
  "spec_forget (Some (e, cur)) v =
     (if v = LedgerVersionNone \<or> v \<noteq> cur then Inl ErrLedgerConflict else Inr Remove)"
  by (simp_all add: spec_forget_def spec_check_def)

lemmas spec_simps = spec_begin_simps spec_resolve_simps spec_forget_simps

text \<open>
  The identity of an entry is only valid while it is live, so two entries agree when they
  are equal up to the identity of a pending one.
\<close>

definition entry_agrees :: "LedgerEntry \<Rightarrow> LedgerEntry \<Rightarrow> bool" where
  "entry_agrees e e' \<longleftrightarrow> e\<lparr>ent_identity := None\<rparr> = e'\<lparr>ent_identity := None\<rparr> \<and>
     (ent_phase e = LedgerLive \<longrightarrow> ent_identity e = ent_identity e')"

lemma entry_agrees_iff:
  "entry_agrees e e' \<longleftrightarrow> ent_key e = ent_key e' \<and> ent_phase e = ent_phase e' \<and>
     ent_plan e = ent_plan e' \<and> ent_proposed e = ent_proposed e' \<and> ent_about e = ent_about e' \<and>
     (ent_phase e = LedgerLive \<longrightarrow> ent_identity e = ent_identity e')"
  unfolding entry_agrees_def by (cases e; cases e') auto

text \<open>
  An operation's outcome \<open>(s', r)\<close> on key \<open>k\<close> implements a cell effect: a refusal changes
  nothing; a write is visible at once under a version that was not current before; and no
  other key is touched.
\<close>

definition refines_op ::
  "('s, 'z) Ledger_scheme \<Rightarrow> ('s \<Rightarrow> bool) \<Rightarrow> (LedgerKey \<Rightarrow> bool) \<Rightarrow> 's \<Rightarrow> LedgerKey
   \<Rightarrow> cell_effect result \<Rightarrow> 's \<times> unit result \<Rightarrow> bool" where
  "refines_op L invar ok s k eff out = (case out of (s', r) \<Rightarrow> (case eff of
       Inl e \<Rightarrow> s' = s \<and> r = Inl e
     | Inr Keep \<Rightarrow> s' = s \<and> r = Inr ()
     | Inr (Put e) \<Rightarrow> r = Inr () \<and> invar s' \<and>
         (\<forall>k'. k' \<noteq> k \<longrightarrow> ok k' \<longrightarrow> Get L s' k' = Get L s k') \<and>
         (\<exists>e' v'. Get L s' k = Inr (Some (e', v')) \<and> entry_agrees e' e \<and>
            v' \<noteq> LedgerVersionNone \<and> (\<forall>e0 v0. Get L s k = Inr (Some (e0, v0)) \<longrightarrow> v' \<noteq> v0))
     | Inr Remove \<Rightarrow> r = Inr () \<and> invar s' \<and>
         (\<forall>k'. k' \<noteq> k \<longrightarrow> ok k' \<longrightarrow> Get L s' k' = Get L s k') \<and> Get L s' k = Inr None))"

subsection \<open>The ledger interface\<close>

text \<open>
  \<open>ok\<close> are the keys an implementation can hold and \<open>room\<close> says that a key's version counter
  has not run out.
\<close>

locale ledger_contract =
  fixes L :: "('s, 'z) Ledger_scheme"
    and invar :: "'s \<Rightarrow> bool"
    and ok :: "LedgerKey \<Rightarrow> bool"
    and room :: "'s \<Rightarrow> LedgerKey \<Rightarrow> bool"
  assumes get_total: "invar s \<Longrightarrow> ok k \<Longrightarrow> \<exists>c. Get L s k = Inr c"
    and get_wf: "invar s \<Longrightarrow> ok k \<Longrightarrow> Get L s k = Inr (Some (e, v)) \<Longrightarrow>
           ent_key e = k \<and> v \<noteq> LedgerVersionNone"
    and begin_refines: "invar s \<Longrightarrow> ok k \<Longrightarrow> room s k \<Longrightarrow> Get L s k = Inr c \<Longrightarrow>
           refines_op L invar ok s k (spec_begin c k p v) (Begin L s k p v)"
    and resolve_refines: "invar s \<Longrightarrow> ok k \<Longrightarrow> room s k \<Longrightarrow> Get L s k = Inr c \<Longrightarrow>
           refines_op L invar ok s k (spec_resolve c ident about v) (Resolve L s k ident about v)"
    and forget_refines: "invar s \<Longrightarrow> ok k \<Longrightarrow> room s k \<Longrightarrow> Get L s k = Inr c \<Longrightarrow>
           refines_op L invar ok s k (spec_forget c v) (Forget L s k v)"
begin

text \<open>The invariant survives every operation, whatever version is presented.\<close>

lemma refines_op_inv: "invar s \<Longrightarrow> refines_op L invar ok s k eff out \<Longrightarrow> invar (fst out)"
  by (auto simp: refines_op_def split: prod.splits sum.splits cell_effect.splits)

lemma begin_inv: "invar s \<Longrightarrow> ok k \<Longrightarrow> room s k \<Longrightarrow> invar (fst (Begin L s k p v))"
  by (meson begin_refines get_total refines_op_inv)

lemma resolve_inv: "invar s \<Longrightarrow> ok k \<Longrightarrow> room s k \<Longrightarrow> invar (fst (Resolve L s k i a v))"
  by (meson resolve_refines get_total refines_op_inv)

lemma forget_inv: "invar s \<Longrightarrow> ok k \<Longrightarrow> room s k \<Longrightarrow> invar (fst (Forget L s k v))"
  by (meson forget_refines get_total refines_op_inv)

text \<open>A refused operation changes nothing at all.\<close>

lemma refines_op_error: "refines_op L invar ok s k eff (s', Inl e) \<Longrightarrow> s' = s \<and> eff = Inl e"
  by (auto simp: refines_op_def split: sum.splits cell_effect.splits)

lemma refines_op_frame:
  "refines_op L invar ok s k eff (s', r) \<Longrightarrow> k' \<noteq> k \<Longrightarrow> ok k' \<Longrightarrow> Get L s' k' = Get L s k'"
  by (auto simp: refines_op_def split: sum.splits cell_effect.splits)

text \<open>The last resolved intent survives any number of begins, succeeding or refused.\<close>

lemma begin_keeps_plan:
  assumes "invar s" "ok k" "room s k" "Get L s k = Inr (Some (e, v))"
    and "Begin L s k p u = (s', r)"
  shows "\<exists>e' v'. Get L s' k = Inr (Some (e', v')) \<and> ent_plan e' = ent_plan e"
proof -
  have ref: "refines_op L invar ok s k (spec_begin (Some (e, v)) k p u) (s', r)"
    using begin_refines[OF assms(1-4), of p u] assms(5) by simp
  then show ?thesis
    using assms(4) by (auto simp: spec_simps refines_op_def entry_agrees_iff split: if_splits)
qed

text \<open>
  Two writers that read the same version: once the first has written, the second is refused
  with a conflict, unless it proposes exactly the intent already pending.
\<close>

lemma stale_begin_conflicts:
  assumes "invar s" "ok k" "room s k" "Get L s k = Inr (Some (e, v))" "v' \<noteq> v"
    and "v' \<noteq> LedgerVersionNone" "\<not> same_proposal (Some (e, v)) q"
  shows "Begin L s k q v' = (s, Inl ErrLedgerConflict)"
  using begin_refines[OF assms(1-4), of q v'] assms(5-7)
  by (auto simp: spec_simps refines_op_def split: prod.splits)

end

end
