(* ===== verification/Ledger_Memory.thy ===== *)
theory Ledger_Memory
  imports Facade
begin

section \<open>The in-memory ledger: internal/ledger/memory.go\<close>

text \<open>
  The reference implementation of the ledger contract: rows keyed by name, each an entry
  and a 64-bit version counter. Each method runs under the store's mutex, so an operation
  is one atomic step on the rows.
\<close>

subsection \<open>State\<close>

record slot =
  slot_e :: LedgerEntry
  slot_ver :: "64 word"

record memory =
  rows :: "(LedgerKey, slot) gomap"

definition NewMemory :: memory where
  "NewMemory = \<lparr>rows = []\<rparr>"

fun clone :: "bytes \<Rightarrow> bytes" where
  "clone None = None"
| "clone (Some b) = (if b = [] then None else Some b)"

definition version :: "64 word \<Rightarrow> LedgerVersion" where
  "version v = fmt_nat (unat v)"

subsection \<open>Operations\<close>

definition mem_Get :: "memory \<Rightarrow> LedgerKey \<Rightarrow> cell result" where
  "mem_Get m k = (case gm_get (rows m) k of
       None \<Rightarrow> Inr None
     | Some s \<Rightarrow> Inr (Some (slot_e s, version (slot_ver s))))"

definition mem_List :: "memory \<Rightarrow> string \<Rightarrow> LedgerEntry list" where
  "mem_List m scope = sort_key ent_key
     (map (slot_e \<circ> snd) (filter (\<lambda>(k, s). HasPrefix k scope) (rows m)))"

definition mem_check :: "memory \<Rightarrow> LedgerKey \<Rightarrow> LedgerVersion \<Rightarrow> slot option result" where
  "mem_check m k v =
     (let found = gm_get (rows m) k in
      if v = LedgerVersionNone \<and> found \<noteq> None then Inl ErrLedgerConflict
      else if v = LedgerVersionNone then Inr None
      else (case found of
          None \<Rightarrow> Inl ErrLedgerNotFound
        | Some s \<Rightarrow> if version (slot_ver s) \<noteq> v then Inl ErrLedgerConflict else Inr (Some s)))"

definition mem_Begin :: "memory \<Rightarrow> LedgerKey \<Rightarrow> bytes \<Rightarrow> LedgerVersion \<Rightarrow> memory \<times> unit result" where
  "mem_Begin m k proposed v =
     (let retry = (case gm_get (rows m) k of None \<Rightarrow> False
        | Some s \<Rightarrow> ent_phase (slot_e s) = LedgerPending \<and> bytes_Equal (ent_proposed (slot_e s)) proposed) in
      if retry then (m, Inr ())
      else (case mem_check m k v of
          Inl err \<Rightarrow> (m, Inl err)
        | Inr None \<Rightarrow>
            (m\<lparr>rows := gm_set k \<lparr>slot_e = \<lparr>ent_key = k, ent_phase = LedgerPending, ent_plan = None,
                ent_proposed = clone proposed, ent_identity = None, ent_about = None\<rparr>,
                slot_ver = 1\<rparr> (rows m)\<rparr>, Inr ())
        | Inr (Some s) \<Rightarrow>
            (m\<lparr>rows := gm_set k \<lparr>slot_e = (slot_e s)\<lparr>ent_phase := LedgerPending,
                ent_proposed := clone proposed\<rparr>, slot_ver = slot_ver s + 1\<rparr> (rows m)\<rparr>, Inr ())))"

definition mem_Resolve ::
  "memory \<Rightarrow> LedgerKey \<Rightarrow> bytes \<Rightarrow> bytes \<Rightarrow> LedgerVersion \<Rightarrow> memory \<times> unit result" where
  "mem_Resolve m k identity about v =
     (case mem_check m k v of
        Inl err \<Rightarrow> (m, Inl err)
      | Inr None \<Rightarrow> (m, Inl ErrLedgerNotFound)
      | Inr (Some s) \<Rightarrow>
          if ent_phase (slot_e s) \<noteq> LedgerPending then (m, Inl ErrLedgerPhase)
          else (m\<lparr>rows := gm_set k \<lparr>slot_e = (slot_e s)\<lparr>ent_plan := ent_proposed (slot_e s),
                  ent_proposed := None, ent_identity := clone identity,
                  ent_about := (if about \<noteq> None then clone about else ent_about (slot_e s)),
                  ent_phase := LedgerLive\<rparr>, slot_ver = slot_ver s + 1\<rparr> (rows m)\<rparr>, Inr ()))"

definition mem_Forget :: "memory \<Rightarrow> LedgerKey \<Rightarrow> LedgerVersion \<Rightarrow> memory \<times> unit result" where
  "mem_Forget m k v =
     (case mem_check m k v of
        Inl err \<Rightarrow> (m, Inl err)
      | Inr None \<Rightarrow> (m, Inl ErrLedgerNotFound)
      | Inr (Some s) \<Rightarrow> (m\<lparr>rows := gm_del k (rows m)\<rparr>, Inr ()))"

definition memory_ledger :: "memory Ledger" where
  "memory_ledger = \<lparr>Get = mem_Get, Begin = mem_Begin, Resolve = mem_Resolve, Forget = mem_Forget\<rparr>"

subsection \<open>The contract holds\<close>

definition mem_inv :: "memory \<Rightarrow> bool" where
  "mem_inv m \<longleftrightarrow> gm_wf (rows m) \<and> (\<forall>k s. gm_get (rows m) k = Some s \<longrightarrow> ent_key (slot_e s) = k)"

lemma clone_norm [simp]: "clone b = slice_norm b"
  by (cases b) (auto simp: slice_norm_def slice_len_def)

lemma version_inj [simp]: "version v = version w \<longleftrightarrow> v = w"
  by (simp add: version_def word_unat_eq_iff)

lemma version_not_none [simp]: "version v \<noteq> LedgerVersionNone" "LedgerVersionNone \<noteq> version v"
  by (simp_all add: version_def LedgerVersionNone_def fmt_nat_not_Nil [symmetric])

lemma word_succ_neq [simp]: "(v::64 word) + 1 \<noteq> v" "v \<noteq> (v::64 word) + 1"
  by simp_all

lemma mem_Get_simps:
  "mem_Get m k = Inr None \<longleftrightarrow> gm_get (rows m) k = None"
  "mem_Get m k = Inr (Some (e, v)) \<longleftrightarrow>
     (\<exists>s. gm_get (rows m) k = Some s \<and> e = slot_e s \<and> v = version (slot_ver s))"
  by (auto simp: mem_Get_def split: option.splits)

lemma memory_ledger_simps [simp]:
  "Get memory_ledger = mem_Get" "Begin memory_ledger = mem_Begin"
  "Resolve memory_ledger = mem_Resolve" "Forget memory_ledger = mem_Forget"
  by (simp_all add: memory_ledger_def)

text \<open>The compare-and-swap check is the specification's, on the slot.\<close>

lemma mem_check_spec:
  assumes "mem_Get m k = Inr c"
  shows "spec_check c v = (case mem_check m k v of Inl e \<Rightarrow> Inl e | Inr s \<Rightarrow> Inr (map_option slot_e s))"
  using assms by (auto simp: mem_Get_def mem_check_def spec_check_def split: option.splits)

lemma mem_check_Some:
  "mem_check m k v = Inr (Some s) \<longleftrightarrow>
     v \<noteq> LedgerVersionNone \<and> gm_get (rows m) k = Some s \<and> version (slot_ver s) = v"
  by (auto simp: mem_check_def Let_def split: option.splits if_splits)

lemma mem_check_None:
  "mem_check m k v = Inr None \<longleftrightarrow> v = LedgerVersionNone \<and> gm_get (rows m) k = None"
  by (auto simp: mem_check_def Let_def split: option.splits if_splits)

lemma mem_inv_set:
  "mem_inv m \<Longrightarrow> ent_key (slot_e s) = k \<Longrightarrow> mem_inv (m\<lparr>rows := gm_set k s (rows m)\<rparr>)"
  by (auto simp: mem_inv_def split: if_splits)

lemma mem_inv_del: "mem_inv m \<Longrightarrow> mem_inv (m\<lparr>rows := gm_del k (rows m)\<rparr>)"
  by (auto simp: mem_inv_def split: if_splits)

text \<open>Storing a slot under a new version puts its entry; deleting it removes the cell.\<close>

lemma mem_put_refines:
  assumes "mem_inv m" "ent_key e = k" "entry_agrees (slot_e s) e"
    and "\<And>s0. gm_get (rows m) k = Some s0 \<Longrightarrow> slot_ver s0 \<noteq> slot_ver s"
  shows "refines_op memory_ledger mem_inv ok m k (Inr (Put e))
           (m\<lparr>rows := gm_set k s (rows m)\<rparr>, Inr ())"
proof -
  from assms(2,3) have "ent_key (slot_e s) = k" by (simp add: entry_agrees_iff)
  then have "mem_inv (m\<lparr>rows := gm_set k s (rows m)\<rparr>)" using assms(1) by (rule mem_inv_set[rotated])
  with assms(3,4) show ?thesis by (auto simp: refines_op_def mem_Get_def split: option.splits)
qed

lemma mem_del_refines:
  "mem_inv m \<Longrightarrow> refines_op memory_ledger mem_inv ok m k (Inr Remove)
     (m\<lparr>rows := gm_del k (rows m)\<rparr>, Inr ())"
  by (auto simp: refines_op_def mem_Get_def mem_inv_del split: option.splits)

lemma mem_Begin_refines:
  assumes "mem_inv m" "mem_Get m k = Inr c"
  shows "refines_op memory_ledger mem_inv ok m k (spec_begin c k p v) (mem_Begin m k p v)"
proof (cases "same_proposal c p")
  case True
  with assms(2) show ?thesis
    by (auto simp: spec_begin_def mem_Begin_def same_proposal_def mem_Get_def refines_op_def
        split: option.splits)
next
  case False
  have eq: "mem_Begin m k p v = (case mem_check m k v of
          Inl err \<Rightarrow> (m, Inl err)
        | Inr None \<Rightarrow> (m\<lparr>rows := gm_set k \<lparr>slot_e = fresh_entry k p, slot_ver = 1\<rparr> (rows m)\<rparr>, Inr ())
        | Inr (Some s) \<Rightarrow>
            (m\<lparr>rows := gm_set k \<lparr>slot_e = (slot_e s)\<lparr>ent_phase := LedgerPending,
                ent_proposed := slice_norm p\<rparr>, slot_ver = slot_ver s + 1\<rparr> (rows m)\<rparr>, Inr ()))"
    using False assms(2)
    by (auto simp: mem_Begin_def same_proposal_def mem_Get_def fresh_entry_def
        split: option.splits sum.splits)
  show ?thesis
  proof (cases "mem_check m k v")
    case (Inl e)
    with False eq mem_check_spec[OF assms(2), of v] show ?thesis
      by (simp add: spec_begin_def refines_op_def)
  next
    case (Inr r)
    note chk = Inr
    show ?thesis
    proof (cases r)
      case None
      with chk have "gm_get (rows m) k = None" by (simp add: mem_check_None)
      with None chk False eq mem_check_spec[OF assms(2), of v] show ?thesis
        by (simp add: spec_begin_def)
          (rule mem_put_refines[OF assms(1)], simp_all add: fresh_entry_def entry_agrees_def)
    next
      case (Some s)
      with chk have get: "gm_get (rows m) k = Some s" by (simp add: mem_check_Some)
      then have "ent_key (slot_e s) = k" using assms(1) by (simp add: mem_inv_def)
      with get Some chk False eq mem_check_spec[OF assms(2), of v] show ?thesis
        by (simp add: spec_begin_def)
          (rule mem_put_refines[OF assms(1)], simp_all add: entry_agrees_def)
    qed
  qed
qed

lemma mem_Resolve_refines:
  assumes "mem_inv m" "mem_Get m k = Inr c"
  shows "refines_op memory_ledger mem_inv ok m k (spec_resolve c i a v) (mem_Resolve m k i a v)"
proof (cases "mem_check m k v")
  case (Inl e)
  with mem_check_spec[OF assms(2), of v] show ?thesis
    by (simp add: spec_resolve_def mem_Resolve_def refines_op_def)
next
  case (Inr r)
  note chk = Inr
  show ?thesis
  proof (cases r)
    case None
    with chk mem_check_spec[OF assms(2), of v] show ?thesis
      by (simp add: spec_resolve_def mem_Resolve_def refines_op_def)
  next
    case (Some s)
    with chk have get: "gm_get (rows m) k = Some s" by (simp add: mem_check_Some)
    then have "ent_key (slot_e s) = k" using assms(1) by (simp add: mem_inv_def)
    with get Some chk mem_check_spec[OF assms(2), of v] show ?thesis
      by (auto simp: spec_resolve_def mem_Resolve_def refines_op_def[of _ _ _ _ _ "Inl _"]
          intro!: mem_put_refines[OF assms(1)] simp: entry_agrees_def)
  qed
qed

lemma mem_Forget_refines:
  assumes "mem_inv m" "mem_Get m k = Inr c"
  shows "refines_op memory_ledger mem_inv ok m k (spec_forget c v) (mem_Forget m k v)"
proof (cases "mem_check m k v")
  case (Inl e)
  with mem_check_spec[OF assms(2), of v] show ?thesis
    by (simp add: spec_forget_def mem_Forget_def refines_op_def)
next
  case (Inr r)
  with mem_check_spec[OF assms(2), of v] show ?thesis
    by (cases r) (auto simp: spec_forget_def mem_Forget_def refines_op_def[of _ _ _ _ _ "Inl _"]
        intro!: mem_del_refines[OF assms(1)])
qed

interpretation mem: ledger_contract memory_ledger mem_inv "\<lambda>_. True" "\<lambda>_ _. True"
proof unfold_locales
  fix s k show "\<exists>c. Get memory_ledger s k = Inr c" by (auto simp: mem_Get_def split: option.splits)
next
  fix s k e v
  assume "mem_inv s" "Get memory_ledger s k = Inr (Some (e, v))"
  then show "ent_key e = k \<and> v \<noteq> LedgerVersionNone" by (auto simp: mem_inv_def mem_Get_simps)
qed (simp_all add: mem_Begin_refines mem_Resolve_refines mem_Forget_refines)

end
