(* ===== verification/Ledger_File.thy ===== *)
theory Ledger_File
  imports Ledger_Memory
begin

section \<open>The durable ledger: internal/ledger/file.go\<close>

text \<open>
  One file per version of a key, named \<open>stem.vN.json\<close> in the directory the key's leading
  segments name. A directory is the list of its segments below the ledger's root. A file
  holds the JSON document of a \<open>state\<close>, represented by the state it decodes to, or bytes
  that do not decode. A fault list says which system call of each successive commit fails,
  so that every error path of \<open>commit\<close> is a branch of the model.
\<close>

subsection \<open>State\<close>

record state =
  Phase :: LedgerPhase
  Plan :: bytes
  Proposed :: bytes
  st_Identity :: bytes
  About :: bytes
  Tombstone :: bool

datatype disk_file = Doc state | Garbage

datatype fault = FMkdir | FTemp | FWrite | FSync | FClose | FLink | FSyncDir

type_synonym dir = "string list"

record disk =
  dirs :: "dir list"
  files :: "(dir \<times> string, disk_file) gomap"
  faults :: "fault option list"

definition NewFile :: disk where
  "NewFile = \<lparr>dirs = [[]], files = [], faults = []\<rparr>"

definition empty_state :: state where
  "empty_state = \<lparr>Phase = LedgerPending, Plan = None, Proposed = None, st_Identity = None,
     About = None, Tombstone = False\<rparr>"

text \<open>What \<open>json.Unmarshal\<close> gives back of a marshalled state: every byte field is \<open>omitempty\<close>.\<close>

definition marshalled :: "state \<Rightarrow> disk_file" where
  "marshalled s = Doc (s\<lparr>Plan := slice_norm (Plan s), Proposed := slice_norm (Proposed s),
     st_Identity := slice_norm (st_Identity s), About := slice_norm (About s)\<rparr>)"

definition verInfix :: string where "verInfix = ''.v''"
definition verSuffix :: string where "verSuffix = ''.json''"

text \<open>
  The characters \<open>paths\<close> refuses in a segment. The source writes them as a raw string
  literal, in which a backslash escape is not interpreted: they are the backslash, the letter
  \<open>x\<close>, the digit \<open>0\<close> and the slash.
\<close>

definition illegal_chars :: string where
  "illegal_chars = [CHR 0x5C, CHR ''x'', CHR ''0'', CHR ''0'', CHR ''/'', CHR 0x5C]"

definition illegal_segment :: "string \<Rightarrow> bool" where
  "illegal_segment s \<longleftrightarrow> s = [] \<or> s = ''.'' \<or> s = ''..'' \<or> ContainsAny s illegal_chars"

definition paths :: "LedgerKey \<Rightarrow> (dir \<times> string) result" where
  "paths k = (let segs = Split CHR ''/'' k in
     if list_ex illegal_segment segs then Inl (ErrOther ''illegal key segment'')
     else Inr (butlast segs, last segs))"

definition vname :: "string \<Rightarrow> 64 word \<Rightarrow> string" where
  "vname stem n = stem @ verInfix @ fmt_nat (unat n) @ verSuffix"

definition versionPath :: "dir \<Rightarrow> string \<Rightarrow> 64 word \<Rightarrow> dir \<times> string" where
  "versionPath d stem n = (d, vname stem n)"

subsection \<open>Reading\<close>

definition subdirs :: "disk \<Rightarrow> dir \<Rightarrow> string list" where
  "subdirs d dr = map last (filter (\<lambda>q. q \<noteq> [] \<and> butlast q = dr) (dirs d))"

text \<open>\<open>os.ReadDir\<close>: None where the directory does not exist, else its names in order.\<close>

definition ReadDir :: "disk \<Rightarrow> dir \<Rightarrow> string list option" where
  "ReadDir d dr = (if dr \<notin> set (dirs d) then None
     else Some (sort (map snd (filter (\<lambda>p. fst p = dr) (gm_keys (files d))) @ subdirs d dr)))"

text \<open>The version a directory entry's name carries for keys with this pre.\<close>

definition version_of_name :: "string \<Rightarrow> string \<Rightarrow> 64 word option" where
  "version_of_name pre name =
     (if \<not> HasPrefix name pre \<or> \<not> HasSuffix name verSuffix then None
      else map_option of_nat
        (ParseUint64 (drop (length pre) (take (length name - length verSuffix) name))))"

fun scan_versions :: "string \<Rightarrow> string list \<Rightarrow> 64 word \<Rightarrow> 64 word" where
  "scan_versions pre [] ver = ver"
| "scan_versions pre (name # names) ver = (case version_of_name pre name of
     None \<Rightarrow> scan_versions pre names ver
   | Some n \<Rightarrow> if n \<le> ver then scan_versions pre names ver else scan_versions pre names n)"

definition current :: "disk \<Rightarrow> LedgerKey \<Rightarrow> (state \<times> 64 word \<times> bool) result" where
  "current d k = (case paths k of
     Inl e \<Rightarrow> Inl e
   | Inr (dr, stem) \<Rightarrow> (case ReadDir d dr of
       None \<Rightarrow> Inr (empty_state, 0, False)
     | Some ents \<Rightarrow> (let ver = scan_versions (stem @ verInfix) ents 0 in
         if ver = 0 then Inr (empty_state, 0, False)
         else (case gm_get (files d) (versionPath dr stem ver) of
             None \<Rightarrow> Inl (ErrOther ''ledger read'')
           | Some Garbage \<Rightarrow> Inl (ErrOther ''ledger decode'')
           | Some (Doc s) \<Rightarrow> Inr (s, ver, \<not> Tombstone s)))))"

subsection \<open>Writing\<close>

text \<open>\<open>os.MkdirAll\<close> adds every pre; it fails where one of them is a file.\<close>

definition is_file :: "disk \<Rightarrow> dir \<Rightarrow> bool" where
  "is_file d q \<longleftrightarrow> q \<noteq> [] \<and> gm_get (files d) (butlast q, last q) \<noteq> None"

definition MkdirAll :: "disk \<Rightarrow> dir \<Rightarrow> disk option" where
  "MkdirAll d dr = (if list_ex (is_file d) (prefixes dr) then None
     else Some (d\<lparr>dirs := dirs d @ filter (\<lambda>q. q \<notin> set (dirs d)) (prefixes dr)\<rparr>))"

definition path_exists :: "disk \<Rightarrow> dir \<times> string \<Rightarrow> bool" where
  "path_exists d p \<longleftrightarrow> gm_get (files d) p \<noteq> None \<or> snd p \<in> set (subdirs d (fst p))"

definition pop_fault :: "disk \<Rightarrow> fault option \<times> disk" where
  "pop_fault d = (case faults d of [] \<Rightarrow> (None, d) | f # fs \<Rightarrow> (f, d\<lparr>faults := fs\<rparr>))"

text \<open>
  Mkdir, write a temporary file and sync it, link it under the next version's name, sync the
  directory. The temporary file is removed on every path. A failed directory sync reports an
  error although the version is already visible.
\<close>

definition commit :: "disk \<Rightarrow> LedgerKey \<Rightarrow> state \<Rightarrow> 64 word \<Rightarrow> disk \<times> unit result" where
  "commit d0 k s ver = (case paths k of
     Inl e \<Rightarrow> (d0, Inl e)
   | Inr (dr, stem) \<Rightarrow> (case pop_fault d0 of (f, d) \<Rightarrow>
       if f = Some FMkdir then (d, Inl (ErrOther ''ledger mkdir''))
       else (case MkdirAll d dr of
           None \<Rightarrow> (d, Inl (ErrOther ''ledger mkdir''))
         | Some d1 \<Rightarrow>
             if f \<in> {Some FTemp, Some FWrite, Some FSync, Some FClose}
             then (d1, Inl (ErrOther ''ledger write''))
             else if path_exists d1 (versionPath dr stem (ver + 1)) then (d1, Inl ErrLedgerConflict)
             else if f = Some FLink then (d1, Inl (ErrOther ''ledger link''))
             else (let d2 = d1\<lparr>files := gm_set (versionPath dr stem (ver + 1)) (marshalled s) (files d1)\<rparr> in
               if f = Some FSyncDir then (d2, Inl (ErrOther ''ledger sync dir'')) else (d2, Inr ())))))"

subsection \<open>The interface\<close>

definition entry_of :: "LedgerKey \<Rightarrow> state \<Rightarrow> LedgerEntry" where
  "entry_of k s = \<lparr>ent_key = k, ent_phase = Phase s, ent_plan = Plan s, ent_proposed = Proposed s,
     ent_identity = st_Identity s, ent_about = About s\<rparr>"

definition file_Get :: "disk \<Rightarrow> LedgerKey \<Rightarrow> cell result" where
  "file_Get d k = (case current d k of
     Inl e \<Rightarrow> Inl e
   | Inr (s, ver, found) \<Rightarrow> if \<not> found then Inr None else Inr (Some (entry_of k s, version ver)))"

definition guard :: "disk \<Rightarrow> LedgerKey \<Rightarrow> LedgerVersion \<Rightarrow> (state \<times> 64 word \<times> bool) result" where
  "guard d k v = (case current d k of
     Inl e \<Rightarrow> Inl e
   | Inr (s, ver, found) \<Rightarrow>
       if v = LedgerVersionNone \<and> found then Inl ErrLedgerConflict
       else if v = LedgerVersionNone then Inr (s, ver, found)
       else if \<not> found then Inl ErrLedgerNotFound
       else if version ver \<noteq> v then Inl ErrLedgerConflict
       else Inr (s, ver, found))"

definition file_Begin :: "disk \<Rightarrow> LedgerKey \<Rightarrow> bytes \<Rightarrow> LedgerVersion \<Rightarrow> disk \<times> unit result" where
  "file_Begin d k proposed v = (case current d k of
     Inl e \<Rightarrow> (d, Inl e)
   | Inr (cur, _, found) \<Rightarrow>
       if found \<and> Phase cur = LedgerPending \<and> bytes_Equal (Proposed cur) proposed then (d, Inr ())
       else (case guard d k v of
           Inl e \<Rightarrow> (d, Inl e)
         | Inr (s, ver, _) \<Rightarrow> commit d k (empty_state\<lparr>Phase := LedgerPending, Plan := Plan s,
             Proposed := clone proposed, About := About s\<rparr>) ver))"

definition file_Resolve ::
  "disk \<Rightarrow> LedgerKey \<Rightarrow> bytes \<Rightarrow> bytes \<Rightarrow> LedgerVersion \<Rightarrow> disk \<times> unit result" where
  "file_Resolve d k identity about v = (case guard d k v of
     Inl e \<Rightarrow> (d, Inl e)
   | Inr (s, ver, found) \<Rightarrow>
       if \<not> found then (d, Inl ErrLedgerNotFound)
       else if Phase s \<noteq> LedgerPending then (d, Inl ErrLedgerPhase)
       else (let ab = (if about = None then About s else about) in
         commit d k (empty_state\<lparr>Phase := LedgerLive, Plan := Proposed s,
           st_Identity := clone identity, About := clone ab\<rparr>) ver))"

definition file_Forget :: "disk \<Rightarrow> LedgerKey \<Rightarrow> LedgerVersion \<Rightarrow> disk \<times> unit result" where
  "file_Forget d k v = (case guard d k v of
     Inl e \<Rightarrow> (d, Inl e)
   | Inr (s, ver, found) \<Rightarrow>
       if \<not> found then (d, Inl ErrLedgerNotFound)
       else commit d k (empty_state\<lparr>Tombstone := True\<rparr>) ver)"

definition file_ledger :: "disk Ledger" where
  "file_ledger = \<lparr>Get = file_Get, Begin = file_Begin, Resolve = file_Resolve, Forget = file_Forget\<rparr>"

text \<open>\<open>strings.LastIndex\<close> of the version infix, and the walk that turns file names into keys.\<close>

fun last_index :: "string \<Rightarrow> string \<Rightarrow> nat option" where
  "last_index p [] = (if p = [] then Some 0 else None)"
| "last_index p (c # s) = (case last_index p s of
     Some i \<Rightarrow> Some (Suc i)
   | None \<Rightarrow> if HasPrefix (c # s) p then Some 0 else None)"

definition key_of_path :: "dir \<times> string \<Rightarrow> LedgerKey option" where
  "key_of_path p = (if \<not> HasSuffix (snd p) verSuffix then None
     else (case last_index verInfix (snd p) of
         None \<Rightarrow> None
       | Some i \<Rightarrow> Some (strings_Join ''/'' (fst p @ [take i (snd p)]))))"

definition list_keys :: "disk \<Rightarrow> string \<Rightarrow> LedgerKey list" where
  "list_keys d scope = sort (remdups (filter (\<lambda>k. HasPrefix k scope)
     (List.map_filter key_of_path (gm_keys (files d)))))"

fun list_entries :: "disk \<Rightarrow> LedgerKey list \<Rightarrow> LedgerEntry list result" where
  "list_entries d [] = Inr []"
| "list_entries d (k # ks) = (case current d k of
     Inl e \<Rightarrow> Inl e
   | Inr (s, _, found) \<Rightarrow> (case list_entries d ks of
       Inl e \<Rightarrow> Inl e
     | Inr es \<Rightarrow> Inr (if found then entry_of k s # es else es)))"

definition file_List :: "disk \<Rightarrow> string \<Rightarrow> LedgerEntry list result" where
  "file_List d scope = list_entries d (list_keys d scope)"

subsection \<open>File names\<close>

lemma file_ledger_simps [simp]:
  "Get file_ledger = file_Get" "Begin file_ledger = file_Begin"
  "Resolve file_ledger = file_Resolve" "Forget file_ledger = file_Forget"
  by (simp_all add: file_ledger_def)

lemma fmt_nat_no_v: "CHR ''v'' \<notin> set (fmt_nat n)"
proof
  assume "CHR ''v'' \<in> set (fmt_nat n)"
  with fmt_nat_digits[of n] have "is_digit CHR ''v''" by (auto simp: list_all_iff)
  then show False by (simp add: is_digit_def)
qed

lemma digits_no_v: "list_all is_digit s \<Longrightarrow> CHR ''v'' \<notin> set s"
  by (auto simp: list_all_iff is_digit_def)

lemma vname_suffix: "HasSuffix (vname stem n) verSuffix"
  by (auto simp: HasSuffix_iff vname_def)

lemma vname_inj: "vname stem n = vname stem' n' \<longleftrightarrow> stem = stem' \<and> n = n'"
proof
  assume "vname stem n = vname stem' n'"
  then have "(stem @ ''.'') @ CHR ''v'' # fmt_nat (unat n) = (stem' @ ''.'') @ CHR ''v'' # fmt_nat (unat n')"
    by (simp add: vname_def verInfix_def)
  from append_last_inj[OF this] show "stem = stem' \<and> n = n'"
    by (auto simp: fmt_nat_no_v word_unat_eq_iff)
qed simp

lemma version_of_vname [simp]: "version_of_name (stem @ verInfix) (vname stem n) = Some n"
proof -
  have "unat n < 2 ^ 64" by (rule order_less_le_trans[OF unsigned_less]) simp
  then have "ParseUint64 (fmt_nat (unat n)) = Some (unat n)" by simp
  moreover have "drop (length (stem @ verInfix)) (take (length (vname stem n) - length verSuffix) (vname stem n))
      = fmt_nat (unat n)"
    by (simp add: vname_def)
  moreover have "HasPrefix (vname stem n) (stem @ verInfix)"
    by (auto simp: HasPrefix_iff vname_def)
  ultimately show ?thesis using vname_suffix by (simp add: version_of_name_def)
qed

lemma version_of_vname_other:
  assumes "version_of_name (stem @ verInfix) (vname stem' n') = Some n"
  shows "stem = stem'"
proof -
  let ?body = "stem' @ verInfix @ fmt_nat (unat n')" and ?pre = "stem @ verInfix"
  have body: "take (length (vname stem' n') - length verSuffix) (vname stem' n') = ?body"
    by (simp add: vname_def)
  let ?mid = "drop (length ?pre) ?body"
  from assms body have pre: "HasPrefix (vname stem' n') ?pre" and "ParseUint64 ?mid \<noteq> None"
    by (auto simp: version_of_name_def split: if_splits)
  then have mid: "?mid \<noteq> []" "list_all is_digit ?mid"
    by (auto simp: ParseUint64_def parse_nat_def split: if_splits)
  then have len: "length ?pre \<le> length ?body" by (metis drop_all nle_le)
  from pre have "take (length ?pre) (?body @ verSuffix) = ?pre" by (simp add: HasPrefix_def vname_def)
  with len have "take (length ?pre) ?body = ?pre" by (metis append_Nil2 diff_is_0_eq take_0 take_append)
  then have "?pre @ ?mid = ?body" by (metis append_take_drop_id)
  then have "(stem @ ''.'') @ CHR ''v'' # ?mid = (stem' @ ''.'') @ CHR ''v'' # fmt_nat (unat n')"
    by (simp add: verInfix_def)
  from append_last_inj[OF this digits_no_v[OF mid(2)] fmt_nat_no_v] show ?thesis by simp
qed

lemma version_of_no_suffix: "\<not> HasSuffix name verSuffix \<Longrightarrow> version_of_name pre name = None"
  by (simp add: version_of_name_def)

lemma paths_Split: "paths k = Inr (dr, st) \<Longrightarrow> Split CHR ''/'' k = dr @ [st]"
  by (auto simp: paths_def Let_def split: if_splits)

lemma paths_inj: "paths k = Inr p \<Longrightarrow> paths k' = Inr p \<Longrightarrow> k = k'"
  by (cases p) (metis paths_Split Split_inj)

subsection \<open>The scan finds the highest version\<close>

lemma scan_versions_Max:
  "scan_versions pre names ver = Max (insert ver (set (List.map_filter (version_of_name pre) names)))"
proof (induction names arbitrary: ver)
  case (Cons nm names)
  show ?case
  proof (cases "version_of_name pre nm")
    case None
    with Cons show ?thesis by (simp add: List.map_filter_simps)
  next
    case (Some n)
    let ?S = "set (List.map_filter (version_of_name pre) names)"
    have "Max (insert ver (insert n ?S)) = Max (insert (max ver n) ?S)"
      by (cases "?S = {}") (simp_all add: max.assoc)
    with Some Cons show ?thesis by (simp add: List.map_filter_simps max_def)
  qed
qed (simp add: List.map_filter_simps)

subsection \<open>Well-formed disks\<close>

text \<open>
  What every history of ledger operations leaves on a healthy disk: no fault is pending,
  directories do not look like version files, and every file is a decodable version of a key,
  never version 0; a tombstone carries no intent of what it buried.
\<close>

definition tombstone_bare :: "state \<Rightarrow> bool" where
  "tombstone_bare s \<longleftrightarrow> (Tombstone s \<longrightarrow> Plan s = None \<and> About s = None)"

definition disk_inv :: "disk \<Rightarrow> bool" where
  "disk_inv d \<longleftrightarrow> faults d = [] \<and> gm_wf (files d) \<and>
     (\<forall>q\<in>set (dirs d). \<forall>s\<in>set q. \<not> HasSuffix s verSuffix) \<and>
     (\<forall>dr name f. gm_get (files d) (dr, name) = Some f \<longrightarrow> dr \<in> set (dirs d) \<and>
        (\<exists>k stem n s. paths k = Inr (dr, stem) \<and> name = vname stem n \<and> n \<noteq> 0 \<and> f = Doc s \<and> marshalled s = Doc s \<and> tombstone_bare s))"

definition legal_key :: "LedgerKey \<Rightarrow> bool" where
  "legal_key k = (case paths k of Inl _ \<Rightarrow> False
     | Inr (dr, _) \<Rightarrow> list_all (\<lambda>s. \<not> HasSuffix s verSuffix) dr)"

definition key_room :: "disk \<Rightarrow> LedgerKey \<Rightarrow> bool" where
  "key_room d k = (case current d k of Inl _ \<Rightarrow> False | Inr (_, ver, _) \<Rightarrow> ver + 1 \<noteq> 0)"

definition versions :: "disk \<Rightarrow> dir \<Rightarrow> string \<Rightarrow> 64 word set" where
  "versions d dr stem = {n. gm_get (files d) (dr, vname stem n) \<noteq> None}"

lemma NewFile_inv: "disk_inv NewFile"
  by (simp add: disk_inv_def NewFile_def)

lemma versions_nonzero: "disk_inv d \<Longrightarrow> 0 \<notin> versions d dr stem"
  by (fastforce simp: disk_inv_def versions_def vname_inj)

lemma ReadDir_versions:
  assumes "disk_inv d" "ReadDir d dr = Some ents"
  shows "set (List.map_filter (version_of_name (stem @ verInfix)) ents) = versions d dr stem"
proof -
  have sub: "version_of_name (stem @ verInfix) nm = None" if "nm \<in> set (subdirs d dr)" for nm
    using that assms(1)
    by (auto simp: subdirs_def disk_inv_def intro!: version_of_no_suffix)
  have names: "nm \<in> set ents \<longleftrightarrow> (dr, nm) \<in> set (gm_keys (files d)) \<or> nm \<in> set (subdirs d dr)" for nm
    using assms(2) by (force simp: ReadDir_def split: if_splits)
  have filed: "nm = vname stem n" if "(dr, nm) \<in> set (gm_keys (files d))"
    "version_of_name (stem @ verInfix) nm = Some n" for nm n
  proof -
    from that(1) have "gm_get (files d) (dr, nm) \<noteq> None" by (simp add: gm_get_None_iff)
    with assms(1) obtain stem' n' where "nm = vname stem' n'" unfolding disk_inv_def by blast
    with that(2) version_of_vname_other show ?thesis by fastforce
  qed
  have "(\<exists>nm\<in>set ents. version_of_name (stem @ verInfix) nm = Some n) \<longleftrightarrow>
      (dr, vname stem n) \<in> set (gm_keys (files d))" for n
    using sub names filed by (metis option.distinct(1) version_of_vname)
  then show ?thesis
    by (auto simp: versions_def set_map_filter gm_get_None_iff)
qed

text \<open>What \<open>current\<close> returns on a well-formed disk, in terms of the versions present.\<close>

lemma current_absent:
  assumes "disk_inv d" "paths k = Inr (dr, stem)" "versions d dr stem = {}"
  shows "current d k = Inr (empty_state, 0, False)"
  using assms ReadDir_versions[OF assms(1)]
  by (auto simp: current_def scan_versions_Max split: option.splits)

lemma versions_in_dir:
  "disk_inv d \<Longrightarrow> n \<in> versions d dr stem \<Longrightarrow> \<exists>ents. ReadDir d dr = Some ents"
  by (fastforce simp: versions_def disk_inv_def ReadDir_def)

lemma current_present:
  assumes inv: "disk_inv d" and pk: "paths k = Inr (dr, stem)"
    and top: "n \<in> versions d dr stem" "\<And>m. m \<in> versions d dr stem \<Longrightarrow> m \<le> n"
    and doc: "gm_get (files d) (dr, vname stem n) = Some (Doc s)"
  shows "current d k = Inr (s, n, \<not> Tombstone s)"
proof -
  from versions_in_dir[OF inv top(1)] obtain ents where ents: "ReadDir d dr = Some ents" by blast
  have "Max (insert 0 (versions d dr stem)) = n"
    using top by (intro Max_eqI) auto
  then have "scan_versions (stem @ verInfix) ents 0 = n"
    by (simp add: scan_versions_Max ReadDir_versions[OF inv ents])
  moreover have "n \<noteq> 0" using versions_nonzero[OF inv, of dr stem] top(1) by blast
  ultimately show ?thesis using pk ents doc by (simp add: current_def versionPath_def)
qed

lemma versions_top:
  assumes "disk_inv d" "versions d dr stem \<noteq> {}"
  obtains n s where "n \<in> versions d dr stem" "\<And>m. m \<in> versions d dr stem \<Longrightarrow> m \<le> n"
    "gm_get (files d) (dr, vname stem n) = Some (Doc s)" "marshalled s = Doc s" "tombstone_bare s"
proof -
  have "Max (versions d dr stem) \<in> versions d dr stem" using assms(2) by simp
  then obtain f where f: "gm_get (files d) (dr, vname stem (Max (versions d dr stem))) = Some f"
    by (auto simp: versions_def)
  with assms(1) obtain s where "f = Doc s" "marshalled s = Doc s" "tombstone_bare s" unfolding disk_inv_def by blast
  with f that[of "Max (versions d dr stem)" s] assms(2) show ?thesis by simp
qed

text \<open>
  The summary the other proofs use: a legal key's current version is the greatest one
  present, and reading it never fails.
\<close>

lemma current_cases:
  assumes "disk_inv d" "paths k = Inr (dr, stem)"
  obtains (absent) "versions d dr stem = {}" "current d k = Inr (empty_state, 0, False)"
  | (present) n s where "n \<in> versions d dr stem" "\<And>m. m \<in> versions d dr stem \<Longrightarrow> m \<le> n"
      "gm_get (files d) (dr, vname stem n) = Some (Doc s)" "marshalled s = Doc s" "tombstone_bare s"
      "current d k = Inr (s, n, \<not> Tombstone s)"
proof (cases "versions d dr stem = {}")
  case True
  with current_absent[OF assms] absent show ?thesis by blast
next
  case False
  from versions_top[OF assms(1) this] present current_present[OF assms] show ?thesis by metis
qed

subsection \<open>Committing\<close>

definition with_dirs :: "disk \<Rightarrow> dir \<Rightarrow> disk" where
  "with_dirs d dr = d\<lparr>dirs := dirs d @ filter (\<lambda>q. q \<notin> set (dirs d)) (prefixes dr)\<rparr>"

lemma MkdirAll_ok:
  assumes "disk_inv d" "\<forall>s\<in>set dr. \<not> HasSuffix s verSuffix"
  shows "MkdirAll d dr = Some (with_dirs d dr)"
proof -
  have "\<not> is_file d q" if "q \<in> set (prefixes dr)" for q
  proof
    assume "is_file d q"
    then have "q \<noteq> []" and "gm_get (files d) (butlast q, last q) \<noteq> None" by (auto simp: is_file_def)
    with assms(1) have "HasSuffix (last q) verSuffix"
      unfolding disk_inv_def by (metis not_None_eq vname_suffix)
    moreover have "last q \<in> set dr" using that \<open>q \<noteq> []\<close>
      by (metis in_set_prefixes last_in_set set_mono_prefix subsetD)
    ultimately show False using assms(2) by blast
  qed
  then show ?thesis by (auto simp: MkdirAll_def with_dirs_def list_ex_iff)
qed

lemma with_dirs_inv:
  assumes "disk_inv d" "\<forall>s\<in>set dr. \<not> HasSuffix s verSuffix"
  shows "disk_inv (with_dirs d dr)"
proof -
  have "\<not> HasSuffix s verSuffix" if "q \<in> set (dirs (with_dirs d dr))" "s \<in> set q" for q s
    using that assms set_mono_prefix[of q dr]
    by (fastforce simp: with_dirs_def disk_inv_def)
  with assms(1) show ?thesis
    unfolding disk_inv_def by (fastforce simp: with_dirs_def)
qed

lemma with_dirs_simps [simp]: "files (with_dirs d dr) = files d" "faults (with_dirs d dr) = faults d"
  "dr \<in> set (dirs (with_dirs d dr))" "versions (with_dirs d dr) = versions d"
  by (auto simp: with_dirs_def versions_def fun_eq_iff)

lemma disk_inv_add:
  assumes "disk_inv d" "dr \<in> set (dirs d)" "n \<noteq> 0" "tombstone_bare s" "paths k = Inr (dr, stem)"
  shows "disk_inv (d\<lparr>files := gm_set (dr, vname stem n) (marshalled s) (files d)\<rparr>)"
proof -
  let ?s = "s\<lparr>Plan := slice_norm (Plan s), Proposed := slice_norm (Proposed s),
     st_Identity := slice_norm (st_Identity s), About := slice_norm (About s)\<rparr>"
  have "marshalled s = Doc ?s" "marshalled ?s = Doc ?s" "tombstone_bare ?s"
    using assms(4) by (simp_all add: marshalled_def tombstone_bare_def)
  then show ?thesis
    using assms unfolding disk_inv_def by (auto split: if_splits)
qed

definition committed :: "disk \<Rightarrow> dir \<Rightarrow> string \<Rightarrow> 64 word \<Rightarrow> state \<Rightarrow> disk" where
  "committed d dr stem n s =
     (with_dirs d dr)\<lparr>files := gm_set (dr, vname stem n) (marshalled s) (files d)\<rparr>"

text \<open>On a healthy disk a commit of the version after the current one succeeds.\<close>

lemma commit_ok:
  assumes inv: "disk_inv d" and pk: "paths k = Inr (dr, stem)"
    and legal: "\<forall>s\<in>set dr. \<not> HasSuffix s verSuffix"
    and new: "ver + 1 \<notin> versions d dr stem"
  shows "commit d k s ver = (committed d dr stem (ver + 1) s, Inr ())"
proof -
  have "vname stem (ver + 1) \<notin> set (subdirs (with_dirs d dr) dr)"
    using with_dirs_inv[OF inv legal] vname_suffix
    unfolding subdirs_def disk_inv_def by (auto; metis last_in_set)
  with new have "\<not> path_exists (with_dirs d dr) (dr, vname stem (ver + 1))"
    by (simp add: path_exists_def versions_def)
  moreover have "pop_fault d = (None, d)" using inv by (simp add: pop_fault_def disk_inv_def)
  ultimately show ?thesis
    using pk MkdirAll_ok[OF inv legal] by (simp add: commit_def committed_def versionPath_def)
qed

lemma committed_inv:
  "disk_inv d \<Longrightarrow> \<forall>s\<in>set dr. \<not> HasSuffix s verSuffix \<Longrightarrow> n \<noteq> 0 \<Longrightarrow>
     tombstone_bare s \<Longrightarrow> paths k = Inr (dr, stem) \<Longrightarrow> disk_inv (committed d dr stem n s)"
  using disk_inv_add[OF with_dirs_inv] by (simp add: committed_def)

lemma committed_versions:
  "versions (committed d dr stem n s) dr' stem' =
     (if dr' = dr \<and> stem' = stem then insert n (versions d dr stem) else versions d dr' stem')"
  by (auto simp: versions_def committed_def vname_inj)

lemma committed_files:
  "gm_get (files (committed d dr stem n s)) (dr', vname stem' n') =
     (if dr' = dr \<and> stem' = stem \<and> n' = n then Some (marshalled s)
      else gm_get (files d) (dr', vname stem' n'))"
  by (auto simp: committed_def vname_inj)

lemma current_committed:
  assumes inv: "disk_inv d" and pk: "paths k = Inr (dr, stem)"
    and legal: "\<forall>s\<in>set dr. \<not> HasSuffix s verSuffix"
    and top: "\<And>m. m \<in> versions d dr stem \<Longrightarrow> m \<le> n" "n \<noteq> 0" and doc: "marshalled s = Doc s'" "tombstone_bare s"
  shows "current (committed d dr stem n s) k = Inr (s', n, \<not> Tombstone s')"
  by (rule current_present[OF committed_inv[OF inv legal top(2) doc(2) pk] pk])
    (use top(1) doc(1) in \<open>auto simp: committed_versions committed_files\<close>)

lemma current_committed_frame:
  assumes inv: "disk_inv d" and pk: "paths k = Inr (dr, stem)"
    and legal: "\<forall>s\<in>set dr. \<not> HasSuffix s verSuffix" "n \<noteq> 0" "tombstone_bare s"
    and pk': "paths k' = Inr (dr', stem')" and neq: "k' \<noteq> k"
  shows "current (committed d dr stem n s) k' = current d k'"
proof -
  from paths_inj pk pk' neq have diff: "\<not> (dr' = dr \<and> stem' = stem)" by blast
  have inv': "disk_inv (committed d dr stem n s)" by (rule committed_inv[OF inv legal pk])
  show ?thesis
  proof (rule current_cases[OF inv pk'])
    assume "versions d dr' stem' = {}" "current d k' = Inr (empty_state, 0, False)"
    with diff show ?thesis by (metis current_absent[OF inv' pk'] committed_versions)
  next
    fix m t
    assume "m \<in> versions d dr' stem'" "\<And>m'. m' \<in> versions d dr' stem' \<Longrightarrow> m' \<le> m"
      and "gm_get (files d) (dr', vname stem' m) = Some (Doc t)"
      and cur: "current d k' = Inr (t, m, \<not> Tombstone t)"
    with diff have "current (committed d dr stem n s) k' = Inr (t, m, \<not> Tombstone t)"
      by (intro current_present[OF inv' pk']) (auto simp: committed_versions committed_files)
    with cur show ?thesis by simp
  qed
qed

subsection \<open>The contract holds\<close>

lemma word_succ_gt: "(v::64 word) + 1 \<noteq> 0 \<Longrightarrow> v < v + 1"
  by unat_arith

lemma legal_keyE:
  assumes "legal_key k"
  obtains dr stem where "paths k = Inr (dr, stem)" "\<forall>s\<in>set dr. \<not> HasSuffix s verSuffix"
  using assms by (auto simp: legal_key_def list_all_iff split: sum.splits)

lemma current_total: "disk_inv d \<Longrightarrow> legal_key k \<Longrightarrow> \<exists>s ver found. current d k = Inr (s, ver, found)"
  by (metis legal_keyE current_cases)

text \<open>The version a well-formed disk reports bounds every version of the key.\<close>

lemma current_bounds:
  assumes "disk_inv d" "paths k = Inr (dr, stem)" "current d k = Inr (s, ver, found)"
  shows "m \<in> versions d dr stem \<Longrightarrow> m \<le> ver"
  using assms(3) by (rule_tac current_cases[OF assms(1,2)]) auto

lemma file_Get_current:
  "current d k = Inr (s, ver, found) \<Longrightarrow>
     file_Get d k = Inr (if found then Some (entry_of k s, version ver) else None)"
  by (simp add: file_Get_def)

text \<open>
  A commit on top of the current version makes the new state current under a greater
  version, keeps the disk well-formed and leaves every other legal key alone.
\<close>

lemma commit_current:
  assumes inv: "disk_inv d" and legal: "legal_key k"
    and cur: "current d k = Inr (s0, ver, found)" and rm: "ver + 1 \<noteq> 0"
    and doc: "marshalled s = Doc s'" and bare: "tombstone_bare s"
  obtains d' where "commit d k s ver = (d', Inr ())" "disk_inv d'"
    "current d' k = Inr (s', ver + 1, \<not> Tombstone s')"
    "\<And>k'. k' \<noteq> k \<Longrightarrow> legal_key k' \<Longrightarrow> current d' k' = current d k'"
proof -
  obtain dr stem where pk: "paths k = Inr (dr, stem)" and segs: "\<forall>s\<in>set dr. \<not> HasSuffix s verSuffix"
    using legal by (rule legal_keyE)
  note le = current_bounds[OF inv pk cur]
  have gt: "ver < ver + 1" by (rule word_succ_gt[OF rm])
  have new: "ver + 1 \<notin> versions d dr stem" using le gt by (meson leD)
  have top: "m \<le> ver + 1" if "m \<in> versions d dr stem" for m
    using le[OF that] gt by simp
  let ?d = "committed d dr stem (ver + 1) s"
  have "commit d k s ver = (?d, Inr ())" by (rule commit_ok[OF inv pk segs new])
  moreover have "disk_inv ?d" by (rule committed_inv[OF inv segs rm bare pk])
  moreover have "current ?d k = Inr (s', ver + 1, \<not> Tombstone s')"
    using top by (rule current_committed[OF inv pk segs _ rm doc bare])
  moreover have "current ?d k' = current d k'" if "k' \<noteq> k" "legal_key k'" for k'
    using that(2) by (rule legal_keyE) (rule current_committed_frame[OF inv pk segs rm bare _ that(1)])
  ultimately show ?thesis by (rule that)
qed

lemma commit_refines_put:
  assumes "disk_inv d" "legal_key k" "current d k = Inr (s0, ver, found)" "ver + 1 \<noteq> 0"
    and "marshalled s = Doc s'" "tombstone_bare s" "\<not> Tombstone s'" "entry_agrees (entry_of k s') e"
  shows "refines_op file_ledger disk_inv legal_key d k (Inr (Put e)) (commit d k s ver)"
proof (rule commit_current[OF assms(1-6)])
  fix d'
  assume c: "commit d k s ver = (d', Inr ())" "disk_inv d'"
    and cur: "current d' k = Inr (s', ver + 1, \<not> Tombstone s')"
    and fr: "\<And>k'. k' \<noteq> k \<Longrightarrow> legal_key k' \<Longrightarrow> current d' k' = current d k'"
  have "file_Get d' k = Inr (Some (entry_of k s', version (ver + 1)))"
    using file_Get_current[OF cur] assms(7) by simp
  moreover have "file_Get d' k' = file_Get d k'" if "k' \<noteq> k" "legal_key k'" for k'
    using fr[OF that] by (simp add: file_Get_def)
  ultimately show ?thesis
    using c assms(8) file_Get_current[OF assms(3)] by (auto simp: refines_op_def)
qed

lemma commit_refines_remove:
  assumes "disk_inv d" "legal_key k" "current d k = Inr (s0, ver, found)" "ver + 1 \<noteq> 0"
    and "marshalled s = Doc s'" "tombstone_bare s" "Tombstone s'"
  shows "refines_op file_ledger disk_inv legal_key d k (Inr Remove) (commit d k s ver)"
proof (rule commit_current[OF assms(1-6)])
  fix d'
  assume c: "commit d k s ver = (d', Inr ())" "disk_inv d'"
    and cur: "current d' k = Inr (s', ver + 1, \<not> Tombstone s')"
    and fr: "\<And>k'. k' \<noteq> k \<Longrightarrow> legal_key k' \<Longrightarrow> current d' k' = current d k'"
  have "file_Get d' k = Inr None"
    using file_Get_current[OF cur] assms(7) by simp
  moreover have "file_Get d' k' = file_Get d k'" if "k' \<noteq> k" "legal_key k'" for k'
    using fr[OF that] by (simp add: file_Get_def)
  ultimately show ?thesis
    using c by (auto simp: refines_op_def)
qed

text \<open>What a well-formed disk holds is normalised, and an absent key carries no plan.\<close>

lemma current_normal:
  assumes "disk_inv d" "legal_key k" "current d k = Inr (s, ver, found)"
  shows "marshalled s = Doc s" "found = (ver \<noteq> 0 \<and> \<not> Tombstone s)"
    "\<not> found \<Longrightarrow> Plan s = None \<and> About s = None"
proof -
  obtain dr stem where pk: "paths k = Inr (dr, stem)" using assms(2) by (rule legal_keyE)
  have z: "0 \<notin> versions d dr stem" by (rule versions_nonzero[OF assms(1)])
  show "marshalled s = Doc s"
    using assms(3) by (rule_tac current_cases[OF assms(1) pk]) (auto simp: empty_state_def marshalled_def)
  show "found = (ver \<noteq> 0 \<and> \<not> Tombstone s)"
    using assms(3) z by (rule_tac current_cases[OF assms(1) pk]) auto
  show "Plan s = None \<and> About s = None" if "\<not> found"
    using assms(3) that
    by (rule_tac current_cases[OF assms(1) pk]) (auto simp: empty_state_def tombstone_bare_def)
qed

lemma marshalled_fields:
  "marshalled s = Doc s \<Longrightarrow> slice_norm (Plan s) = Plan s \<and> slice_norm (Proposed s) = Proposed s \<and>
     slice_norm (st_Identity s) = st_Identity s \<and> slice_norm (About s) = About s"
  by (cases s) (simp add: marshalled_def)

lemma file_Begin_refines:
  assumes inv: "disk_inv d" and lk: "legal_key k" and rm: "key_room d k" and get: "file_Get d k = Inr c"
  shows "refines_op file_ledger disk_inv legal_key d k (spec_begin c k p v) (file_Begin d k p v)"
proof -
  from current_total[OF inv lk] obtain s ver found where cur: "current d k = Inr (s, ver, found)" by blast
  with get have c: "c = (if found then Some (entry_of k s, version ver) else None)"
    by (simp add: file_Get_def split: if_splits)
  from rm cur have r: "ver + 1 \<noteq> 0" by (simp add: key_room_def)
  note nm = current_normal[OF inv lk cur] and mf = marshalled_fields[OF current_normal(1)[OF inv lk cur]]
  let ?w = "empty_state\<lparr>Phase := LedgerPending, Plan := Plan s, Proposed := slice_norm p, About := About s\<rparr>"
  have w: "marshalled ?w = Doc ?w" "tombstone_bare ?w" "\<not> Tombstone ?w"
    using mf by (simp_all add: marshalled_def tombstone_bare_def empty_state_def)
  note put = commit_refines_put[OF inv lk cur r w]
  have fresh: "entry_agrees (entry_of k ?w) (fresh_entry k p)" if "\<not> found"
    using nm(3)[OF that] by (simp add: entry_agrees_iff entry_of_def fresh_entry_def empty_state_def)
  have upd: "entry_agrees (entry_of k ?w)
      ((entry_of k s)\<lparr>ent_phase := LedgerPending, ent_proposed := slice_norm p\<rparr>)"
    by (simp add: entry_agrees_iff entry_of_def empty_state_def)
  show ?thesis
    using c cur put[OF fresh] put[OF upd]
    by (auto simp: file_Begin_def guard_def spec_simps same_proposal_def entry_of_def refines_op_def[of _ _ _ _ _ "Inl _"]
        refines_op_def[of _ _ _ _ _ "Inr Keep"])
qed

lemma file_Resolve_refines:
  assumes inv: "disk_inv d" and lk: "legal_key k" and rm: "key_room d k" and get: "file_Get d k = Inr c"
  shows "refines_op file_ledger disk_inv legal_key d k (spec_resolve c i a v) (file_Resolve d k i a v)"
proof -
  from current_total[OF inv lk] obtain s ver found where cur: "current d k = Inr (s, ver, found)" by blast
  with get have c: "c = (if found then Some (entry_of k s, version ver) else None)"
    by (simp add: file_Get_def split: if_splits)
  from rm cur have r: "ver + 1 \<noteq> 0" by (simp add: key_room_def)
  note mf = marshalled_fields[OF current_normal(1)[OF inv lk cur]]
  let ?w = "empty_state\<lparr>Phase := LedgerLive, Plan := Proposed s, st_Identity := slice_norm i,
      About := slice_norm (if a = None then About s else a)\<rparr>"
  have w: "marshalled ?w = Doc ?w" "tombstone_bare ?w" "\<not> Tombstone ?w"
    using mf by (simp_all add: marshalled_def tombstone_bare_def empty_state_def)
  have agree: "entry_agrees (entry_of k ?w) ((entry_of k s)\<lparr>ent_phase := LedgerLive,
      ent_plan := Proposed s, ent_proposed := None, ent_identity := slice_norm i,
      ent_about := (if a = None then About s else slice_norm a)\<rparr>)"
    using mf by (simp add: entry_agrees_iff entry_of_def empty_state_def)
  show ?thesis
    using c cur commit_refines_put[OF inv lk cur r w agree]
    by (auto simp: file_Resolve_def guard_def spec_simps entry_of_def Let_def refines_op_def[of _ _ _ _ _ "Inl _"])
qed

lemma file_Forget_refines:
  assumes inv: "disk_inv d" and lk: "legal_key k" and rm: "key_room d k" and get: "file_Get d k = Inr c"
  shows "refines_op file_ledger disk_inv legal_key d k (spec_forget c v) (file_Forget d k v)"
proof -
  from current_total[OF inv lk] obtain s ver found where cur: "current d k = Inr (s, ver, found)" by blast
  with get have c: "c = (if found then Some (entry_of k s, version ver) else None)"
    by (simp add: file_Get_def split: if_splits)
  from rm cur have r: "ver + 1 \<noteq> 0" by (simp add: key_room_def)
  let ?w = "empty_state\<lparr>Tombstone := True\<rparr>"
  have w: "marshalled ?w = Doc ?w" "tombstone_bare ?w" "Tombstone ?w"
    by (simp_all add: marshalled_def tombstone_bare_def empty_state_def)
  show ?thesis
    using c cur commit_refines_remove[OF inv lk cur r w]
    by (auto simp: file_Forget_def guard_def spec_simps refines_op_def[of _ _ _ _ _ "Inl _"])
qed

interpretation filed: ledger_contract file_ledger disk_inv legal_key key_room
proof unfold_locales
  fix d k assume "disk_inv d" "legal_key k"
  then show "\<exists>c. Get file_ledger d k = Inr c"
    by (metis current_total file_Get_current file_ledger_simps(1))
next
  fix d k e v
  assume "Get file_ledger d k = Inr (Some (e, v))"
  then show "ent_key e = k \<and> v \<noteq> LedgerVersionNone"
    by (auto simp: file_Get_def entry_of_def split: sum.splits prod.splits if_splits)
qed (simp_all add: file_Begin_refines file_Resolve_refines file_Forget_refines)

subsection \<open>Faults, interleavings and listing\<close>

lemma pop_fault_files [simp]: "pop_fault d = (f, d') \<Longrightarrow> files d' = files d"
  by (auto simp: pop_fault_def split: list.splits)

lemma MkdirAll_files [simp]: "MkdirAll d dr = Some d' \<Longrightarrow> files d' = files d"
  by (auto simp: MkdirAll_def split: if_splits)

text \<open>
  A commit, whatever fails in it, either leaves the files alone or adds exactly the version
  after \<open>ver\<close>, and only where that name was free.
\<close>

lemma commit_files:
  assumes "commit d k s ver = (d', r)"
  shows "files d' = files d \<and> (\<exists>e. r = Inl e) \<or>
    (\<exists>dr stem. paths k = Inr (dr, stem) \<and> gm_get (files d) (versionPath dr stem (ver + 1)) = None \<and>
       files d' = gm_set (versionPath dr stem (ver + 1)) (marshalled s) (files d))"
  using assms
  by (auto simp: commit_def path_exists_def Let_def split: sum.splits prod.splits option.splits if_splits)

lemma commit_append_only: "map_of (files d) \<subseteq>\<^sub>m map_of (files (fst (commit d k s ver)))"
proof -
  obtain d' r where c: "commit d k s ver = (d', r)" by (cases "commit d k s ver")
  from commit_files[OF c] c show ?thesis by (auto simp: map_le_def dom_def)
qed

text \<open>
  Any number of processes on one directory: each step is some process reaching the commit of
  some operation, with whatever version it read earlier, or the environment deciding which
  system calls will fail.
\<close>

inductive disk_step :: "disk \<Rightarrow> disk \<Rightarrow> bool" where
  step_commit: "disk_step d (fst (commit d k s ver))"
| step_fault: "disk_step d (d\<lparr>faults := fs\<rparr>)"

lemma disk_steps_append_only: "disk_step\<^sup>*\<^sup>* d d' \<Longrightarrow> map_of (files d) \<subseteq>\<^sub>m map_of (files d')"
proof (induction rule: rtranclp_induct)
  case (step y z)
  from step(2) have "map_of (files y) \<subseteq>\<^sub>m map_of (files z)"
    by cases (simp_all add: commit_append_only)
  with step(3) show ?case by (rule map_le_trans)
qed simp

lemma last_index_None: "p \<noteq> [] \<Longrightarrow> hd p \<notin> set s \<Longrightarrow> last_index p s = None"
  by (induction s) (auto simp: HasPrefix_iff neq_Nil_conv)

lemma last_index_append:
  "last_index p s = Some i \<Longrightarrow> last_index p (a @ s) = Some (length a + i)"
  by (induction a) auto

lemma last_index_vname: "last_index verInfix (vname stem n) = Some (length stem)"
proof -
  have dot: "CHR ''.'' \<notin> set (fmt_nat m)" for m
    using fmt_nat_digits[of m] by (auto simp: list_all_iff is_digit_def)
  have json: "last_index ''.v'' ''.json'' = None" by (simp add: HasPrefix_def)
  have "last_index ''.v'' (w @ ''.json'') = None" if "CHR ''.'' \<notin> set w" for w
    using that json by (induction w) (auto simp: HasPrefix_def)
  from this[OF dot[of "unat n"]]
  have "last_index ''.v'' (CHR ''v'' # fmt_nat (unat n) @ ''.json'') = None"
    by (simp add: HasPrefix_def)
  then have "last_index ''.v'' (''.v'' @ fmt_nat (unat n) @ ''.json'') = Some 0"
    by (simp add: HasPrefix_def)
  from last_index_append[OF this, of stem] show ?thesis
    by (simp add: vname_def verInfix_def verSuffix_def)
qed

lemma key_of_vname: "paths k = Inr (dr, stem) \<Longrightarrow> key_of_path (dr, vname stem n) = Some k"
proof -
  assume "paths k = Inr (dr, stem)"
  then have "strings_Join ''/'' (dr @ [stem]) = k" by (metis paths_Split Join_Split)
  moreover have "take (length stem) (vname stem n) = stem" by (simp add: vname_def)
  ultimately show ?thesis by (simp add: key_of_path_def vname_suffix last_index_vname)
qed

lemma list_keys_iff:
  assumes "disk_inv d"
  shows "k \<in> set (list_keys d scope) \<longleftrightarrow> HasPrefix k scope \<and>
    (\<exists>dr stem. paths k = Inr (dr, stem) \<and> versions d dr stem \<noteq> {})"
proof -
  have "(\<exists>p\<in>set (gm_keys (files d)). key_of_path p = Some k) \<longleftrightarrow>
      (\<exists>dr stem. paths k = Inr (dr, stem) \<and> versions d dr stem \<noteq> {})" (is "?L \<longleftrightarrow> ?R")
  proof
    assume ?L
    then obtain dr name where f: "gm_get (files d) (dr, name) \<noteq> None" and k: "key_of_path (dr, name) = Some k"
      by (metis gm_get_None_iff surj_pair)
    with assms obtain k' stem n where "paths k' = Inr (dr, stem)" "name = vname stem n"
      unfolding disk_inv_def by blast
    with f k key_of_vname[of k' dr stem n] show ?R by (auto simp: versions_def)
  next
    assume ?R
    then obtain dr stem n where "paths k = Inr (dr, stem)" "(dr, vname stem n) \<in> set (gm_keys (files d))"
      by (auto simp: versions_def gm_get_None_iff)
    then show ?L using key_of_vname by blast
  qed
  then show ?thesis by (auto simp: list_keys_def set_map_filter)
qed

lemma current_not_illegal: "disk_inv d \<Longrightarrow> paths k = Inr (dr, stem) \<Longrightarrow> \<exists>s ver found. current d k = Inr (s, ver, found)"
  by (metis current_cases)

definition live_entries :: "disk \<Rightarrow> LedgerKey \<Rightarrow> LedgerEntry list" where
  "live_entries d k = (case current d k of Inl _ \<Rightarrow> []
     | Inr (s, _, found) \<Rightarrow> if found then [entry_of k s] else [])"

lemma list_entries_spec:
  assumes "\<And>k. k \<in> set ks \<Longrightarrow> \<exists>s ver found. current d k = Inr (s, ver, found)"
  shows "list_entries d ks = Inr (concat (map (live_entries d) ks))"
  using assms
proof (induction ks)
  case (Cons k ks)
  then obtain s ver found where "current d k = Inr (s, ver, found)" by fastforce
  with Cons show ?case by (auto simp: live_entries_def)
qed simp

lemma live_entries_Get:
  "e \<in> set (live_entries d k) \<longleftrightarrow> ent_key e = k \<and> (\<exists>v. file_Get d k = Inr (Some (e, v)))"
  by (auto simp: live_entries_def file_Get_def entry_of_def split: sum.splits)

subsection \<open>Properties\<close>

text \<open>C1: the durable ledger implements the abstract ledger. On a well-formed disk and a legal
  key whose version counter has not run out, each of Begin, Resolve and Forget does exactly
  what the one-cell specification says: refusals (conflict, not found, wrong phase) change
  nothing, a write is visible at once under a new version, Begin leaves the plan alone, and no
  other key is touched.\<close>

theorem file_ledger_refines:
  assumes "disk_inv d" "legal_key k" "key_room d k" "file_Get d k = Inr c"
  shows "refines_op file_ledger disk_inv legal_key d k (spec_begin c k p v) (file_Begin d k p v)
    \<and> refines_op file_ledger disk_inv legal_key d k (spec_resolve c i a v) (file_Resolve d k i a v)
    \<and> refines_op file_ledger disk_inv legal_key d k (spec_forget c v) (file_Forget d k v)"
  using file_Begin_refines[OF assms] file_Resolve_refines[OF assms] file_Forget_refines[OF assms]
  by blast

theorem file_ledger_refines_witness:
  "refines_op file_ledger disk_inv legal_key NewFile ''s/a'' (Inr (Put (fresh_entry ''s/a'' (Some ''n''))))
     (file_Begin NewFile ''s/a'' (Some ''n'') LedgerVersionNone)"
proof -
  have p: "paths ''s/a'' = Inr ([''s''], ''a'')"
    by (simp add: paths_def illegal_segment_def ContainsAny_def illegal_chars_def)
  have cur: "current NewFile ''s/a'' = Inr (empty_state, 0, False)"
    using p by (simp add: current_def NewFile_def ReadDir_def)
  have "legal_key ''s/a''" using p by (simp add: legal_key_def HasSuffix_def verSuffix_def)
  moreover have "key_room NewFile ''s/a''" using cur by (simp add: key_room_def)
  moreover have "file_Get NewFile ''s/a'' = Inr None" using cur by (simp add: file_Get_def)
  ultimately show ?thesis
    using file_ledger_refines[OF NewFile_inv, of "''s/a''" None "Some ''n''" LedgerVersionNone]
    by (simp add: spec_simps)
qed

text \<open>C2: no operation of the durable ledger ever overwrites or removes a version file,
  whatever system call fails in it: what was on disk before is on disk after, byte for byte.\<close>

theorem file_append_only:
  "map_of (files d) \<subseteq>\<^sub>m map_of (files (fst (file_Begin d k p v))) \<and>
   map_of (files d) \<subseteq>\<^sub>m map_of (files (fst (file_Resolve d k i a v))) \<and>
   map_of (files d) \<subseteq>\<^sub>m map_of (files (fst (file_Forget d k v)))"
  by (auto simp: file_Begin_def file_Resolve_def file_Forget_def commit_append_only Let_def
      split: sum.splits)

text \<open>C3: a version is claimed once. After one process commits the version that follows \<open>ver\<close>,
  and after any further interleaving of commits and failures by any number of processes, a
  process that still holds \<open>ver\<close> is refused, and the first writer's document is still the one
  stored.\<close>

theorem version_claimed_once:
  assumes "commit d k s ver = (d1, Inr ())" "disk_step\<^sup>*\<^sup>* d1 d2" "commit d2 k s2 ver = (d3, r)"
  shows "\<exists>dr stem. paths k = Inr (dr, stem) \<and> (\<exists>e. r = Inl e) \<and> files d3 = files d2 \<and>
    gm_get (files d3) (versionPath dr stem (ver + 1)) = Some (marshalled s)"
proof -
  from commit_files[OF assms(1)] obtain dr stem where pk: "paths k = Inr (dr, stem)"
    and f1: "gm_get (files d1) (versionPath dr stem (ver + 1)) = Some (marshalled s)" by auto
  from disk_steps_append_only[OF assms(2)] f1
  have f2: "gm_get (files d2) (versionPath dr stem (ver + 1)) = Some (marshalled s)"
    unfolding map_le_def by (metis domI)
  from commit_files[OF assms(3)] pk f2 have "files d3 = files d2" "\<exists>e. r = Inl e" by auto
  with pk f2 show ?thesis by simp
qed

theorem version_claimed_once_witness:
  "\<exists>dr stem. paths ''s/a'' = Inr (dr, stem) \<and>
    (\<exists>e. snd (commit (fst (commit NewFile ''s/a'' empty_state 0)) ''s/a'' empty_state 0) = Inl e)"
proof -
  have p: "paths ''s/a'' = Inr ([''s''], ''a'')"
    by (simp add: paths_def illegal_segment_def ContainsAny_def illegal_chars_def)
  have v: "versions NewFile [''s''] ''a'' = {}" by (simp add: versions_def NewFile_def)
  obtain d1 where d1: "commit NewFile ''s/a'' empty_state 0 = (d1, Inr ())"
    using commit_ok[OF NewFile_inv p, of 0 empty_state] v by (simp add: HasSuffix_def verSuffix_def)
  obtain d3 r where d3: "commit d1 ''s/a'' empty_state 0 = (d3, r)" by fastforce
  from version_claimed_once[OF d1 rtranclp.rtrancl_refl d3] d1 d3 show ?thesis by auto
qed

text \<open>Listing a scope returns exactly the live entries under it: one entry per key that
  has the prefix and is not absent or tombstoned, each as \<open>Get\<close> would return it, and reading
  them never fails on a well-formed disk.\<close>

theorem file_List_complete:
  assumes "disk_inv d"
  shows "\<exists>es. file_List d scope = Inr es \<and>
    (\<forall>e. e \<in> set es \<longleftrightarrow> HasPrefix (ent_key e) scope \<and> (\<exists>v. file_Get d (ent_key e) = Inr (Some (e, v))))"
proof -
  have tot: "\<exists>s ver found. current d k = Inr (s, ver, found)" if "k \<in> set (list_keys d scope)" for k
    using that list_keys_iff[OF assms] current_not_illegal[OF assms] by blast
  let ?ks = "list_keys d scope"
  have es: "file_List d scope = Inr (concat (map (live_entries d) ?ks))"
    unfolding file_List_def by (rule list_entries_spec[OF tot])
  have listed: "k \<in> set ?ks" if get: "file_Get d k = Inr (Some (e, v))" and "HasPrefix k scope" for k e v
  proof -
    from get obtain s ver where cur: "current d k = Inr (s, ver, True)"
      by (auto simp: file_Get_def split: sum.splits if_splits)
    then obtain dr stem where pk: "paths k = Inr (dr, stem)"
      by (auto simp: current_def split: sum.splits)
    from current_absent[OF assms pk] cur have "versions d dr stem \<noteq> {}" by auto
    with pk that(2) show ?thesis by (auto simp: list_keys_iff[OF assms])
  qed
  have "e \<in> set (concat (map (live_entries d) ?ks)) \<longleftrightarrow>
      HasPrefix (ent_key e) scope \<and> (\<exists>v. file_Get d (ent_key e) = Inr (Some (e, v)))" for e
    using listed list_keys_iff[OF assms] by (auto simp: live_entries_Get)
  with es show ?thesis by blast
qed

theorem file_List_complete_witness:
  "disk_inv NewFile \<and> (\<exists>es. file_List NewFile ''s'' = Inr es)"
  using NewFile_inv file_List_complete[OF NewFile_inv, of "''s''"] by blast

end
