(* ===== verification/Ledger_Compare.thy ===== *)
theory Ledger_Compare
  imports Ledger_File
begin

section \<open>The two ledgers compared\<close>

text \<open>
  The in-memory ledger is the reference and the durable one its production form. Both meet the
  ledger contract; here are the properties that distinguish them: which keys the durable ledger
  can hold at all, what each does with an identity when intent is recorded over a live entry,
  and whether a version can come back after its key was forgotten.
\<close>

subsection \<open>Keys\<close>

lemma Split_chars: "c \<in> set k \<Longrightarrow> c \<noteq> sep \<Longrightarrow> \<exists>seg\<in>set (Split sep k). c \<in> set seg"
proof (induction k)
  case (Cons x k)
  then show ?case by (cases "Split sep k") auto
qed simp

lemma paths_illegal:
  assumes "c \<in> set k" "c \<in> set illegal_chars" "c \<noteq> CHR ''/''"
  shows "paths k = Inl (ErrOther ''illegal key segment'')"
proof -
  from Split_chars[OF assms(1,3)] obtain seg where "seg \<in> set (Split CHR ''/'' k)" "c \<in> set seg" by blast
  with assms(2) have "list_ex illegal_segment (Split CHR ''/'' k)"
    unfolding list_ex_iff illegal_segment_def ContainsAny_def by blast
  then show ?thesis by (simp add: paths_def)
qed

text \<open>The durable ledger refuses every key that contains the digit 0 or the letter x, in
  every operation and without touching the disk: the set of forbidden characters is written as a
  raw string, in which the escape for NUL is the four characters it is spelled with.\<close>

theorem zero_and_x_refused:
  assumes "CHR ''0'' \<in> set k \<or> CHR ''x'' \<in> set k"
  shows "file_Get d k = Inl (ErrOther ''illegal key segment'') \<and>
    file_Begin d k p v = (d, Inl (ErrOther ''illegal key segment'')) \<and>
    file_Resolve d k i a v = (d, Inl (ErrOther ''illegal key segment'')) \<and>
    file_Forget d k v = (d, Inl (ErrOther ''illegal key segment''))"
proof -
  from assms have "paths k = Inl (ErrOther ''illegal key segment'')"
    using paths_illegal[of _ k] by (auto simp: illegal_chars_def)
  then show ?thesis
    by (simp add: file_Get_def file_Begin_def file_Resolve_def file_Forget_def guard_def current_def)
qed

theorem zero_and_x_refused_witness:
  "file_Begin NewFile ''prod/vpc-0a1b'' None LedgerVersionNone = (NewFile, Inl (ErrOther ''illegal key segment''))"
  using zero_and_x_refused[of "''prod/vpc-0a1b''" NewFile None LedgerVersionNone None None] by simp

subsection \<open>Identity\<close>

text \<open>
  Recording new intent over a live entry keeps its identity in the in-memory ledger and drops it
  in the durable one.
\<close>

lemma mem_Begin_keeps_identity:
  assumes "mem_Get m k = Inr (Some (e, v))"
  shows "\<exists>e1 u. mem_Get (fst (mem_Begin m k p v)) k = Inr (Some (e1, u)) \<and> ent_identity e1 = ent_identity e"
proof -
  from assms obtain s where "gm_get (rows m) k = Some s" "e = slot_e s" "v = version (slot_ver s)"
    by (auto simp: mem_Get_simps)
  then show ?thesis by (simp add: mem_Begin_def mem_check_def mem_Get_def Let_def)
qed

lemma file_Begin_drops_identity:
  assumes "disk_inv d" "legal_key k" "key_room d k" "file_Get d k = Inr (Some (e, v))"
    "ent_phase e = LedgerLive"
  shows "\<exists>e1 u. file_Get (fst (file_Begin d k p v)) k = Inr (Some (e1, u)) \<and> ent_identity e1 = None"
proof -
  from assms(4) obtain s ver where cur: "current d k = Inr (s, ver, True)" "e = entry_of k s" "v = version ver"
    by (auto simp: file_Get_def split: sum.splits if_splits)
  let ?w = "empty_state\<lparr>Phase := LedgerPending, Plan := Plan s, Proposed := clone p, About := About s\<rparr>"
  have "slice_norm (Plan s) = Plan s" "slice_norm (About s) = About s"
    using current_normal(1)[OF assms(1,2) cur(1)] by (cases s; simp add: marshalled_def)+
  then have w: "marshalled ?w = Doc ?w" "tombstone_bare ?w" "\<not> Tombstone ?w"
    by (simp_all add: marshalled_def empty_state_def tombstone_bare_def)
  from assms(3) cur(1) have room: "ver + 1 \<noteq> 0" by (simp add: key_room_def)
  from commit_current[OF assms(1,2) cur(1) room w(1,2)] obtain d1 where
    d1: "commit d k ?w ver = (d1, Inr ())" "current d1 k = Inr (?w, ver + 1, \<not> Tombstone ?w)" by auto
  have "file_Begin d k p v = (d1, Inr ())"
    using cur d1(1) assms(5) by (simp add: file_Begin_def guard_def entry_of_def)
  with d1(2) w(3) show ?thesis by (simp add: file_Get_def entry_of_def empty_state_def)
qed

subsection \<open>Versions of a forgotten key\<close>

text \<open>
  The in-memory ledger restarts a key's versions after it was forgotten, so a holder of the
  first version of the earlier entry is accepted on the new one.
\<close>

lemma mem_forget_restarts_versions:
  assumes "mem_Get m k = Inr (Some (e, v))"
  shows "mem_Get (fst (mem_Begin (fst (mem_Forget m k v)) k p LedgerVersionNone)) k
    = Inr (Some (fresh_entry k p, version 1))"
proof -
  from assms obtain s where s: "gm_get (rows m) k = Some s" "v = version (slot_ver s)"
    by (auto simp: mem_Get_simps)
  then have "mem_Forget m k v = (m\<lparr>rows := gm_del k (rows m)\<rparr>, Inr ())"
    by (simp add: mem_Forget_def mem_check_def)
  then show ?thesis by (simp add: mem_Begin_def mem_check_def mem_Get_def fresh_entry_def)
qed

lemma file_Get_file:
  assumes "file_Get d k = Inr (Some (e, v))"
  obtains dr stem n s where "paths k = Inr (dr, stem)" "v = version n" "e = entry_of k s"
    "gm_get (files d) (versionPath dr stem n) = Some (Doc s)"
  using assms
  by (auto simp: file_Get_def current_def Let_def
      split: sum.splits if_splits prod.splits option.splits disk_file.splits)

text \<open>In the durable ledger a version token names one entry for ever. Whatever commits of
  any processes come between two reads of a key, forgetting and recreating it included, and
  whatever system calls fail in them, if both reads return the same version they return the same
  entry: a compare-and-swap on it cannot be fooled by a value that came back.\<close>

theorem version_names_one_entry:
  assumes "file_Get d k = Inr (Some (e, v))" "disk_step\<^sup>*\<^sup>* d d'" "file_Get d' k = Inr (Some (e', v))"
  shows "e' = e"
proof -
  from file_Get_file[OF assms(1)] obtain dr stem n s where a: "paths k = Inr (dr, stem)"
    "v = version n" "e = entry_of k s" "gm_get (files d) (versionPath dr stem n) = Some (Doc s)" .
  from file_Get_file[OF assms(3)] obtain dr' stem' n' s' where b: "paths k = Inr (dr', stem')"
    "v = version n'" "e' = entry_of k s'" "gm_get (files d') (versionPath dr' stem' n') = Some (Doc s')" .
  from disk_steps_append_only[OF assms(2)] a(4)
  have "gm_get (files d') (versionPath dr stem n) = Some (Doc s)" unfolding map_le_def by (metis domI)
  with a b show ?thesis by auto
qed

theorem version_names_one_entry_witness:
  "\<exists>d e. file_Get d ''s/a'' = Inr (Some (e, version 1)) \<and>
     (\<forall>d' e'. disk_step\<^sup>*\<^sup>* d d' \<and> file_Get d' ''s/a'' = Inr (Some (e', version 1)) \<longrightarrow> e' = e)"
proof -
  have p: "paths ''s/a'' = Inr ([''s''], ''a'')"
    by (simp add: paths_def illegal_segment_def ContainsAny_def illegal_chars_def)
  have cur: "current NewFile ''s/a'' = Inr (empty_state, 0, False)"
    using p by (simp add: current_def NewFile_def ReadDir_def)
  have legal: "legal_key ''s/a''" using p by (simp add: legal_key_def HasSuffix_def verSuffix_def)
  have w: "marshalled empty_state = Doc empty_state" "tombstone_bare empty_state" "\<not> Tombstone empty_state"
    by (simp_all add: marshalled_def empty_state_def tombstone_bare_def)
  obtain d where "current d ''s/a'' = Inr (empty_state, 0 + 1, \<not> Tombstone empty_state)"
    using commit_current[OF NewFile_inv legal cur _ w(1,2)] by auto
  then have "file_Get d ''s/a'' = Inr (Some (entry_of ''s/a'' empty_state, version 1))"
    using w(3) by (simp add: file_Get_def)
  with version_names_one_entry[OF this] show ?thesis by blast
qed

end
