(* ===== verification/Json.thy ===== *)
theory Json
  imports Omni_Prelude
begin

section \<open>JSON documents and their text\<close>

text \<open>
  What the sources use of encoding/json: a document, the text \<open>json.Marshal\<close> writes for it and
  the value a decoder with \<open>UseNumber\<close> reads. Numbers are kept as the lexeme they were
  written as. Text is a byte string: bytes from 128 up are written and read as they are, which
  is what the package does for valid UTF-8 other than U+2028 and U+2029. The main result is
  the round trip \<open>parse_print\<close>: what was written is what is read back.
\<close>

subsection \<open>Documents\<close>

datatype json =
    JNull
  | JBool bool
  | JNum string
  | JStr string
  | JArr "json list"
  | JObj "(string \<times> json) list"

type_synonym object = "(string, json) gomap"

subsection \<open>Writing\<close>

definition hex_digit :: "nat \<Rightarrow> char" where
  "hex_digit d = (if d < 10 then char_of (48 + d) else char_of (87 + d))"

definition u_escape :: "char \<Rightarrow> string" where
  "u_escape c = [CHR 0x5C, CHR ''u'', CHR ''0'', CHR ''0'',
     hex_digit (of_char c div 16), hex_digit (of_char c mod 16)]"

definition esc_char :: "char \<Rightarrow> string" where
  "esc_char c =
     (if c = CHR 0x22 then [CHR 0x5C, CHR 0x22]
      else if c = CHR 0x5C then [CHR 0x5C, CHR 0x5C]
      else if c = CHR 0x08 then [CHR 0x5C, CHR ''b'']
      else if c = CHR 0x0C then [CHR 0x5C, CHR ''f'']
      else if c = CHR 0x0A then [CHR 0x5C, CHR ''n'']
      else if c = CHR 0x0D then [CHR 0x5C, CHR ''r'']
      else if c = CHR 0x09 then [CHR 0x5C, CHR ''t'']
      else if (of_char c :: nat) < 32 \<or> c \<in> {CHR ''<'', CHR ''>'', CHR ''&''} then u_escape c
      else [c])"

text \<open>An encoder with \<open>SetEscapeHTML(false)\<close> writes angle brackets and ampersands as they are.\<close>

definition esc_plain :: "char \<Rightarrow> string" where
  "esc_plain c = (if c \<in> {CHR ''<'', CHR ''>'', CHR ''&''} then [c] else esc_char c)"

definition print_str_with :: "(char \<Rightarrow> string) \<Rightarrow> string \<Rightarrow> string" where
  "print_str_with esc s = CHR 0x22 # concat (map esc s) @ [CHR 0x22]"

fun print_with :: "(char \<Rightarrow> string) \<Rightarrow> json \<Rightarrow> string" where
  "print_with esc JNull = ''null''"
| "print_with esc (JBool b) = (if b then ''true'' else ''false'')"
| "print_with esc (JNum s) = s"
| "print_with esc (JStr s) = print_str_with esc s"
| "print_with esc (JArr xs) = ''['' @ strings_Join '','' (map (print_with esc) xs) @ '']''"
| "print_with esc (JObj m) = ''{'' @ strings_Join '',''
     (map (\<lambda>(k, v). print_str_with esc k @ '':'' @ print_with esc v) m) @ ''}''"

abbreviation print_str :: "string \<Rightarrow> string" where
  "print_str \<equiv> print_str_with esc_char"

abbreviation print_json :: "json \<Rightarrow> string" where
  "print_json \<equiv> print_with esc_char"

subsection \<open>Reading\<close>

definition hex_val :: "char \<Rightarrow> nat option" where
  "hex_val c = (let n = (of_char c :: nat) in
     if 48 \<le> n \<and> n \<le> 57 then Some (n - 48)
     else if 97 \<le> n \<and> n \<le> 102 then Some (n - 87)
     else if 65 \<le> n \<and> n \<le> 70 then Some (n - 55) else None)"

text \<open>
  The unescaped bytes of a \<open>\u\<close> escape: one byte below 128, two or three in UTF-8 above.
  Surrogate pairs are not combined.
\<close>

definition utf8_of :: "nat \<Rightarrow> string" where
  "utf8_of n = (if n < 128 then [char_of n]
     else if n < 2048 then [char_of (192 + n div 64), char_of (128 + n mod 64)]
     else [char_of (224 + n div 4096), char_of (128 + n div 64 mod 64), char_of (128 + n mod 64)])"

definition simple_escape :: "char \<Rightarrow> char option" where
  "simple_escape c =
     (if c \<in> {CHR 0x22, CHR 0x5C, CHR ''/''} then Some c
      else if c = CHR ''b'' then Some CHR 0x08
      else if c = CHR ''f'' then Some CHR 0x0C
      else if c = CHR ''n'' then Some CHR 0x0A
      else if c = CHR ''r'' then Some CHR 0x0D
      else if c = CHR ''t'' then Some CHR 0x09 else None)"

text \<open>The rest of a string literal, after its opening quote.\<close>

fun parse_chars :: "string \<Rightarrow> (string \<times> string) option" where
  "parse_chars [] = None"
| "parse_chars (c # r) =
     (if c = CHR 0x22 then Some ([], r)
      else if c = CHR 0x5C then (case r of
          [] \<Rightarrow> None
        | e # r' \<Rightarrow>
            if e = CHR ''u'' then (case r' of
                h1 # h2 # h3 # h4 # r'' \<Rightarrow> (case (hex_val h1, hex_val h2, hex_val h3, hex_val h4) of
                    (Some a, Some b, Some c', Some d) \<Rightarrow>
                      map_option (\<lambda>(s, t). (utf8_of (4096 * a + 256 * b + 16 * c' + d) @ s, t)) (parse_chars r'')
                  | _ \<Rightarrow> None)
              | _ \<Rightarrow> None)
            else (case simple_escape e of
                None \<Rightarrow> None
              | Some x \<Rightarrow> map_option (\<lambda>(s, t). (x # s, t)) (parse_chars r')))
      else if (of_char c :: nat) < 32 then None
      else map_option (\<lambda>(s, t). (c # s, t)) (parse_chars r))"

definition is_ws :: "char \<Rightarrow> bool" where
  "is_ws c \<longleftrightarrow> c \<in> {CHR 0x20, CHR 0x09, CHR 0x0A, CHR 0x0D}"

abbreviation skip_ws :: "string \<Rightarrow> string" where
  "skip_ws s \<equiv> dropWhile is_ws s"

definition is_num_char :: "char \<Rightarrow> bool" where
  "is_num_char c \<longleftrightarrow> is_digit c \<or> c \<in> {CHR ''-'', CHR ''+'', CHR ''.'', CHR ''e'', CHR ''E''}"

text \<open>The JSON number grammar: sign, integer part without leading zeros, fraction, exponent.\<close>

definition valid_exp :: "string \<Rightarrow> bool" where
  "valid_exp s = (case s of [] \<Rightarrow> True
     | c # r \<Rightarrow> c \<in> {CHR ''e'', CHR ''E''} \<and>
         (let ds = (case r of x # r' \<Rightarrow> if x \<in> {CHR ''+'', CHR ''-''} then r' else r | [] \<Rightarrow> [])
          in ds \<noteq> [] \<and> list_all is_digit ds))"

definition valid_frac :: "string \<Rightarrow> bool" where
  "valid_frac s = (case s of [] \<Rightarrow> True
     | c # r \<Rightarrow> if c = CHR ''.''
         then takeWhile is_digit r \<noteq> [] \<and> valid_exp (dropWhile is_digit r) else valid_exp s)"

definition valid_number :: "string \<Rightarrow> bool" where
  "valid_number s = (let u = (case s of c # r \<Rightarrow> if c = CHR ''-'' then r else s | [] \<Rightarrow> []) in
     (case u of [] \<Rightarrow> False
      | c # r \<Rightarrow> if c = CHR ''0'' then valid_frac r
          else is_digit c \<and> valid_frac (dropWhile is_digit r)))"

text \<open>
  A value, the remaining elements of an array and the remaining members of an object. Each
  call spends one unit of fuel; \<open>parse_json\<close> starts with more than the text is long.
\<close>

fun parse_val :: "nat \<Rightarrow> string \<Rightarrow> (json \<times> string) option"
and parse_elems :: "nat \<Rightarrow> string \<Rightarrow> (json list \<times> string) option"
and parse_members :: "nat \<Rightarrow> string \<Rightarrow> ((string \<times> json) list \<times> string) option" where
  "parse_val 0 s = None"
| "parse_val (Suc n) s0 = (case skip_ws s0 of
     [] \<Rightarrow> None
   | c # r \<Rightarrow>
       if c = CHR 0x22 then map_option (\<lambda>(t, u). (JStr t, u)) (parse_chars r)
       else if c = CHR ''['' then (case skip_ws r of
           [] \<Rightarrow> None
         | d # r' \<Rightarrow> if d = CHR '']'' then Some (JArr [], r')
             else map_option (\<lambda>(xs, u). (JArr xs, u)) (parse_elems n (d # r')))
       else if c = CHR ''{'' then (case skip_ws r of
           [] \<Rightarrow> None
         | d # r' \<Rightarrow> if d = CHR ''}'' then Some (JObj [], r')
             else map_option (\<lambda>(m, u). (JObj m, u)) (parse_members n (d # r')))
       else if HasPrefix (c # r) ''null'' then Some (JNull, drop 4 (c # r))
       else if HasPrefix (c # r) ''true'' then Some (JBool True, drop 4 (c # r))
       else if HasPrefix (c # r) ''false'' then Some (JBool False, drop 5 (c # r))
       else (let t = takeWhile is_num_char (c # r) in
         if valid_number t then Some (JNum t, drop (length t) (c # r)) else None))"
| "parse_elems 0 s = None"
| "parse_elems (Suc n) s = (case parse_val n s of
     None \<Rightarrow> None
   | Some (x, r) \<Rightarrow> (case skip_ws r of
       [] \<Rightarrow> None
     | c # r' \<Rightarrow> if c = CHR '']'' then Some ([x], r')
         else if c = CHR '','' then map_option (\<lambda>(xs, u). (x # xs, u)) (parse_elems n r')
         else None))"
| "parse_members 0 s = None"
| "parse_members (Suc n) s = (case skip_ws s of
     [] \<Rightarrow> None
   | q # r0 \<Rightarrow> if q \<noteq> CHR 0x22 then None else (case parse_chars r0 of
       None \<Rightarrow> None
     | Some (k, r1) \<Rightarrow> (case skip_ws r1 of
         [] \<Rightarrow> None
       | co # r2 \<Rightarrow> if co \<noteq> CHR '':'' then None else (case parse_val n r2 of
           None \<Rightarrow> None
         | Some (v, r3) \<Rightarrow> (case skip_ws r3 of
             [] \<Rightarrow> None
           | c # r4 \<Rightarrow> if c = CHR ''}'' then Some ([(k, v)], r4)
               else if c = CHR '','' then map_option (\<lambda>(m, u). ((k, v) # m, u)) (parse_members n r4)
               else None)))))"

definition parse_json :: "string \<Rightarrow> (json \<times> string) option" where
  "parse_json s = parse_val (2 * length s + 2) s"

subsection \<open>Strings round trip\<close>

lemma hex_val_digit [simp]: "d < 16 \<Longrightarrow> hex_val (hex_digit d) = Some d"
  by (auto simp: hex_val_def hex_digit_def Let_def)

lemma parse_u_escape:
  assumes "(of_char c :: nat) < 128"
  shows "parse_chars (u_escape c @ t) = map_option (\<lambda>(s, u). (c # s, u)) (parse_chars t)"
proof -
  have "hex_val CHR ''0'' = Some 0" by (simp add: hex_val_def)
  moreover have "(of_char c :: nat) div 16 < 16" "(of_char c :: nat) mod 16 < 16" using assms by auto
  moreover have "16 * (of_char c div 16) + of_char c mod 16 = (of_char c :: nat)" by simp
  ultimately show ?thesis using assms by (simp add: u_escape_def utf8_of_def)
qed

lemma parse_esc_char:
  "parse_chars (esc_char c @ t) = map_option (\<lambda>(s, u). (c # s, u)) (parse_chars t)"
proof (cases "c \<in> {CHR 0x22, CHR 0x5C, CHR 0x08, CHR 0x0C, CHR 0x0A, CHR 0x0D, CHR 0x09}")
  case True
  then show ?thesis by (auto simp: esc_char_def simple_escape_def)
next
  case False
  show ?thesis
  proof (cases "(of_char c :: nat) < 32 \<or> c \<in> {CHR ''<'', CHR ''>'', CHR ''&''}")
    case True
    then have "(of_char c :: nat) < 128" by auto
    moreover have "esc_char c = u_escape c" using True False by (simp add: esc_char_def)
    ultimately show ?thesis by (simp add: parse_u_escape)
  next
    case plain: False
    then have "esc_char c = [c]" using False by (simp add: esc_char_def)
    with False plain show ?thesis by simp
  qed
qed

lemma parse_esc_plain: "parse_chars (esc_plain c @ t) = map_option (\<lambda>(s, u). (c # s, u)) (parse_chars t)"
  by (auto simp: esc_plain_def parse_esc_char)

subsection \<open>Documents round trip\<close>

fun printable :: "json \<Rightarrow> bool" where
  "printable (JNum s) = (valid_number s \<and> list_all is_num_char s)"
| "printable (JArr xs) = list_all printable xs"
| "printable (JObj m) = list_all (\<lambda>(k, v). printable v) m"
| "printable _ = True"

fun vfuel :: "json \<Rightarrow> nat" where
  "vfuel (JArr xs) = Suc (foldr (\<lambda>x n. Suc (max (vfuel x) n)) xs 0)"
| "vfuel (JObj m) = Suc (foldr (\<lambda>(k, v) n. Suc (max (vfuel v) n)) m 0)"
| "vfuel _ = 1"

definition delim :: "string \<Rightarrow> bool" where
  "delim s = (case s of [] \<Rightarrow> True | c # _ \<Rightarrow> \<not> is_num_char c)"

definition reads_back :: "(char \<Rightarrow> string) \<Rightarrow> json \<Rightarrow> bool" where
  "reads_back esc j \<longleftrightarrow> (\<forall>n rest. vfuel j \<le> n \<longrightarrow> delim rest \<longrightarrow> parse_val n (print_with esc j @ rest) = Some (j, rest))"

lemma valid_number_first:
  assumes "valid_number s"
  obtains c r where "s = c # r" "c = CHR ''-'' \<or> is_digit c"
proof -
  have "is_digit CHR ''0''" by (simp add: is_digit_def)
  with assms that show ?thesis
    by (cases s) (auto simp: valid_number_def Let_def split: list.splits if_splits)
qed

lemma takeWhile_delim: "list_all P s \<Longrightarrow> (case t of [] \<Rightarrow> True | c # _ \<Rightarrow> \<not> P c) \<Longrightarrow> takeWhile P (s @ t) = s"
  by (induction s) (auto split: list.splits)

lemma num_first_not:
  assumes "c = CHR ''-'' \<or> is_digit c"
  shows "c \<noteq> CHR 0x22" "c \<noteq> CHR ''[''" "c \<noteq> CHR ''{''" "c \<noteq> CHR ''n''" "c \<noteq> CHR ''t''" "c \<noteq> CHR ''f''"
    "\<not> is_ws c" "c \<noteq> CHR '']''" "c \<noteq> CHR ''}''"
proof -
  have "(of_char c :: nat) = 45 \<or> 48 \<le> (of_char c :: nat) \<and> (of_char c :: nat) \<le> 57"
    using assms by (elim disjE) (simp_all add: is_digit_def)
  then show "c \<noteq> CHR 0x22" "c \<noteq> CHR ''[''" "c \<noteq> CHR ''{''" "c \<noteq> CHR ''n''" "c \<noteq> CHR ''t''" "c \<noteq> CHR ''f''"
    "\<not> is_ws c" "c \<noteq> CHR '']''" "c \<noteq> CHR ''}''"
    by (auto simp: is_ws_def)
qed

lemma parse_val_num:
  assumes "c \<noteq> CHR 0x22" "c \<noteq> CHR ''[''" "c \<noteq> CHR ''{''" "c \<noteq> CHR ''n''" "c \<noteq> CHR ''t''" "c \<noteq> CHR ''f''"
    and "\<not> is_ws c" "takeWhile is_num_char (c # t) = s" "valid_number s"
  shows "parse_val (Suc m) (c # t) = Some (JNum s, drop (length s) (c # t))"
proof -
  have "\<not> HasPrefix (c # t) ''null''" "\<not> HasPrefix (c # t) ''true''" "\<not> HasPrefix (c # t) ''false''"
    using assms(4-6) by (simp_all add: HasPrefix_def)
  with assms show ?thesis
    by (simp only: parse_val.simps dropWhile.simps if_False list.case Let_def if_True)
qed

lemma delim_simps [simp]: "delim (CHR '','' # s)" "delim (CHR '']'' # s)" "delim (CHR ''}'' # s)" "delim []"
  by (simp_all add: delim_def is_num_char_def is_digit_def)

lemma ws_simps [simp]: "\<not> is_ws CHR '',''" "\<not> is_ws CHR '']''" "\<not> is_ws CHR ''}''" "\<not> is_ws CHR '':''"
  "\<not> is_ws CHR 0x22" "\<not> is_ws CHR ''[''" "\<not> is_ws CHR ''{''"
  by (simp_all add: is_ws_def)

lemma join_fuel:
  assumes "\<And>x. x \<in> set xs \<Longrightarrow> f x \<le> 2 * length (g x)"
  shows "foldr (\<lambda>x n. Suc (max (f x) n)) xs 0 \<le> 2 * length (strings_Join '','' (map g xs)) + 1"
  using assms
proof (induction xs)
  case (Cons x xs)
  then have "foldr (\<lambda>x n. Suc (max (f x) n)) xs 0 \<le> 2 * length (strings_Join '','' (map g xs)) + 1" by simp
  with Cons.prems[of x] show ?case by (cases xs) auto
qed simp

text \<open>What a way of escaping characters owes the reader, and what follows for whole documents.\<close>

locale json_escaper =
  fixes esc :: "char \<Rightarrow> string"
  assumes parse_esc: "parse_chars (esc c @ t) = map_option (\<lambda>(s, u). (c # s, u)) (parse_chars t)"
begin

lemma parse_chars_print: "parse_chars (concat (map esc s) @ CHR 0x22 # rest) = Some (s, rest)"
  by (induction s) (simp_all add: parse_esc)

lemma reads_back_num:
  assumes "valid_number s" "list_all is_num_char s"
  shows "reads_back esc (JNum s)"
proof -
  obtain c r where s: "s = c # r" and c: "c = CHR ''-'' \<or> is_digit c"
    using assms(1) by (rule valid_number_first)
  note c' = num_first_not(1-7)[OF c]
  show ?thesis unfolding reads_back_def
  proof (intro allI impI)
    fix n rest assume "vfuel (JNum s) \<le> n" "delim rest"
    then obtain m where n: "n = Suc m" by (cases n) auto
    have "takeWhile is_num_char (s @ rest) = s"
      using \<open>delim rest\<close> unfolding delim_def by (rule takeWhile_delim[OF assms(2)])
    then have "takeWhile is_num_char (c # r @ rest) = c # r" unfolding s by (simp only: append_Cons)
    from parse_val_num[OF c' this assms(1)[unfolded s], of m] n s
    show "parse_val n (print_with esc (JNum s) @ rest) = Some (JNum s, rest)" by simp
  qed
qed

lemma first_char:
  "printable j \<Longrightarrow> print_with esc j \<noteq> [] \<and> \<not> is_ws (hd (print_with esc j)) \<and>
     hd (print_with esc j) \<noteq> CHR '']'' \<and> hd (print_with esc j) \<noteq> CHR ''}''"
proof (cases j)
  case (JNum s)
  assume "printable j"
  with JNum obtain c r where s: "s = c # r" and c: "c = CHR ''-'' \<or> is_digit c"
    by (auto elim: valid_number_first)
  from JNum s num_first_not(7-9)[OF c] show ?thesis by simp
qed (simp_all add: is_ws_def print_str_with_def)

lemma parse_elems_print:
  assumes "\<And>x. x \<in> set xs \<Longrightarrow> reads_back esc x" "xs \<noteq> []"
    and "foldr (\<lambda>x n. Suc (max (vfuel x) n)) xs 0 \<le> n"
  shows "parse_elems n (strings_Join '','' (map (print_with esc) xs) @ CHR '']'' # rest) = Some (xs, rest)"
  using assms
proof (induction xs arbitrary: n)
  case (Cons x xs)
  then obtain m where n: "n = Suc m" by (cases n) auto
  show ?case
  proof (cases xs)
    case Nil
    with Cons.prems n show ?thesis by (simp add: reads_back_def)
  next
    case (Cons y ys)
    have rb: "parse_val m (print_with esc x @ CHR '','' # t) = Some (x, CHR '','' # t)" for t
      using Cons.prems(1)[of x] Cons.prems(3) n by (simp add: reads_back_def)
    have "parse_elems m (strings_Join '','' (map (print_with esc) xs) @ CHR '']'' # rest) = Some (xs, rest)"
      using Cons.IH[of m] Cons.prems n Cons by simp
    with rb n Cons show ?thesis by simp
  qed
qed simp

lemma parse_members_print:
  assumes "\<And>k v. (k, v) \<in> set m \<Longrightarrow> reads_back esc v" "m \<noteq> []"
    and "foldr (\<lambda>(k, v) n. Suc (max (vfuel v) n)) m 0 \<le> n"
  shows "parse_members n (strings_Join '','' (map (\<lambda>(k, v). print_str_with esc k @ '':'' @ print_with esc v) m)
      @ CHR ''}'' # rest) = Some (m, rest)"
  using assms
proof (induction m arbitrary: n)
  case (Cons p m)
  obtain k v where p: "p = (k, v)" by (cases p)
  obtain i where n: "n = Suc i" using Cons.prems(3) p by (cases n) auto
  have key: "parse_chars (concat (map esc k) @ CHR 0x22 # t) = Some (k, t)" for t
    by (rule parse_chars_print)
  show ?case
  proof (cases m)
    case Nil
    with Cons.prems n p key show ?thesis by (simp add: reads_back_def print_str_with_def)
  next
    case (Cons q qs)
    have rb: "parse_val i (print_with esc v @ CHR '','' # t) = Some (v, CHR '','' # t)" for t
      using Cons.prems(1)[of k v] Cons.prems(3) n p by (simp add: reads_back_def)
    have "parse_members i (strings_Join '','' (map (\<lambda>(k, v). print_str_with esc k @ '':'' @ print_with esc v) m)
      @ CHR ''}'' # rest) = Some (m, rest)"
    proof (rule Cons.IH)
      show "reads_back esc w" if "(l, w) \<in> set m" for l w using Cons.prems(1)[of l w] that by simp
    qed (use Cons.prems(3) n p Cons in simp_all)
    with rb n p key Cons show ?thesis by (simp add: print_str_with_def)
  qed
qed simp

lemma reads_back_all: "printable j \<Longrightarrow> reads_back esc j"
proof (induction j)
  case (JNum s)
  then show ?case by (simp add: reads_back_num)
next
  case (JStr s)
  show ?case unfolding reads_back_def
  proof (intro allI impI)
    fix n rest assume "vfuel (JStr s) \<le> n"
    then obtain m where "n = Suc m" by (cases n) auto
    then show "parse_val n (print_with esc (JStr s) @ rest) = Some (JStr s, rest)"
      by (simp add: print_str_with_def parse_chars_print)
  qed
next
  case (JArr xs)
  show ?case unfolding reads_back_def
  proof (intro allI impI)
    fix n rest assume n: "vfuel (JArr xs) \<le> n"
    then obtain m where m: "n = Suc m" by (cases n) auto
    show "parse_val n (print_with esc (JArr xs) @ rest) = Some (JArr xs, rest)"
    proof (cases xs)
      case (Cons x ys)
      have px: "printable x" using JArr.prems Cons by simp
      obtain d r where d: "strings_Join '','' (map (print_with esc) xs) @ CHR '']'' # rest = d # r"
        and "\<not> is_ws d" "d \<noteq> CHR '']''"
        using first_char[OF px] Cons by (cases ys) (auto simp: neq_Nil_conv)
      moreover have "parse_elems m (strings_Join '','' (map (print_with esc) xs) @ CHR '']'' # rest) = Some (xs, rest)"
        using JArr n m Cons by (intro parse_elems_print) (auto simp: list_all_iff)
      ultimately show ?thesis using m by simp
    qed (use m in simp)
  qed
next
  case (JObj ms)
  show ?case unfolding reads_back_def
  proof (intro allI impI)
    fix n rest assume n: "vfuel (JObj ms) \<le> n"
    then obtain m where m: "n = Suc m" by (cases n) auto
    have sub: "reads_back esc v" if "(k, v) \<in> set ms" for k v
      using that JObj.prems by (intro JObj.IH[of "(k, v)"]) (auto simp: list_all_iff)
    show "parse_val n (print_with esc (JObj ms) @ rest) = Some (JObj ms, rest)"
    proof (cases ms)
      case (Cons x ys)
      obtain k v where x: "x = (k, v)" by (cases x)
      obtain r where d: "strings_Join '','' (map (\<lambda>(k, v). print_str_with esc k @ '':'' @ print_with esc v) ms) @ CHR ''}'' # rest
          = CHR 0x22 # r"
        using Cons x by (cases ys) (auto simp: print_str_with_def)
      moreover have "parse_members m (strings_Join '','' (map (\<lambda>(k, v). print_str_with esc k @ '':'' @ print_with esc v) ms)
          @ CHR ''}'' # rest) = Some (ms, rest)"
        using n m Cons by (intro parse_members_print[OF sub]) auto
      ultimately show ?thesis using m by simp
    qed (use m in simp)
  qed
qed (auto simp: reads_back_def HasPrefix_def gr0_conv_Suc Suc_le_eq is_ws_def)

lemma vfuel_bound: "printable j \<Longrightarrow> vfuel j \<le> 2 * length (print_with esc j)"
proof (induction j)
  case (JNum s)
  then obtain c r where "s = c # r" by (auto elim: valid_number_first)
  then show ?case by simp
next
  case (JArr xs)
  then have "foldr (\<lambda>x n. Suc (max (vfuel x) n)) xs 0 \<le> 2 * length (strings_Join '','' (map (print_with esc) xs)) + 1"
    by (intro join_fuel) (auto simp: list_all_iff)
  then show ?case by simp
next
  case (JObj m)
  let ?g = "\<lambda>(k, v). print_str_with esc k @ '':'' @ print_with esc v"
  have "vfuel (snd p) \<le> 2 * length (?g p)" if "p \<in> set m" for p
  proof -
    obtain k v where p: "p = (k, v)" by (cases p)
    have "vfuel v \<le> 2 * length (print_with esc v)"
      using that JObj.prems p by (intro JObj.IH[of "(k, v)"]) (auto simp: list_all_iff)
    with p show ?thesis by simp
  qed
  then have "foldr (\<lambda>p n. Suc (max (vfuel (snd p)) n)) m 0 \<le> 2 * length (strings_Join '','' (map ?g m)) + 1"
    by (rule join_fuel)
  then show ?case by (simp add: case_prod_unfold)
qed (simp_all add: print_str_with_def)

text \<open>What is written is read back, and a decoder reading on finds what followed it.\<close>

lemma parse_written:
  assumes "printable j" "delim rest"
  shows "parse_json (print_with esc j @ rest) = Some (j, rest)"
proof -
  have "vfuel j \<le> 2 * length (print_with esc j @ rest) + 2" using vfuel_bound[OF assms(1)] by simp
  with reads_back_all[OF assms(1)] assms(2) show ?thesis
    unfolding parse_json_def reads_back_def by blast
qed

end

interpretation html: json_escaper esc_char
  by unfold_locales (rule parse_esc_char)

interpretation plain: json_escaper esc_plain
  by unfold_locales (rule parse_esc_plain)

lemmas parse_print = html.parse_written

lemma print_json_not_Nil: "printable j \<Longrightarrow> print_json j \<noteq> []"
  using html.first_char by blast

lemma fmt_nat_first: "n > 0 \<Longrightarrow> hd (fmt_nat n) \<noteq> CHR ''0''"
proof (induction n rule: fmt_nat.induct)
  case (1 n)
  show ?case
  proof (cases "n < 10")
    case True
    have "digit_val CHR ''0'' = 0" by (simp add: digit_val_def)
    with True 1(2) have "digit_char n \<noteq> CHR ''0''" using digit_char_val[of n] by force
    with True show ?thesis by (subst fmt_nat.simps) simp
  next
    case False
    then show ?thesis using 1(1) by (subst fmt_nat.simps) simp
  qed
qed

lemma printable_fmt_nat: "printable (JNum (fmt_nat n))"
proof -
  have digits: "list_all is_digit (fmt_nat n)" by (rule fmt_nat_digits)
  obtain c r where s: "fmt_nat n = c # r" by (cases "fmt_nat n") auto
  from digits s have c: "is_digit c" and r: "dropWhile is_digit r = []"
    by (simp_all add: list_all_iff)
  have "r = []" if "c = CHR ''0''"
  proof (cases "n = 0")
    case True
    then show ?thesis using s by (simp add: fmt_nat.simps)
  next
    case False
    with fmt_nat_first[of n] s that show ?thesis by simp
  qed
  moreover have "c \<noteq> CHR ''-''" using c by (auto simp: is_digit_def)
  ultimately have "valid_number (fmt_nat n)"
    using c s unfolding valid_number_def Let_def by (simp add: r valid_frac_def)
  moreover have "list_all is_num_char (fmt_nat n)"
    using digits by (auto simp: list_all_iff is_num_char_def)
  ultimately show ?thesis by simp
qed

lemma printable_fmt_int: "printable (JNum (fmt_int i))"
proof (cases "i < 0")
  case False
  then show ?thesis using printable_fmt_nat[of "nat i"] by (simp add: fmt_int_def)
next
  case True
  obtain c r where s: "fmt_nat (nat (- i)) = c # r" by (cases "fmt_nat (nat (- i))") auto
  with fmt_nat_digits[of "nat (- i)"] have "c \<noteq> CHR ''-''" by (auto simp: is_digit_def)
  with printable_fmt_nat[of "nat (- i)"] True s show ?thesis
    by (simp add: fmt_int_def valid_number_def is_num_char_def)
qed

subsection \<open>Decoding into struct fields\<close>

text \<open>
  How \<open>json.Unmarshal\<close> fills the fields of a struct: an absent member and null leave the zero
  value, a member of another kind is an error, and of two members with one name the later
  counts. Names are matched exactly, as the encoder writes them.
\<close>

definition str_field :: "object \<Rightarrow> string \<Rightarrow> string option" where
  "str_field m k = (case map_of (rev m) k of
     None \<Rightarrow> Some [] | Some JNull \<Rightarrow> Some [] | Some (JStr s) \<Rightarrow> Some s | _ \<Rightarrow> None)"

definition json_str :: "json \<Rightarrow> string option" where
  "json_str j = (case j of JStr s \<Rightarrow> Some s | JNull \<Rightarrow> Some [] | _ \<Rightarrow> None)"

definition strs_field :: "object \<Rightarrow> string \<Rightarrow> string list option" where
  "strs_field m k = (case map_of (rev m) k of
     None \<Rightarrow> Some [] | Some JNull \<Rightarrow> Some [] | Some (JArr xs) \<Rightarrow> those (map json_str xs) | _ \<Rightarrow> None)"

definition bool_field :: "object \<Rightarrow> string \<Rightarrow> bool option" where
  "bool_field m k = (case map_of (rev m) k of
     None \<Rightarrow> Some False | Some JNull \<Rightarrow> Some False | Some (JBool b) \<Rightarrow> Some b | _ \<Rightarrow> None)"

definition int_field :: "object \<Rightarrow> string \<Rightarrow> int option" where
  "int_field m k = (case map_of (rev m) k of
     None \<Rightarrow> Some 0 | Some JNull \<Rightarrow> Some 0 | Some (JNum s) \<Rightarrow> parse_int s | _ \<Rightarrow> None)"

lemma those_map_Some: "those (map (\<lambda>s. Some (f s)) xs) = Some (map f xs)"
  by (induction xs) simp_all

text \<open>Encoded text is one line: it has no control characters.\<close>

lemma hex_digit_no_control: "d < 16 \<Longrightarrow> 32 \<le> (of_char (hex_digit d) :: nat)"
  by (simp add: hex_digit_def)

lemma u_escape_no_control: "c \<in> set (u_escape d) \<Longrightarrow> 32 \<le> (of_char c :: nat)"
proof -
  have "(of_char d :: nat) div 16 < 16" "(of_char d :: nat) mod 16 < 16"
    using of_char_mod_256[of d, where 'a=nat] by (auto simp: less_mult_imp_div_less)
  then show "32 \<le> (of_char c :: nat)" if "c \<in> set (u_escape d)"
    using that hex_digit_no_control[of "of_char d div 16"] hex_digit_no_control[of "of_char d mod 16"]
    by (simp add: u_escape_def) (elim disjE; simp)
qed

lemma esc_char_no_control: "c \<in> set (esc_char d) \<Longrightarrow> 32 \<le> (of_char c :: nat)"
proof (cases "c \<in> set (u_escape d)")
  case False
  assume "c \<in> set (esc_char d)"
  with False have "c \<in> set [CHR 0x22, CHR 0x5C, CHR ''b'', CHR ''f'', CHR ''n'', CHR ''r'', CHR ''t''] \<or>
      c = d \<and> \<not> (of_char d :: nat) < 32"
    unfolding esc_char_def by (simp split: if_split_asm) auto
  then show ?thesis by (simp, elim disjE conjE; simp)
qed (rule u_escape_no_control)

lemma esc_plain_no_control: "c \<in> set (esc_plain d) \<Longrightarrow> 32 \<le> (of_char c :: nat)"
  by (auto simp: esc_plain_def split: if_splits dest: esc_char_no_control)

lemma set_strings_Join: "set (strings_Join sep xs) \<subseteq> set sep \<union> (\<Union>x\<in>set xs. set x)"
  by (induction sep xs rule: strings_Join.induct) auto

text \<open>An escaper that leaves no control character: a document is written on one line.\<close>

locale json_line_escaper = json_escaper +
  assumes no_control: "c \<in> set (esc d) \<Longrightarrow> 32 \<le> (of_char c :: nat)"
begin

lemma str_no_control: "c \<in> set (print_str_with esc s) \<Longrightarrow> 32 \<le> (of_char c :: nat)"
  by (auto simp: print_str_with_def dest: no_control)

lemma written_no_control:
  "printable j \<Longrightarrow> c \<in> set (print_with esc j) \<Longrightarrow> 32 \<le> (of_char c :: nat)"
proof (induction j arbitrary: c)
  case (JNum s)
  then show ?case by (auto simp: list_all_iff is_num_char_def is_digit_def)
next
  case (JArr xs)
  from JArr(3) set_strings_Join[of "'',''" "map (print_with esc) xs"] JArr(1,2) show ?case
    by (fastforce simp: list_all_iff)
next
  case (JObj m)
  let ?ms = "map (\<lambda>(k, v). print_str_with esc k @ '':'' @ print_with esc v) m"
  from JObj(3) set_strings_Join[of "'',''" ?ms] consider
    "c \<in> {CHR ''{'', CHR ''}'', CHR '','', CHR '':''}"
    | k v where "(k, v) \<in> set m" "c \<in> set (print_str_with esc k) \<or> c \<in> set (print_with esc v)"
    by fastforce
  then show ?case
  proof cases
    case 2
    have "32 \<le> (of_char c :: nat)" if "c \<in> set (print_with esc v)"
      by (rule JObj(1)[of "(k, v)" v c]) (use 2(1) that JObj(2) in \<open>auto simp: list_all_iff\<close>)
    with 2(2) show ?thesis by (auto dest: str_no_control)
  qed auto
qed (auto split: if_splits dest: str_no_control)

end

interpretation html: json_line_escaper esc_char
  by unfold_locales (rule esc_char_no_control)

interpretation plain: json_line_escaper esc_plain
  by unfold_locales (rule esc_plain_no_control)

lemmas print_json_no_control = html.written_no_control

end
