(* ===== verification/Merge.thy ===== *)
theory Merge
  imports Json
begin

section \<open>Field ownership and convergence: internal/merge and internal/apply\<close>

text \<open>
  An intent document is a JSON object. The decoder keeps numbers as the text they were written
  as, so a number is its lexeme. A byte slice that is only ever handed to the JSON decoder is
  represented by what the decoder makes of it: nothing, a value, or a syntax error. The
  reference notion of what a mutation means to the target is \<open>merge_patch\<close>: a JSON merge
  document, where a value enforces itself and an explicit null removes the field.
\<close>

subsection \<open>Documents\<close>

datatype jsontext = JEmpty | JText json | JMalformed

fun json_wf :: "json \<Rightarrow> bool" where
  "json_wf (JArr xs) = list_all json_wf xs"
| "json_wf (JObj m) = (gm_wf m \<and> list_all (\<lambda>(k, v). json_wf v) m)"
| "json_wf _ = True"

abbreviation obj_wf :: "object \<Rightarrow> bool" where
  "obj_wf ob \<equiv> json_wf (JObj ob)"

subsection \<open>The strategies\<close>

definition childOf :: "object \<Rightarrow> string \<Rightarrow> object" where
  "childOf ob k = (case gm_get ob k of Some (JObj c) \<Rightarrow> c | _ \<Rightarrow> [])"

fun enforce :: "object \<Rightarrow> object \<Rightarrow> object" where
  "enforce desired drops =
     map (\<lambda>(k, dv). case dv of
         JObj sub \<Rightarrow> (k, JObj (enforce sub (childOf drops k)))
       | _ \<Rightarrow> (k, dv)) desired
     @ map (\<lambda>(k, _). (k, JNull)) (filter (\<lambda>(k, _). gm_get desired k = None) drops)"

declare enforce.simps [simp del]

definition decode :: "jsontext \<Rightarrow> object result" where
  "decode b = (case b of
     JEmpty \<Rightarrow> Inr []
   | JText (JObj ob) \<Rightarrow> Inr ob
   | JText JNull \<Rightarrow> Inr []
   | _ \<Rightarrow> Inl (ErrOther ''merge: not a JSON object''))"

definition decode2 :: "jsontext \<Rightarrow> jsontext \<Rightarrow> (object \<times> object) result" where
  "decode2 b1 b2 = rbind (decode b1) (\<lambda>o1. rbind (decode b2) (\<lambda>o2. Inr (o1, o2)))"

definition encode :: "object \<Rightarrow> jsontext" where
  "encode ob = JText (JObj ob)"

datatype strategy = Replace | Additive | ThreeWay

fun Apply :: "strategy \<Rightarrow> jsontext \<Rightarrow> jsontext \<Rightarrow> jsontext \<Rightarrow> jsontext result" where
  "Apply Replace prior desired actual =
     rbind (decode2 desired actual) (\<lambda>(d, a). Inr (encode (enforce d a)))"
| "Apply Additive prior desired actual =
     rbind (decode desired) (\<lambda>d. Inr (encode (enforce d [])))"
| "Apply ThreeWay prior desired actual =
     rbind (decode2 desired prior) (\<lambda>(d, p). Inr (encode (enforce d p)))"

subsection \<open>The convergence test\<close>

text \<open>\<open>fmt.Sprint\<close> of a decoded value.\<close>

fun sprint :: "json \<Rightarrow> string" where
  "sprint JNull = ''<nil>''"
| "sprint (JBool b) = (if b then ''true'' else ''false'')"
| "sprint (JNum s) = s"
| "sprint (JStr s) = s"
| "sprint (JArr xs) = ''['' @ strings_Join '' '' (map sprint xs) @ '']''"
| "sprint (JObj m) = ''map['' @ strings_Join '' ''
     (map (\<lambda>(k, t). k @ '':'' @ t) (sort_key fst (map (\<lambda>(k, v). (k, sprint v)) m))) @ '']''"

fun satisfied :: "object \<Rightarrow> object \<Rightarrow> bool" where
  "satisfied want have = list_all (\<lambda>(k, v).
     case v of
       JNull \<Rightarrow> gm_get have k = None
     | JObj wsub \<Rightarrow> (case gm_get have k of
           None \<Rightarrow> False
         | Some (JObj gsub) \<Rightarrow> satisfied wsub gsub
         | Some got \<Rightarrow> sprint v = sprint got)
     | _ \<Rightarrow> (case gm_get have k of None \<Rightarrow> False | Some got \<Rightarrow> sprint v = sprint got)) want"

declare satisfied.simps [simp del]

definition decodeDoc :: "jsontext \<Rightarrow> object option" where
  "decodeDoc b = (case b of JText (JObj ob) \<Rightarrow> Some ob | JText JNull \<Rightarrow> Some [] | _ \<Rightarrow> None)"

definition converged :: "jsontext \<Rightarrow> jsontext \<Rightarrow> bool result" where
  "converged mutation actual = (case decodeDoc mutation of
     None \<Rightarrow> Inl (ErrOther ''apply: mutation is not a JSON object'')
   | Some want \<Rightarrow> (case decodeDoc actual of
       None \<Rightarrow> Inr False
     | Some have \<Rightarrow> Inr (satisfied want have)))"

definition Satisfied :: "jsontext \<Rightarrow> jsontext \<Rightarrow> bool result" where
  "Satisfied mutation actual = converged mutation actual"

subsection \<open>Reference meaning of a mutation\<close>

fun merge_patch :: "object \<Rightarrow> object \<Rightarrow> object" where
  "merge_patch t [] = t"
| "merge_patch t ((k, v) # ps) = merge_patch (case v of
       JNull \<Rightarrow> gm_del k t
     | JObj sub \<Rightarrow> gm_set k (JObj (merge_patch (childOf t k) sub)) t
     | _ \<Rightarrow> gm_set k v t) ps"

definition patched_value :: "object \<Rightarrow> string \<Rightarrow> json \<Rightarrow> json option" where
  "patched_value t k v = (case v of
       JNull \<Rightarrow> None
     | JObj sub \<Rightarrow> Some (JObj (merge_patch (childOf t k) sub))
     | _ \<Rightarrow> Some v)"

subsection \<open>Lemmas\<close>

lemma patched_value_cong:
  "gm_get t k = gm_get t' k \<Longrightarrow> patched_value t k v = patched_value t' k v"
  by (cases v) (simp_all add: patched_value_def childOf_def)

lemma merge_patch_step:
  "merge_patch t ((k, v) # ps) = merge_patch (case patched_value t k v of
     None \<Rightarrow> gm_del k t | Some w \<Rightarrow> gm_set k w t) ps"
  by (cases v) (simp_all add: patched_value_def)

lemma gm_get_merge_patch:
  "gm_wf ps \<Longrightarrow> gm_get (merge_patch t ps) k =
     (case gm_get ps k of None \<Rightarrow> gm_get t k | Some v \<Rightarrow> patched_value t k v)"
proof (induction ps arbitrary: t)
  case Nil
  then show ?case by simp
next
  case (Cons p ps)
  obtain k0 v0 where p: "p = (k0, v0)" by (cases p)
  let ?t = "case patched_value t k0 v0 of None \<Rightarrow> gm_del k0 t | Some w \<Rightarrow> gm_set k0 w t"
  have get: "gm_get ?t k' = (if k' = k0 then patched_value t k0 v0 else gm_get t k')" for k'
    by (auto split: option.splits)
  have IH: "gm_get (merge_patch ?t ps) k =
      (case gm_get ps k of None \<Rightarrow> gm_get ?t k | Some v \<Rightarrow> patched_value ?t k v)"
    using Cons p by simp
  show ?case
  proof (cases "k = k0")
    case True
    with Cons.prems p have "gm_get ps k = None" by (simp add: gm_get_None_iff)
    with True IH get p show ?thesis by (simp add: merge_patch_step del: merge_patch.simps)
  next
    case False
    with get have "gm_get ?t k = gm_get t k" by simp
    then have "patched_value ?t k v = patched_value t k v" for v by (rule patched_value_cong)
    with False IH get p show ?thesis
      by (simp add: merge_patch_step del: merge_patch.simps split: option.splits)
  qed
qed

definition enforced_value :: "object \<Rightarrow> string \<Rightarrow> json \<Rightarrow> json" where
  "enforced_value drops k v = (case v of JObj sub \<Rightarrow> JObj (enforce sub (childOf drops k)) | _ \<Rightarrow> v)"

lemma enforce_alt:
  "enforce desired drops = map (\<lambda>(k, v). (k, enforced_value drops k v)) desired
     @ map (\<lambda>(k, _). (k, JNull)) (filter (\<lambda>(k, _). gm_get desired k = None) drops)"
proof -
  have "(case v of JObj sub \<Rightarrow> (k, JObj (enforce sub (childOf drops k))) | _ \<Rightarrow> (k, v)) =
      (k, enforced_value drops k v)" for k v
    by (cases v) (simp_all add: enforced_value_def)
  then show ?thesis by (subst enforce.simps) simp
qed

lemma map_of_map_dep: "map_of (map (\<lambda>(k, v). (k, f k v)) m) k = map_option (f k) (map_of m k)"
  by (induction m) auto

lemma gm_get_enforce:
  "gm_get (enforce d p) k = (case gm_get d k of
       Some v \<Rightarrow> Some (enforced_value p k v)
     | None \<Rightarrow> if gm_get p k = None then None else Some JNull)"
proof -
  have "gm_get (map (\<lambda>(k, _). (k, JNull)) (filter (\<lambda>(k, _). gm_get d k = None) p)) k =
      (if gm_get d k = None \<and> gm_get p k \<noteq> None then Some JNull else None)"
    by (induction p) auto
  then show ?thesis
    by (simp add: enforce_alt map_of_map_dep map_add_def split: option.splits)
qed

lemma enforce_keys: "set (gm_keys (enforce d p)) = set (gm_keys d) \<union> set (gm_keys p)"
  by (force simp: enforce_alt gm_get_None_iff)

lemma gm_wf_enforce:
  assumes "gm_wf d" "gm_wf p"
  shows "gm_wf (enforce d p)"
proof -
  have "gm_keys (enforce d p) = gm_keys d @ filter (\<lambda>k. k \<notin> set (gm_keys d)) (gm_keys p)"
    by (simp add: enforce_alt comp_def case_prod_unfold gm_get_None_iff filter_map)
  with assms show ?thesis by (auto simp: gm_wf_def)
qed

lemma obj_wf_value: "obj_wf d \<Longrightarrow> (k, v) \<in> set d \<Longrightarrow> json_wf v"
  by (auto simp: list_all_iff)

lemma obj_wfI: "gm_wf d \<Longrightarrow> (\<And>k v. (k, v) \<in> set d \<Longrightarrow> json_wf v) \<Longrightarrow> obj_wf d"
  by (auto simp: list_all_iff)

lemma json_wf_childOf:
  assumes "obj_wf p" shows "obj_wf (childOf p k)"
proof (cases "\<exists>c. gm_get p k = Some (JObj c)")
  case True
  then obtain c where c: "gm_get p k = Some (JObj c)" by blast
  with obj_wf_value[OF assms map_of_SomeD[OF c]] show ?thesis by (simp add: childOf_def)
next
  case False
  then have "childOf p k = []" by (auto simp: childOf_def split: option.splits json.splits)
  then show ?thesis by simp
qed

lemma json_wf_enforce: "obj_wf d \<Longrightarrow> obj_wf p \<Longrightarrow> obj_wf (enforce d p)"
proof (induction d p rule: enforce.induct)
  case (1 d p)
  show ?case
  proof (rule obj_wfI)
    show "gm_wf (enforce d p)" using 1 by (simp add: gm_wf_enforce)
  next
    fix k v assume "(k, v) \<in> set (enforce d p)"
    then consider "v = JNull" | w where "(k, w) \<in> set d" "v = enforced_value p k w"
      by (auto simp: enforce_alt)
    then show "json_wf v"
    proof cases
      case 2
      note w = obj_wf_value[OF 1(2) 2(1)]
      show ?thesis
      proof (cases w)
        case (JObj sub)
        with 1(1)[OF 2(1) refl JObj] w json_wf_childOf[OF 1(3)] 2(2) show ?thesis
          by (simp add: enforced_value_def del: json_wf.simps)
      qed (use 2 w in \<open>simp_all add: enforced_value_def\<close>)
    qed simp
  qed
qed

lemma size_child: "(k, v) \<in> set w \<Longrightarrow> size v < size (JObj w)"
  by (induction w) auto

text \<open>Whatever the mutation, a target that applies it satisfies it.\<close>

lemma satisfied_iff:
  "satisfied want have \<longleftrightarrow> (\<forall>(k, v) \<in> set want. case v of
       JNull \<Rightarrow> gm_get have k = None
     | JObj wsub \<Rightarrow> (case gm_get have k of
           None \<Rightarrow> False
         | Some (JObj gsub) \<Rightarrow> satisfied wsub gsub
         | Some got \<Rightarrow> sprint v = sprint got)
     | _ \<Rightarrow> (case gm_get have k of None \<Rightarrow> False | Some got \<Rightarrow> sprint v = sprint got))"
  by (subst satisfied.simps) (simp add: list_all_iff)

lemma satisfied_merge_patch: "obj_wf w \<Longrightarrow> satisfied w (merge_patch t w)"
proof (induction "size (JObj w)" arbitrary: w t rule: less_induct)
  case less
  have wf: "gm_wf w" using less.prems by simp
  have "case v of
       JNull \<Rightarrow> gm_get (merge_patch t w) k = None
     | JObj wsub \<Rightarrow> (case gm_get (merge_patch t w) k of
           None \<Rightarrow> False
         | Some (JObj gsub) \<Rightarrow> satisfied wsub gsub
         | Some got \<Rightarrow> sprint v = sprint got)
     | _ \<Rightarrow> (case gm_get (merge_patch t w) k of None \<Rightarrow> False | Some got \<Rightarrow> sprint v = sprint got)"
    if kv: "(k, v) \<in> set w" for k v
  proof -
    from kv wf have "gm_get w k = Some v" by (simp add: gm_get_Some_iff)
    then have get: "gm_get (merge_patch t w) k = patched_value t k v"
      using gm_get_merge_patch[OF wf] by simp
    show ?thesis
    proof (cases v)
      case (JObj sub)
      have "satisfied sub (merge_patch (childOf t k) sub)"
        using less.hyps[of sub] size_child[OF kv] obj_wf_value[OF less.prems kv] JObj by simp
      with JObj get show ?thesis by (simp add: patched_value_def)
    qed (use get in \<open>simp_all add: patched_value_def\<close>)
  qed
  then show ?case by (subst satisfied_iff) blast
qed

subsection \<open>Ownership at any depth\<close>

fun obj_at :: "object \<Rightarrow> string list \<Rightarrow> object option" where
  "obj_at ob [] = Some ob"
| "obj_at ob (k # ks) = (case gm_get ob k of Some (JObj c) \<Rightarrow> obj_at c ks | _ \<Rightarrow> None)"

fun sub_at :: "object \<Rightarrow> string list \<Rightarrow> object" where
  "sub_at ob [] = ob"
| "sub_at ob (k # ks) = sub_at (childOf ob k) ks"

lemma enforce_at_depth:
  "obj_wf d \<Longrightarrow> obj_wf p \<Longrightarrow> obj_at d ks = Some ds \<Longrightarrow>
     obj_at (merge_patch a (enforce d p)) ks = Some (merge_patch (sub_at a ks) (enforce ds (sub_at p ks)))"
proof (induction ks arbitrary: d p a)
  case (Cons k ks)
  then obtain c where c: "gm_get d k = Some (JObj c)" and ds: "obj_at c ks = Some ds"
    by (auto split: option.splits json.splits)
  have wf: "gm_wf (enforce d p)" using Cons.prems by (simp add: gm_wf_enforce)
  have "gm_get (merge_patch a (enforce d p)) k = Some (JObj (merge_patch (childOf a k) (enforce c (childOf p k))))"
    using c by (simp add: gm_get_merge_patch[OF wf] gm_get_enforce enforced_value_def patched_value_def)
  moreover have "obj_wf c" using obj_wf_value[OF Cons.prems(1) map_of_SomeD[OF c]] .
  ultimately show ?case
    using Cons.IH[of c "childOf p k" "childOf a k"] ds json_wf_childOf[OF Cons.prems(2)] by simp
qed simp

lemma obj_at_wf: "obj_wf d \<Longrightarrow> obj_at d ks = Some ds \<Longrightarrow> obj_wf ds"
proof (induction ks arbitrary: d)
  case (Cons k ks)
  then obtain c where c: "gm_get d k = Some (JObj c)" and ds: "obj_at c ks = Some ds"
    by (auto split: option.splits json.splits)
  with Cons.IH[OF obj_wf_value[OF Cons.prems(1) map_of_SomeD[OF c]]] show ?case by simp
qed simp

lemma sub_at_wf: "obj_wf p \<Longrightarrow> obj_wf (sub_at p ks)"
proof (induction ks arbitrary: p)
  case (Cons k ks)
  from Cons.IH[OF json_wf_childOf[OF Cons.prems]] show ?case by simp
qed simp

text \<open>What the target holds at a field once the mutation is applied.\<close>

lemma enforce_field:
  assumes "obj_wf d" "obj_wf p"
  shows "gm_get (merge_patch a (enforce d p)) k = (case gm_get d k of
      None \<Rightarrow> if gm_get p k = None then gm_get a k else None
    | Some v \<Rightarrow> patched_value a k (enforced_value p k v))"
proof -
  have wf: "gm_wf (enforce d p)" using assms by (simp add: gm_wf_enforce)
  show ?thesis
    by (auto simp: gm_get_merge_patch[OF wf] gm_get_enforce patched_value_def split: option.splits)
qed

lemma enforced_leaf:
  "patched_value a k (enforced_value p k v) = (case v of
     JNull \<Rightarrow> None
   | JObj sub \<Rightarrow> Some (JObj (merge_patch (childOf a k) (enforce sub (childOf p k))))
   | _ \<Rightarrow> Some v)"
  by (cases v) (simp_all add: patched_value_def enforced_value_def)

lemma decode_Inr_wf: "decode t = Inr ob \<Longrightarrow> (\<And>j. t = JText j \<Longrightarrow> json_wf j) \<Longrightarrow> obj_wf ob"
  by (auto simp: decode_def split: jsontext.splits json.splits simp del: json_wf.simps) simp_all

definition text_wf :: "jsontext \<Rightarrow> bool" where
  "text_wf t = (case t of JText j \<Rightarrow> json_wf j | _ \<Rightarrow> True)"

lemma decode_text_wf: "decode t = Inr ob \<Longrightarrow> text_wf t \<Longrightarrow> obj_wf ob"
  by (rule decode_Inr_wf) (auto simp: text_wf_def)

lemma Apply_enforce:
  assumes "Apply st prior desired actual = Inr m" "text_wf prior" "text_wf desired" "text_wf actual"
  obtains d drops where "decode desired = Inr d" "m = encode (enforce d drops)" "obj_wf d" "obj_wf drops"
proof (cases st)
  case Replace
  with assms that decode_text_wf show ?thesis
    by (auto simp: decode2_def rbind_Inr_iff simp del: json_wf.simps)
next
  case Additive
  with assms(1) obtain d where d: "decode desired = Inr d" "m = encode (enforce d [])"
    by (auto simp: rbind_Inr_iff)
  show ?thesis by (rule that[OF d decode_text_wf[OF d(1) assms(3)]]) simp
next
  case ThreeWay
  with assms that decode_text_wf show ?thesis
    by (auto simp: decode2_def rbind_Inr_iff simp del: json_wf.simps)
qed

subsection \<open>Properties\<close>

text \<open>C4: three-way ownership, at any depth. Let the target hold \<open>a\<close> and apply the mutation
  the three-way merge of prior \<open>p\<close> and desired \<open>d\<close> produced. In every object the desired
  document reaches, a field it gives a plain value has that value, a field it gives null is
  gone, a field it is silent about is gone when the prior intent had claimed it, and is exactly
  what the target held when the prior intent had not.\<close>

theorem three_way_ownership:
  assumes "obj_wf d" "obj_wf p" "obj_at d ks = Some ds"
    and "Apply ThreeWay (encode p) (encode d) actual = Inr (encode m)"
  shows "\<exists>rs. obj_at (merge_patch a m) ks = Some rs \<and> (\<forall>k. case gm_get ds k of
      None \<Rightarrow> gm_get rs k = (if gm_get (sub_at p ks) k = None then gm_get (sub_at a ks) k else None)
    | Some JNull \<Rightarrow> gm_get rs k = None
    | Some (JObj sub) \<Rightarrow> (\<exists>c. gm_get rs k = Some (JObj c))
    | Some v \<Rightarrow> gm_get rs k = Some v)"
proof -
  from assms(4) have m: "m = enforce d p"
    by (simp add: encode_def decode2_def decode_def)
  have "obj_at (merge_patch a m) ks = Some (merge_patch (sub_at a ks) (enforce ds (sub_at p ks)))"
    unfolding m by (rule enforce_at_depth[OF assms(1-3)])
  moreover note enforce_field[OF obj_at_wf[OF assms(1,3)] sub_at_wf[OF assms(2), of ks], of "sub_at a ks"]
  ultimately show ?thesis
    by (auto simp: enforced_leaf split: option.splits json.splits)
qed

theorem three_way_ownership_witness:
  "\<exists>rs. obj_at (merge_patch [(''t'', JObj [(''z'', JNum ''3''), (''y'', JNum ''2'')])]
      (enforce [(''t'', JObj [(''u'', JNum ''1'')])] [(''t'', JObj [(''y'', JNum ''2'')])])) [''t''] = Some rs \<and>
    gm_get rs ''z'' = Some (JNum ''3'') \<and> gm_get rs ''y'' = None \<and> gm_get rs ''u'' = Some (JNum ''1'')"
proof -
  let ?d = "[(''t'', JObj [(''u'', JNum ''1'')])]" and ?p = "[(''t'', JObj [(''y'', JNum ''2'')])]"
  let ?a = "[(''t'', JObj [(''z'', JNum ''3''), (''y'', JNum ''2'')])]"
  have wf: "obj_wf ?d" "obj_wf ?p" by simp_all
  have at: "obj_at ?d [''t''] = Some [(''u'', JNum ''1'')]" by simp
  have ap: "Apply ThreeWay (encode ?p) (encode ?d) JEmpty = Inr (encode (enforce ?d ?p))"
    by (simp add: encode_def decode2_def decode_def)
  from three_way_ownership[OF wf at ap, of ?a] obtain rs where
    rs: "obj_at (merge_patch ?a (enforce ?d ?p)) [''t''] = Some rs" and
    f: "\<forall>k. case gm_get [(''u'', JNum ''1'')] k of
      None \<Rightarrow> gm_get rs k = (if gm_get (sub_at ?p [''t'']) k = None then gm_get (sub_at ?a [''t'']) k else None)
    | Some JNull \<Rightarrow> gm_get rs k = None
    | Some (JObj sub) \<Rightarrow> (\<exists>c. gm_get rs k = Some (JObj c))
    | Some v \<Rightarrow> gm_get rs k = Some v"
    by blast
  from spec[OF f, of "''z''"] spec[OF f, of "''y''"] spec[OF f, of "''u''"] rs show ?thesis
    by (simp add: childOf_def)
qed

text \<open>C5: convergence. Whatever strategy produced a mutation, a target that has applied it passes
  the convergence test, so the next run finds nothing to send.\<close>

theorem mutation_converges:
  assumes "Apply st prior desired actual = Inr m" "text_wf prior" "text_wf desired" "text_wf actual"
    and "m = JText (JObj mo)"
  shows "Satisfied m (JText (JObj (merge_patch a mo))) = Inr True"
proof (rule Apply_enforce[OF assms(1-4)])
  fix d drops assume d: "m = encode (enforce d drops)" "obj_wf d" "obj_wf drops"
  from d(1) assms(5) have "mo = enforce d drops" by (simp add: encode_def)
  with json_wf_enforce[OF d(2,3)] have "obj_wf mo" by (simp only:)
  from satisfied_merge_patch[OF this] assms(5) show ?thesis
    by (simp add: Satisfied_def converged_def decodeDoc_def)
qed

theorem mutation_converges_witness:
  "Satisfied (JText (JObj [(''a'', JNum ''1''), (''b'', JNull)]))
     (JText (JObj (merge_patch [(''b'', JBool True)] [(''a'', JNum ''1''), (''b'', JNull)]))) = Inr True"
proof -
  have "Apply ThreeWay (JText (JObj [(''b'', JBool True)])) (JText (JObj [(''a'', JNum ''1'')])) JEmpty
      = Inr (JText (JObj [(''a'', JNum ''1''), (''b'', JNull)]))"
    by (simp add: decode2_def decode_def encode_def enforce.simps)
  from mutation_converges[OF this _ _ _ refl, of "[(''b'', JBool True)]"] show ?thesis
    by (simp add: text_wf_def)
qed

text \<open>The other two strategies at the contested fields. In every object the desired document
  reaches, Replace leaves nothing the desired document does not mention, and Additive leaves
  every such field exactly as the target held it.\<close>

theorem replace_additive_fields:
  assumes "obj_wf d" "obj_wf a" "obj_at d ks = Some ds" "gm_get ds k = None"
  shows "(\<exists>rs. obj_at (merge_patch a (enforce d a)) ks = Some rs \<and> gm_get rs k = None) \<and>
    (\<exists>rs. obj_at (merge_patch a (enforce d [])) ks = Some rs \<and> gm_get rs k = gm_get (sub_at a ks) k)"
proof -
  note wf = obj_at_wf[OF assms(1,3)]
  have nil: "sub_at [] ks = []" by (induction ks) (simp_all add: childOf_def)
  have "\<exists>rs. obj_at (merge_patch a (enforce d a)) ks = Some rs \<and> gm_get rs k = None"
    using enforce_at_depth[OF assms(1,2,3), of a]
      enforce_field[OF wf sub_at_wf[OF assms(2), of ks], of "sub_at a ks" k] assms(4) by simp
  moreover have "\<exists>rs. obj_at (merge_patch a (enforce d [])) ks = Some rs \<and> gm_get rs k = gm_get (sub_at a ks) k"
    using enforce_at_depth[OF assms(1) _ assms(3), of "[]" a]
      enforce_field[OF wf, of "[]" "sub_at a ks" k] assms(4) nil by simp
  ultimately show ?thesis by blast
qed

theorem replace_additive_fields_witness:
  "\<exists>rs. obj_at (merge_patch [(''b'', JNum ''2'')] (enforce [(''a'', JNum ''1'')] [])) [] = Some rs \<and>
     gm_get rs ''b'' = Some (JNum ''2'')"
  using replace_additive_fields[of "[(''a'', JNum ''1'')]" "[(''b'', JNum ''2'')]" "[]"
      "[(''a'', JNum ''1'')]" "''b''"]
  by simp

text \<open>
  The test compares rendered text, so it reports convergence for lists that differ: one
  element with a space in it prints as two elements do.
\<close>

lemma satisfied_confuses_lists:
  "satisfied [(''tags'', JArr [JStr ''a b''])] [(''tags'', JArr [JStr ''a'', JStr ''b''])]"
  by (simp add: satisfied.simps)

end
