(* ===== verification/Lease.thy ===== *)
theory Lease
  imports Facade Json Ledger_Memory Ledger_File
begin

section \<open>The cross-run lock: internal/lease\<close>

text \<open>
  A lease is one ledger entry per scope that is begun and never resolved. Every operation takes
  the ledger as an interface value, so the lemmas are proved once from the ledger contract and
  hold for both ledgers. A time is its count of nanoseconds, and its JSON text that count in
  decimal; each reading of the clock, and the random claim, is an argument.
\<close>

subsection \<open>Key sets\<close>

datatype KeySet = All_keys | Explicit "LedgerKey list"

definition Of :: "LedgerKey list \<Rightarrow> KeySet" where
  "Of keys = Explicit (remdups_adj (sort keys))"

fun Keys :: "KeySet \<Rightarrow> LedgerKey list option" where
  "Keys All_keys = None"
| "Keys (Explicit ks) = Some ks"

fun Contains :: "KeySet \<Rightarrow> LedgerKey \<Rightarrow> bool" where
  "Contains All_keys k = True"
| "Contains (Explicit ks) k = (k \<in> set ks)"

fun Intersects :: "KeySet \<Rightarrow> KeySet \<Rightarrow> bool" where
  "Intersects All_keys other = True"
| "Intersects (Explicit ks) other = (case Keys other of
     None \<Rightarrow> True
   | Some os \<Rightarrow> list_ex (Contains (Explicit ks)) os)"

fun KeySet_String :: "KeySet \<Rightarrow> string" where
  "KeySet_String All_keys = ''*''"
| "KeySet_String (Explicit ks) = strings_Join '','' ks"

subsection \<open>The durable record\<close>

record lease_rec =
  Claim :: string
  Holder :: string
  Expiry :: int
  rec_Keys :: "string list"
  All :: bool

definition marshal_lease :: "lease_rec \<Rightarrow> string" where
  "marshal_lease r = print_json (JObj ([(''claim'', JStr (Claim r)), (''holder'', JStr (Holder r)),
       (''expiry'', JStr (fmt_int (Expiry r)))]
     @ (if rec_Keys r = [] then [] else [(''keys'', JArr (map JStr (rec_Keys r)))])
     @ (if All r then [(''all'', JBool True)] else [])))"

definition unmarshal_lease :: "string \<Rightarrow> lease_rec option" where
  "unmarshal_lease t = (case parse_json t of
     Some (JObj m, rest) \<Rightarrow> if skip_ws rest \<noteq> [] then None else
       (case (str_field m ''claim'', str_field m ''holder'', Option.bind (str_field m ''expiry'') parse_int,
          strs_field m ''keys'', bool_field m ''all'') of
          (Some c, Some h, Some e, Some ks, Some a) \<Rightarrow>
            Some \<lparr>Claim = c, Holder = h, Expiry = e, rec_Keys = ks, All = a\<rparr>
        | _ \<Rightarrow> None)
   | _ \<Rightarrow> None)"

subsection \<open>Operations\<close>

record held =
  h_key :: LedgerKey
  h_keys :: KeySet
  h_rec :: lease_rec

definition keyFor :: "string \<Rightarrow> LedgerKey" where
  "keyFor scope = TrimSuffix scope ''/'' @ ''/.lease''"

definition lease_record :: "KeySet \<Rightarrow> string \<Rightarrow> int \<Rightarrow> string \<Rightarrow> lease_rec" where
  "lease_record keys holder expiry claim = (case Keys keys of
     Some ks \<Rightarrow> \<lparr>Claim = claim, Holder = holder, Expiry = expiry, rec_Keys = ks, All = False\<rparr>
   | None \<Rightarrow> \<lparr>Claim = claim, Holder = holder, Expiry = expiry, rec_Keys = [], All = True\<rparr>)"

text \<open>The claim is None where the random source fails.\<close>

definition lease_write ::
  "('s, 'z) Ledger_scheme \<Rightarrow> 's \<Rightarrow> LedgerKey \<Rightarrow> KeySet \<Rightarrow> string \<Rightarrow> int \<Rightarrow> LedgerVersion \<Rightarrow>
   int \<Rightarrow> string option \<Rightarrow> 's \<times> held result" where
  "lease_write L s k keys holder ttl v now claim = (case claim of
     None \<Rightarrow> (s, Inl (ErrOther ''lease: claim id''))
   | Some c \<Rightarrow>
       (let r = lease_record keys holder (now + ttl) c in
        (case Begin L s k (Some (marshal_lease r)) v of
           (s', Inl e) \<Rightarrow> (s', Inl e)
         | (s', Inr _) \<Rightarrow> (s', Inr \<lparr>h_key = k, h_keys = keys, h_rec = r\<rparr>))))"

definition Acquire ::
  "('s, 'z) Ledger_scheme \<Rightarrow> 's \<Rightarrow> string \<Rightarrow> KeySet \<Rightarrow> string \<Rightarrow> int \<Rightarrow>
   int \<Rightarrow> int \<Rightarrow> string option \<Rightarrow> 's \<times> held result" where
  "Acquire L s scope keys holder ttl now1 now2 claim =
     (let k = keyFor scope in
      case Get L s k of
        Inl e \<Rightarrow> (s, Inl e)
      | Inr (Some (e, v)) \<Rightarrow> (case unmarshal_lease (slice_bytes (ent_proposed e)) of
            None \<Rightarrow> (s, Inl (ErrOther ''lease: decode''))
          | Some hr \<Rightarrow>
              if now1 < Expiry hr then (s, Inl ErrLeaseHeld)
              else lease_write L s k keys holder ttl v now2 claim)
      | Inr None \<Rightarrow> lease_write L s k keys holder ttl LedgerVersionNone now2 claim)"

definition held_version :: "('s, 'z) Ledger_scheme \<Rightarrow> 's \<Rightarrow> held \<Rightarrow> LedgerVersion result" where
  "held_version L s h = (case Get L s (h_key h) of
     Inl e \<Rightarrow> Inl e
   | Inr None \<Rightarrow> Inl ErrLedgerNotFound
   | Inr (Some (e, v)) \<Rightarrow> (case unmarshal_lease (slice_bytes (ent_proposed e)) of
       None \<Rightarrow> Inl (ErrOther ''lease: decode'')
     | Some cur \<Rightarrow> if Claim cur \<noteq> Claim (h_rec h) then Inl ErrLeaseHeld else Inr v))"

definition Renew :: "('s, 'z) Ledger_scheme \<Rightarrow> 's \<Rightarrow> held \<Rightarrow> int \<Rightarrow> int \<Rightarrow> 's \<times> held \<times> unit result" where
  "Renew L s h ttl now = (case held_version L s h of
     Inl e \<Rightarrow> (s, h, Inl e)
   | Inr v \<Rightarrow>
       (let nxt = (h_rec h)\<lparr>Expiry := now + ttl\<rparr> in
        (case Begin L s (h_key h) (Some (marshal_lease nxt)) v of
           (s', Inl e) \<Rightarrow> (s', h, Inl e)
         | (s', Inr _) \<Rightarrow> (s', h\<lparr>h_rec := nxt\<rparr>, Inr ()))))"

definition Release :: "('s, 'z) Ledger_scheme \<Rightarrow> 's \<Rightarrow> held \<Rightarrow> 's \<times> unit result" where
  "Release L s h = (case held_version L s h of
     Inl e \<Rightarrow> (s, Inl e)
   | Inr v \<Rightarrow> (case Forget L s (h_key h) v of
       (s', Inl e) \<Rightarrow> (s', Inl e)
     | (s', Inr _) \<Rightarrow> (s', Inr ())))"

subsection \<open>The record survives its text\<close>

lemma unmarshal_marshal [simp]: "unmarshal_lease (marshal_lease r) = Some r"
proof -
  let ?m = "[(''claim'', JStr (Claim r)), (''holder'', JStr (Holder r)), (''expiry'', JStr (fmt_int (Expiry r)))]
     @ (if rec_Keys r = [] then [] else [(''keys'', JArr (map JStr (rec_Keys r)))])
     @ (if All r then [(''all'', JBool True)] else [])"
  have "printable (JObj ?m)" by (simp add: list_all_iff)
  from parse_print[OF this, of "[]"] have p: "parse_json (marshal_lease r) = Some (JObj ?m, [])"
    by (simp add: marshal_lease_def)
  have ks: "those (map (json_str \<circ> JStr) xs) = Some xs" for xs
    using those_map_Some[of "\<lambda>s. s" xs] by (simp add: json_str_def comp_def)
  have "str_field ?m ''claim'' = Some (Claim r)" "str_field ?m ''holder'' = Some (Holder r)"
    "str_field ?m ''expiry'' = Some (fmt_int (Expiry r))"
    "strs_field ?m ''keys'' = Some (rec_Keys r)" "bool_field ?m ''all'' = Some (All r)"
    by (simp_all add: str_field_def strs_field_def bool_field_def ks)
  with p show ?thesis by (simp add: unmarshal_lease_def)
qed

lemma marshal_not_Nil [simp]: "marshal_lease r \<noteq> []" "[] \<noteq> marshal_lease r"
  by (simp_all add: marshal_lease_def)

lemma marshal_inj: "marshal_lease r = marshal_lease r' \<longleftrightarrow> r = r'"
  by (metis option.inject unmarshal_marshal)

lemma slice_norm_marshal [simp]: "slice_norm (Some (marshal_lease r)) = Some (marshal_lease r)"
  by (simp add: slice_norm_def slice_len_def)

subsection \<open>Leases over any ledger\<close>

text \<open>The ledger holds lease \<open>r\<close> at key \<open>k\<close> under version \<open>v\<close>.\<close>

definition lease_cell :: "('s, 'z) Ledger_scheme \<Rightarrow> 's \<Rightarrow> LedgerKey \<Rightarrow> lease_rec \<Rightarrow> LedgerVersion \<Rightarrow> bool" where
  "lease_cell L s k r v \<longleftrightarrow> (\<exists>e. Get L s k = Inr (Some (e, v)) \<and> ent_phase e = LedgerPending \<and>
     ent_proposed e = Some (marshal_lease r))"

text \<open>
  What the rest of the world may do while a lease with claim \<open>c\<close> is live: try to acquire the
  scope before the deadline, renew or release handles of other claims, and use the ledger for
  other keys.
\<close>

inductive lease_step ::
  "('s, 'z) Ledger_scheme \<Rightarrow> (LedgerKey \<Rightarrow> bool) \<Rightarrow> ('s \<Rightarrow> LedgerKey \<Rightarrow> bool) \<Rightarrow> string \<Rightarrow> string \<Rightarrow> int
   \<Rightarrow> 's \<Rightarrow> 's \<Rightarrow> bool"
  for L ok room scope c deadline where
  try_acquire: "now1 < deadline \<Longrightarrow>
    lease_step L ok room scope c deadline s (fst (Acquire L s scope keys holder ttl now1 now2 cl))"
| other_renew: "h_key h = keyFor scope \<Longrightarrow> Claim (h_rec h) \<noteq> c \<Longrightarrow>
    lease_step L ok room scope c deadline s (fst (Renew L s h ttl now))"
| other_release: "h_key h = keyFor scope \<Longrightarrow> Claim (h_rec h) \<noteq> c \<Longrightarrow>
    lease_step L ok room scope c deadline s (fst (Release L s h))"
| other_begin: "k \<noteq> keyFor scope \<Longrightarrow> ok k \<Longrightarrow> room s k \<Longrightarrow>
    lease_step L ok room scope c deadline s (fst (Begin L s k p v))"
| other_resolve: "k \<noteq> keyFor scope \<Longrightarrow> ok k \<Longrightarrow> room s k \<Longrightarrow>
    lease_step L ok room scope c deadline s (fst (Resolve L s k i a v))"
| other_forget: "k \<noteq> keyFor scope \<Longrightarrow> ok k \<Longrightarrow> room s k \<Longrightarrow>
    lease_step L ok room scope c deadline s (fst (Forget L s k v))"

lemma Acquire_held:
  "lease_cell L s (keyFor scope) r v \<Longrightarrow> now1 < Expiry r \<Longrightarrow>
     Acquire L s scope keys holder ttl now1 now2 cl = (s, Inl ErrLeaseHeld)"
  by (auto simp: lease_cell_def Acquire_def)

lemma other_handle_refused:
  assumes "lease_cell L s (h_key h) r v" "Claim (h_rec h) \<noteq> Claim r"
  shows "Renew L s h ttl now = (s, h, Inl ErrLeaseHeld)" "Release L s h = (s, Inl ErrLeaseHeld)"
  using assms by (auto simp: lease_cell_def Renew_def Release_def held_version_def)

context ledger_contract begin

lemma write_result:
  assumes "invar s" "ok k" "room s k"
    and "lease_write L s k keys holder ttl v now (Some c) = (s', Inr h)"
  shows "invar s' \<and> h = \<lparr>h_key = k, h_keys = keys, h_rec = lease_record keys holder (now + ttl) c\<rparr> \<and>
    (\<exists>v'. lease_cell L s' k (h_rec h) v')"
proof -
  let ?r = "lease_record keys holder (now + ttl) c"
  let ?p = "Some (marshal_lease ?r)"
  obtain cl where get: "Get L s k = Inr cl" using get_total[OF assms(1,2)] by blast
  from assms(4) have b: "Begin L s k ?p v = (s', Inr ())"
    and h: "h = \<lparr>h_key = k, h_keys = keys, h_rec = ?r\<rparr>"
    by (auto simp: lease_write_def Let_def split: prod.splits sum.splits unit.splits)
  have ref: "refines_op L invar ok s k (spec_begin cl k ?p v) (s', Inr ())"
    using begin_refines[OF assms(1-3) get, of ?p v] b by simp
  have same: "ent_proposed e = ?p" if "same_proposal (Some (e, u)) ?p" for e u
    using that by (cases "ent_proposed e") (auto simp: same_proposal_def bytes_Equal_def)
  have "\<exists>v'. lease_cell L s' k ?r v'"
    using ref get same
    by (cases cl) (auto simp: spec_simps refines_op_def lease_cell_def entry_agrees_iff fresh_entry_def
        same_proposal_def split: if_splits)
  moreover have "invar s'" using refines_op_inv[OF assms(1) ref] by simp
  ultimately show ?thesis using h by simp
qed

text \<open>A write under the current version, or a create of an absent key, succeeds.\<close>

lemma write_succeeds:
  assumes "invar s" "ok k" "room s k"
    and "Get L s k = Inr (Some (e, v)) \<or> Get L s k = Inr None \<and> v = LedgerVersionNone"
  shows "\<exists>s' h. lease_write L s k keys holder ttl v now (Some c) = (s', Inr h)"
proof -
  let ?p = "Some (marshal_lease (lease_record keys holder (now + ttl) c))"
  obtain s' r where b: "Begin L s k ?p v = (s', r)" by fastforce
  have "r = Inr ()"
    using assms(4)
  proof
    assume get: "Get L s k = Inr (Some (e, v))"
    have "v \<noteq> LedgerVersionNone" using get_wf[OF assms(1,2) get] by simp
    with begin_refines[OF assms(1-3) get, of ?p v] b show ?thesis
      by (auto simp: spec_simps refines_op_def split: if_splits)
  next
    assume "Get L s k = Inr None \<and> v = LedgerVersionNone"
    with begin_refines[OF assms(1-3), of None ?p v] b show ?thesis
      by (auto simp: spec_simps refines_op_def split: if_splits)
  qed
  with b show ?thesis by (simp add: lease_write_def Let_def)
qed

text \<open>Two claims written over the same version: the second is a conflict.\<close>

lemma write_race:
  assumes inv: "invar s" "ok k" "room s k" "room s1 k" and get: "Get L s k = Inr c0"
    and v: "c0 = Some (e0, v) \<or> c0 = None \<and> v = LedgerVersionNone"
    and new: "\<not> same_proposal c0 (Some (marshal_lease (lease_record keys1 holder1 (now1 + ttl1) c1)))"
    and w1: "lease_write L s k keys1 holder1 ttl1 v now1 (Some c1) = (s1, Inr h1)" and ne: "c1 \<noteq> c2"
  shows "lease_write L s1 k keys2 holder2 ttl2 v now2 (Some c2) = (s1, Inl ErrLedgerConflict)"
proof -
  let ?p1 = "Some (marshal_lease (lease_record keys1 holder1 (now1 + ttl1) c1))"
  let ?p2 = "Some (marshal_lease (lease_record keys2 holder2 (now2 + ttl2) c2))"
  from write_result[OF inv(1-3) w1] have inv1: "invar s1" by simp
  from w1 have b: "Begin L s k ?p1 v = (s1, Inr ())"
    by (auto simp: lease_write_def Let_def split: prod.splits sum.splits unit.splits)
  have "refines_op L invar ok s k (spec_begin c0 k ?p1 v) (s1, Inr ())"
    using begin_refines[OF inv(1-3) get, of ?p1 v] b by simp
  then obtain e v' where g1: "Get L s1 k = Inr (Some (e, v'))" and pr: "ent_proposed e = ?p1"
    and fresh: "\<And>e0 v0. Get L s k = Inr (Some (e0, v0)) \<Longrightarrow> v' \<noteq> v0" "v' \<noteq> LedgerVersionNone"
    using v new by (auto simp: spec_simps refines_op_def entry_agrees_iff fresh_entry_def split: if_splits)
  have "v \<noteq> v'" using v fresh get by auto
  moreover have "lease_record keys1 holder1 (now1 + ttl1) c1 \<noteq> lease_record keys2 holder2 (now2 + ttl2) c2"
    using ne by (auto simp: lease_record_def split: option.splits)
  then have "\<not> same_proposal (Some (e, v')) ?p2"
    using pr by (simp add: same_proposal_def bytes_Equal_def marshal_inj)
  ultimately have "Begin L s1 k ?p2 v = (s1, Inl ErrLedgerConflict)"
    using begin_refines[OF inv1 inv(2,4) g1, of ?p2 v]
    by (auto simp: spec_simps refines_op_def split: prod.splits)
  then show ?thesis by (simp add: lease_write_def Let_def)
qed

text \<open>A live lease survives everything others may do before its deadline.\<close>

lemma lease_step_keeps:
  assumes "lease_step L ok room scope c d s s'" "invar s" "ok (keyFor scope)"
    and "lease_cell L s (keyFor scope) r v" "Claim r = c" "d \<le> Expiry r"
  shows "invar s' \<and> lease_cell L s' (keyFor scope) r v"
  using assms(1)
proof cases
  case (try_acquire now1 keys holder ttl now2 cl)
  with assms show ?thesis using Acquire_held[OF assms(4), of now1] by simp
next
  case (other_renew h ttl now)
  with assms other_handle_refused(1)[of L s h r v] show ?thesis by simp
next
  case (other_release h)
  with assms other_handle_refused(2)[of L s h r v] show ?thesis by simp
next
  case (other_begin k p u)
  obtain cl where "Get L s k = Inr cl" using get_total[OF assms(2)] other_begin by blast
  note ref = begin_refines[OF assms(2) other_begin(3,4) this, of p u]
  obtain t q where o: "Begin L s k p u = (t, q)" by fastforce
  from refines_op_frame[OF ref[unfolded o]] refines_op_inv[OF assms(2) ref] other_begin o assms(3,4)
  show ?thesis by (simp add: lease_cell_def)
next
  case (other_resolve k i a u)
  obtain cl where "Get L s k = Inr cl" using get_total[OF assms(2)] other_resolve by blast
  note ref = resolve_refines[OF assms(2) other_resolve(3,4) this, of i a u]
  obtain t q where o: "Resolve L s k i a u = (t, q)" by fastforce
  from refines_op_frame[OF ref[unfolded o]] refines_op_inv[OF assms(2) ref] other_resolve o assms(3,4)
  show ?thesis by (simp add: lease_cell_def)
next
  case (other_forget k u)
  obtain cl where "Get L s k = Inr cl" using get_total[OF assms(2)] other_forget by blast
  note ref = forget_refines[OF assms(2) other_forget(3,4) this, of u]
  obtain t q where o: "Forget L s k u = (t, q)" by fastforce
  from refines_op_frame[OF ref[unfolded o]] refines_op_inv[OF assms(2) ref] other_forget o assms(3,4)
  show ?thesis by (simp add: lease_cell_def)
qed

lemma lease_steps_keep:
  assumes "(lease_step L ok room scope c d)\<^sup>*\<^sup>* s s'" "invar s" "ok (keyFor scope)"
    and "lease_cell L s (keyFor scope) r v" "Claim r = c" "d \<le> Expiry r"
  shows "invar s' \<and> lease_cell L s' (keyFor scope) r v"
  using assms(1)
proof (induction rule: rtranclp_induct)
  case base
  with assms show ?case by simp
next
  case (step y z)
  from step(3) lease_step_keeps[OF step(2) _ assms(3) _ assms(5,6)] show ?case by blast
qed

lemma acquire_gives_cell:
  assumes "invar s" "ok (keyFor scope)" "room s (keyFor scope)"
    and "Acquire L s scope keys holder ttl n1 n2 (Some c) = (s', Inr h)"
  shows "invar s' \<and> h_key h = keyFor scope \<and> Claim (h_rec h) = c \<and> Expiry (h_rec h) = n2 + ttl \<and>
    (\<exists>v. lease_cell L s' (keyFor scope) (h_rec h) v)"
proof -
  from assms(4) obtain v where
    "lease_write L s (keyFor scope) keys holder ttl v n2 (Some c) = (s', Inr h)"
    by (auto simp: Acquire_def Let_def split: sum.splits option.splits prod.splits if_splits)
  from write_result[OF assms(1-3) this] show ?thesis
    by (auto simp: lease_record_def split: option.splits)
qed

text \<open>An absent, released or expired lease can always be taken.\<close>

lemma acquire_available:
  assumes "invar s" "ok (keyFor scope)" "room s (keyFor scope)"
    and "Get L s (keyFor scope) = Inr None \<or>
      (\<exists>r v. lease_cell L s (keyFor scope) r v \<and> Expiry r \<le> n1)"
  shows "\<exists>s' h. Acquire L s scope keys holder ttl n1 n2 (Some c) = (s', Inr h)"
  using assms(4)
proof
  assume "Get L s (keyFor scope) = Inr None"
  with write_succeeds[OF assms(1-3)] show ?thesis by (simp add: Acquire_def)
next
  assume "\<exists>r v. lease_cell L s (keyFor scope) r v \<and> Expiry r \<le> n1"
  then obtain r v e where "Get L s (keyFor scope) = Inr (Some (e, v))"
    "ent_proposed e = Some (marshal_lease r)" "Expiry r \<le> n1" by (auto simp: lease_cell_def)
  with write_succeeds[OF assms(1-3), of e v] show ?thesis by (simp add: Acquire_def)
qed

lemma release_frees:
  assumes "invar s" "ok (h_key h)" "room s (h_key h)" "lease_cell L s (h_key h) (h_rec h) v"
  shows "\<exists>s'. Release L s h = (s', Inr ()) \<and> Get L s' (h_key h) = Inr None \<and> invar s'"
proof -
  from assms(4) obtain e where get: "Get L s (h_key h) = Inr (Some (e, v))"
    and pr: "ent_proposed e = Some (marshal_lease (h_rec h))" by (auto simp: lease_cell_def)
  have "v \<noteq> LedgerVersionNone" using get_wf[OF assms(1,2) get] by simp
  with forget_refines[OF assms(1-3) get, of v] get pr show ?thesis
    by (auto simp: spec_simps refines_op_def Release_def held_version_def split: prod.splits)
qed

end

subsection \<open>Properties\<close>

lemma lease_key_ok:
  "keyFor ''s'' = ''s/.lease''" "legal_key ''s/.lease''" "key_room NewFile ''s/.lease''"
  "file_Get NewFile ''s/.lease'' = Inr None"
proof -
  have p: "paths ''s/.lease'' = Inr ([''s''], ''.lease'')"
    by (simp add: paths_def illegal_segment_def ContainsAny_def illegal_chars_def)
  have cur: "current NewFile ''s/.lease'' = Inr (empty_state, 0, False)"
    using p by (simp add: current_def NewFile_def ReadDir_def)
  show "keyFor ''s'' = ''s/.lease''" by (simp add: keyFor_def TrimSuffix_def HasSuffix_def)
  show "legal_key ''s/.lease''" using p by (simp add: legal_key_def HasSuffix_def verSuffix_def)
  show "key_room NewFile ''s/.lease''" using cur by (simp add: key_room_def)
  show "file_Get NewFile ''s/.lease'' = Inr None" using cur by (simp add: file_Get_def)
qed

lemma lease_example:
  obtains d1 h where "Acquire file_ledger NewFile ''s'' All_keys ''p'' 10 0 0 (Some ''c'') = (d1, Inr h)"
  using filed.acquire_available[OF NewFile_inv, of "''s''" 0 All_keys "''p''" 10 0 "''c''"] lease_key_ok
  by auto



text \<open>Takeover. A lease that has expired can be acquired by another run, and from then on the
  previous holder's handle can neither renew nor release it: both are refused as held and
  change nothing.\<close>

theorem lease_takeover:
  assumes "disk_inv d" "legal_key (keyFor scope)" "key_room d (keyFor scope)"
    and "lease_cell file_ledger d (keyFor scope) (h_rec h) v" "h_key h = keyFor scope"
    and "Expiry (h_rec h) \<le> n1" "c \<noteq> Claim (h_rec h)"
  shows "\<exists>d1 h1. Acquire file_ledger d scope keys holder ttl n1 n2 (Some c) = (d1, Inr h1) \<and>
    Renew file_ledger d1 h ttl' now = (d1, h, Inl ErrLeaseHeld) \<and>
    Release file_ledger d1 h = (d1, Inl ErrLeaseHeld)"
proof -
  from filed.acquire_available[OF assms(1-3)] assms(4,6) obtain d1 h1 where
    a: "Acquire file_ledger d scope keys holder ttl n1 n2 (Some c) = (d1, Inr h1)" by blast
  from filed.acquire_gives_cell[OF assms(1-3) a] assms(5,7) obtain u where
    "lease_cell file_ledger d1 (h_key h) (h_rec h1) u" "Claim (h_rec h) \<noteq> Claim (h_rec h1)" by auto
  from a other_handle_refused[OF this] show ?thesis by blast
qed

theorem lease_takeover_witness:
  "\<exists>d d1 h1 h. lease_cell file_ledger d ''s/.lease'' (h_rec h) (version 1) \<and>
     Acquire file_ledger d ''s'' All_keys ''q'' 10 10 10 (Some ''e'') = (d1, Inr h1) \<and>
     Release file_ledger d1 h = (d1, Inl ErrLeaseHeld)"
proof -
  let ?r = "lease_record All_keys ''p'' 10 ''c''"
  let ?w = "empty_state\<lparr>Proposed := Some (marshal_lease ?r)\<rparr>"
  let ?h = "\<lparr>h_key = ''s/.lease'', h_keys = All_keys, h_rec = ?r\<rparr>"
  have p: "paths ''s/.lease'' = Inr ([''s''], ''.lease'')"
    by (simp add: paths_def illegal_segment_def ContainsAny_def illegal_chars_def)
  have cur0: "current NewFile ''s/.lease'' = Inr (empty_state, 0, False)"
    using p by (simp add: current_def NewFile_def ReadDir_def)
  have w: "marshalled ?w = Doc ?w" "tombstone_bare ?w" "\<not> Tombstone ?w"
    by (simp_all add: marshalled_def empty_state_def tombstone_bare_def)
  obtain d where d: "disk_inv d" "current d ''s/.lease'' = Inr (?w, 0 + 1, \<not> Tombstone ?w)"
    using commit_current[OF NewFile_inv lease_key_ok(2) cur0 _ w(1,2)] by auto
  then have get: "file_Get d ''s/.lease'' = Inr (Some (entry_of ''s/.lease'' ?w, version 1))"
    using w(3) by (simp add: file_Get_def)
  then have cell: "lease_cell file_ledger d (keyFor ''s'') (h_rec ?h) (version 1)"
    using lease_key_ok(1) by (simp add: lease_cell_def entry_of_def empty_state_def)
  have room: "key_room d (keyFor ''s'')" using d(2) lease_key_ok(1) by (simp add: key_room_def)
  have "\<exists>d1 h1. Acquire file_ledger d ''s'' All_keys ''q'' 10 10 10 (Some ''e'') = (d1, Inr h1) \<and>
    Renew file_ledger d1 ?h 0 0 = (d1, ?h, Inl ErrLeaseHeld) \<and> Release file_ledger d1 ?h = (d1, Inl ErrLeaseHeld)"
    using lease_key_ok room cell
    by (intro lease_takeover[OF d(1)]) (simp_all add: lease_record_def)
  with cell show ?thesis unfolding lease_key_ok(1) by blast
qed

end
