(* ===== verification/Base64.thy ===== *)
theory Base64
  imports Omni_Prelude
begin

section \<open>Standard base64\<close>

text \<open>
  How encoding/json writes a byte slice: the standard padded alphabet of encoding/base64. The
  decoder skips line breaks and does not look at the bits padding leaves over, as
  \<open>base64.StdEncoding\<close> does.
\<close>

definition b64_char :: "nat \<Rightarrow> char" where
  "b64_char n = (if n < 26 then char_of (65 + n) else if n < 52 then char_of (71 + n)
     else if n < 62 then char_of (n - 4) else if n = 62 then CHR ''+'' else CHR ''/'')"

definition b64_val :: "char \<Rightarrow> nat option" where
  "b64_val c = (let n = (of_char c :: nat) in
     if 65 \<le> n \<and> n \<le> 90 then Some (n - 65)
     else if 97 \<le> n \<and> n \<le> 122 then Some (n - 71)
     else if 48 \<le> n \<and> n \<le> 57 then Some (n + 4)
     else if n = 43 then Some 62 else if n = 47 then Some 63 else None)"

fun b64_encode :: "string \<Rightarrow> string" where
  "b64_encode [] = []"
| "b64_encode [a] = (let x = of_char a :: nat in
     [b64_char (x div 4), b64_char (x mod 4 * 16), CHR ''='', CHR ''=''])"
| "b64_encode [a, b] = (let x = of_char a :: nat; y = of_char b :: nat in
     [b64_char (x div 4), b64_char (x mod 4 * 16 + y div 16), b64_char (y mod 16 * 4), CHR ''=''])"
| "b64_encode (a # b # c # r) = (let x = of_char a :: nat; y = of_char b :: nat; z = of_char c :: nat in
     [b64_char (x div 4), b64_char (x mod 4 * 16 + y div 16), b64_char (y mod 16 * 4 + z div 64),
      b64_char (z mod 64)] @ b64_encode r)"

fun b64_quads :: "string \<Rightarrow> string option" where
  "b64_quads [] = Some []"
| "b64_quads (p # q # r # s # t) = (case (b64_val p, b64_val q) of
     (Some u, Some v) \<Rightarrow>
       if r = CHR ''='' \<and> s = CHR ''='' \<and> t = [] then Some [char_of (u * 4 + v div 16)]
       else (case b64_val r of None \<Rightarrow> None
         | Some w \<Rightarrow>
             if s = CHR ''='' \<and> t = [] then Some [char_of (u * 4 + v div 16), char_of (v mod 16 * 16 + w div 4)]
             else (case b64_val s of None \<Rightarrow> None
               | Some z \<Rightarrow> map_option (\<lambda>rest. char_of (u * 4 + v div 16) # char_of (v mod 16 * 16 + w div 4)
                   # char_of (w mod 4 * 64 + z) # rest) (b64_quads t)))
   | _ \<Rightarrow> None)"
| "b64_quads _ = None"

definition b64_decode :: "string \<Rightarrow> string option" where
  "b64_decode s = b64_quads (filter (\<lambda>c. c \<noteq> CHR 0x0A \<and> c \<noteq> CHR 0x0D) s)"

lemma b64_val_char [simp]: "n < 64 \<Longrightarrow> b64_val (b64_char n) = Some n"
  by (auto simp: b64_val_def b64_char_def Let_def)

lemma of_char_lt: "(of_char c :: nat) < 256"
  using of_char_mod_256[of c, where 'a=nat] by (metis mod_less_divisor zero_less_numeral)

lemma b64_char_not: "n < 64 \<Longrightarrow> b64_char n \<noteq> CHR ''='' \<and> b64_char n \<noteq> CHR 0x0A \<and> b64_char n \<noteq> CHR 0x0D"
proof -
  assume "n < 64"
  moreover have "b64_val CHR ''='' = None" "b64_val CHR 0x0A = None" "b64_val CHR 0x0D = None"
    by (simp_all add: b64_val_def)
  ultimately show ?thesis using b64_val_char[of n] by fastforce
qed

lemma b64_bounds:
  assumes "x < 256" "y < 256" "z < (256 :: nat)"
  shows "x div 4 < 64" "x mod 4 * 16 + y div 16 < 64" "x mod 4 * 16 < 64"
    "y mod 16 * 4 + z div 64 < 64" "y mod 16 * 4 < 64" "z mod 64 < 64"
  using assms by auto

lemma b64_join:
  assumes "x < 256" "y < 256" "z < (256 :: nat)"
  shows "x div 4 * 4 + (x mod 4 * 16 + y div 16) div 16 = x"
    "(x mod 4 * 16 + y div 16) mod 16 * 16 + (y mod 16 * 4 + z div 64) div 4 = y"
    "(y mod 16 * 4 + z div 64) mod 4 * 64 + z mod 64 = z"
proof -
  have d: "y div 16 < 16" "z div 64 < 4" using assms by auto
  have "x mod 4 * 16 + y div 16 = y div 16 + 16 * (x mod 4)"
    "y mod 16 * 4 + z div 64 = z div 64 + 4 * (y mod 16)" by simp_all
  then have "(x mod 4 * 16 + y div 16) div 16 = x mod 4" "(x mod 4 * 16 + y div 16) mod 16 = y div 16"
    "(y mod 16 * 4 + z div 64) div 4 = y mod 16" "(y mod 16 * 4 + z div 64) mod 4 = z div 64"
    using d by simp_all
  then show "x div 4 * 4 + (x mod 4 * 16 + y div 16) div 16 = x"
    "(x mod 4 * 16 + y div 16) mod 16 * 16 + (y mod 16 * 4 + z div 64) div 4 = y"
    "(y mod 16 * 4 + z div 64) mod 4 * 64 + z mod 64 = z"
    by simp_all
qed

lemma b64_quads_encode: "b64_quads (b64_encode s) = Some s"
proof (induction s rule: b64_encode.induct)
  case (2 a)
  note l = of_char_lt[of a] of_char_lt[of a] of_char_lt[of a]
  have "(of_char a :: nat) div 4 * 4 + (of_char a mod 4 * 16) div 16 = of_char a" by simp
  then show ?case
    using b64_val_char[OF b64_bounds(1)[OF l]] b64_val_char[OF b64_bounds(3)[OF l]] by (simp add: Let_def)
next
  case (3 a b)
  have z: "0 < (256 :: nat)" by simp
  note l = of_char_lt[of a] of_char_lt[of b] z
  have "(of_char b :: nat) mod 16 * 4 div 4 = of_char b mod 16" by simp
  with b64_join(1,2)[OF l] show ?case
    using b64_char_not[OF b64_bounds(5)[OF l]] b64_val_char[OF b64_bounds(1)[OF l]]
      b64_val_char[OF b64_bounds(2)[OF l]] b64_val_char[OF b64_bounds(5)[OF l]]
    by (simp add: Let_def)
next
  case (4 a b c r)
  note l = of_char_lt[of a] of_char_lt[of b] of_char_lt[of c]
  show ?case using 4 b64_join[OF l] b64_char_not[OF b64_bounds(4)[OF l]] b64_char_not[OF b64_bounds(6)[OF l]]
      b64_val_char[OF b64_bounds(1)[OF l]] b64_val_char[OF b64_bounds(2)[OF l]]
      b64_val_char[OF b64_bounds(4)[OF l]] b64_val_char[OF b64_bounds(6)[OF l]]
    by (simp add: Let_def)
qed simp

lemma b64_encode_no_breaks: "c \<in> set (b64_encode s) \<Longrightarrow> c \<noteq> CHR 0x0A \<and> c \<noteq> CHR 0x0D"
proof (induction s rule: b64_encode.induct)
  case (2 a)
  note l = of_char_lt[of a] of_char_lt[of a] of_char_lt[of a]
  show ?case using 2 b64_char_not[OF b64_bounds(1)[OF l]] b64_char_not[OF b64_bounds(3)[OF l]]
    by (auto simp: Let_def)
next
  case (3 a b)
  note l = of_char_lt[of a] of_char_lt[of b] of_char_lt[of b]
  show ?case using 3 b64_char_not[OF b64_bounds(1)[OF l]] b64_char_not[OF b64_bounds(2)[OF l]]
      b64_char_not[OF b64_bounds(5)[OF l]] by (auto simp: Let_def)
next
  case (4 a b c r)
  note l = of_char_lt[of a] of_char_lt[of b] of_char_lt[of c]
  show ?case using 4 b64_char_not[OF b64_bounds(1)[OF l]] b64_char_not[OF b64_bounds(2)[OF l]]
      b64_char_not[OF b64_bounds(4)[OF l]] b64_char_not[OF b64_bounds(6)[OF l]] by (auto simp: Let_def)
qed simp

lemma b64_decode_encode [simp]: "b64_decode (b64_encode s) = Some s"
proof -
  have "filter (\<lambda>c. c \<noteq> CHR 0x0A \<and> c \<noteq> CHR 0x0D) (b64_encode s) = b64_encode s"
    using b64_encode_no_breaks by (auto simp: filter_id_conv)
  then show ?thesis by (simp add: b64_decode_def b64_quads_encode)
qed

end
