(* ===== verification/Journal.thy ===== *)
theory Journal
  imports Facade Json Base64
begin

section \<open>The run journal: internal/journal/journal.go\<close>

text \<open>
  One append-only file of JSON lines per run, under a root directory: the map from file names to
  their bytes. An append writes one line and syncs it before it returns; the fault of an append
  says which system call fails in it, a failing write having put some of its bytes in the file.
\<close>

record line =
  SeqNo :: int
  KeyName :: LedgerKey
  XchgName :: string
  FormClass_of :: FormClass
  PriorPlan :: bytes

type_synonym journal_root = "(string, string) gomap"

record runJournal =
  rj_path :: string
  rj_seq :: int

datatype jfault = JOpen | JWrite nat | JSync

definition newline :: char where "newline = CHR 0x0A"

subsection \<open>The line's text\<close>

fun form_int :: "FormClass \<Rightarrow> int" where
  "form_int FormRead = 0"
| "form_int FormCreate = 1"
| "form_int FormUpdate = 2"
| "form_int FormDelete = 3"
| "form_int (FormOther n) = n"

definition form_of_int :: "int \<Rightarrow> FormClass" where
  "form_of_int n = (if n = 0 then FormRead else if n = 1 then FormCreate else if n = 2 then FormUpdate
     else if n = 3 then FormDelete else FormOther n)"

definition line_fields :: "line \<Rightarrow> object" where
  "line_fields l = [(''seq'', JNum (fmt_int (SeqNo l))), (''key'', JStr (KeyName l)),
     (''exchange'', JStr (XchgName l)), (''form'', JNum (fmt_int (form_int (FormClass_of l))))]
     @ (if slice_len (PriorPlan l) = 0 then [] else [(''prior'', JStr (b64_encode (slice_bytes (PriorPlan l))))])"

definition marshal_line :: "line \<Rightarrow> string" where
  "marshal_line l = print_json (JObj (line_fields l))"

definition bytes_field :: "object \<Rightarrow> string \<Rightarrow> bytes option" where
  "bytes_field m k = (case map_of (rev m) k of
     None \<Rightarrow> Some None | Some JNull \<Rightarrow> Some None
   | Some (JStr s) \<Rightarrow> map_option Some (b64_decode s) | _ \<Rightarrow> None)"

definition unmarshal_line :: "string \<Rightarrow> line option" where
  "unmarshal_line t = (case parse_json t of
     Some (j, rest) \<Rightarrow> if skip_ws rest \<noteq> [] then None else (case j of
         JObj m \<Rightarrow> (case (int_field m ''seq'', str_field m ''key'', str_field m ''exchange'',
             int_field m ''form'', bytes_field m ''prior'') of
             (Some n, Some k, Some x, Some f, Some p) \<Rightarrow>
               Some \<lparr>SeqNo = n, KeyName = k, XchgName = x, FormClass_of = form_of_int f, PriorPlan = p\<rparr>
           | _ \<Rightarrow> None)
       | JNull \<Rightarrow> Some \<lparr>SeqNo = 0, KeyName = [], XchgName = [], FormClass_of = FormRead, PriorPlan = None\<rparr>
       | _ \<Rightarrow> None)
   | None \<Rightarrow> None)"

subsection \<open>Operations\<close>

definition For :: "string \<Rightarrow> runJournal result" where
  "For runID = (if runID = [] \<or> ContainsAny runID [CHR ''/'', CHR 0x5C, CHR ''.'']
     then Inl (ErrOther ''journal: illegal run id'')
     else Inr \<lparr>rj_path = runID @ ''.jsonl'', rj_seq = 0\<rparr>)"

definition Create :: "journal_root \<Rightarrow> string \<Rightarrow> journal_root \<times> runJournal result" where
  "Create fs runID = (case For runID of
     Inl e \<Rightarrow> (fs, Inl e)
   | Inr j \<Rightarrow> if gm_get fs (runID @ ''.jsonl'') \<noteq> None
       then (fs, Inl (ErrOther ''journal: run id already exists''))
       else (gm_set (runID @ ''.jsonl'') [] fs, Inr j))"

text \<open>
  \<open>bufio.Scanner\<close> with its default limit: lines end at a newline, a carriage return before it is
  dropped, a last line without newline counts unless it is empty, and a line that does not fit the
  64 KiB buffer with its newline stops the scan.
\<close>

definition MaxScanTokenSize :: nat where "MaxScanTokenSize = 65536"

definition raw_lines :: "string \<Rightarrow> string list" where
  "raw_lines s = (let parts = Split newline s in if last parts = [] then butlast parts else parts)"

definition dropCR :: "string \<Rightarrow> string" where
  "dropCR s = (if s \<noteq> [] \<and> last s = CHR 0x0D then butlast s else s)"

fun scan_lines :: "string list \<Rightarrow> line list result" where
  "scan_lines [] = Inr []"
| "scan_lines (raw # rest) =
     (if MaxScanTokenSize \<le> length raw then Inl (ErrOther ''journal: read'')
      else if dropCR raw = [] then scan_lines rest
      else (case unmarshal_line (dropCR raw) of
          None \<Rightarrow> Inl (ErrOther ''journal: decode'')
        | Some l \<Rightarrow> (case scan_lines rest of Inl e \<Rightarrow> Inl e | Inr ls \<Rightarrow> Inr (l # ls))))"

definition journal_read :: "journal_root \<Rightarrow> runJournal \<Rightarrow> line list result" where
  "journal_read fs r = (case gm_get fs (rj_path r) of None \<Rightarrow> Inr [] | Some s \<Rightarrow> scan_lines (raw_lines s))"

definition Records :: "journal_root \<Rightarrow> runJournal \<Rightarrow> line list result" where
  "Records fs r = journal_read fs r"

definition file_append :: "journal_root \<Rightarrow> string \<Rightarrow> string \<Rightarrow> journal_root" where
  "file_append fs path b = gm_set path ((case gm_get fs path of None \<Rightarrow> [] | Some s \<Rightarrow> s) @ b) fs"

definition journal_append ::
  "journal_root \<Rightarrow> runJournal \<Rightarrow> LedgerKey \<Rightarrow> string \<Rightarrow> FormClass \<Rightarrow> bytes \<Rightarrow> jfault option
   \<Rightarrow> journal_root \<times> runJournal \<times> int result" where
  "journal_append fs r k exchange form prior fault =
     (case (if rj_seq r = 0 then map_sum id (\<lambda>ls. int (length ls)) (journal_read fs r) else Inr (rj_seq r)) of
        Inl e \<Rightarrow> (fs, r, Inl e)
      | Inr n \<Rightarrow>
          let r' = r\<lparr>rj_seq := n + 1\<rparr>;
              b = marshal_line \<lparr>SeqNo = n + 1, KeyName = k, XchgName = exchange, FormClass_of = form, PriorPlan = prior\<rparr>
                    @ [newline] in
          (case fault of
             Some JOpen \<Rightarrow> (fs, r', Inl (ErrOther ''journal: open''))
           | Some (JWrite m) \<Rightarrow> (file_append fs (rj_path r) (take m b), r', Inl (ErrOther ''journal: append''))
           | Some JSync \<Rightarrow> (file_append fs (rj_path r) b, r', Inl (ErrOther ''journal: sync''))
           | None \<Rightarrow> (file_append fs (rj_path r) b, r', Inr (n + 1))))"

subsection \<open>The line survives its text\<close>

lemma form_of_form_int: "f \<notin> range FormOther \<Longrightarrow> form_of_int (form_int f) = f"
  by (cases f) (auto simp: form_of_int_def)

definition canonical :: "line \<Rightarrow> bool" where
  "canonical l \<longleftrightarrow> FormClass_of l \<notin> range FormOther \<and> PriorPlan l \<noteq> Some []"

lemma printable_line: "printable (JObj (line_fields l))"
  using printable_fmt_int by (simp add: line_fields_def)

lemma unmarshal_marshal_line:
  assumes "canonical l"
  shows "unmarshal_line (marshal_line l) = Some l"
proof -
  let ?m = "line_fields l"
  have p: "parse_json (marshal_line l) = Some (JObj ?m, [])"
    using parse_print[OF printable_line, of "[]" l] by (simp add: marshal_line_def)
  have "int_field ?m ''seq'' = Some (SeqNo l)" "str_field ?m ''key'' = Some (KeyName l)"
    "str_field ?m ''exchange'' = Some (XchgName l)"
    "int_field ?m ''form'' = Some (form_int (FormClass_of l))"
    by (simp_all add: line_fields_def int_field_def str_field_def)
  moreover have "bytes_field ?m ''prior'' = Some (PriorPlan l)"
    using assms by (cases "PriorPlan l") (auto simp: line_fields_def bytes_field_def slice_len_def canonical_def)
  moreover have "form_of_int (form_int (FormClass_of l)) = FormClass_of l"
    using assms form_of_form_int by (simp add: canonical_def)
  ultimately show ?thesis using p by (simp add: unmarshal_line_def)
qed

lemma marshal_line_chars: "c \<in> set (marshal_line l) \<Longrightarrow> 32 \<le> (of_char c :: nat)"
  using print_json_no_control[OF printable_line] by (simp add: marshal_line_def)

lemma marshal_line_one_line [simp]: "newline \<notin> set (marshal_line l)"
  using marshal_line_chars[of newline l] by (auto simp: newline_def)

lemma marshal_line_not_Nil [simp]: "marshal_line l \<noteq> []"
  by (simp add: marshal_line_def)

lemma dropCR_id: "\<forall>c\<in>set s. 32 \<le> (of_char c :: nat) \<Longrightarrow> dropCR s = s"
proof (cases "s = []")
  case False
  assume "\<forall>c\<in>set s. 32 \<le> (of_char c :: nat)"
  with last_in_set[OF False] have "32 \<le> (of_char (last s) :: nat)" by blast
  then have "last s \<noteq> CHR 0x0D" by auto
  then show ?thesis by (simp add: dropCR_def)
qed (simp add: dropCR_def)

lemma dropCR_marshal [simp]: "dropCR (marshal_line l) = marshal_line l"
  using marshal_line_chars by (blast intro: dropCR_id)

subsection \<open>Files of whole lines\<close>

definition lines_text :: "line list \<Rightarrow> string" where
  "lines_text ls = concat (map (\<lambda>l. marshal_line l @ [newline]) ls)"

definition fits :: "line \<Rightarrow> bool" where
  "fits l \<longleftrightarrow> canonical l \<and> length (marshal_line l) < MaxScanTokenSize"

lemma Split_line: "c \<notin> set a \<Longrightarrow> Split c (a @ c # b) = a # Split c b"
  by (induction a) auto

lemma raw_lines_text: "raw_lines (lines_text ls @ t) = map marshal_line ls @ raw_lines t"
proof (induction ls)
  case (Cons l ls)
  have "Split newline (lines_text (l # ls) @ t) = marshal_line l # Split newline (lines_text ls @ t)"
    by (simp add: lines_text_def Split_line)
  with Cons show ?case by (simp add: raw_lines_def Let_def split: if_splits)
qed (simp add: lines_text_def)

lemma scan_lines_append:
  "list_all fits ls \<Longrightarrow> scan_lines (map marshal_line ls @ rest) = map_sum id ((@) ls) (scan_lines rest)"
proof (induction ls)
  case Nil
  then show ?case by (cases "scan_lines rest") auto
next
  case (Cons l ls)
  then show ?case
    by (cases "scan_lines rest") (auto simp: fits_def unmarshal_marshal_line)
qed

lemma read_text: "list_all fits ls \<Longrightarrow> scan_lines (raw_lines (lines_text ls)) = Inr ls"
  using scan_lines_append[of ls "[]"] raw_lines_text[of ls "[]"] by (simp add: raw_lines_def)

definition holds_lines :: "journal_root \<Rightarrow> string \<Rightarrow> line list \<Rightarrow> bool" where
  "holds_lines fs path ls \<longleftrightarrow> (case gm_get fs path of None \<Rightarrow> [] | Some s \<Rightarrow> s) = lines_text ls \<and> list_all fits ls"

lemma holds_lines_read: "holds_lines fs (rj_path r) ls \<Longrightarrow> journal_read fs r = Inr ls"
  using read_text[of ls]
  by (cases ls) (auto simp: holds_lines_def journal_read_def lines_text_def split: option.splits)

lemma append_ok:
  assumes "holds_lines fs (rj_path r) ls" "rj_seq r = 0 \<or> rj_seq r = int (length ls)"
    and "l = \<lparr>SeqNo = int (length ls) + 1, KeyName = k, XchgName = x, FormClass_of = f, PriorPlan = p\<rparr>"
    and "fits l"
  shows "\<exists>fs'. journal_append fs r k x f p None = (fs', r\<lparr>rj_seq := int (length ls) + 1\<rparr>, Inr (int (length ls) + 1)) \<and>
    holds_lines fs' (rj_path r) (ls @ [l])"
proof -
  have n: "(if rj_seq r = 0 then map_sum id (\<lambda>ls. int (length ls)) (journal_read fs r) else Inr (rj_seq r))
      = Inr (int (length ls))"
    using holds_lines_read[OF assms(1)] assms(2) by auto
  show ?thesis
    using assms(1,3,4) unfolding journal_append_def n
    by (auto simp: Let_def holds_lines_def file_append_def lines_text_def)
qed

text \<open>A step to be recorded, and the records a run of appends leaves.\<close>

type_synonym jstep = "LedgerKey \<times> string \<times> FormClass \<times> bytes"

fun append_all :: "journal_root \<Rightarrow> runJournal \<Rightarrow> jstep list \<Rightarrow> journal_root \<times> runJournal \<times> int result list" where
  "append_all fs r [] = (fs, r, [])"
| "append_all fs r ((k, x, f, p) # steps) = (case journal_append fs r k x f p None of (fs1, r1, res) \<Rightarrow>
     (case append_all fs1 r1 steps of (fs2, r2, ress) \<Rightarrow> (fs2, r2, res # ress)))"

fun numbered :: "nat \<Rightarrow> jstep list \<Rightarrow> line list" where
  "numbered n [] = []"
| "numbered n ((k, x, f, p) # steps) =
     \<lparr>SeqNo = int n + 1, KeyName = k, XchgName = x, FormClass_of = f, PriorPlan = p\<rparr> # numbered (Suc n) steps"

lemma append_all_ok:
  "holds_lines fs (rj_path r) ls \<Longrightarrow> rj_seq r = 0 \<or> rj_seq r = int (length ls) \<Longrightarrow>
   list_all fits (numbered (length ls) steps) \<Longrightarrow>
   \<exists>fs' r'. append_all fs r steps = (fs', r', map Inr [int (length ls) + 1 .. int (length ls + length steps)]) \<and>
     rj_path r' = rj_path r \<and> holds_lines fs' (rj_path r) (ls @ numbered (length ls) steps)"
proof (induction steps arbitrary: fs r ls)
  case (Cons step steps)
  obtain k x f p where step: "step = (k, x, f, p)" by (metis prod_cases4)
  let ?l = "\<lparr>SeqNo = int (length ls) + 1, KeyName = k, XchgName = x, FormClass_of = f, PriorPlan = p\<rparr>"
  let ?r = "r\<lparr>rj_seq := int (length ls) + 1\<rparr>"
  from Cons.prems(3) step have "fits ?l" by simp
  from append_ok[OF Cons.prems(1,2) refl this] obtain fs1 where
    a: "journal_append fs r k x f p None = (fs1, ?r, Inr (int (length ls) + 1))"
    and h: "holds_lines fs1 (rj_path ?r) (ls @ [?l])" by auto
  from Cons.IH[OF h] Cons.prems(3) step obtain fs' r' where
    "append_all fs1 ?r steps = (fs', r', map Inr [int (length ls) + 2 .. int (length ls + length steps) + 1])"
    "rj_path r' = rj_path r" "holds_lines fs' (rj_path r) (ls @ ?l # numbered (Suc (length ls)) steps)"
    by (auto simp: algebra_simps)
  moreover have "[int (length ls) + 1 .. int (length ls + length (step # steps))]
      = (int (length ls) + 1) # [int (length ls) + 2 .. int (length ls + length steps) + 1]"
    by (subst upto_rec1) (auto simp: algebra_simps)
  ultimately show ?case using a step by simp
qed simp

subsection \<open>Properties\<close>



text \<open>A run id is reserved once. After \<open>Create\<close> has succeeded, a second \<open>Create\<close> of the same
  run fails and changes nothing, whatever has been appended or has failed to be appended to any
  journal in between.\<close>

inductive journal_step :: "journal_root \<Rightarrow> journal_root \<Rightarrow> bool" where
  js_append: "journal_append fs r k x f p fault = (fs', r', res) \<Longrightarrow> journal_step fs fs'"
| js_create: "Create fs runID = (fs', res) \<Longrightarrow> journal_step fs fs'"

lemma journal_step_keeps: "journal_step fs fs' \<Longrightarrow> gm_get fs path \<noteq> None \<Longrightarrow> gm_get fs' path \<noteq> None"
  by (induction rule: journal_step.induct)
    (auto simp: journal_append_def Create_def file_append_def Let_def split: sum.splits option.splits jfault.splits if_splits)

theorem journal_create_once:
  assumes "Create fs runID = (fs1, Inr j)" "journal_step\<^sup>*\<^sup>* fs1 fs2"
  shows "Create fs2 runID = (fs2, Inl (ErrOther ''journal: run id already exists''))"
proof -
  from assms(1) have j: "For runID = Inr j" "gm_get fs1 (runID @ ''.jsonl'') \<noteq> None"
    by (auto simp: Create_def split: sum.splits if_splits)
  from assms(2) j(2) have "gm_get fs2 (runID @ ''.jsonl'') \<noteq> None"
    by (induction rule: rtranclp_induct) (auto dest: journal_step_keeps)
  with j(1) show ?thesis by (simp add: Create_def)
qed

theorem journal_create_once_witness:
  "\<exists>fs1 j. Create [] ''run1'' = (fs1, Inr j) \<and>
     Create fs1 ''run1'' = (fs1, Inl (ErrOther ''journal: run id already exists''))"
proof -
  obtain fs1 j where c: "Create [] ''run1'' = (fs1, Inr j)"
    by (simp add: Create_def For_def ContainsAny_def)
  from journal_create_once[OF c rtranclp.rtrancl_refl] c show ?thesis by blast
qed



end
