(* ===== verification/Semantics.thy ===== *)
theory Semantics
  imports Facade Json
begin

section \<open>Per-provider semantics: internal/semantics/semantics.go\<close>

text \<open>
  What a provider declares of its exchanges: the form of effect and the exchange that undoes it.
  A missing inverse is the declaration that there is none. The declarations are a list, as
  authored; \<open>New\<close> folds them into two maps.
\<close>

type_synonym Fidelity = string

definition FidelityExact :: Fidelity where "FidelityExact = ''exact''"
definition FidelityLossy :: Fidelity where "FidelityLossy = ''lossy''"
definition FidelityNone :: Fidelity where "FidelityNone = ''none''"

record Declaration =
  d_Exchange :: string
  d_Form :: string
  d_Inverse :: string
  d_Fidelity :: Fidelity

record inverse_exchange =
  inv_exchange :: string
  inv_fidelity :: Fidelity

record static =
  forms :: "(string, FormClass) gomap"
  inverses :: "(string, inverse_exchange) gomap"

definition FormOf :: "string \<Rightarrow> FormClass" where
  "FormOf verb = (let v = ToLower verb in
     if v \<in> {''insert'', ''create''} then FormCreate
     else if v \<in> {''update'', ''replace'', ''patch''} then FormUpdate
     else if v = ''delete'' then FormDelete
     else FormRead)"

text \<open>The loop body of \<open>New\<close>, one declaration at a time.\<close>

definition declared_fidelity :: "Declaration \<Rightarrow> Fidelity" where
  "declared_fidelity d = (if d_Fidelity d = [] then FidelityLossy else d_Fidelity d)"

definition New_step :: "static \<Rightarrow> Declaration \<Rightarrow> static result" where
  "New_step s d =
     (if d_Exchange d = [] then Inl (ErrOther ''declaration with no exchange'')
      else let s1 = s\<lparr>forms := gm_set (d_Exchange d) (FormOf (d_Form d)) (forms s)\<rparr> in
        if d_Inverse d = [] then Inr s1
        else if declared_fidelity d = FidelityNone then Inl (ErrOther ''inverse with fidelity none'')
        else Inr (s1\<lparr>inverses := gm_set (d_Exchange d)
          \<lparr>inv_exchange = d_Inverse d, inv_fidelity = declared_fidelity d\<rparr> (inverses s1)\<rparr>))"

fun New_loop :: "static \<Rightarrow> Declaration list \<Rightarrow> static result" where
  "New_loop s [] = Inr s"
| "New_loop s (d # ds) = (case New_step s d of Inl e \<Rightarrow> Inl e | Inr s' \<Rightarrow> New_loop s' ds)"

definition New :: "Declaration list \<Rightarrow> static result" where
  "New decls = New_loop \<lparr>forms = [], inverses = []\<rparr> decls"

definition zero_Declaration :: Declaration where
  "zero_Declaration = \<lparr>d_Exchange = [], d_Form = [], d_Inverse = [], d_Fidelity = []\<rparr>"

definition unmarshal_declaration :: "json \<Rightarrow> Declaration option" where
  "unmarshal_declaration j = (case j of
     JObj m \<Rightarrow> (case (str_field m ''exchange'', str_field m ''form'', str_field m ''inverse'', str_field m ''fidelity'') of
         (Some x, Some f, Some i, Some y) \<Rightarrow> Some \<lparr>d_Exchange = x, d_Form = f, d_Inverse = i, d_Fidelity = y\<rparr>
       | _ \<Rightarrow> None)
   | JNull \<Rightarrow> Some zero_Declaration
   | _ \<Rightarrow> None)"

definition FromJSON :: "string \<Rightarrow> static result" where
  "FromJSON b = (case parse_json b of
     Some (j, rest) \<Rightarrow> if skip_ws rest \<noteq> [] then Inl (ErrOther ''semantics decode'') else (case j of
         JArr xs \<Rightarrow> (case those (map unmarshal_declaration xs) of
             None \<Rightarrow> Inl (ErrOther ''semantics decode'')
           | Some decls \<Rightarrow> New decls)
       | JNull \<Rightarrow> New []
       | _ \<Rightarrow> Inl (ErrOther ''semantics decode''))
   | None \<Rightarrow> Inl (ErrOther ''semantics decode''))"

definition sem_Form :: "static \<Rightarrow> string \<Rightarrow> FormClass option" where
  "sem_Form s exchange = gm_get (forms s) exchange"

definition sem_Inverse :: "static \<Rightarrow> string \<Rightarrow> inverse_exchange option" where
  "sem_Inverse s exchange = gm_get (inverses s) exchange"

subsection \<open>What the maps hold\<close>

text \<open>The declarations that name an inverse for an exchange; the last of them counts.\<close>

definition inverse_decls :: "Declaration list \<Rightarrow> string \<Rightarrow> Declaration list" where
  "inverse_decls ds x = filter (\<lambda>d. d_Exchange d = x \<and> d_Inverse d \<noteq> []) ds"

definition form_decls :: "Declaration list \<Rightarrow> string \<Rightarrow> Declaration list" where
  "form_decls ds x = filter (\<lambda>d. d_Exchange d = x) ds"

definition valid_decl :: "Declaration \<Rightarrow> bool" where
  "valid_decl d \<longleftrightarrow> d_Exchange d \<noteq> [] \<and> (d_Inverse d \<noteq> [] \<longrightarrow> d_Fidelity d \<noteq> FidelityNone)"

lemma declared_none [simp]: "declared_fidelity d = FidelityNone \<longleftrightarrow> d_Fidelity d = FidelityNone"
  by (auto simp: declared_fidelity_def FidelityNone_def FidelityLossy_def)

lemma New_step_valid: "(\<exists>s'. New_step s d = Inr s') \<longleftrightarrow> valid_decl d"
  by (auto simp: New_step_def valid_decl_def Let_def)

lemma New_loop_valid: "(\<exists>s'. New_loop s ds = Inr s') \<longleftrightarrow> list_all valid_decl ds"
proof (induction ds arbitrary: s)
  case (Cons d ds)
  then show ?case using New_step_valid[of s d] by (cases "New_step s d") auto
qed simp

lemma New_step_maps:
  "New_step s d = Inr s' \<Longrightarrow>
   gm_get (forms s') x = (if d_Exchange d = x then Some (FormOf (d_Form d)) else gm_get (forms s) x) \<and>
   gm_get (inverses s') x = (if d_Exchange d = x \<and> d_Inverse d \<noteq> []
      then Some \<lparr>inv_exchange = d_Inverse d, inv_fidelity = declared_fidelity d\<rparr> else gm_get (inverses s) x)"
  by (auto simp: New_step_def Let_def split: if_splits)

lemma New_loop_inverses:
  "New_loop s ds = Inr s' \<Longrightarrow> gm_get (inverses s') x =
     (if inverse_decls ds x = [] then gm_get (inverses s) x
      else let d = last (inverse_decls ds x) in
        Some \<lparr>inv_exchange = d_Inverse d, inv_fidelity = declared_fidelity d\<rparr>)"
proof (induction ds arbitrary: s)
  case (Cons d ds)
  from Cons.prems obtain s1 where s1: "New_step s d = Inr s1" "New_loop s1 ds = Inr s'"
    by (auto split: sum.splits)
  from Cons.IH[OF s1(2)] New_step_maps[OF s1(1), of x] show ?case
    by (auto simp: inverse_decls_def Let_def)
qed (simp add: inverse_decls_def)

lemma New_loop_forms:
  "New_loop s ds = Inr s' \<Longrightarrow> gm_get (forms s') x =
     (if form_decls ds x = [] then gm_get (forms s) x
      else Some (FormOf (d_Form (last (form_decls ds x)))))"
proof (induction ds arbitrary: s)
  case (Cons d ds)
  from Cons.prems obtain s1 where s1: "New_step s d = Inr s1" "New_loop s1 ds = Inr s'"
    by (auto split: sum.splits)
  from Cons.IH[OF s1(2)] New_step_maps[OF s1(1), of x] show ?case by (auto simp: form_decls_def)
qed (simp add: form_decls_def)

text \<open>The declarations load exactly when each names an exchange and none declares an
  inverse of fidelity none, and then an exchange is invertible exactly when some declaration
  names an inverse for it; its inverse is the last one named, its fidelity is never none, and
  silence about fidelity reads as lossy.\<close>

theorem semantics_New_correct:
  "((\<exists>s. New ds = Inr s) \<longleftrightarrow> list_all valid_decl ds) \<and>
   (\<forall>s x. New ds = Inr s \<longrightarrow>
      (sem_Form s x = (if form_decls ds x = [] then None else Some (FormOf (d_Form (last (form_decls ds x)))))) \<and>
      (sem_Inverse s x = None \<longleftrightarrow> (\<forall>d\<in>set ds. d_Exchange d = x \<longrightarrow> d_Inverse d = [])) \<and>
      (\<forall>i. sem_Inverse s x = Some i \<longrightarrow> inv_fidelity i \<noteq> FidelityNone \<and>
         (\<exists>d\<in>set ds. d_Exchange d = x \<and> inv_exchange i = d_Inverse d \<and> d_Inverse d \<noteq> [] \<and>
            inv_fidelity i = (if d_Fidelity d = [] then FidelityLossy else d_Fidelity d))))"
proof (intro conjI allI impI)
  show "(\<exists>s. New ds = Inr s) \<longleftrightarrow> list_all valid_decl ds" by (simp add: New_def New_loop_valid)
next
  fix s x assume n: "New ds = Inr s"
  note loop = n[unfolded New_def]
  note inv = New_loop_inverses[OF loop, of x]
  show "sem_Form s x = (if form_decls ds x = [] then None else Some (FormOf (d_Form (last (form_decls ds x)))))"
    using New_loop_forms[OF loop, of x] by (simp add: sem_Form_def)
  show "sem_Inverse s x = None \<longleftrightarrow> (\<forall>d\<in>set ds. d_Exchange d = x \<longrightarrow> d_Inverse d = [])"
    using inv by (auto simp: sem_Inverse_def Let_def inverse_decls_def filter_empty_conv)
  fix i assume i: "sem_Inverse s x = Some i"
  let ?d = "last (inverse_decls ds x)"
  from inv i have ne: "inverse_decls ds x \<noteq> []"
    and id: "i = \<lparr>inv_exchange = d_Inverse ?d, inv_fidelity = declared_fidelity ?d\<rparr>"
    by (auto simp: sem_Inverse_def Let_def split: if_splits)
  from last_in_set[OF ne] have d: "?d \<in> set ds" "d_Exchange ?d = x" "d_Inverse ?d \<noteq> []"
    by (auto simp: inverse_decls_def)
  from loop New_loop_valid have "list_all valid_decl ds" by blast
  with d have "d_Fidelity ?d \<noteq> FidelityNone" by (auto simp: list_all_iff valid_decl_def)
  with id show "inv_fidelity i \<noteq> FidelityNone" by simp
  from d id show "\<exists>d\<in>set ds. d_Exchange d = x \<and> inv_exchange i = d_Inverse d \<and> d_Inverse d \<noteq> [] \<and>
      inv_fidelity i = (if d_Fidelity d = [] then FidelityLossy else d_Fidelity d)"
    by (auto simp: declared_fidelity_def)
qed

definition enable_api :: Declaration where
  "enable_api = \<lparr>d_Exchange = ''EnableApi'', d_Form = ''Update'', d_Inverse = ''DisableApi'', d_Fidelity = []\<rparr>"

theorem semantics_New_correct_witness:
  "\<exists>s. New [enable_api] = Inr s \<and> sem_Form s ''EnableApi'' = Some FormUpdate \<and>
     sem_Inverse s ''EnableApi'' \<noteq> None"
proof -
  have "list_all valid_decl [enable_api]" by (simp add: valid_decl_def enable_api_def FidelityNone_def)
  with semantics_New_correct[of "[enable_api]"] obtain s where s: "New [enable_api] = Inr s" by blast
  have "FormOf ''Update'' = FormUpdate"
    by code_simp
  with s semantics_New_correct[of "[enable_api]"] show ?thesis
    by (auto simp: form_decls_def enable_api_def)
qed

end
