(* ===== verification/Unwind.thy ===== *)
theory Unwind
  imports Journal Semantics Ledger_Memory
begin

section \<open>Compensation of a failed run: internal/unwind/unwind.go\<close>

text \<open>
  The unwinder reverses a run's journal against a ledger, a provider's semantics and an effector,
  all interface values. The state is the ledger's and the outside world's. Each pass attempts
  every compensation still to do; passes repeat until one makes no progress.
\<close>

record Outcome =
  Compensated :: "LedgerKey list"
  Outstanding :: "LedgerKey list"
  Reasons :: "(LedgerKey, err) gomap"

definition Complete :: "Outcome \<Rightarrow> bool" where
  "Complete out \<longleftrightarrow> Outstanding out = []"

record pending =
  p_key :: LedgerKey
  p_exchange :: string
  p_form :: FormClass
  p_prior :: bytes

type_synonym ('s, 'w) ustate = "'s \<times> 'w"

definition input :: "LedgerEntry \<Rightarrow> EffectInput" where
  "input e = \<lparr>Params = [], Mutation = ent_plan e, Identity = ent_identity e\<rparr>"

definition restore ::
  "('s, 'z) Ledger_scheme \<Rightarrow> ('w, 'y) Effector_scheme \<Rightarrow> ('s, 'w) ustate \<Rightarrow> pending \<Rightarrow> ('s, 'w) ustate \<times> unit result" where
  "restore L E st p = (case st of (s, w) \<Rightarrow> (case Get L s (p_key p) of
     Inl e \<Rightarrow> (st, Inl e)
   | Inr None \<Rightarrow> (st, Inr ())
   | Inr (Some (e, v)) \<Rightarrow>
       if slice_len (p_prior p) = 0 then (st, Inl (ErrOther ''no prior intent to restore''))
       else (case Effect E w (p_exchange p) (p_key p)
           \<lparr>Params = [], Mutation = p_prior p, Identity = ent_identity e\<rparr> of
           (w1, Inl err) \<Rightarrow> ((s, w1), Inl err)
         | (w1, Inr _) \<Rightarrow> (case Begin L s (p_key p) (p_prior p) v of
             (s1, Inl err) \<Rightarrow> ((s1, w1), Inl err)
           | (s1, Inr _) \<Rightarrow> (case Get L s1 (p_key p) of
               Inl err \<Rightarrow> ((s1, w1), Inl err)
             | Inr None \<Rightarrow> ((s1, w1), Inr ())
             | Inr (Some (_, v1)) \<Rightarrow> (case Resolve L s1 (p_key p) (ent_identity e) None v1 of
                 (s2, r) \<Rightarrow> ((s2, w1), r)))))))"

definition forget_current ::
  "('s, 'z) Ledger_scheme \<Rightarrow> ('s, 'w) ustate \<Rightarrow> LedgerKey \<Rightarrow> ('s, 'w) ustate \<times> unit result" where
  "forget_current L st k = (case st of (s, w) \<Rightarrow> (case Get L s k of
     Inl err \<Rightarrow> (st, Inl err)
   | Inr None \<Rightarrow> (st, Inr ())
   | Inr (Some (_, v)) \<Rightarrow> (case Forget L s k v of (s1, r) \<Rightarrow> ((s1, w), r))))"

definition run_inverse ::
  "('s, 'z) Ledger_scheme \<Rightarrow> ('w, 'y) Effector_scheme \<Rightarrow> ('s, 'w) ustate \<Rightarrow> string \<Rightarrow> LedgerKey \<Rightarrow> LedgerEntry
   \<Rightarrow> ('s, 'w) ustate \<times> unit result" where
  "run_inverse L E st x k e = (case st of (s, w) \<Rightarrow> (case Effect E w x k (input e) of
     (w1, Inl err) \<Rightarrow> ((s, w1), Inl err)
   | (w1, Inr _) \<Rightarrow> forget_current L (s, w1) k))"

definition compensate ::
  "('s, 'z) Ledger_scheme \<Rightarrow> static \<Rightarrow> ('w, 'y) Effector_scheme \<Rightarrow> ('s, 'w) ustate \<Rightarrow> pending
   \<Rightarrow> ('s, 'w) ustate \<times> unit result" where
  "compensate L sem E st p =
     (if p_form p = FormUpdate then restore L E st p
      else (case sem_Inverse sem (p_exchange p) of
          None \<Rightarrow> (st, Inl (ErrOther ''no inverse declared''))
        | Some i \<Rightarrow>
            if inv_fidelity i = FidelityNone then (st, Inl (ErrOther ''no inverse declared''))
            else (case st of (s, w) \<Rightarrow> (case Get L s (p_key p) of
                Inl err \<Rightarrow> (st, Inl err)
              | Inr None \<Rightarrow> (st, Inr ())
              | Inr (Some (e, v)) \<Rightarrow>
                  if ent_phase e = LedgerPending
                  then (case Read E w (p_exchange p) (p_key p) (input e) of
                      Inl err \<Rightarrow> (st, Inl err)
                    | Inr (actual, _, readable) \<Rightarrow>
                        if \<not> readable then (st, Inl (ErrOther ''pending and no usable read''))
                        else if slice_len actual = 0
                        then (case Forget L s (p_key p) v of (s1, r) \<Rightarrow> ((s1, w), r))
                        else run_inverse L E st (inv_exchange i) (p_key p) e)
                  else run_inverse L E st (inv_exchange i) (p_key p) e))))"

text \<open>One pass over the compensations still to do: the new state, what was blocked, whether
  anything was reversed, and the outcome so far.\<close>

fun unwind_pass ::
  "('s, 'z) Ledger_scheme \<Rightarrow> static \<Rightarrow> ('w, 'y) Effector_scheme \<Rightarrow> ('s, 'w) ustate \<Rightarrow> Outcome \<Rightarrow> pending list
   \<Rightarrow> ('s, 'w) ustate \<times> Outcome \<times> pending list \<times> bool" where
  "unwind_pass L sem E st out [] = (st, out, [], False)"
| "unwind_pass L sem E st out (p # ps) = (case compensate L sem E st p of
     (st1, Inr _) \<Rightarrow>
       (case unwind_pass L sem E st1 (out\<lparr>Compensated := Compensated out @ [p_key p]\<rparr>) ps of
         (st2, out2, blocked, _) \<Rightarrow> (st2, out2, blocked, True))
   | (st1, Inl ErrCompensationBlocked) \<Rightarrow>
       (case unwind_pass L sem E st1 (out\<lparr>Reasons := gm_set (p_key p) ErrCompensationBlocked (Reasons out)\<rparr>) ps of
         (st2, out2, blocked, pr) \<Rightarrow> (st2, out2, p # blocked, pr))
   | (st1, Inl e) \<Rightarrow>
       unwind_pass L sem E st1 (out\<lparr>Outstanding := Outstanding out @ [p_key p],
         Reasons := gm_set (p_key p) e (Reasons out)\<rparr>) ps)"

text \<open>A pass that reversed something leaves less to do, so the passes end.\<close>

lemma unwind_pass_blocked:
  "unwind_pass L sem E st out ps = (st', out', blocked, pr) \<Longrightarrow>
   length blocked \<le> length ps \<and> (pr \<longrightarrow> length blocked < length ps)"
  by (induction L sem E st out ps arbitrary: st' out' blocked pr rule: unwind_pass.induct)
    (fastforce split: prod.splits sum.splits unit.splits err.splits)+

function unwind_loop ::
  "('s, 'z) Ledger_scheme \<Rightarrow> static \<Rightarrow> ('w, 'y) Effector_scheme \<Rightarrow> ('s, 'w) ustate \<Rightarrow> Outcome \<Rightarrow> pending list
   \<Rightarrow> ('s, 'w) ustate \<times> Outcome" where
  "unwind_loop L sem E st out todo =
     (if todo = [] then (st, out)
      else (case unwind_pass L sem E st out todo of (st1, out1, blocked, progressed) \<Rightarrow>
        if \<not> progressed then (st1, out1\<lparr>Outstanding := Outstanding out1 @ map p_key blocked\<rparr>)
        else unwind_loop L sem E st1 out1 blocked))"
  by pat_completeness auto
termination
  by (relation "measure (\<lambda>(L, sem, E, st, out, todo). length todo)")
    (auto dest: unwind_pass_blocked[OF sym])

declare unwind_loop.simps [simp del]

definition pending_of :: "line \<Rightarrow> pending" where
  "pending_of l = \<lparr>p_key = KeyName l, p_exchange = XchgName l, p_form = FormClass_of l, p_prior = PriorPlan l\<rparr>"

definition empty_outcome :: Outcome where
  "empty_outcome = \<lparr>Compensated = [], Outstanding = [], Reasons = []\<rparr>"

definition Unwind ::
  "('s, 'z) Ledger_scheme \<Rightarrow> journal_root \<Rightarrow> static \<Rightarrow> ('w, 'y) Effector_scheme \<Rightarrow> ('s, 'w) ustate \<Rightarrow> string
   \<Rightarrow> ('s, 'w) ustate \<times> Outcome result" where
  "Unwind L journals sem E st runID = (case For runID of
     Inl e \<Rightarrow> (st, Inl e)
   | Inr j \<Rightarrow> (case Records journals j of
       Inl e \<Rightarrow> (st, Inl e)
     | Inr recs \<Rightarrow> (case unwind_loop L sem E st empty_outcome (map pending_of (rev recs)) of
         (st', out) \<Rightarrow> (st', Inr out))))"

subsection \<open>Every record is accounted for\<close>

definition accounted :: "Outcome \<Rightarrow> LedgerKey multiset" where
  "accounted out = mset (Compensated out) + mset (Outstanding out)"

text \<open>The three outcomes of one attempt.\<close>

lemma unwind_pass_Cons:
  "unwind_pass L sem E st out (p # ps) = (case compensate L sem E st p of (st1, r) \<Rightarrow>
     if r = Inr () then
       (case unwind_pass L sem E st1 (out\<lparr>Compensated := Compensated out @ [p_key p]\<rparr>) ps of
         (st2, out2, blocked, _) \<Rightarrow> (st2, out2, blocked, True))
     else if r = Inl ErrCompensationBlocked then
       (case unwind_pass L sem E st1 (out\<lparr>Reasons := gm_set (p_key p) ErrCompensationBlocked (Reasons out)\<rparr>) ps of
         (st2, out2, blocked, pr) \<Rightarrow> (st2, out2, p # blocked, pr))
     else unwind_pass L sem E st1 (out\<lparr>Outstanding := Outstanding out @ [p_key p],
         Reasons := gm_set (p_key p) (projl r) (Reasons out)\<rparr>) ps)"
proof -
  obtain st1 r where "compensate L sem E st p = (st1, r)" by fastforce
  then show ?thesis by (cases r rule: sum.exhaust; cases "projl r") simp_all
qed

lemma unwind_pass_accounts:
  "unwind_pass L sem E st out ps = (st', out', blocked, pr) \<Longrightarrow>
   accounted out' + mset (map p_key blocked) = accounted out + mset (map p_key ps)"
proof (induction ps arbitrary: st out st' out' blocked pr)
  case (Cons p ps)
  obtain st1 r where c: "compensate L sem E st p = (st1, r)" by fastforce
  obtain st2 out2 bl2 pr2 where rest: "unwind_pass L sem E st1 (if r = Inr () then out\<lparr>Compensated := Compensated out @ [p_key p]\<rparr>
      else if r = Inl ErrCompensationBlocked then out\<lparr>Reasons := gm_set (p_key p) ErrCompensationBlocked (Reasons out)\<rparr>
      else out\<lparr>Outstanding := Outstanding out @ [p_key p], Reasons := gm_set (p_key p) (projl r) (Reasons out)\<rparr>) ps
      = (st2, out2, bl2, pr2)" by (metis prod_cases4)
  from Cons.prems c rest Cons.IH[OF rest] show ?case
    unfolding unwind_pass_Cons by (auto simp: accounted_def split: if_splits)
qed simp

lemma unwind_loop_accounts:
  "unwind_loop L sem E st out todo = (st', out') \<Longrightarrow> accounted out' = accounted out + mset (map p_key todo)"
proof (induction "length todo" arbitrary: todo st out rule: less_induct)
  case less
  obtain st1 out1 bl pr where p: "unwind_pass L sem E st out todo = (st1, out1, bl, pr)" by (metis prod_cases4)
  note acc = unwind_pass_accounts[OF p]
  show ?case
  proof (cases "todo = [] \<or> \<not> pr")
    case True
    with less.prems p acc show ?thesis
      by (subst (asm) unwind_loop.simps) (auto simp: accounted_def add.assoc split: if_splits)
  next
    case False
    with less.prems p have "unwind_loop L sem E st1 out1 bl = (st', out')"
      by (subst (asm) unwind_loop.simps) simp
    with less.hyps unwind_pass_blocked[OF p] False acc show ?thesis by metis
  qed
qed

subsection \<open>Only declared compensations reach the provider\<close>

text \<open>The effector that records every call it passes on.\<close>

type_synonym call = "string \<times> LedgerKey \<times> EffectInput"

definition traced :: "('w, 'y) Effector_scheme \<Rightarrow> ('w \<times> call list) Effector" where
  "traced E = \<lparr>Effect = (\<lambda>wt x k i. case Effect E (fst wt) x k i of (w', r) \<Rightarrow> ((w', snd wt @ [(x, k, i)]), r)),
     Read = (\<lambda>wt x k i. Read E (fst wt) x k i)\<rparr>"

text \<open>A call is justified by a compensation to do: the same exchange with the prior intent for an
  update, and the declared inverse for anything else.\<close>

definition justified :: "static \<Rightarrow> pending \<Rightarrow> call \<Rightarrow> bool" where
  "justified sem p c \<longleftrightarrow> (case c of (x, k, i) \<Rightarrow> k = p_key p \<and>
     (if p_form p = FormUpdate then x = p_exchange p \<and> Mutation i = p_prior p \<and> slice_len (p_prior p) \<noteq> 0
      else (\<exists>iv. sem_Inverse sem (p_exchange p) = Some iv \<and> inv_fidelity iv \<noteq> FidelityNone \<and> x = inv_exchange iv)))"

definition all_justified :: "static \<Rightarrow> pending list \<Rightarrow> call list \<Rightarrow> call list \<Rightarrow> bool" where
  "all_justified sem ps t t' \<longleftrightarrow> (\<exists>new. t' = t @ new \<and> (\<forall>c\<in>set new. \<exists>p\<in>set ps. justified sem p c))"

lemma all_justified_refl [simp]: "all_justified sem ps t t"
  by (simp add: all_justified_def)

lemma all_justified_trans:
  "all_justified sem ps t t' \<Longrightarrow> all_justified sem ps' t' t'' \<Longrightarrow> set ps \<union> set ps' \<subseteq> set qs \<Longrightarrow>
   all_justified sem qs t t''"
  unfolding all_justified_def by fastforce

lemma forget_current_world: "forget_current L (s, w) k = (st', r) \<Longrightarrow> snd st' = w"
  by (auto simp: forget_current_def split: prod.splits sum.splits option.splits)

lemma run_inverse_trace:
  "run_inverse L (traced E) (s, w, t) x k e = ((s', w', t'), r) \<Longrightarrow> t' = t @ [(x, k, input e)]"
  by (auto simp: run_inverse_def traced_def split: prod.splits sum.splits dest: forget_current_world)

lemma restore_world:
  assumes "restore L E (s, w) p = (st', r)"
  shows "snd st' = w \<or> slice_len (p_prior p) \<noteq> 0 \<and> (\<exists>e :: LedgerEntry.
     snd st' = fst (Effect E w (p_exchange p) (p_key p) \<lparr>Params = [], Mutation = p_prior p, Identity = ent_identity e\<rparr>))"
proof (cases "\<exists>e v. Get L s (p_key p) = Inr (Some (e, v)) \<and> slice_len (p_prior p) \<noteq> 0")
  case True
  then obtain e v where e: "Get L s (p_key p) = Inr (Some (e, v))" "slice_len (p_prior p) \<noteq> 0" by blast
  obtain w1 er where ef: "Effect E w (p_exchange p) (p_key p)
      \<lparr>Params = [], Mutation = p_prior p, Identity = ent_identity e\<rparr> = (w1, er)" by fastforce
  have "snd st' = w1"
    using assms e ef by (auto simp: restore_def split: prod.split_asm sum.split_asm option.split_asm)
  with ef have "snd st' = fst (Effect E w (p_exchange p) (p_key p)
      \<lparr>Params = [], Mutation = p_prior p, Identity = ent_identity e\<rparr>)" by simp
  with e(2) show ?thesis by blast
next
  case False
  then show ?thesis using assms
    by (auto simp: restore_def split: sum.split_asm option.split_asm)
qed

lemma traced_Effect: "snd (fst (Effect (traced E) (w, t) x k i)) = t @ [(x, k, i)]"
  by (simp add: traced_def split: prod.split)

lemma restore_trace:
  assumes "restore L (traced E) (s, w, t) p = ((s', w', t'), r)" "p_form p = FormUpdate"
  shows "all_justified sem [p] t t'"
proof -
  from restore_world[OF assms(1)] consider "t' = t"
    | e :: LedgerEntry where "slice_len (p_prior p) \<noteq> 0"
      "t' = t @ [(p_exchange p, p_key p, \<lparr>Params = [], Mutation = p_prior p, Identity = ent_identity e\<rparr>)]"
    using traced_Effect by (metis snd_conv)
  then show ?thesis by cases (use assms(2) in \<open>auto simp: all_justified_def justified_def\<close>)
qed

lemma compensate_trace:
  assumes "compensate L sem (traced E) (s, w, t) p = ((s', w', t'), r)"
  shows "all_justified sem [p] t t'"
proof (cases "p_form p = FormUpdate")
  case True
  with assms restore_trace show ?thesis by (simp add: compensate_def) fast
next
  case False
  have inv: "all_justified sem [p] t t'"
    if "sem_Inverse sem (p_exchange p) = Some i" "inv_fidelity i \<noteq> FidelityNone"
      "run_inverse L (traced E) (s, w, t) (inv_exchange i) (p_key p) e = ((s', w', t'), r)" for i e
    using that False run_inverse_trace[OF that(3)] by (simp add: all_justified_def justified_def)
  with assms False show ?thesis
    by (auto simp: compensate_def split: prod.splits sum.splits option.splits if_splits)
qed

lemma unwind_pass_trace:
  "unwind_pass L sem (traced E) (s, w, t) out ps = ((s', w', t'), out', blocked, pr) \<Longrightarrow>
   all_justified sem ps t t' \<and> set blocked \<subseteq> set ps"
proof (induction ps arbitrary: s w t out out' blocked pr)
  case (Cons p ps)
  obtain s1 w1 t1 r where c: "compensate L sem (traced E) (s, w, t) p = ((s1, w1, t1), r)" by (metis prod_cases4 surj_pair)
  note j = compensate_trace[OF c]
  obtain out1 bl1 pr1 o1 where rest: "unwind_pass L sem (traced E) (s1, w1, t1) o1 ps = ((s', w', t'), out1, bl1, pr1)"
    and b: "blocked = bl1 \<or> blocked = p # bl1"
    using Cons.prems c unfolding unwind_pass_Cons by (auto split: if_splits prod.splits)
  from Cons.IH[OF rest] j b show ?case by (auto intro: all_justified_trans)
qed simp

lemma unwind_loop_trace:
  "unwind_loop L sem (traced E) (s, w, t) out todo = ((s', w', t'), out') \<Longrightarrow> all_justified sem todo t t'"
proof (induction "length todo" arbitrary: todo s w t out rule: less_induct)
  case less
  obtain s1 w1 t1 out1 bl pr where p: "unwind_pass L sem (traced E) (s, w, t) out todo = ((s1, w1, t1), out1, bl, pr)"
    by (metis prod_cases4 surj_pair)
  note tr = unwind_pass_trace[OF p]
  show ?case
  proof (cases "todo = [] \<or> \<not> pr")
    case True
    with less.prems p tr show ?thesis by (subst (asm) unwind_loop.simps) (auto split: if_splits)
  next
    case False
    with less.prems p have "unwind_loop L sem (traced E) (s1, w1, t1) out1 bl = ((s', w', t'), out')"
      by (subst (asm) unwind_loop.simps) simp
    with less.hyps unwind_pass_blocked[OF p] False have "all_justified sem bl t1 t'" by blast
    with tr show ?thesis by (auto intro: all_justified_trans)
  qed
qed

subsection \<open>What a compensation leaves in the ledger\<close>

context ledger_contract
begin

text \<open>An operation on one key: the invariant is kept and other keys are not touched.\<close>

definition only_touches :: "LedgerKey \<Rightarrow> 's \<Rightarrow> 's \<Rightarrow> bool" where
  "only_touches k s s' \<longleftrightarrow> invar s' \<and> (\<forall>k'. k' \<noteq> k \<longrightarrow> ok k' \<longrightarrow> Get L s' k' = Get L s k')"

lemma only_touches_refl: "invar s \<Longrightarrow> only_touches k s s"
  by (simp add: only_touches_def)

lemma only_touches_trans: "only_touches k s s1 \<Longrightarrow> only_touches k s1 s2 \<Longrightarrow> only_touches k s s2"
  by (simp add: only_touches_def)

lemma op_touches:
  assumes "invar s" "refines_op L invar ok s k eff (s', r)"
  shows "only_touches k s s'"
  using refines_op_inv[OF assms] refines_op_frame[OF assms(2)] by (simp add: only_touches_def)

lemma forget_result:
  assumes "invar s" "ok k" "room s k" "Get L s k = Inr (Some (e, v))" "Forget L s k v = (s', r)"
  shows "r = Inr () \<and> Get L s' k = Inr None \<and> only_touches k s s'"
proof -
  have ref: "refines_op L invar ok s k (spec_forget (Some (e, v)) v) (s', r)"
    using forget_refines[OF assms(1-4), of v] assms(5) by simp
  with op_touches[OF assms(1) this] get_wf[OF assms(1,2,4)] show ?thesis
    by (auto simp: spec_simps refines_op_def split: if_splits)
qed

lemma forget_current_result:
  assumes "invar s" "ok k" "room s k" "forget_current L (s, w) k = ((s', w'), r)"
  shows "w' = w \<and> r = Inr () \<and> Get L s' k = Inr None \<and> only_touches k s s'"
proof -
  from get_total[OF assms(1,2)] obtain c where c: "Get L s k = Inr c" by blast
  show ?thesis
  proof (cases c)
    case None
    with c assms(1,4) show ?thesis by (simp add: forget_current_def only_touches_refl)
  next
    case (Some ev)
    with c obtain e v where ev: "Get L s k = Inr (Some (e, v))" by (cases ev) auto
    obtain s1 r1 where f: "Forget L s k v = (s1, r1)" by fastforce
    with ev assms(4) have "s' = s1" "r = r1" "w' = w" by (simp_all add: forget_current_def)
    with forget_result[OF assms(1-3) ev f] show ?thesis by simp
  qed
qed

lemma run_inverse_result:
  assumes "invar s" "ok k" "room s k" "run_inverse L E (s, w) x k e = ((s', w'), r)"
  shows "only_touches k s s' \<and> (r = Inr () \<longrightarrow> Get L s' k = Inr None) \<and> (r \<noteq> Inr () \<longrightarrow> s' = s)"
proof -
  obtain w1 er where ef: "Effect E w x k (input e) = (w1, er)" by fastforce
  show ?thesis
  proof (cases er)
    case (Inl err)
    with ef assms(1,4) show ?thesis by (auto simp: run_inverse_def only_touches_refl)
  next
    case (Inr y)
    with ef assms(4) have "forget_current L (s, w1) k = ((s', w'), r)" by (simp add: run_inverse_def)
    from forget_current_result[OF assms(1-3) this] show ?thesis by simp
  qed
qed

lemma restore_result:
  assumes "invar s" "ok (p_key p)" and rooms: "\<And>s'. invar s' \<Longrightarrow> room s' (p_key p)"
    and "restore L E (s, w) p = ((s', w'), r)"
  shows "only_touches (p_key p) s s' \<and> (r = Inr () \<longrightarrow> (\<forall>e v. Get L s (p_key p) = Inr (Some (e, v)) \<longrightarrow>
    (\<exists>e' v'. Get L s' (p_key p) = Inr (Some (e', v')) \<and> ent_phase e' = LedgerLive \<and>
       bytes_Equal (ent_plan e') (p_prior p) \<and> ent_identity e' = slice_norm (ent_identity e))))"
proof -
  let ?k = "p_key p"
  from get_total[OF assms(1,2)] obtain c where c: "Get L s ?k = Inr c" by blast
  consider "c = None" | "slice_len (p_prior p) = 0"
    | e v where "c = Some (e, v)" "slice_len (p_prior p) \<noteq> 0" by (cases c) auto
  then show ?thesis
  proof cases
    case 3
    note ev = c[unfolded 3(1)]
    obtain w1 er where ef: "Effect E w (p_exchange p) ?k \<lparr>Params = [], Mutation = p_prior p, Identity = ent_identity e\<rparr> = (w1, er)"
      by fastforce
    obtain s1 br where bg: "Begin L s ?k (p_prior p) v = (s1, br)" by fastforce
    have vn: "v \<noteq> LedgerVersionNone" using get_wf[OF assms(1,2) ev] by simp
    note bref = begin_refines[OF assms(1,2) rooms[OF assms(1)] ev, of "p_prior p" v, unfolded bg]
    note touch1 = op_touches[OF assms(1) bref]
    then have inv1: "invar s1" by (simp add: only_touches_def)
    from bref vn ev obtain e1 v1 where br: "br = Inr ()" and g1: "Get L s1 ?k = Inr (Some (e1, v1))"
      and e1: "ent_phase e1 = LedgerPending" "slice_norm (ent_proposed e1) = slice_norm (p_prior p)"
      by (auto simp: spec_simps refines_op_def entry_agrees_iff same_proposal_def bytes_Equal_norm split: if_splits)
    obtain s2 rr where rs: "Resolve L s1 ?k (ent_identity e) None v1 = (s2, rr)" by fastforce
    note rref = resolve_refines[OF inv1 assms(2) rooms[OF inv1] g1, of "ent_identity e" None v1, unfolded rs]
    note touch = only_touches_trans[OF touch1 op_touches[OF inv1 rref]]
    show ?thesis
    proof (cases er)
      case (Inl err)
      with ev 3(2) ef assms(1,4) show ?thesis by (auto simp: restore_def only_touches_refl)
    next
      case (Inr y)
      with ev 3(2) ef bg br g1 rs assms(4) have "s' = s2" "r = rr" by (simp_all add: restore_def)
      moreover have "\<exists>e2 v2. Get L s2 ?k = Inr (Some (e2, v2)) \<and> ent_phase e2 = LedgerLive \<and>
          ent_plan e2 = ent_proposed e1 \<and> ent_identity e2 = slice_norm (ent_identity e)"
        using rref e1 get_wf[OF inv1 assms(2) g1]
        by (auto simp: spec_simps refines_op_def entry_agrees_iff split: if_splits)
      ultimately show ?thesis using touch ev e1 by (auto simp: bytes_Equal_norm)
    qed
  qed (use c assms(1,4) in \<open>auto simp: restore_def only_touches_refl split: option.split_asm\<close>)
qed

lemma compensate_result:
  assumes "invar s" "ok (p_key p)" and rooms: "\<And>s'. invar s' \<Longrightarrow> room s' (p_key p)"
    and "compensate L sem E (s, w) p = ((s', w'), r)"
  shows "only_touches (p_key p) s s'"
    and "r = Inr () \<Longrightarrow> p_form p \<noteq> FormUpdate \<Longrightarrow> Get L s' (p_key p) = Inr None"
    and "r = Inr () \<Longrightarrow> p_form p = FormUpdate \<Longrightarrow> Get L s (p_key p) = Inr (Some (e, v)) \<Longrightarrow>
      \<exists>e' v'. Get L s' (p_key p) = Inr (Some (e', v')) \<and> ent_phase e' = LedgerLive \<and>
       bytes_Equal (ent_plan e') (p_prior p) \<and> ent_identity e' = slice_norm (ent_identity e)"
proof -
  let ?k = "p_key p"
  have A: "only_touches ?k s s' \<and> (r = Inr () \<longrightarrow> Get L s' ?k = Inr None)" if upd: "p_form p \<noteq> FormUpdate"
  proof -
    note run = run_inverse_result[OF assms(1,2) rooms[OF assms(1)]]
    note fgt = forget_result[OF assms(1,2) rooms[OF assms(1)]]
    from assms(1,4) upd show ?thesis
      by (auto simp: compensate_def split: option.split_asm sum.split_asm prod.split_asm if_split_asm
          dest: run fgt intro: only_touches_refl)
  qed
  have B: "restore L E (s, w) p = ((s', w'), r)" if "p_form p = FormUpdate"
    using assms(4) that by (simp add: compensate_def)
  show "only_touches ?k s s'"
    using A restore_result[OF assms(1,2) rooms B] by blast
  show "Get L s' ?k = Inr None" if "r = Inr ()" "p_form p \<noteq> FormUpdate"
    using A that by blast
  show "\<exists>e' v'. Get L s' ?k = Inr (Some (e', v')) \<and> ent_phase e' = LedgerLive \<and>
       bytes_Equal (ent_plan e') (p_prior p) \<and> ent_identity e' = slice_norm (ent_identity e)"
    if "r = Inr ()" "p_form p = FormUpdate" "Get L s ?k = Inr (Some (e, v))"
    using restore_result[OF assms(1,2) rooms B[OF that(2)]] that by blast
qed

lemma unwind_pass_frame:
  assumes rooms: "\<And>s' k. invar s' \<Longrightarrow> room s' k"
  shows "invar s \<Longrightarrow> \<forall>p\<in>set ps. ok (p_key p) \<Longrightarrow>
    unwind_pass L sem E (s, w) out ps = ((s', w'), out', bl, pr) \<Longrightarrow>
    invar s' \<and> set bl \<subseteq> set ps \<and> (\<forall>k. ok k \<longrightarrow> k \<notin> p_key ` set ps \<longrightarrow> Get L s' k = Get L s k)"
proof (induction ps arbitrary: s w out out' bl pr)
  case (Cons p ps)
  obtain s1 w1 r where c: "compensate L sem E (s, w) p = ((s1, w1), r)" by (metis prod_cases3 surj_pair)
  have t: "only_touches (p_key p) s s1"
    using Cons.prems(1,2) rooms c by (intro compensate_result(1)) auto
  obtain out1 bl1 pr1 o1 where rest: "unwind_pass L sem E (s1, w1) o1 ps = ((s', w'), out1, bl1, pr1)"
    and b: "bl = bl1 \<or> bl = p # bl1"
    using Cons.prems(3) c unfolding unwind_pass_Cons by (auto split: if_splits prod.splits)
  from t have "invar s1" by (simp add: only_touches_def)
  from Cons.IH[OF this _ rest] Cons.prems(2) t b show ?case
    by (auto simp: only_touches_def)
qed simp

lemma unwind_loop_frame:
  assumes rooms: "\<And>s' k. invar s' \<Longrightarrow> room s' k"
  shows "invar s \<Longrightarrow> \<forall>p\<in>set todo. ok (p_key p) \<Longrightarrow>
    unwind_loop L sem E (s, w) out todo = ((s', w'), out') \<Longrightarrow>
    invar s' \<and> (\<forall>k. ok k \<longrightarrow> k \<notin> p_key ` set todo \<longrightarrow> Get L s' k = Get L s k)"
proof (induction "length todo" arbitrary: todo s w out rule: less_induct)
  case less
  obtain s1 w1 out1 bl pr where p: "unwind_pass L sem E (s, w) out todo = ((s1, w1), out1, bl, pr)"
    by (metis prod_cases4 surj_pair)
  note fr = unwind_pass_frame[OF rooms less.prems(1,2) p]
  show ?case
  proof (cases "todo = [] \<or> \<not> pr")
    case True
    with less.prems p fr show ?thesis by (subst (asm) unwind_loop.simps) (auto split: if_splits)
  next
    case False
    with less.prems(3) p have l: "unwind_loop L sem E (s1, w1) out1 bl = ((s', w'), out')"
      by (subst (asm) unwind_loop.simps) simp
    have "length bl < length todo" using unwind_pass_blocked[OF p] False by simp
    moreover have "\<forall>p\<in>set bl. ok (p_key p)" "p_key ` set bl \<subseteq> p_key ` set todo"
      using fr less.prems(2) by auto
    ultimately show ?thesis using less.hyps[OF _ _ _ l] fr by (metis subsetD)
  qed
qed

end

subsection \<open>Arbitration by the provider completes the unwind\<close>

lemma unwind_pass_arbitrated:
  assumes step: "\<And>st R p. J st R \<Longrightarrow> p \<in> R \<Longrightarrow> \<exists>st'.
      compensate L sem E st p = (st', Inr ()) \<and> J st' (R - {p}) \<or>
      compensate L sem E st p = (st', Inl ErrCompensationBlocked) \<and> J st' R \<and> (\<exists>q\<in>R. rk q < (rk p :: nat))"
  shows "J st (set ps \<union> B) \<Longrightarrow> distinct ps \<Longrightarrow> set ps \<inter> B = {} \<Longrightarrow>
    unwind_pass L sem E st out ps = (st', out', bl, pr) \<Longrightarrow>
    J st' (set bl \<union> B) \<and> Outstanding out' = Outstanding out \<and> distinct bl \<and> set bl \<subseteq> set ps \<and>
    ((\<exists>p\<in>set ps. \<forall>q\<in>set ps \<union> B. rk p \<le> rk q) \<longrightarrow> pr)"
proof (induction ps arbitrary: st B out st' out' bl pr)
  case (Cons p ps)
  from step[OF Cons.prems(1), of p] consider
    st1 where "compensate L sem E st p = (st1, Inr ())" "J st1 (set ps \<union> B)"
    | st1 where "compensate L sem E st p = (st1, Inl ErrCompensationBlocked)" "J st1 (set ps \<union> insert p B)"
        "\<exists>q\<in>set (p # ps) \<union> B. rk q < rk p"
  proof -
    have "set (p # ps) \<union> B - {p} = set ps \<union> B" "set (p # ps) \<union> B = set ps \<union> insert p B"
      using Cons.prems(2,3) by auto
    with step[OF Cons.prems(1), of p] that show ?thesis by (metis UnI1 list.set_intros(1))
  qed
  then show ?case
  proof cases
    case 1
    obtain out2 bl2 pr2 where rest: "unwind_pass L sem E st1 (out\<lparr>Compensated := Compensated out @ [p_key p]\<rparr>) ps
        = (st', out2, bl2, pr2)" "out' = out2" "bl = bl2" "pr"
      using Cons.prems(4) 1(1) unfolding unwind_pass_Cons by (auto split: prod.splits)
    from Cons.IH[OF 1(2) _ _ rest(1)] rest(2-4) Cons.prems(2,3) show ?thesis by auto
  next
    case 2
    obtain bl2 where rest: "unwind_pass L sem E st1 (out\<lparr>Reasons := gm_set (p_key p) ErrCompensationBlocked (Reasons out)\<rparr>) ps
        = (st', out', bl2, pr)" "bl = p # bl2"
      using Cons.prems(4) 2(1) unfolding unwind_pass_Cons by (auto split: prod.splits)
    have "p \<notin> set ps" "set ps \<inter> insert p B = {}" using Cons.prems(2,3) by auto
    with Cons.IH[OF 2(2) _ _ rest(1)] Cons.prems(2) have ih:
      "J st' (set bl2 \<union> insert p B)" "Outstanding out' = Outstanding out" "distinct bl2" "set bl2 \<subseteq> set ps"
      "(\<exists>p'\<in>set ps. \<forall>q\<in>set ps \<union> insert p B. rk p' \<le> rk q) \<longrightarrow> pr" by auto
    have "(\<exists>p'\<in>set (p # ps). \<forall>q\<in>set (p # ps) \<union> B. rk p' \<le> rk q) \<longrightarrow> pr"
      using ih(5) 2(3) by (auto simp: not_le[symmetric])
    with ih rest(2) \<open>p \<notin> set ps\<close> show ?thesis by auto
  qed
qed simp

lemma unwind_loop_arbitrated:
  assumes step: "\<And>st R p. J st R \<Longrightarrow> p \<in> R \<Longrightarrow> \<exists>st'.
      compensate L sem E st p = (st', Inr ()) \<and> J st' (R - {p}) \<or>
      compensate L sem E st p = (st', Inl ErrCompensationBlocked) \<and> J st' R \<and> (\<exists>q\<in>R. rk q < (rk p :: nat))"
  shows "J st (set todo) \<Longrightarrow> distinct todo \<Longrightarrow> unwind_loop L sem E st out todo = (st', out') \<Longrightarrow>
    Outstanding out' = Outstanding out"
proof (induction "length todo" arbitrary: todo st out rule: less_induct)
  case less
  obtain st1 out1 bl pr where p: "unwind_pass L sem E st out todo = (st1, out1, bl, pr)" by (metis prod_cases4)
  have a: "J st1 (set bl)" "Outstanding out1 = Outstanding out" "distinct bl"
    "(\<exists>p\<in>set todo. \<forall>q\<in>set todo. rk p \<le> rk q) \<longrightarrow> pr"
    using unwind_pass_arbitrated[where B="{}" and J=J and rk=rk, OF step _ less.prems(2) _ p] less.prems(1) by auto
  show ?case
  proof (cases "todo = []")
    case False
    then have "pr" using a(4) arg_min_least[of "set todo" _ rk] arg_min_if_finite(1)[of "set todo" rk]
      by (metis List.finite_set set_empty)
    with False p less.prems(3) have "unwind_loop L sem E st1 out1 bl = (st', out')"
      by (subst (asm) unwind_loop.simps) simp
    with less.hyps[OF _ a(1,3)] unwind_pass_blocked[OF p] \<open>pr\<close> a(2) show ?thesis by simp
  qed (use less.prems in \<open>simp add: unwind_loop.simps\<close>)
qed

subsection \<open>Properties\<close>

text \<open>C10: the unwind always ends, and accounts for every record of the run exactly once: each
  journaled step is either reported reversed or reported outstanding, whatever the ledger, the
  provider's semantics and the outside world do.\<close>

theorem unwind_accounts_for_all:
  assumes "For runID = Inr j" "Records journals j = Inr recs"
  shows "\<exists>st' out. Unwind L journals sem E st runID = (st', Inr out) \<and>
    mset (Compensated out) + mset (Outstanding out) = mset (map KeyName recs) \<and>
    (Complete out \<longrightarrow> mset (Compensated out) = mset (map KeyName recs))"
proof -
  obtain st' out where l: "unwind_loop L sem E st empty_outcome (map pending_of (rev recs)) = (st', out)" by fastforce
  have "p_key \<circ> pending_of = KeyName" by (simp add: fun_eq_iff pending_of_def)
  with unwind_loop_accounts[OF l] have "mset (Compensated out) + mset (Outstanding out) = mset (map KeyName recs)"
    by (simp add: accounted_def empty_outcome_def)
  with l assms show ?thesis by (auto simp: Unwind_def Complete_def)
qed

definition one_create :: line where
  "one_create = \<lparr>SeqNo = 1, KeyName = ''s/a'', XchgName = ''put'', FormClass_of = FormCreate, PriorPlan = None\<rparr>"

definition one_create_root :: journal_root where
  "one_create_root = [(''r.jsonl'', lines_text [one_create])]"

lemma one_create_records:
  "For ''r'' = Inr \<lparr>rj_path = ''r.jsonl'', rj_seq = 0\<rparr>"
  "Records one_create_root \<lparr>rj_path = ''r.jsonl'', rj_seq = 0\<rparr> = Inr [one_create]"
proof -
  show "For ''r'' = Inr \<lparr>rj_path = ''r.jsonl'', rj_seq = 0\<rparr>" by (simp add: For_def ContainsAny_def)
  have "length (marshal_line one_create) \<le> 90" by code_simp
  then have "fits one_create" by (auto simp: fits_def canonical_def one_create_def MaxScanTokenSize_def)
  then show "Records one_create_root \<lparr>rj_path = ''r.jsonl'', rj_seq = 0\<rparr> = Inr [one_create]"
    by (simp add: Records_def journal_read_def one_create_root_def read_text)
qed

text \<open>An effector that only ever reports that there is nothing to read.\<close>

definition mute_effector :: "unit Effector" where
  "mute_effector = \<lparr>Effect = (\<lambda>w _ _ _. (w, Inr None)), Read = (\<lambda>_ _ _ _. Inr (None, None, False))\<rparr>"

theorem unwind_accounts_for_all_witness:
  "\<exists>st' out. Unwind memory_ledger one_create_root \<lparr>forms = [], inverses = []\<rparr> mute_effector (NewMemory, ()) ''r''
     = (st', Inr out) \<and> mset (Compensated out) + mset (Outstanding out) = {#''s/a''#}"
  using unwind_accounts_for_all[OF one_create_records, of memory_ledger "\<lparr>forms = [], inverses = []\<rparr>" mute_effector "(NewMemory, ())"]
  by (auto simp: one_create_def)

text \<open>The unwind never sends the provider anything but the declared compensations. Every
  effect it performs belongs to a record of the run and is, for an update, the same exchange with
  the recorded prior intent, and for anything else the exchange declared as the inverse, with a
  fidelity other than none. An update is therefore never answered by a delete.\<close>

theorem unwind_only_declared_effects:
  assumes "For runID = Inr j" "Records journals j = Inr recs"
    and "Unwind L journals sem (traced E) (s, w, t) runID = ((s', w', t'), res)"
  shows "\<exists>new. t' = t @ new \<and> (\<forall>(x, k, i)\<in>set new. \<exists>l\<in>set recs. k = KeyName l \<and>
     (if FormClass_of l = FormUpdate then x = XchgName l \<and> Mutation i = PriorPlan l \<and> slice_len (PriorPlan l) \<noteq> 0
      else (\<exists>iv. sem_Inverse sem (XchgName l) = Some iv \<and> inv_fidelity iv \<noteq> FidelityNone \<and> x = inv_exchange iv)))"
proof -
  obtain out where "unwind_loop L sem (traced E) (s, w, t) empty_outcome (map pending_of (rev recs)) = ((s', w', t'), out)"
    using assms by (auto simp: Unwind_def split: prod.split_asm)
  from unwind_loop_trace[OF this] show ?thesis
    by (fastforce simp: all_justified_def justified_def pending_of_def split: prod.split_asm)
qed

theorem unwind_only_declared_effects_witness:
  "\<exists>s' w' t' res. Unwind memory_ledger one_create_root \<lparr>forms = [], inverses = []\<rparr> (traced mute_effector) (NewMemory, (), []) ''r''
     = ((s', w', t'), res) \<and> t' = []"
proof -
  let ?sem = "\<lparr>forms = [], inverses = []\<rparr>"
  obtain s' w' t' res where u: "Unwind memory_ledger one_create_root ?sem (traced mute_effector) (NewMemory, (), []) ''r''
     = ((s', w', t'), res)" by (metis prod_cases3 surj_pair)
  from unwind_only_declared_effects[OF one_create_records u] have "t' = []"
    by (cases t') (auto simp: one_create_def sem_Inverse_def)
  with u show ?thesis by blast
qed

text \<open>Over the reference ledger, one compensation that reports success has done what it
  promises and touched no other key: the entry of a create is gone, and the entry of an update is
  live again with the prior intent as its plan and its identity kept.\<close>

theorem compensation_effect_on_ledger:
  assumes "mem_inv s" "compensate memory_ledger sem E (s, w) p = ((s', w'), r)"
  shows "mem_inv s' \<and> (\<forall>k. k \<noteq> p_key p \<longrightarrow> mem_Get s' k = mem_Get s k) \<and>
    (r = Inr () \<and> p_form p \<noteq> FormUpdate \<longrightarrow> mem_Get s' (p_key p) = Inr None) \<and>
    (\<forall>e v. r = Inr () \<and> p_form p = FormUpdate \<and> mem_Get s (p_key p) = Inr (Some (e, v)) \<longrightarrow>
      (\<exists>e' v'. mem_Get s' (p_key p) = Inr (Some (e', v')) \<and> ent_phase e' = LedgerLive \<and>
         bytes_Equal (ent_plan e') (p_prior p) \<and> ent_identity e' = slice_norm (ent_identity e)))"
  using mem.compensate_result[OF assms(1) _ _ assms(2)] by (auto simp: mem.only_touches_def)

definition one_update_ledger :: memory where
  "one_update_ledger = \<lparr>rows = [(''s/b'', \<lparr>slot_e = \<lparr>ent_key = ''s/b'', ent_phase = LedgerLive, ent_plan = Some ''new'',
     ent_proposed = None, ent_identity = Some ''id'', ent_about = None\<rparr>, slot_ver = 2\<rparr>)]\<rparr>"

definition one_update :: pending where
  "one_update = \<lparr>p_key = ''s/b'', p_exchange = ''put'', p_form = FormUpdate, p_prior = Some ''old''\<rparr>"

theorem compensation_effect_on_ledger_witness:
  "\<exists>s' w' e' v'. compensate memory_ledger \<lparr>forms = [], inverses = []\<rparr> mute_effector (one_update_ledger, ()) one_update
     = ((s', w'), Inr ()) \<and> mem_Get s' ''s/b'' = Inr (Some (e', v')) \<and> bytes_Equal (ent_plan e') (Some ''old'')"
proof -
  let ?sem = "\<lparr>forms = [], inverses = []\<rparr>"
  have ok: "snd (compensate memory_ledger ?sem mute_effector (one_update_ledger, ()) one_update) = Inr ()"
    by code_simp
  then obtain s' where c: "compensate memory_ledger ?sem mute_effector (one_update_ledger, ()) one_update = ((s', ()), Inr ())"
    by (cases "compensate memory_ledger ?sem mute_effector (one_update_ledger, ()) one_update") auto
  have "mem_inv one_update_ledger" by (simp add: mem_inv_def one_update_ledger_def)
  from compensation_effect_on_ledger[OF this c] c show ?thesis
    by (simp add: one_update_def one_update_ledger_def mem_Get_def) blast
qed

text \<open>Over the reference ledger, an unwind changes nothing recorded for keys the run's journal
  does not name.\<close>

theorem unwind_frame:
  assumes "mem_inv s" "For runID = Inr j" "Records journals j = Inr recs"
    and "Unwind memory_ledger journals sem E (s, w) runID = ((s', w'), res)"
  shows "mem_inv s' \<and> (\<forall>k. k \<notin> KeyName ` set recs \<longrightarrow> mem_Get s' k = mem_Get s k)"
proof -
  obtain out where l: "unwind_loop memory_ledger sem E (s, w) empty_outcome (map pending_of (rev recs)) = ((s', w'), out)"
    using assms(2-4) by (auto simp: Unwind_def split: prod.split_asm)
  have "p_key ` set (map pending_of (rev recs)) = KeyName ` set recs"
    by (force simp: pending_of_def image_image)
  with mem.unwind_loop_frame[OF _ assms(1) _ l] show ?thesis by simp
qed

theorem unwind_frame_witness:
  "mem_Get (fst (fst (Unwind memory_ledger one_create_root \<lparr>forms = [], inverses = []\<rparr> mute_effector (one_update_ledger, ()) ''r''))) ''s/b''
     = mem_Get one_update_ledger ''s/b''"
proof -
  let ?sem = "\<lparr>forms = [], inverses = []\<rparr>"
  obtain s' w' res where u: "Unwind memory_ledger one_create_root ?sem mute_effector (one_update_ledger, ()) ''r'' = ((s', w'), res)"
    by (metis surj_pair)
  have "mem_inv one_update_ledger" by (simp add: mem_inv_def one_update_ledger_def)
  from unwind_frame[OF this one_create_records u] u show ?thesis by (simp add: one_create_def)
qed

text \<open>C9: the order of the journal does not matter for completion. Suppose the provider refuses a
  compensation as blocked only while something of lower rank in its own dependency order is still
  to be reversed, and otherwise reverses it. Then the unwind of a journal of distinct steps, in
  whatever order they were journaled, reverses every one of them and reports completion.\<close>

theorem unwind_completes:
  assumes "For runID = Inr j" "Records journals j = Inr recs" "distinct (map pending_of recs)"
    and "J st (set (map pending_of recs))"
    and "\<And>st R p. J st R \<Longrightarrow> p \<in> R \<Longrightarrow> \<exists>st'.
      compensate L sem E st p = (st', Inr ()) \<and> J st' (R - {p}) \<or>
      compensate L sem E st p = (st', Inl ErrCompensationBlocked) \<and> J st' R \<and> (\<exists>q\<in>R. rk q < (rk p :: nat))"
  shows "\<exists>st' out. Unwind L journals sem E st runID = (st', Inr out) \<and> Complete out \<and>
    mset (Compensated out) = mset (map KeyName recs)"
proof -
  let ?todo = "map pending_of (rev recs)"
  obtain st' out where l: "unwind_loop L sem E st empty_outcome ?todo = (st', out)" by fastforce
  have "distinct ?todo" "J st (set ?todo)" using assms(3,4) by (simp_all add: rev_map[symmetric])
  from unwind_loop_arbitrated[of J L sem E rk, OF assms(5) this(2,1) l] have out: "Outstanding out = []"
    by (simp add: empty_outcome_def)
  have "p_key \<circ> pending_of = KeyName" by (simp add: fun_eq_iff pending_of_def)
  with unwind_loop_accounts[OF l] out have "mset (Compensated out) = mset (map KeyName recs)"
    by (simp add: accounted_def empty_outcome_def)
  with l out assms(1,2) show ?thesis by (simp add: Unwind_def Complete_def)
qed

text \<open>
  An instance with a refusal: a parent that cannot be deleted while its child exists, journaled
  so that the parent is attempted first.
\<close>

definition nested_step :: "string \<Rightarrow> int \<Rightarrow> line" where
  "nested_step k n = \<lparr>SeqNo = n, KeyName = k, XchgName = ''put'', FormClass_of = FormCreate, PriorPlan = None\<rparr>"

definition nested_root :: journal_root where
  "nested_root = [(''r.jsonl'', lines_text [nested_step ''s/b'' 1, nested_step ''s/a'' 2])]"

definition nested_slot :: "string \<Rightarrow> slot" where
  "nested_slot k = \<lparr>slot_e = \<lparr>ent_key = k, ent_phase = LedgerLive, ent_plan = Some ''p'',
     ent_proposed = None, ent_identity = Some k, ent_about = None\<rparr>, slot_ver = 2\<rparr>"

definition nested_ledger :: memory where
  "nested_ledger = \<lparr>rows = [(''s/a'', nested_slot ''s/a''), (''s/b'', nested_slot ''s/b'')]\<rparr>"

definition nested_semantics :: static where
  "nested_semantics = \<lparr>forms = [], inverses = [(''put'', \<lparr>inv_exchange = ''del'', inv_fidelity = FidelityExact\<rparr>)]\<rparr>"

definition nested_provider :: "string list Effector" where
  "nested_provider = \<lparr>Effect = (\<lambda>w x k i. if k = ''s/a'' \<and> ''s/b'' \<in> set w then (w, Inl ErrCompensationBlocked)
       else (filter (\<lambda>k'. k' \<noteq> k) w, Inr None)),
     Read = (\<lambda>w x k i. Inr (Some k, Some k, k \<in> set w))\<rparr>"

definition nested_inv :: "memory \<times> string list \<Rightarrow> pending set \<Rightarrow> bool" where
  "nested_inv st R \<longleftrightarrow> R \<subseteq> {pending_of (nested_step ''s/a'' 2), pending_of (nested_step ''s/b'' 1)} \<and>
     (\<forall>p\<in>R. gm_get (rows (fst st)) (p_key p) = Some (nested_slot (p_key p))) \<and>
     (''s/b'' \<in> set (snd st) \<longleftrightarrow> pending_of (nested_step ''s/b'' 1) \<in> R)"

lemma nested_compensate:
  assumes "gm_get (rows s) k = Some (nested_slot k)" "p = pending_of (nested_step k n)"
  shows "compensate memory_ledger nested_semantics nested_provider (s, w) p =
    (if k = ''s/a'' \<and> ''s/b'' \<in> set w then ((s, w), Inl ErrCompensationBlocked)
     else ((s\<lparr>rows := gm_del k (rows s)\<rparr>, filter (\<lambda>k'. k' \<noteq> k) w), Inr ()))"
  using assms
  by (simp add: compensate_def pending_of_def nested_step_def nested_semantics_def sem_Inverse_def
      nested_provider_def FidelityExact_def FidelityNone_def mem_Get_def nested_slot_def run_inverse_def
      forget_current_def mem_Forget_def mem_check_def)

lemma nested_inv_step:
  assumes "nested_inv st R" "p \<in> R"
  shows "\<exists>st'. compensate memory_ledger nested_semantics nested_provider st p = (st', Inr ()) \<and> nested_inv st' (R - {p}) \<or>
      compensate memory_ledger nested_semantics nested_provider st p = (st', Inl ErrCompensationBlocked) \<and> nested_inv st' R \<and>
      (\<exists>q\<in>R. (if p_key q = ''s/a'' then 1 else 0 :: nat) < (if p_key p = ''s/a'' then 1 else 0))"
proof -
  obtain s w where st: "st = (s, w)" by fastforce
  from assms obtain k n where p: "p = pending_of (nested_step k n)" "(k, n) \<in> {(''s/a'', 2), (''s/b'', 1)}"
    by (auto simp: nested_inv_def)
  then have pk: "p_key p = k" by (simp add: pending_of_def nested_step_def)
  with assms st have "gm_get (rows s) k = Some (nested_slot k)" by (auto simp: nested_inv_def)
  note c = nested_compensate[OF this p(1), of w]
  from p(2) assms st pk p(1) show ?thesis unfolding st c
    by (auto simp: nested_inv_def pending_of_def nested_step_def) (rule bexI[rotated], assumption, simp)
qed

theorem unwind_completes_witness:
  "\<exists>st' out. Unwind memory_ledger nested_root nested_semantics nested_provider (nested_ledger, [''s/a'', ''s/b'']) ''r''
     = (st', Inr out) \<and> Complete out \<and> mset (Compensated out) = {#''s/a'', ''s/b''#}"
proof -
  let ?j = "\<lparr>rj_path = ''r.jsonl'', rj_seq = 0\<rparr>" and ?recs = "[nested_step ''s/b'' 1, nested_step ''s/a'' 2]"
  have j: "For ''r'' = Inr ?j" by (simp add: For_def ContainsAny_def)
  have "list_all (\<lambda>l. length (marshal_line l) \<le> 90) ?recs" by code_simp
  then have "list_all fits ?recs" by (auto simp: fits_def canonical_def nested_step_def MaxScanTokenSize_def)
  then have recs: "Records nested_root ?j = Inr ?recs"
    by (simp add: Records_def journal_read_def nested_root_def read_text)
  have d: "distinct (map pending_of ?recs)" by (simp add: pending_of_def nested_step_def)
  have i: "nested_inv (nested_ledger, [''s/a'', ''s/b'']) (set (map pending_of ?recs))"
    by (auto simp: nested_inv_def nested_ledger_def pending_of_def nested_step_def)
  show ?thesis
    using unwind_completes[OF j recs d i nested_inv_step] by (simp add: nested_step_def add_mset_commute)
qed

end
