(* ===== verification/Analyze.thy ===== *)
theory Analyze
  imports Semantics
begin

section \<open>Binding a statement to a method: internal/analyze, internal/docsem\<close>

text \<open>
  The analyzer chooses the method that carries out a statement, among those the documents state
  (capabilities) and a policy permits. The policy and the provider document's catalog are
  parameters: a policy is a function from a statement and a method to a refusal, a catalog a
  record of lookups.
\<close>

subsection \<open>Statements and methods\<close>

record statement =
  s_principal :: string
  s_resource :: string
  s_verb :: string
  s_available :: "string list"
  s_sent :: "string list"
  s_pinned :: string

definition NewStatement :: "string \<Rightarrow> string \<Rightarrow> string \<Rightarrow> string list \<Rightarrow> string list \<Rightarrow> string \<Rightarrow> statement" where
  "NewStatement prin resource verb available sent pinned =
     \<lparr>s_principal = prin, s_resource = resource, s_verb = verb, s_available = available,
      s_sent = sent, s_pinned = pinned\<rparr>"

record Method =
  m_Name :: string
  m_Required :: "string list"
  m_Accepts :: "string \<Rightarrow> bool"
  m_TakesBody :: bool
  m_PartialUpdate :: "bool option"

type_synonym Policy = "statement \<Rightarrow> Method \<Rightarrow> err option"
type_synonym Capabilities = "string \<Rightarrow> string \<Rightarrow> Method list result"

definition PermitAll :: Policy where
  "PermitAll s m = None"

subsection \<open>The analyzer\<close>

text \<open>Why a method cannot carry out a statement, or the empty string where it can.\<close>

definition method_fits :: "Method \<Rightarrow> statement \<Rightarrow> string list \<Rightarrow> string" where
  "method_fits m s available = (case find (\<lambda>r. r \<notin> set available) (m_Required m) of
     Some r \<Rightarrow> ''needs '' @ r
   | None \<Rightarrow> (case find (\<lambda>i. \<not> m_Accepts m i) (s_sent s) of
       Some i \<Rightarrow> ''does not accept '' @ i
     | None \<Rightarrow> []))"

definition pinned :: "Policy \<Rightarrow> statement \<Rightarrow> Method list \<Rightarrow> string \<Rightarrow> Method result" where
  "pinned policy s methods name = (case find (\<lambda>m. m_Name m = name) methods of
     None \<Rightarrow> Inl (ErrOther ''declares no such method'')
   | Some m \<Rightarrow>
       if method_fits m s (s_available s) \<noteq> [] then Inl (ErrOther (name @ '' '' @ method_fits m s (s_available s)))
       else (case policy s m of
           Some e \<Rightarrow> Inl e
         | None \<Rightarrow> Inr m))"

fun best_loop :: "Policy \<Rightarrow> statement \<Rightarrow> Method list \<Rightarrow> Method list \<times> int \<Rightarrow> Method list \<times> int" where
  "best_loop policy s [] acc = acc"
| "best_loop policy s (m # ms) (best, bestScore) =
     (if method_fits m s (s_available s) \<noteq> [] then best_loop policy s ms (best, bestScore)
      else if policy s m \<noteq> None then best_loop policy s ms (best, bestScore)
      else let score = int (length (m_Required m)) in
        if score > bestScore then best_loop policy s ms ([m], score)
        else if score = bestScore then best_loop policy s ms (best @ [m], bestScore)
        else best_loop policy s ms (best, bestScore))"

definition prefer_reads :: "string \<Rightarrow> Method list \<Rightarrow> Method list" where
  "prefer_reads verb best = (if length best > 1 \<and> verb = ''select'' then
       (let reads = filter (\<lambda>m. \<not> m_TakesBody m) best in if reads \<noteq> [] then reads else best)
     else best)"

definition prefer_partial :: "string \<Rightarrow> Method list \<Rightarrow> Method list" where
  "prefer_partial verb best = (if length best > 1 \<and> verb = ''update'' then
       (let partial = filter (\<lambda>m. m_PartialUpdate m = Some True) best in if partial \<noteq> [] then partial else best)
     else best)"

definition AnalyzeStatement :: "Capabilities \<Rightarrow> Policy \<Rightarrow> statement \<Rightarrow> Method result" where
  "AnalyzeStatement caps policy s = (case caps (s_resource s) (s_verb s) of
     Inl e \<Rightarrow> Inl e
   | Inr methods \<Rightarrow>
       if s_pinned s \<noteq> [] then pinned policy s methods (s_pinned s)
       else (let best = fst (best_loop policy s methods ([], - 1));
                 best = prefer_partial (s_verb s) (prefer_reads (s_verb s) best) in
         (case best of
            [] \<Rightarrow> Inl (ErrOther ''no satisfiable method'')
          | [m] \<Rightarrow> Inr m
          | _ \<Rightarrow> Inl (ErrOther ''several methods are satisfiable''))))"

subsection \<open>Document semantics\<close>

record Parameter =
  par_Name :: string
  par_Required :: bool

record Request =
  BodyMediaType :: string
  req_Method :: string
  Parameters :: "Parameter list"

record Response =
  MediaType :: string
  OverrideMediaType :: string
  ObjectKey :: string

record AOTExchange =
  op_Name :: string
  OperationID :: string
  SQLVerb :: string
  Inputs :: "string list"
  op_Request :: Request
  op_Response :: "Response option"

record Catalog =
  ProviderName :: string
  cat_Resources :: "string \<Rightarrow> string list result"
  cat_Methods :: "string \<Rightarrow> string \<Rightarrow> AOTExchange list result"
  cat_Operations :: "string \<Rightarrow> string \<Rightarrow> AOTExchange list result"

record doc_resource =
  r_path :: string
  r_create :: string
  r_read :: string
  r_update :: string
  r_delete :: string

definition derive_method :: "doc_resource \<Rightarrow> AOTExchange \<Rightarrow> doc_resource" where
  "derive_method r m = (case FormOf (SQLVerb m) of
     FormCreate \<Rightarrow> if r_create r = [] then r\<lparr>r_create := OperationID m\<rparr> else r
   | FormUpdate \<Rightarrow> if r_update r = [] then r\<lparr>r_update := OperationID m\<rparr> else r
   | FormDelete \<Rightarrow> if r_delete r = [] then r\<lparr>r_delete := OperationID m\<rparr> else r
   | FormRead \<Rightarrow> if SQLVerb m = ''select'' \<and> r_read r = [] then r\<lparr>r_read := OperationID m\<rparr> else r
   | FormOther _ \<Rightarrow> r)"

definition derive_resource :: "Catalog \<Rightarrow> string \<Rightarrow> string \<Rightarrow> doc_resource result" where
  "derive_resource cat service name = (case cat_Methods cat service name of
     Inl e \<Rightarrow> Inl e
   | Inr methods \<Rightarrow> Inr (foldl derive_method
       \<lparr>r_path = ProviderName cat @ ''.'' @ service @ ''.'' @ name, r_create = [], r_read = [], r_update = [], r_delete = []\<rparr>
       methods))"

definition Derive :: "Catalog \<Rightarrow> string \<Rightarrow> string list \<Rightarrow> doc_resource list result" where
  "Derive cat service names = rbind (if names = [] then cat_Resources cat service else Inr names)
     (\<lambda>ns. rmap (derive_resource cat service) ns)"

definition Declarations :: "doc_resource list \<Rightarrow> Declaration list" where
  "Declarations rs = map (\<lambda>r. \<lparr>d_Exchange = r_create r, d_Form = ''insert'', d_Inverse = r_delete r, d_Fidelity = []\<rparr>)
     (filter (\<lambda>r. r_create r \<noteq> []) rs)"

text \<open>The parameter a supplied name belongs to: the part before the first dot, if there is one.\<close>

definition baseName :: "string \<Rightarrow> string" where
  "baseName name = (case Cut CHR ''.'' name of (a, _, found) \<Rightarrow> if found \<and> a \<noteq> [] then a else name)"

definition EqualFold :: "string \<Rightarrow> string \<Rightarrow> bool" where
  "EqualFold a b \<longleftrightarrow> ToLower a = ToLower b"

definition doc_method :: "AOTExchange \<Rightarrow> Method" where
  "doc_method op = \<lparr>m_Name = op_Name op,
     m_Required = map par_Name (filter par_Required (Parameters (op_Request op))),
     m_Accepts = (\<lambda>i. BodyMediaType (op_Request op) \<noteq> [] \<or> baseName i \<in> set (Inputs op) \<or>
        baseName i \<in> set (map par_Name (Parameters (op_Request op)))),
     m_TakesBody = (BodyMediaType (op_Request op) \<noteq> []),
     m_PartialUpdate = Some (EqualFold (req_Method (op_Request op)) ''PATCH'')\<rparr>"

definition doc_Methods :: "Catalog \<Rightarrow> Capabilities" where
  "doc_Methods cat resource verb = (case cat_Operations cat resource verb of
     Inl e \<Rightarrow> Inl e | Inr ops \<Rightarrow> Inr (map doc_method ops))"

record outlier =
  out_path :: string
  out_verb :: string
  out_op :: string
  out_reason :: string

definition outlier_of :: "string \<Rightarrow> string \<Rightarrow> AOTExchange \<Rightarrow> outlier option" where
  "outlier_of path verb op = (case op_Response op of
     None \<Rightarrow> Some \<lparr>out_path = path, out_verb = verb, out_op = OperationID op, out_reason = ''declares no response''\<rparr>
   | Some resp \<Rightarrow>
       if MediaType resp = [] \<and> OverrideMediaType resp = []
       then Some \<lparr>out_path = path, out_verb = verb, out_op = OperationID op,
              out_reason = ''declares no response media type, so the body cannot be decoded''\<rparr>
       else if ObjectKey resp = [] \<and> verb = ''select''
       then Some \<lparr>out_path = path, out_verb = verb, out_op = OperationID op,
              out_reason = ''declares no objectKey, so the item list cannot be located''\<rparr>
       else None)"

definition Outliers :: "Catalog \<Rightarrow> string \<Rightarrow> string list \<Rightarrow> outlier list" where
  "Outliers cat path verbs = concat (map (\<lambda>verb. case cat_Operations cat path verb of
       Inl _ \<Rightarrow> [] | Inr ops \<Rightarrow> List.map_filter (outlier_of path verb) ops)
     (if verbs = [] then [''select'', ''insert'', ''update'', ''delete''] else verbs))"

subsection \<open>The choice\<close>

definition can_run :: "statement \<Rightarrow> Method \<Rightarrow> bool" where
  "can_run s m \<longleftrightarrow> set (m_Required m) \<subseteq> set (s_available s) \<and> (\<forall>i\<in>set (s_sent s). m_Accepts m i)"

lemma method_fits_can_run: "method_fits m s (s_available s) = [] \<longleftrightarrow> can_run s m"
proof -
  have "method_fits m s (s_available s) = [] \<longleftrightarrow>
      find (\<lambda>r. r \<notin> set (s_available s)) (m_Required m) = None \<and> find (\<lambda>i. \<not> m_Accepts m i) (s_sent s) = None"
    by (simp add: method_fits_def split: option.split)
  then show ?thesis by (auto simp: can_run_def find_None_iff)
qed

definition candidates :: "Policy \<Rightarrow> statement \<Rightarrow> Method list \<Rightarrow> Method list" where
  "candidates policy s ms = filter (\<lambda>m. can_run s m \<and> policy s m = None) ms"

text \<open>The loop keeps, in order, the candidates with the most required inputs.\<close>

definition most_specific :: "Method list \<Rightarrow> Method list" where
  "most_specific ms = filter (\<lambda>m. \<forall>m'\<in>set ms. length (m_Required m') \<le> length (m_Required m)) ms"

lemma best_loop_candidates: "best_loop policy s ms acc = best_loop policy s (candidates policy s ms) acc"
proof (induction ms arbitrary: acc)
  case (Cons m ms)
  show ?case by (cases acc) (simp add: candidates_def method_fits_can_run Let_def Cons[unfolded candidates_def])
qed (simp add: candidates_def)

lemma best_loop_spec:
  assumes "\<forall>m\<in>set ms. can_run s m \<and> policy s m = None" "pre \<noteq> []" "best = most_specific pre"
    "\<forall>m\<in>set pre. int (length (m_Required m)) \<le> sc" "\<exists>m\<in>set pre. int (length (m_Required m)) = sc"
  shows "fst (best_loop policy s ms (best, sc)) = most_specific (pre @ ms)"
  using assms
proof (induction ms arbitrary: pre best sc)
  case (Cons m ms)
  let ?n = "int (length (m_Required m))"
  from Cons.prems(1) have fit: "method_fits m s (s_available s) = []" "policy s m = None"
    by (simp_all add: method_fits_can_run)
  have top: "most_specific pre = filter (\<lambda>x. int (length (m_Required x)) = sc) pre"
    unfolding most_specific_def using Cons.prems(4,5) by (intro filter_cong refl) fastforce
  have snoc: "most_specific (pre @ [m]) =
      (if ?n > sc then [m] else if ?n = sc then most_specific pre @ [m] else most_specific pre)"
  proof -
    consider "?n > sc" | "?n = sc" | "?n < sc" by linarith
    then show ?thesis
    proof cases
      case 1
      have "filter (\<lambda>x. \<forall>m'\<in>set (pre @ [m]). length (m_Required m') \<le> length (m_Required x)) pre = []"
        using 1 Cons.prems(4) by (fastforce simp: filter_empty_conv)
      then show ?thesis using 1 Cons.prems(4) by (fastforce simp: most_specific_def)
    next
      case 2
      then have "filter (\<lambda>x. \<forall>m'\<in>set (pre @ [m]). length (m_Required m') \<le> length (m_Required x)) pre = most_specific pre"
        unfolding top using Cons.prems(4,5) by (intro filter_cong refl) fastforce
      then show ?thesis using 2 Cons.prems(4) by (force simp: most_specific_def)
    next
      case 3
      then have "filter (\<lambda>x. \<forall>m'\<in>set (pre @ [m]). length (m_Required m') \<le> length (m_Required x)) pre = most_specific pre"
        unfolding top using Cons.prems(4,5) by (intro filter_cong refl) fastforce
      then show ?thesis using 3 Cons.prems(5) by (force simp: most_specific_def)
    qed
  qed
  have step: "best_loop policy s (m # ms) (best, sc) = best_loop policy s ms (most_specific (pre @ [m]), max sc ?n)"
    using fit snoc Cons.prems(3) by (simp add: Let_def)
  have "\<forall>x\<in>set (pre @ [m]). int (length (m_Required x)) \<le> max sc ?n" using Cons.prems(4) by fastforce
  moreover have "\<exists>x\<in>set (pre @ [m]). int (length (m_Required x)) = max sc ?n"
    using Cons.prems(5) by (cases "sc \<ge> ?n") (force simp: max_def)+
  ultimately have "fst (best_loop policy s ms (most_specific (pre @ [m]), max sc ?n)) = most_specific ((pre @ [m]) @ ms)"
    using Cons.prems(1) by (intro Cons.IH) simp_all
  then show ?case using step by simp
qed simp

lemma best_loop_most_specific: "fst (best_loop policy s ms ([], - 1)) = most_specific (candidates policy s ms)"
proof (cases "candidates policy s ms")
  case Nil
  then show ?thesis by (subst best_loop_candidates) (simp add: most_specific_def)
next
  case (Cons m cs)
  have "\<forall>x\<in>set (candidates policy s ms). can_run s x \<and> policy s x = None" by (simp add: candidates_def)
  with Cons have "\<forall>x\<in>set (m # cs). can_run s x \<and> policy s x = None" by simp
  moreover have "best_loop policy s (m # cs) ([], - 1) = best_loop policy s cs ([m], int (length (m_Required m)))"
    using calculation by (simp add: method_fits_can_run Let_def)
  ultimately show ?thesis
    using best_loop_spec[of cs s policy "[m]" "[m]" "int (length (m_Required m))"] Cons
    by (subst best_loop_candidates) (simp add: most_specific_def)
qed

text \<open>What the tie rules leave of equally specific methods.\<close>

definition tie_broken :: "string \<Rightarrow> Method list \<Rightarrow> Method list" where
  "tie_broken verb ms = prefer_partial verb (prefer_reads verb ms)"

lemma tie_broken_subset: "set (tie_broken verb ms) \<subseteq> set ms"
  by (auto simp: tie_broken_def prefer_partial_def prefer_reads_def Let_def)

lemma tie_broken_empty: "tie_broken verb ms = [] \<longleftrightarrow> ms = []"
  by (auto simp: tie_broken_def prefer_partial_def prefer_reads_def Let_def)

lemma most_specific_empty: "most_specific ms = [] \<longleftrightarrow> ms = []"
proof
  assume e: "most_specific ms = []"
  show "ms = []"
  proof (rule ccontr)
    assume "ms \<noteq> []"
    then have "\<exists>m\<in>set ms. \<forall>m'\<in>set ms. length (m_Required m') \<le> length (m_Required m)"
      by (rule list_has_max)
    with e show False by (auto simp: most_specific_def filter_empty_conv)
  qed
qed (simp add: most_specific_def)

lemma Analyze_unpinned:
  assumes "caps (s_resource s) (s_verb s) = Inr ms" "s_pinned s = []"
  shows "AnalyzeStatement caps policy s =
    (case tie_broken (s_verb s) (most_specific (candidates policy s ms)) of
       [] \<Rightarrow> Inl (ErrOther ''no satisfiable method'') | [m] \<Rightarrow> Inr m
     | _ \<Rightarrow> Inl (ErrOther ''several methods are satisfiable''))"
  using assms by (simp add: AnalyzeStatement_def best_loop_most_specific tie_broken_def Let_def)

text \<open>C13: a method the analyzer returns can run, accepts everything the statement sends, is
  permitted, and (unless the caller pinned it) no permitted method that can run is more specific;
  another one equally specific exists only where the tie rule for reads or for partial updates
  preferred the chosen one. An ambiguity is reported, never resolved by guessing.\<close>

theorem analyze_sound:
  assumes "caps (s_resource s) (s_verb s) = Inr ms" "AnalyzeStatement caps policy s = Inr m"
  shows "m \<in> set ms \<and> can_run s m \<and> policy s m = None \<and>
    (s_pinned s \<noteq> [] \<longrightarrow> m_Name m = s_pinned s) \<and>
    (s_pinned s = [] \<longrightarrow> (\<forall>m'\<in>set ms. can_run s m' \<and> policy s m' = None \<longrightarrow>
       length (m_Required m') \<le> length (m_Required m) \<and>
       (length (m_Required m') = length (m_Required m) \<and> m' \<noteq> m \<longrightarrow>
          s_verb s = ''select'' \<and> m_TakesBody m' \<and> \<not> m_TakesBody m \<or>
          s_verb s = ''update'' \<and> m_PartialUpdate m' \<noteq> Some True \<and> m_PartialUpdate m = Some True)))"
proof (cases "s_pinned s = []")
  case False
  with assms show ?thesis
    by (auto simp: AnalyzeStatement_def pinned_def find_Some_iff method_fits_can_run
        split: option.split_asm if_split_asm)
next
  case True
  let ?best = "most_specific (candidates policy s ms)"
  from assms(2) Analyze_unpinned[where caps=caps and s=s and ms=ms, OF assms(1) True] have tb: "tie_broken (s_verb s) ?best = [m]"
    by (auto split: list.split_asm)
  with tie_broken_subset[of "s_verb s" ?best] have m: "m \<in> set ?best" by simp
  then have "m \<in> set ms \<and> can_run s m \<and> policy s m = None" by (simp add: most_specific_def candidates_def)
  moreover have "length (m_Required m') \<le> length (m_Required m)"
    if "m' \<in> set ms" "can_run s m'" "policy s m' = None" for m'
    using that m by (simp add: most_specific_def candidates_def)
  moreover have "s_verb s = ''select'' \<and> m_TakesBody m' \<and> \<not> m_TakesBody m \<or>
      s_verb s = ''update'' \<and> m_PartialUpdate m' \<noteq> Some True \<and> m_PartialUpdate m = Some True"
    if "m' \<in> set ms" "can_run s m'" "policy s m' = None" "length (m_Required m') = length (m_Required m)" "m' \<noteq> m" for m'
  proof -
    from that m have m': "m' \<in> set ?best" by (simp add: most_specific_def candidates_def)
    with m that(5) have "length ?best > 1"
      by (cases ?best; cases "tl ?best") auto
    have mem: "x \<in> set (filter P ys) \<longleftrightarrow> x \<in> set ys \<and> P x" for x P and ys :: "Method list" by simp
    have single: "filter P ys = [m] \<Longrightarrow> m' \<in> set ys \<Longrightarrow> P m \<and> \<not> P m'" for P and ys :: "Method list"
      using mem[of m P ys] mem[of m' P ys] that(5) by auto
    have "?best \<noteq> [m]" using \<open>length ?best > 1\<close> by auto
    consider "s_verb s = ''select''" | "s_verb s = ''update''" | "s_verb s \<noteq> ''select''" "s_verb s \<noteq> ''update''" by blast
    then show ?thesis
    proof cases
      case 1
      with tb \<open>length ?best > 1\<close> \<open>?best \<noteq> [m]\<close> have "filter (\<lambda>m. \<not> m_TakesBody m) ?best = [m]"
        by (simp add: tie_broken_def prefer_partial_def prefer_reads_def Let_def split: if_split_asm)
      from single[OF this m'] 1 show ?thesis by simp
    next
      case 2
      with tb \<open>length ?best > 1\<close> \<open>?best \<noteq> [m]\<close> have "filter (\<lambda>m. m_PartialUpdate m = Some True) ?best = [m]"
        by (simp add: tie_broken_def prefer_partial_def prefer_reads_def Let_def split: if_split_asm)
      from single[OF this m'] 2 show ?thesis by simp
    next
      case 3
      with tb \<open>?best \<noteq> [m]\<close> show ?thesis by (simp add: tie_broken_def prefer_partial_def prefer_reads_def)
    qed
  qed
  ultimately show ?thesis using True by blast
qed

text \<open>A resource with a listing and a read by identifier, as a document declares them.\<close>

definition demo_op :: "string \<Rightarrow> string list \<Rightarrow> AOTExchange" where
  "demo_op name req = \<lparr>op_Name = name, OperationID = name, SQLVerb = ''select'', Inputs = [''Region''],
     op_Request = \<lparr>BodyMediaType = [], req_Method = ''GET'', Parameters = map (\<lambda>r. \<lparr>par_Name = r, par_Required = True\<rparr>) req\<rparr>,
     op_Response = None\<rparr>"

definition demo_caps :: Capabilities where
  "demo_caps = doc_Methods \<lparr>ProviderName = ''p'', cat_Resources = (\<lambda>_. Inr []), cat_Methods = (\<lambda>_ _. Inr []),
     cat_Operations = (\<lambda>_ _. Inr [demo_op ''List'' [], demo_op ''Get'' [''Id'']])\<rparr>"

definition demo_statement :: statement where
  "demo_statement = NewStatement ''me'' ''p.s.r'' ''select'' [''Id'', ''Region''] [''Id.1''] []"

lemma demo_choice: "AnalyzeStatement demo_caps PermitAll demo_statement = Inr (doc_method (demo_op ''Get'' [''Id'']))"
  by (simp add: AnalyzeStatement_def demo_caps_def doc_Methods_def demo_statement_def NewStatement_def PermitAll_def
      method_fits_def doc_method_def demo_op_def baseName_def prefer_reads_def prefer_partial_def Let_def)

lemma demo_methods: "demo_caps (s_resource demo_statement) (s_verb demo_statement) =
    Inr [doc_method (demo_op ''List'' []), doc_method (demo_op ''Get'' [''Id''])]"
  by (simp add: demo_caps_def doc_Methods_def)

theorem analyze_sound_witness:
  "can_run demo_statement (doc_method (demo_op ''Get'' [''Id'']))"
  using analyze_sound[OF demo_methods demo_choice] by blast

text \<open>The analyzer fails on an unpinned statement only where it must: where no permitted method
  can run, or where the most specific ones stay tied after the tie rules.\<close>

theorem analyze_complete:
  assumes "caps (s_resource s) (s_verb s) = Inr ms" "s_pinned s = []"
  shows "(AnalyzeStatement caps policy s = Inl (ErrOther ''no satisfiable method'') \<longleftrightarrow>
      (\<forall>m\<in>set ms. can_run s m \<longrightarrow> policy s m \<noteq> None)) \<and>
    (\<forall>m. m \<in> set ms \<and> can_run s m \<and> policy s m = None \<and>
       (\<forall>m'\<in>set ms. m' \<noteq> m \<and> can_run s m' \<and> policy s m' = None \<longrightarrow> length (m_Required m') < length (m_Required m)) \<and>
       distinct ms \<longrightarrow> AnalyzeStatement caps policy s = Inr m)"
proof (intro conjI allI impI)
  note un = Analyze_unpinned[where caps=caps and s=s and ms=ms and policy=policy, OF assms]
  have "tie_broken (s_verb s) (most_specific (candidates policy s ms)) = [] \<longleftrightarrow> candidates policy s ms = []"
    by (simp add: tie_broken_empty most_specific_empty)
  then have "AnalyzeStatement caps policy s = Inl (ErrOther ''no satisfiable method'') \<longleftrightarrow> candidates policy s ms = []"
    using un
    by (cases "tie_broken (s_verb s) (most_specific (candidates policy s ms))" rule: remdups_adj.cases) auto
  then show "AnalyzeStatement caps policy s = Inl (ErrOther ''no satisfiable method'') \<longleftrightarrow>
      (\<forall>m\<in>set ms. can_run s m \<longrightarrow> policy s m \<noteq> None)"
    by (auto simp: candidates_def filter_empty_conv)
  fix m assume m: "m \<in> set ms \<and> can_run s m \<and> policy s m = None \<and>
       (\<forall>m'\<in>set ms. m' \<noteq> m \<and> can_run s m' \<and> policy s m' = None \<longrightarrow> length (m_Required m') < length (m_Required m)) \<and>
       distinct ms"
  let ?c = "candidates policy s ms"
  have in_c: "x \<in> set ?c \<longleftrightarrow> x \<in> set ms \<and> can_run s x \<and> policy s x = None" for x
    by (simp add: candidates_def)
  have lt: "length (m_Required x) < length (m_Required m)" if "x \<in> set ?c" "x \<noteq> m" for x
    using that m in_c by blast
  have "set (most_specific ?c) = {m}"
  proof (intro set_eqI iffI)
    fix x assume x: "x \<in> set (most_specific ?c)"
    then have "length (m_Required m) \<le> length (m_Required x)" "x \<in> set ?c"
      using m in_c[of m] by (auto simp: most_specific_def)
    with lt show "x \<in> {m}" by (metis leD singletonI)
  next
    fix x assume "x \<in> {m}"
    with m in_c lt show "x \<in> set (most_specific ?c)" by (auto simp: most_specific_def intro: order.strict_implies_order)
  qed
  moreover have "distinct (most_specific ?c)" using m by (simp add: most_specific_def candidates_def)
  ultimately have "most_specific ?c = [m]"
    by (cases "most_specific ?c"; cases "tl (most_specific ?c)") auto
  then show "AnalyzeStatement caps policy s = Inr m"
    using un by (simp add: tie_broken_def prefer_partial_def prefer_reads_def)
qed

theorem analyze_complete_witness:
  "AnalyzeStatement demo_caps PermitAll demo_statement = Inr (doc_method (demo_op ''Get'' [''Id'']))"
proof -
  have p: "s_pinned demo_statement = []" by (simp add: demo_statement_def NewStatement_def)
  have "can_run demo_statement (doc_method (demo_op ''Get'' [''Id'']))"
    "\<not> can_run demo_statement (doc_method (demo_op ''List'' []))"
    by (simp_all add: can_run_def demo_statement_def NewStatement_def doc_method_def demo_op_def baseName_def)
  moreover have "distinct [doc_method (demo_op ''List'' []), doc_method (demo_op ''Get'' [''Id''])]"
    by (simp add: doc_method_def demo_op_def)
  ultimately show ?thesis using analyze_complete[of demo_caps demo_statement, OF demo_methods p, of PermitAll] by (auto simp: PermitAll_def)
qed

subsection \<open>Derived declarations\<close>

lemma ToLower_insert: "FormOf ''insert'' = FormCreate" by code_simp

text \<open>What is derived from a document is always loadable semantics: every derived declaration
  list is accepted; a resource's create is a create whose inverse is a delete the document states
  for a resource with that create, only ever lossy, and a create whose resources state no delete
  is not invertible.\<close>

theorem derived_semantics_load:
  "\<exists>s. New (Declarations rs) = Inr s \<and>
    (\<forall>r\<in>set rs. r_create r \<noteq> [] \<longrightarrow> sem_Form s (r_create r) = Some FormCreate) \<and>
    (\<forall>x i. sem_Inverse s x = Some i \<longrightarrow> inv_fidelity i = FidelityLossy \<and>
       (\<exists>r\<in>set rs. r_create r = x \<and> inv_exchange i = r_delete r \<and> r_delete r \<noteq> [])) \<and>
    (\<forall>x. sem_Inverse s x = None \<longrightarrow> (\<forall>r\<in>set rs. r_create r = x \<and> x \<noteq> [] \<longrightarrow> r_delete r = []))"
proof -
  let ?ds = "Declarations rs"
  have "list_all valid_decl ?ds"
    by (auto simp: Declarations_def list_all_iff valid_decl_def FidelityNone_def)
  then obtain s where s: "New ?ds = Inr s" unfolding New_def using New_loop_valid by blast
  note loop = s[unfolded New_def]
  have decl: "d \<in> set ?ds \<longleftrightarrow> (\<exists>r\<in>set rs. r_create r \<noteq> [] \<and>
      d = \<lparr>d_Exchange = r_create r, d_Form = ''insert'', d_Inverse = r_delete r, d_Fidelity = []\<rparr>)" for d
    by (auto simp: Declarations_def)
  have "sem_Form s (r_create r) = Some FormCreate" if "r \<in> set rs" "r_create r \<noteq> []" for r
  proof -
    let ?f = "form_decls ?ds (r_create r)"
    have ne: "?f \<noteq> []" using that by (auto simp: form_decls_def Declarations_def filter_empty_conv)
    from last_in_set[OF ne] have "last ?f \<in> set ?ds" by (simp add: form_decls_def)
    then have "d_Form (last ?f) = ''insert''" by (auto simp: decl)
    with New_loop_forms[OF loop, of "r_create r"] ne show ?thesis by (simp add: sem_Form_def ToLower_insert)
  qed
  moreover have "inv_fidelity i = FidelityLossy \<and> (\<exists>r\<in>set rs. r_create r = x \<and> inv_exchange i = r_delete r \<and> r_delete r \<noteq> [])"
    if "sem_Inverse s x = Some i" for x i
  proof -
    let ?f = "inverse_decls ?ds x"
    from that New_loop_inverses[OF loop, of x] have ne: "?f \<noteq> []"
      and i: "i = \<lparr>inv_exchange = d_Inverse (last ?f), inv_fidelity = declared_fidelity (last ?f)\<rparr>"
      by (auto simp: sem_Inverse_def Let_def split: if_splits)
    from last_in_set[OF ne] have "last ?f \<in> set ?ds" "d_Exchange (last ?f) = x" "d_Inverse (last ?f) \<noteq> []"
      by (auto simp: inverse_decls_def)
    with i show ?thesis by (auto simp: decl declared_fidelity_def)
  qed
  moreover have "r_delete r = []" if "sem_Inverse s x = None" "r \<in> set rs" "r_create r = x" "x \<noteq> []" for x r
  proof -
    from that(1) New_loop_inverses[OF loop, of x] have "inverse_decls ?ds x = []"
      by (auto simp: sem_Inverse_def Let_def split: if_splits)
    then have none: "\<forall>d\<in>set ?ds. d_Exchange d = x \<longrightarrow> d_Inverse d = []"
      by (auto simp: inverse_decls_def filter_empty_conv)
    let ?d = "\<lparr>d_Exchange = r_create r, d_Form = ''insert'', d_Inverse = r_delete r, d_Fidelity = []\<rparr>"
    have "?d \<in> set ?ds" unfolding decl using that(2-4) by blast
    with none that(3) show ?thesis by auto
  qed
  ultimately show ?thesis using s by blast
qed

definition demo_resource :: doc_resource where
  "demo_resource = \<lparr>r_path = ''p.s.r'', r_create = ''Put'', r_read = [], r_update = [], r_delete = ''Drop''\<rparr>"

theorem derived_semantics_load_witness:
  "\<exists>s. New (Declarations [demo_resource]) = Inr s \<and> sem_Form s ''Put'' = Some FormCreate \<and> sem_Inverse s ''Put'' \<noteq> None"
  using derived_semantics_load[of "[demo_resource]"] by (auto simp: demo_resource_def)

end
