(* ===== verification/Update_Routing.thy ===== *)
theory Update_Routing
  imports Facade
begin

section \<open>Update routes and session state: internal/updaterouting, internal/sessionstate\<close>

text \<open>
  Which declared update routes apply to a set of changed attributes, in the order they are to be
  considered. A route is nil or a record; the context is the sequence of answers \<open>ctx.Err\<close> gives,
  one per call.
\<close>

record UpdateRoute =
  ur_Resource :: string
  ur_Target :: string
  ur_Location :: string
  ur_Source :: string
  ur_Order :: int
  ur_Priority :: int
  ur_Permits :: "string list"
  ur_Requires :: "string list"

fun permits_ok :: "string list \<Rightarrow> string list \<Rightarrow> bool" where
  "permits_ok [] allowed = True"
| "permits_ok (k # ks) allowed = (if k = [] \<or> k \<in> set allowed then False else permits_ok ks (k # allowed))"

fun requires_ok :: "string list \<Rightarrow> string list \<Rightarrow> string list \<Rightarrow> bool" where
  "requires_ok [] seen allowed = True"
| "requires_ok (k # ks) seen allowed =
     (if k = [] \<or> k \<in> set seen \<or> k \<notin> set allowed then False else requires_ok ks (k # seen) allowed)"

definition Validate :: "UpdateRoute option \<Rightarrow> err option" where
  "Validate ro = (case ro of
     None \<Rightarrow> Some (ErrOther ''update route needs a resource and target'')
   | Some r \<Rightarrow>
       if ur_Resource r = [] \<or> ur_Target r = [] then Some (ErrOther ''update route needs a resource and target'')
       else if \<not> permits_ok (ur_Permits r) [] then Some (ErrOther ''empty or duplicate permitted attribute'')
       else if \<not> requires_ok (ur_Requires r) [] (ur_Permits r)
       then Some (ErrOther ''requires must be unique and a subset of permits'')
       else None)"

definition route_compare :: "UpdateRoute \<Rightarrow> UpdateRoute \<Rightarrow> int" where
  "route_compare a b =
     (if ur_Priority a \<noteq> ur_Priority b then (if ur_Priority a > ur_Priority b then - 1 else 1)
      else if Compare (ur_Source a) (ur_Source b) \<noteq> 0 then Compare (ur_Source a) (ur_Source b)
      else if ur_Order a < ur_Order b then - 1
      else if ur_Order a > ur_Order b then 1
      else if Compare (ur_Location a) (ur_Location b) \<noteq> 0 then Compare (ur_Location a) (ur_Location b)
      else Compare (ur_Resource a) (ur_Resource b))"

text \<open>The loop over the routes; \<open>i\<close> counts the calls of \<open>ctx.Err\<close>.\<close>

fun route_loop :: "(nat \<Rightarrow> err option) \<Rightarrow> (string, string list) gomap \<Rightarrow> nat \<Rightarrow> UpdateRoute option list
    \<Rightarrow> UpdateRoute list result" where
  "route_loop ctx changes i [] = Inr []"
| "route_loop ctx changes i (ro # routes) = (case ctx i of
     Some e \<Rightarrow> Inl e
   | None \<Rightarrow> (case Validate ro of
       Some e \<Rightarrow> Inl e
     | None \<Rightarrow> (let r = the ro;
                  changed = (case gm_get changes (ur_Resource r) of None \<Rightarrow> [] | Some ks \<Rightarrow> ks) in
         if changed = [] then route_loop ctx changes (Suc i) routes
         else if [] \<in> set changed then Inl (ErrOther ''empty changed attribute'')
         else if list_ex (\<lambda>k. k \<notin> set changed) (ur_Requires r) then route_loop ctx changes (Suc i) routes
         else if list_ex (\<lambda>k. k \<notin> set (ur_Permits r)) changed then route_loop ctx changes (Suc i) routes
         else (case route_loop ctx changes (Suc i) routes of Inl e \<Rightarrow> Inl e | Inr out \<Rightarrow> Inr (r # out)))))"

definition Candidates :: "(nat \<Rightarrow> err option) \<Rightarrow> (string, string list) gomap \<Rightarrow> UpdateRoute option list
    \<Rightarrow> UpdateRoute list \<times> err option" where
  "Candidates ctx changes routes = (case route_loop ctx changes 0 routes of
     Inl e \<Rightarrow> ([], Some e)
   | Inr out \<Rightarrow> (SortStableFunc route_compare out, ctx (length routes)))"

subsection \<open>What a route promises\<close>

lemma permits_ok_iff: "permits_ok ks allowed \<longleftrightarrow> [] \<notin> set ks \<and> distinct ks \<and> set ks \<inter> set allowed = {}"
  by (induction ks arbitrary: allowed) auto

lemma requires_ok_iff:
  "requires_ok ks seen allowed \<longleftrightarrow> [] \<notin> set ks \<and> distinct ks \<and> set ks \<inter> set seen = {} \<and> set ks \<subseteq> set allowed"
  by (induction ks arbitrary: seen) auto

definition valid_route :: "UpdateRoute \<Rightarrow> bool" where
  "valid_route r \<longleftrightarrow> ur_Resource r \<noteq> [] \<and> ur_Target r \<noteq> [] \<and> [] \<notin> set (ur_Permits r) \<and> distinct (ur_Permits r) \<and>
     distinct (ur_Requires r) \<and> set (ur_Requires r) \<subseteq> set (ur_Permits r)"

lemma Validate_iff: "Validate ro = None \<longleftrightarrow> (\<exists>r. ro = Some r \<and> valid_route r)"
  by (auto simp: Validate_def valid_route_def permits_ok_iff requires_ok_iff split: option.splits)

definition changed_of :: "(string, string list) gomap \<Rightarrow> UpdateRoute \<Rightarrow> string list" where
  "changed_of changes r = (case gm_get changes (ur_Resource r) of None \<Rightarrow> [] | Some ks \<Rightarrow> ks)"

definition applies :: "(string, string list) gomap \<Rightarrow> UpdateRoute \<Rightarrow> bool" where
  "applies changes r \<longleftrightarrow> changed_of changes r \<noteq> [] \<and> set (ur_Requires r) \<subseteq> set (changed_of changes r) \<and>
     set (changed_of changes r) \<subseteq> set (ur_Permits r)"

lemma route_loop_Cons:
  assumes "ctx i = None" "valid_route r"
  shows "route_loop ctx changes i (Some r # routes) =
    (if [] \<in> set (changed_of changes r) then Inl (ErrOther ''empty changed attribute'')
     else map_sum id (\<lambda>out. if applies changes r then r # out else out) (route_loop ctx changes (Suc i) routes))"
proof -
  have v: "Validate (Some r) = None" using assms(2) by (simp add: Validate_iff)
  have req: "list_ex (\<lambda>k. k \<notin> set c) (ur_Requires r) \<longleftrightarrow> \<not> set (ur_Requires r) \<subseteq> set c"
    and per: "list_ex (\<lambda>k. k \<notin> set (ur_Permits r)) c \<longleftrightarrow> \<not> set c \<subseteq> set (ur_Permits r)" for c
    by (auto simp: list_ex_iff)
  show ?thesis
    by (cases "route_loop ctx changes (Suc i) routes")
      (auto simp: assms(1) v req per changed_of_def applies_def Let_def split: option.split)
qed

lemma route_loop_ok:
  "route_loop ctx changes i routes = Inr out \<Longrightarrow>
   \<exists>rs. routes = map Some rs \<and> list_all valid_route rs \<and> out = filter (applies changes) rs \<and>
     (\<forall>r\<in>set rs. [] \<notin> set (changed_of changes r))"
proof (induction routes arbitrary: i out)
  case (Cons ro routes)
  from Cons.prems obtain r where r: "ro = Some r" "valid_route r"
    by (auto simp: Validate_iff split: option.splits)
  have ctx: "ctx i = None" using Cons.prems by (simp split: option.splits)
  from Cons.prems[unfolded r(1) route_loop_Cons[where ctx=ctx and i=i, OF ctx r(2)]] obtain out' where
    nonempty: "[] \<notin> set (changed_of changes r)"
    and rest: "route_loop ctx changes (Suc i) routes = Inr out'"
    and out: "out = (if applies changes r then r # out' else out')"
    by (cases "route_loop ctx changes (Suc i) routes") (auto split: if_splits)
  from Cons.IH[OF rest] obtain rs where "routes = map Some rs" "list_all valid_route rs"
    "out' = filter (applies changes) rs" "\<forall>r\<in>set rs. [] \<notin> set (changed_of changes r)" by blast
  with r out nonempty show ?case by (intro exI[of _ "r # rs"]) auto
qed simp

lemma route_loop_succeeds:
  assumes "\<And>i. ctx i = None" "list_all valid_route rs" "\<forall>r\<in>set rs. [] \<notin> set (changed_of changes r)"
  shows "route_loop ctx changes i (map Some rs) = Inr (filter (applies changes) rs)"
  using assms(2,3)
proof (induction rs arbitrary: i)
  case (Cons r rs)
  then show ?case using route_loop_Cons[where ctx=ctx and i=i, OF assms(1), of r] by (simp del: route_loop.simps(2))
qed simp

text \<open>The comparison orders routes by descending priority, then source, order, location and
  resource.\<close>

definition route_le :: "UpdateRoute \<Rightarrow> UpdateRoute \<Rightarrow> bool" where
  "route_le a b \<longleftrightarrow> ur_Priority a > ur_Priority b \<or> ur_Priority a = ur_Priority b \<and>
     (ur_Source a < ur_Source b \<or> ur_Source a = ur_Source b \<and>
       (ur_Order a < ur_Order b \<or> ur_Order a = ur_Order b \<and>
         (ur_Location a < ur_Location b \<or> ur_Location a = ur_Location b \<and> ur_Resource a \<le> ur_Resource b)))"

lemma route_compare_le: "route_compare a b \<le> 0 \<longleftrightarrow> route_le a b"
  by (auto simp: route_compare_def route_le_def Compare_def)

definition total_preorder :: "('a \<Rightarrow> 'a \<Rightarrow> bool) \<Rightarrow> bool" where
  "total_preorder le \<longleftrightarrow> (\<forall>x y. le x y \<or> le y x) \<and> (\<forall>x y z. le x y \<longrightarrow> le y z \<longrightarrow> le x z)"

lemma total_preorder_lex:
  fixes f :: "'a \<Rightarrow> 'b :: linorder"
  assumes "total_preorder le"
  shows "total_preorder (\<lambda>x y. f x < f y \<or> f x = f y \<and> le x y)"
proof -
  have tot: "le x y \<or> le y x" and tr: "le x y \<Longrightarrow> le y z \<Longrightarrow> le x z" for x y z
    using assms unfolding total_preorder_def by blast+
  show ?thesis unfolding total_preorder_def
  proof (intro conjI allI impI)
    show "(f x < f y \<or> f x = f y \<and> le x y) \<or> (f y < f x \<or> f y = f x \<and> le y x)" for x y
      using tot[of x y] by (cases "f x" "f y" rule: linorder_cases) auto
    show "f x < f z \<or> f x = f z \<and> le x z"
      if "f x < f y \<or> f x = f y \<and> le x y" "f y < f z \<or> f y = f z \<and> le y z" for x y z
      using that tr[of x y z] by auto
  qed
qed

lemma route_le_total: "total_preorder route_le"
proof -
  have r: "total_preorder (\<lambda>a b. ur_Resource a \<le> ur_Resource (b :: UpdateRoute))"
    by (auto simp: total_preorder_def)
  note l = total_preorder_lex[OF r, of ur_Location]
  note l = total_preorder_lex[OF l, of ur_Order]
  note l = total_preorder_lex[OF l, of ur_Source]
  note l = total_preorder_lex[OF l, of "\<lambda>r. - ur_Priority r"]
  then show ?thesis by (simp add: route_le_def[abs_def])
qed

lemma route_compare_total: "total_cmp route_compare"
  using route_le_total by (simp add: total_cmp_def total_preorder_def route_compare_le)

text \<open>C14: on valid routes and without cancellation, routing returns exactly the routes whose
  required attributes are all changed and whose permitted attributes cover every change, in the
  documented order, ties kept as declared; and any success returns such a list.\<close>

theorem routing_correct:
  assumes "\<And>i. ctx i = None" "list_all valid_route rs" "\<forall>r\<in>set rs. [] \<notin> set (changed_of changes r)"
  shows "\<exists>out. Candidates ctx changes (map Some rs) = (out, None) \<and>
    mset out = mset (filter (applies changes) rs) \<and> sorted_wrt route_le out \<and>
    (\<forall>r. filter (\<lambda>x. route_le x r \<and> route_le r x) out = filter (\<lambda>x. route_le x r \<and> route_le r x) (filter (applies changes) rs))"
proof -
  let ?out = "SortStableFunc route_compare (filter (applies changes) rs)"
  have "Candidates ctx changes (map Some rs) = (?out, None)"
    using route_loop_succeeds[where ctx=ctx and i=0, OF assms] assms(1) by (simp add: Candidates_def)
  moreover have "sorted_wrt route_le ?out"
    using sorted_SortStableFunc[OF route_compare_total] by (simp add: route_compare_le)
  moreover have "filter (\<lambda>x. route_le x r \<and> route_le r x) ?out =
      filter (\<lambda>x. route_le x r \<and> route_le r x) (filter (applies changes) rs)" for r
  proof (rule SortStableFunc_stable)
    fix x y assume "route_le x r \<and> route_le r x" "route_le y r \<and> route_le r y"
    with route_le_total show "route_compare x y \<le> 0" unfolding total_preorder_def route_compare_le by blast
  qed
  ultimately show ?thesis by auto
qed

definition demo_route :: "int \<Rightarrow> UpdateRoute" where
  "demo_route n = \<lparr>ur_Resource = ''r'', ur_Target = ''t'', ur_Location = ''l'', ur_Source = ''s'', ur_Order = n,
     ur_Priority = 0, ur_Permits = [''a'', ''b''], ur_Requires = [''a'']\<rparr>"

lemma demo_applies: "applies [(''r'', [''a''])] (demo_route n)" "changed_of [(''r'', [''a''])] (demo_route n) = [''a'']"
  "valid_route (demo_route n)"
  by (simp_all add: applies_def changed_of_def demo_route_def valid_route_def)

theorem routing_correct_witness:
  "\<exists>out. Candidates (\<lambda>_. None) [(''r'', [''a''])] (map Some [demo_route 2, demo_route 1]) = (out, None) \<and>
     mset out = {#demo_route 1, demo_route 2#}"
  using routing_correct[of "\<lambda>_. None" "[demo_route 2, demo_route 1]" "[(''r'', [''a''])]"] demo_applies
  by (simp add: add_mset_commute) blast

subsection \<open>Session state\<close>

type_synonym session = "(string, bytes) gomap"

definition session_New :: session where "session_New = []"

definition session_Set :: "session \<Rightarrow> string \<Rightarrow> bytes \<Rightarrow> session" where
  "session_Set m key v = gm_set key v m"

definition session_Delete :: "session \<Rightarrow> string \<Rightarrow> session" where
  "session_Delete m key = gm_del key m"

fun session_pick :: "session \<Rightarrow> string list \<Rightarrow> session \<Rightarrow> session" where
  "session_pick m [] out = out"
| "session_pick m (k # ks) out = session_pick m ks (case gm_get m k of None \<Rightarrow> out | Some v \<Rightarrow> gm_set k v out)"

definition session_Snapshot :: "session \<Rightarrow> string list \<Rightarrow> session" where
  "session_Snapshot m keys = (if keys \<noteq> [] then session_pick m keys [] else m)"

lemma session_pick_get:
  "gm_get (session_pick m ks out) k = (if k \<in> set ks \<and> gm_get m k \<noteq> None then gm_get m k else gm_get out k)"
  by (induction ks arbitrary: out) (auto split: option.splits)

text \<open>A snapshot holds the last value set for each of the keys asked for, or for every key
  when none is named, and nothing for keys deleted since or never set.\<close>

theorem session_snapshot_get:
  "gm_get (session_Snapshot (session_Set m k v) keys) k' =
     (if keys = [] \<or> k' \<in> set keys then (if k' = k then Some v else gm_get m k') else None) \<and>
   gm_get (session_Snapshot (session_Delete m k) keys) k' =
     (if keys = [] \<or> k' \<in> set keys then (if k' = k then None else gm_get m k') else None)"
  by (auto simp: session_Snapshot_def session_pick_get session_Set_def session_Delete_def)

end
