(* ===== verification/Resource_Bindings.thy ===== *)
theory Resource_Bindings
  imports Json
begin

section \<open>Resource bindings: internal/resourcebindings/resolve.go\<close>

text \<open>
  A decoded document in which an object with the members \<open>from\<close> and \<open>attribute\<close> stands for a value
  looked up in one of three sources. Resolution follows references into the document itself, up to
  256 levels deep, and refuses cycles.
\<close>

type_synonym sources = "(string, object) gomap"

text \<open>Whether an object is a reference: not one, one with its source and name, or ill-formed.\<close>

definition reference :: "object \<Rightarrow> (string \<times> string) option result" where
  "reference m =
     (if gm_get m ''from'' = None \<or> gm_get m ''attribute'' = None
      then (if gm_get m ''from'' \<in> {Some (JStr ''self''), Some (JStr ''env''), Some (JStr ''input'')}
            then Inl (ErrOther ''binding requires attribute'') else Inr None)
      else (case gm_get m ''from'' of
          Some (JStr source) \<Rightarrow> (case gm_get m ''attribute'' of
              Some (JStr name) \<Rightarrow>
                if name = [] then Inl (ErrOther ''binding attribute must be a nonempty string'')
                else if length m \<noteq> 2 then Inl (ErrOther ''binding accepts only from and attribute'')
                else if source \<notin> {''self'', ''env'', ''input''} then Inl (ErrOther ''unknown binding source'')
                else Inr (Some (source, name))
            | _ \<Rightarrow> Inl (ErrOther ''binding attribute must be a nonempty string''))
        | _ \<Rightarrow> Inl (ErrOther ''binding from must be a string'')))"

function lookup :: "object \<Rightarrow> string \<Rightarrow> json option" where
  "lookup root path = (case gm_get root path of
     Some v \<Rightarrow> Some v
   | None \<Rightarrow> (case Cut CHR ''.'' path of (first, rest, nested) \<Rightarrow>
       if \<not> nested then None
       else (case gm_get root first of
           Some (JObj child) \<Rightarrow> lookup child rest
         | _ \<Rightarrow> None)))"
  by pat_completeness auto
termination
  by (relation "measure (\<lambda>(root, path). length path)") (auto dest: Cut_shorter[OF sym])

declare lookup.simps [simp del]

fun clone_value :: "json \<Rightarrow> json" where
  "clone_value (JObj m) = JObj (map (\<lambda>(k, v). (k, clone_value v)) m)"
| "clone_value (JArr xs) = JArr (map clone_value xs)"
| "clone_value v = v"

definition source_of :: "sources \<Rightarrow> string \<Rightarrow> object" where
  "source_of src name = (case gm_get src name of None \<Rightarrow> [] | Some m \<Rightarrow> m)"

function resolve_walk :: "sources \<Rightarrow> string list \<Rightarrow> nat \<Rightarrow> json \<Rightarrow> json result" where
  "resolve_walk src active depth v =
     (if depth > 256 then Inl (ErrOther ''binding nesting exceeds 256 levels'')
      else (case v of
          JObj m \<Rightarrow> (case reference m of
              Inl e \<Rightarrow> Inl e
            | Inr (Some (source, name)) \<Rightarrow> (case lookup (source_of src source) name of
                None \<Rightarrow> Inl (ErrOther ''unresolved binding'')
              | Some found \<Rightarrow>
                  if source \<noteq> ''self'' then Inr (clone_value found)
                  else if name \<in> set active then Inl (ErrOther ''cyclic self binding'')
                  else resolve_walk src (name # active) (depth + 1) found)
            | Inr None \<Rightarrow> rfmap JObj (rmap (\<lambda>k. rfmap (Pair k)
                (resolve_walk src active (depth + 1) (the (gm_get m k)))) (sort (gm_keys m))))
        | JArr xs \<Rightarrow> rfmap JArr (rmap (resolve_walk src active (depth + 1)) xs)
        | _ \<Rightarrow> Inr v))"
  by pat_completeness auto
termination
  by (relation "measure (\<lambda>(src, active, depth, v). 257 - depth)") auto

declare resolve_walk.simps [simp del]

definition Resolve_bindings :: "json \<Rightarrow> sources \<Rightarrow> json result" where
  "Resolve_bindings v src = resolve_walk src [] 0 v"

text \<open>The names a document takes from one source, in order of the walk.\<close>

fun refs_walk :: "string \<Rightarrow> json \<Rightarrow> string list result" where
  "refs_walk source (JObj m) = (case reference m of
     Inl e \<Rightarrow> Inl e
   | Inr (Some (from, name)) \<Rightarrow> Inr (if from = source then [name] else [])
   | Inr None \<Rightarrow> rfmap concat (rmap snd (sort_key fst (map (\<lambda>(k, v). (k, refs_walk source v)) m))))"
| "refs_walk source (JArr xs) = rfmap concat (rmap (refs_walk source) xs)"
| "refs_walk source v = Inr []"

definition References :: "json \<Rightarrow> string \<Rightarrow> string list result" where
  "References v source = rfmap (\<lambda>ns. sort (remdups ns)) (refs_walk source v)"

subsection \<open>Cloning\<close>

lemma clone_value_id [simp]: "clone_value v = v"
proof (induction v rule: clone_value.induct)
  case (1 m)
  then have "map (\<lambda>(k, v). (k, clone_value v)) m = m" by (auto intro!: map_idI)
  then show ?case by simp
next
  case (2 xs)
  then show ?case by (simp add: map_idI)
qed simp_all

subsection \<open>Resolution\<close>

text \<open>No object holds both members of a reference.\<close>

fun no_refs :: "json \<Rightarrow> bool" where
  "no_refs (JObj m) \<longleftrightarrow> (gm_get m ''from'' = None \<or> gm_get m ''attribute'' = None) \<and> (\<forall>(k, v)\<in>set m. no_refs v)"
| "no_refs (JArr xs) \<longleftrightarrow> (\<forall>x\<in>set xs. no_refs x)"
| "no_refs v \<longleftrightarrow> True"

lemma reference_None: "reference m = Inr None \<Longrightarrow> gm_get m ''from'' = None \<or> gm_get m ''attribute'' = None"
  by (auto simp: reference_def split: if_splits option.splits json.splits)

lemma reference_Some: "reference m = Inr (Some (s, n)) \<Longrightarrow> s \<in> {''self'', ''env'', ''input''} \<and> n \<noteq> []"
  by (auto simp: reference_def split: if_splits option.splits json.splits)

lemma lookup_no_refs: "(\<forall>(k, v)\<in>set m. no_refs v) \<Longrightarrow> lookup m path = Some v \<Longrightarrow> no_refs v"
proof (induction m path rule: lookup.induct)
  case (1 root path)
  show ?case
  proof (cases "gm_get root path")
    case (Some w)
    with 1(3) have "v = w" by (simp add: lookup.simps)
    with Some 1(2) show ?thesis by (auto dest: map_of_SomeD)
  next
    case None
    obtain first rest nested where cut: "Cut CHR ''.'' path = (first, rest, nested)" by (metis prod_cases3)
    from 1(3) None cut obtain child where child: "nested" "gm_get root first = Some (JObj child)"
      "lookup child rest = Some v"
      by (subst (asm) lookup.simps) (auto split: if_splits option.splits json.splits)
    from map_of_SomeD[OF child(2)] 1(2) have "no_refs (JObj child)" by blast
    with 1(1)[OF None cut[symmetric] refl _ child(2) refl _ child(3)] child(1) show ?thesis by auto
  qed
qed

lemma rmap_keys:
  assumes "rmap (\<lambda>k. rfmap (Pair k) (f k)) ks = Inr kvs"
  shows "map fst kvs = ks \<and> (\<forall>(k, v)\<in>set kvs. f k = Inr v)"
  using assms
proof (induction ks arbitrary: kvs)
  case (Cons k ks)
  then obtain v kvs' where "f k = Inr v" "rmap (\<lambda>k. rfmap (Pair k) (f k)) ks = Inr kvs'" "kvs = (k, v) # kvs'"
    by (cases "f k") (auto split: sum.splits)
  with Cons.IH[of kvs'] show ?case by auto
qed simp

lemma resolve_walk_scalar:
  "\<not> depth > 256 \<Longrightarrow> resolve_walk src active depth JNull = Inr JNull"
  "\<not> depth > 256 \<Longrightarrow> resolve_walk src active depth (JBool b) = Inr (JBool b)"
  "\<not> depth > 256 \<Longrightarrow> resolve_walk src active depth (JNum t) = Inr (JNum t)"
  "\<not> depth > 256 \<Longrightarrow> resolve_walk src active depth (JStr t) = Inr (JStr t)"
  by (subst resolve_walk.simps, simp)+

lemma resolve_walk_no_refs:
  "\<forall>s\<in>{''env'', ''input''}. \<forall>(k, v)\<in>set (source_of src s). no_refs v \<Longrightarrow>
   resolve_walk src active depth v = Inr out \<Longrightarrow> no_refs out"
proof (induction src active depth v arbitrary: out rule: resolve_walk.induct)
  case (1 src active depth v)
  note IH = 1(1,2,3) and srcs = 1(4) and out = 1(5)
  have d: "\<not> depth > 256" using out by (subst (asm) resolve_walk.simps) (simp split: if_splits)
  show ?case
  proof (cases v)
    case (JArr xs)
    from out d JArr obtain ys where ys: "rmap (resolve_walk src active (depth + 1)) xs = Inr ys" "out = JArr ys"
      by (subst (asm) resolve_walk.simps) (cases "rmap (resolve_walk src active (depth + 1)) xs", auto)
    show ?thesis using IH(1)[OF d JArr _ srcs] ys unfolding rmap_Inr_iff
      by (fastforce simp: list_all2_conv_all_nth in_set_conv_nth)
  next
    case (JObj m)
    show ?thesis
    proof (cases "reference m")
      case (Inl e)
      with out d JObj show ?thesis by (subst (asm) resolve_walk.simps) simp
    next
      case (Inr ro)
      show ?thesis
      proof (cases ro)
        case None
        let ?f = "\<lambda>k. resolve_walk src active (depth + 1) (the (gm_get m k))"
        from out d JObj Inr None obtain kvs where kvs: "rmap (\<lambda>k. rfmap (Pair k) (?f k)) (sort (gm_keys m)) = Inr kvs"
          "out = JObj kvs"
          by (subst (asm) resolve_walk.simps) (cases "rmap (\<lambda>k. rfmap (Pair k) (?f k)) (sort (gm_keys m))", auto)
        note keys = rmap_keys[OF kvs(1)]
        have "gm_get kvs k = None \<longleftrightarrow> gm_get m k = None" for k
          using keys by (metis gm_get_None_iff set_sort)
        moreover have "no_refs w" if "(k, w) \<in> set kvs" for k w
        proof -
          from keys that have "k \<in> set (sort (gm_keys m))" by (metis fst_conv image_eqI list.set_map)
          moreover from keys that have "?f k = Inr w" by blast
          ultimately show ?thesis by (rule IH(2)[OF d JObj Inr None _ srcs])
        qed
        ultimately show ?thesis using kvs(2) reference_None[of m] Inr None by auto
      next
        case (Some sn)
        obtain source name where sn: "sn = (source, name)" by fastforce
        note ref = Inr[unfolded Some sn]
        from out d JObj ref obtain found where found: "lookup (source_of src source) name = Some found"
          by (subst (asm) resolve_walk.simps) (auto split: option.splits)
        show ?thesis
        proof (cases "source = ''self''")
          case False
          with out d JObj ref found have "out = found" by (subst (asm) resolve_walk.simps) simp
          moreover have "source \<in> {''env'', ''input''}" using reference_Some[OF ref] False by auto
          ultimately show ?thesis using lookup_no_refs[OF _ found] srcs by blast
        next
          case True
          with out d JObj ref found have "name \<notin> set active"
            "resolve_walk src (name # active) (depth + 1) found = Inr out"
            by (subst (asm) resolve_walk.simps, simp split: if_splits)+
          with IH(3)[OF d JObj Inr Some sn[symmetric] found _ _ srcs] True show ?thesis by simp
        qed
      qed
    qed
  qed (use out d in \<open>auto simp: resolve_walk_scalar\<close>)
qed

subsection \<open>References\<close>

text \<open>A value takes the name \<open>n\<close> from source \<open>s\<close> at some position.\<close>

inductive takes :: "string \<Rightarrow> string \<Rightarrow> json \<Rightarrow> bool" for s n where
  takes_ref: "reference m = Inr (Some (s, n)) \<Longrightarrow> takes s n (JObj m)"
| takes_member: "reference m = Inr None \<Longrightarrow> (k, v) \<in> set m \<Longrightarrow> takes s n v \<Longrightarrow> takes s n (JObj m)"
| takes_elem: "v \<in> set xs \<Longrightarrow> takes s n v \<Longrightarrow> takes s n (JArr xs)"

inductive_simps takes_simps: "takes s n (JObj m)" "takes s n (JArr xs)" "takes s n JNull" "takes s n (JBool b)"
  "takes s n (JNum t)" "takes s n (JStr t)"

lemma rmap_set: "rmap f xs = Inr ys \<Longrightarrow> y \<in> set ys \<longleftrightarrow> (\<exists>x\<in>set xs. f x = Inr y)"
  unfolding rmap_Inr_iff by (fastforce simp: list_all2_conv_all_nth in_set_conv_nth)

lemma rmap_all_ok: "rmap f xs = Inr ys \<Longrightarrow> x \<in> set xs \<Longrightarrow> \<exists>y\<in>set ys. f x = Inr y"
  unfolding rmap_Inr_iff by (fastforce simp: list_all2_conv_all_nth in_set_conv_nth)

lemma refs_walk_takes: "refs_walk s v = Inr ns \<Longrightarrow> n \<in> set ns \<longleftrightarrow> takes s n v"
proof (induction s v arbitrary: ns rule: refs_walk.induct)
  case (1 s m)
  show ?case
  proof (cases "reference m")
    case (Inr ro)
    show ?thesis
    proof (cases ro)
      case None
      let ?ps = "sort_key fst (map (\<lambda>(k, v). (k, refs_walk s v)) m)"
      from 1(2) Inr None obtain nss where nss: "rmap snd ?ps = Inr nss" "ns = concat nss"
        by (auto simp: rfmap_Inr_iff)
      have ps: "set ?ps = (\<lambda>(k, v). (k, refs_walk s v)) ` set m" by simp
      have "n \<in> set ns \<longleftrightarrow> (\<exists>(k, v)\<in>set m. \<exists>ns'. refs_walk s v = Inr ns' \<and> n \<in> set ns')"
        using rmap_set[OF nss(1)] nss(2) unfolding ps by fastforce
      also have "\<dots> \<longleftrightarrow> (\<exists>(k, v)\<in>set m. takes s n v)"
      proof -
        have "(\<exists>ns'. refs_walk s v = Inr ns' \<and> n \<in> set ns') \<longleftrightarrow> takes s n v" if "(k, v) \<in> set m" for k v
        proof -
          from that ps have "(k, refs_walk s v) \<in> set ?ps" by force
          with rmap_all_ok[OF nss(1)] obtain ns' where "refs_walk s v = Inr ns'" by fastforce
          with 1(1)[OF Inr None that refl] show ?thesis by auto
        qed
        then show ?thesis by fast
      qed
      finally show ?thesis using Inr None by (auto simp: takes_simps)
    qed (use 1(2) Inr in \<open>auto simp: takes_simps split: if_splits\<close>)
  qed (use 1(2) in simp)
next
  case (2 s xs)
  then obtain nss where nss: "rmap (refs_walk s) xs = Inr nss" "ns = concat nss" by (auto simp: rfmap_Inr_iff)
  have "(\<exists>ns'. refs_walk s v = Inr ns' \<and> n \<in> set ns') \<longleftrightarrow> takes s n v" if "v \<in> set xs" for v
    using rmap_all_ok[OF nss(1) that] 2(1)[OF that] by fastforce
  moreover have "n \<in> set ns \<longleftrightarrow> (\<exists>v\<in>set xs. \<exists>ns'. refs_walk s v = Inr ns' \<and> n \<in> set ns')"
    using rmap_set[OF nss(1)] nss(2) by fastforce
  ultimately show ?case by (auto simp: takes_simps)
qed (auto simp: takes_simps)

lemma resolve_walk_depends:
  assumes "\<And>n. \<not> takes ''self'' n v"
    and "\<And>s n. takes s n v \<Longrightarrow> lookup (source_of src s) n = lookup (source_of src' s) n"
  shows "resolve_walk src active depth v = resolve_walk src' active depth v"
  using assms
proof (induction src active depth v rule: resolve_walk.induct)
  case (1 src active depth v)
  show ?case
  proof (cases "depth > 256")
    case True
    then show ?thesis by (simp add: resolve_walk.simps)
  next
    case False
    show ?thesis
    proof (cases v)
      case (JArr xs)
      have "rmap (resolve_walk src active (depth + 1)) xs = rmap (resolve_walk src' active (depth + 1)) xs"
      proof (intro rmap_cong refl)
        fix x assume x: "x \<in> set xs"
        then have t: "takes s n x \<Longrightarrow> takes s n v" for s n using JArr by (auto simp: takes_simps)
        show "resolve_walk src active (depth + 1) x = resolve_walk src' active (depth + 1) x"
          using t 1(4,5) by (intro 1(1)[OF False JArr x]) blast+
      qed
      then show ?thesis using JArr by (subst (1 2) resolve_walk.simps) simp
    next
      case (JObj m)
      show ?thesis
      proof (cases "reference m")
        case (Inr ro)
        show ?thesis
        proof (cases ro)
          case None
          have "resolve_walk src active (depth + 1) (the (gm_get m k)) = resolve_walk src' active (depth + 1) (the (gm_get m k))"
            if "k \<in> set (sort (gm_keys m))" for k
          proof -
            from that obtain w where w: "gm_get m k = Some w" using gm_get_None_iff[of m k] by auto
            then have "(k, w) \<in> set m" by (rule map_of_SomeD)
            then have t: "takes s n w \<Longrightarrow> takes s n v" for s n using JObj Inr None by (auto simp: takes_simps)
            have "resolve_walk src active (depth + 1) w = resolve_walk src' active (depth + 1) w"
              using 1(2)[OF False JObj Inr None that, unfolded w option.sel] t 1(4,5) by blast
            with w show ?thesis by simp
          qed
          then have "rmap (\<lambda>k. rfmap (Pair k) (resolve_walk src active (depth + 1) (the (gm_get m k)))) (sort (gm_keys m))
              = rmap (\<lambda>k. rfmap (Pair k) (resolve_walk src' active (depth + 1) (the (gm_get m k)))) (sort (gm_keys m))"
            by (intro rmap_cong refl) simp
          then show ?thesis using JObj Inr None False by (subst (1 2) resolve_walk.simps) simp
        next
          case (Some sn)
          obtain s n where sn: "sn = (s, n)" by fastforce
          then have "takes s n v" using Inr Some JObj by (simp add: takes_simps)
          with 1(4,5) have "s \<noteq> ''self''" "lookup (source_of src s) n = lookup (source_of src' s) n" by auto
          then show ?thesis using Inr Some JObj sn
            by (subst (1 2) resolve_walk.simps) (simp split: option.split)
        qed
      qed (use JObj in \<open>subst (1 2) resolve_walk.simps, simp\<close>)
    qed (use False in \<open>simp_all add: resolve_walk_scalar\<close>)
  qed
qed

subsection \<open>Properties\<close>


definition demo_ref :: "string \<Rightarrow> string \<Rightarrow> json" where
  "demo_ref s n = JObj [(''from'', JStr s), (''attribute'', JStr n)]"

definition demo_sources :: sources where
  "demo_sources = [(''env'', [(''HOME'', JStr ''/root'')]), (''self'', [(''dir'', demo_ref ''env'' ''HOME''), (''loop'', demo_ref ''self'' ''loop'')])]"


text \<open>The references reported for a source are exactly the names the document takes from it, in
  order and without duplicates.\<close>

theorem references_exact:
  assumes "References v s = Inr ns"
  shows "sorted ns \<and> distinct ns \<and> (\<forall>n. n \<in> set ns \<longleftrightarrow> takes s n v)"
proof -
  from assms obtain ms where "refs_walk s v = Inr ms" "ns = sort (remdups ms)"
    by (auto simp: References_def rfmap_Inr_iff)
  with refs_walk_takes show ?thesis by simp
qed

theorem references_exact_witness:
  "References (JArr [demo_ref ''env'' ''B'', demo_ref ''env'' ''A'', demo_ref ''self'' ''C'']) ''env'' = Inr [''A'', ''B''] \<and>
   takes ''env'' ''A'' (JArr [demo_ref ''env'' ''B'', demo_ref ''env'' ''A'', demo_ref ''self'' ''C''])"
proof -
  have r: "References (JArr [demo_ref ''env'' ''B'', demo_ref ''env'' ''A'', demo_ref ''self'' ''C'']) ''env'' = Inr [''A'', ''B'']"
    by code_simp
  from references_exact[OF r] have "takes ''env'' ''A'' (JArr [demo_ref ''env'' ''B'', demo_ref ''env'' ''A'', demo_ref ''self'' ''C''])"
    by (metis list.set_intros(1))
  with r show ?thesis by blast
qed

text \<open>The reported references are all a document without self references depends on: if two sets
  of sources give the same values for the names reported for the environment and the input, the
  document resolves to the same result, an error included.\<close>

theorem resolve_depends_only_on_references:
  assumes "References v ''self'' = Inr []" "References v ''env'' = Inr envs" "References v ''input'' = Inr inputs"
    and "\<forall>n\<in>set envs. lookup (source_of src ''env'') n = lookup (source_of src' ''env'') n"
    and "\<forall>n\<in>set inputs. lookup (source_of src ''input'') n = lookup (source_of src' ''input'') n"
  shows "Resolve_bindings v src = Resolve_bindings v src'"
proof -
  have ex: "n \<in> set ns \<longleftrightarrow> takes s n v" if "References v s = Inr ns" for s n ns
    using that refs_walk_takes by (auto simp: References_def rfmap_Inr_iff)
  have cases: "s \<in> {''self'', ''env'', ''input''}" if "takes s n v" for s n
    using that by (induction rule: takes.induct) (auto dest: reference_Some)
  have self: "\<not> takes ''self'' n v" for n using ex[OF assms(1), of n] by simp
  have "lookup (source_of src s) n = lookup (source_of src' s) n" if t: "takes s n v" for s n
  proof -
    from cases[OF t] self[of n] t have "s = ''env'' \<or> s = ''input''" by auto
    with t ex[OF assms(2), of n] ex[OF assms(3), of n] assms(4,5) show ?thesis by blast
  qed
  with self show ?thesis unfolding Resolve_bindings_def by (rule resolve_walk_depends)
qed

theorem resolve_depends_only_on_references_witness:
  "Resolve_bindings (demo_ref ''env'' ''HOME'') demo_sources =
   Resolve_bindings (demo_ref ''env'' ''HOME'') [(''env'', [(''HOME'', JStr ''/root''), (''X'', JNull)])]"
proof -
  have "References (demo_ref ''env'' ''HOME'') ''self'' = Inr []" "References (demo_ref ''env'' ''HOME'') ''env'' = Inr [''HOME'']"
    "References (demo_ref ''env'' ''HOME'') ''input'' = Inr []" by code_simp+
  moreover have "lookup (source_of demo_sources ''env'') ''HOME'' = lookup (source_of [(''env'', [(''HOME'', JStr ''/root''), (''X'', JNull)])] ''env'') ''HOME''"
    by code_simp
  ultimately show ?thesis using resolve_depends_only_on_references by simp
qed

text \<open>A self reference that leads back to itself is refused as a cycle.\<close>

lemma cyclic_binding_refused:
  "Resolve_bindings (demo_ref ''self'' ''loop'') demo_sources = Inl (ErrOther ''cyclic self binding'')"
  by code_simp

end
