(* ===== verification/Termination_Policy.thy ===== *)
theory Termination_Policy
  imports Omni_Prelude
begin

section \<open>Termination policies: internal/system\_g/termination\<close>

text \<open>
  The well-founded backstop of a loop. A policy looks at the loop's progress and at the clock, so
  its \<open>Stop\<close> takes the instant \<open>time.Now\<close> returned; a spec is the same as data, decided
  well-founded before the loop runs. Instants and durations are integers (nanoseconds).
\<close>

record Progress =
  pr_Round :: int
  pr_Emitted :: int

datatype TerminationPolicy =
    maxIterations int
  | budget int
  | deadline int
  | any_policy "TerminationPolicy list"
  | all_policy "TerminationPolicy list"

fun Stop :: "TerminationPolicy \<Rightarrow> int \<Rightarrow> Progress \<Rightarrow> bool" where
  "Stop (maxIterations n) now p \<longleftrightarrow> pr_Round p \<ge> n"
| "Stop (budget n) now p \<longleftrightarrow> pr_Emitted p \<ge> n"
| "Stop (deadline at) now p \<longleftrightarrow> now > at"
| "Stop (any_policy ps) now p \<longleftrightarrow> (\<exists>x\<in>set ps. Stop x now p)"
| "Stop (all_policy ps) now p \<longleftrightarrow> (\<forall>x\<in>set ps. Stop x now p) \<and> length ps > 0"

definition NewDeadline :: "int \<Rightarrow> int \<Rightarrow> TerminationPolicy" where
  "NewDeadline now d = deadline (now + d)"

datatype TerminationSpec =
    rounds int
  | records int
  | within int
  | anyOf "TerminationSpec list"
  | allOf "TerminationSpec list"

fun WellFounded :: "TerminationSpec \<Rightarrow> err option" where
  "WellFounded (rounds n) = (if n < 1 then Some (ErrOther ''rounds bounds nothing'') else None)"
| "WellFounded (records n) = (if n < 1 then Some (ErrOther ''records bounds nothing'') else None)"
| "WellFounded (within d) = (if d \<le> 0 then Some (ErrOther ''within bounds nothing'') else None)"
| "WellFounded (anyOf specs) = (if \<exists>s\<in>set specs. WellFounded s = None then None
     else if specs = [] then Some (ErrOther ''any of nothing bounds nothing'')
     else Some (ErrOther ''none of the alternatives bounds the loop''))"
| "WellFounded (allOf specs) = (if specs = [] then Some (ErrOther ''all of nothing bounds nothing'')
     else if \<exists>s\<in>set specs. WellFounded s \<noteq> None then Some (ErrOther ''every condition must bound the loop'')
     else None)"

fun Policy :: "TerminationSpec \<Rightarrow> int \<Rightarrow> TerminationPolicy" where
  "Policy (rounds n) start = maxIterations n"
| "Policy (records n) start = budget n"
| "Policy (within d) start = deadline (start + d)"
| "Policy (anyOf specs) start = any_policy (map (\<lambda>s. Policy s start) (filter (\<lambda>s. WellFounded s = None) specs))"
| "Policy (allOf specs) start = all_policy (map (\<lambda>s. Policy s start) specs)"

subsection \<open>A well-founded spec stops every loop that makes progress\<close>

definition beyond :: "int \<Rightarrow> int \<Rightarrow> int \<Rightarrow> Progress \<Rightarrow> bool" where
  "beyond start b now p \<longleftrightarrow> pr_Round p \<ge> b \<and> pr_Emitted p \<ge> b \<and> now > start + b"

lemma beyond_mono: "beyond start b now p \<Longrightarrow> b' \<le> b \<Longrightarrow> beyond start b' now p"
  by (auto simp: beyond_def)

lemma uniform_bound:
  assumes "\<forall>s\<in>set ss. \<exists>b. \<forall>now p. beyond start b now p \<longrightarrow> Q s now p"
  shows "\<exists>b. \<forall>s\<in>set ss. \<forall>now p. beyond start b now p \<longrightarrow> Q s now p"
  using assms
proof (induction ss)
  case (Cons s ss)
  then obtain b b' where b: "\<forall>now p. beyond start b now p \<longrightarrow> Q s now p"
    and b': "\<forall>s\<in>set ss. \<forall>now p. beyond start b' now p \<longrightarrow> Q s now p" by auto
  show ?case
    by (rule exI[of _ "max b b'"]) (use b b' beyond_mono[of start "max b b'"] in auto)
qed simp

lemma spec_stops: "WellFounded spec = None \<Longrightarrow> \<exists>b. \<forall>now p. beyond start b now p \<longrightarrow> Stop (Policy spec start) now p"
proof (induction spec)
  case (rounds n)
  show ?case by (rule exI[of _ n]) (simp add: beyond_def)
next
  case (records n)
  show ?case by (rule exI[of _ n]) (simp add: beyond_def)
next
  case (within d)
  show ?case by (rule exI[of _ d]) (simp add: beyond_def)
next
  case (anyOf specs)
  then obtain s where s: "s \<in> set specs" "WellFounded s = None" by (auto split: if_splits)
  with anyOf.IH obtain b where "\<forall>now p. beyond start b now p \<longrightarrow> Stop (Policy s start) now p" by blast
  with s show ?case by (intro exI[of _ b]) auto
next
  case (allOf specs)
  then have "specs \<noteq> []" "\<forall>s\<in>set specs. \<exists>b. \<forall>now p. beyond start b now p \<longrightarrow> Stop (Policy s start) now p"
    by (auto split: if_splits)
  with uniform_bound[of specs start "\<lambda>s. Stop (Policy s start)"] obtain b where
    "\<forall>s\<in>set specs. \<forall>now p. beyond start b now p \<longrightarrow> Stop (Policy s start) now p" by blast
  with \<open>specs \<noteq> []\<close> show ?case by (intro exI[of _ b]) simp
qed

text \<open>A spec that is well-founded does not stop a loop before its first round.\<close>

lemma spec_starts:
  "WellFounded spec = None \<Longrightarrow> pr_Round p \<le> 0 \<Longrightarrow> pr_Emitted p \<le> 0 \<Longrightarrow> now \<le> start \<Longrightarrow>
   \<not> Stop (Policy spec start) now p"
proof (induction spec)
  case (anyOf specs)
  then show ?case by auto
next
  case (allOf specs)
  then obtain s ss where "specs = s # ss" by (cases specs) auto
  with allOf show ?case by (auto split: if_splits)
qed (auto split: if_splits)

text \<open>A spec accepted as well-founded stops every loop that makes progress and lets every loop
  start. There is a bound such that once rounds, emitted records and elapsed time have all passed
  it, the policy stops the loop; and at the start, with nothing done, it does not.\<close>

theorem well_founded_spec_bounds:
  assumes "WellFounded spec = None"
  shows "(\<exists>b. \<forall>now p. pr_Round p \<ge> b \<and> pr_Emitted p \<ge> b \<and> now > start + b \<longrightarrow> Stop (Policy spec start) now p) \<and>
    \<not> Stop (Policy spec start) start \<lparr>pr_Round = 0, pr_Emitted = 0\<rparr>"
  using spec_stops[OF assms, of start] spec_starts[OF assms] by (simp add: beyond_def)

theorem well_founded_spec_bounds_witness:
  "\<exists>b. \<forall>now p. pr_Round p \<ge> b \<and> pr_Emitted p \<ge> b \<and> now > 0 + b \<longrightarrow>
     Stop (Policy (anyOf [rounds 0, allOf [records 5, within 10]]) 0) now p"
  using well_founded_spec_bounds[of "anyOf [rounds 0, allOf [records 5, within 10]]" 0] by simp

end
