(* ===== verification/Scc.thy ===== *)
theory Scc
  imports Termination_Policy
begin

section \<open>Condensed cycles: internal/system\_g/scc\<close>

text \<open>
  The operator that runs a strongly connected component as a semi-naive fixpoint: the seed is the
  first frontier, each round derives records from the frontier, and those whose key was not seen
  become the next one. The seed stream, the round of the cycle, the key and the readers of the
  output buffer are parameters: the seed is what it yields and the error it ends with, the round
  may answer differently each time, and the buffer answers the n-th append. The loop may not end,
  so it runs on fuel; the theorems give enough of it.
\<close>

datatype Reason = Running | Fixpoint | Terminated

datatype append_result = AppendOk | AllReadersClosed | AppendErr err

record 'r scc_result =
  res_out :: "'r list"
  res_err :: "err option"
  res_reason :: Reason
  res_iterations :: nat

text \<open>Publish the records of a batch that are new; stop where the buffer refuses one.\<close>

fun take_new :: "('r \<Rightarrow> string) \<Rightarrow> (nat \<Rightarrow> append_result) \<Rightarrow> 'r list \<Rightarrow> string list \<Rightarrow> 'r list \<Rightarrow> 'r list
    \<Rightarrow> string list \<times> 'r list \<times> 'r list \<times> err option option" where
  "take_new key app [] seen next_f out = (seen, next_f, out, None)"
| "take_new key app (r # rs) seen next_f out =
     (if key r \<in> set seen then take_new key app rs seen next_f out
      else (case app (length out) of
          AppendOk \<Rightarrow> take_new key app rs (key r # seen) (next_f @ [r]) (out @ [r])
        | AllReadersClosed \<Rightarrow> (key r # seen, next_f @ [r], out, Some None)
        | AppendErr e \<Rightarrow> (key r # seen, next_f @ [r], out, Some (Some e))))"

definition scc_stops :: "TerminationPolicy option \<Rightarrow> int \<Rightarrow> nat \<Rightarrow> nat \<Rightarrow> bool" where
  "scc_stops policy now it emitted = (case policy of None \<Rightarrow> False
     | Some p \<Rightarrow> Stop p now \<lparr>pr_Round = int it, pr_Emitted = int emitted\<rparr>)"

fun scc_loop :: "nat \<Rightarrow> TerminationPolicy option \<Rightarrow> (nat \<Rightarrow> int) \<Rightarrow> (nat \<Rightarrow> 'r list \<Rightarrow> 'r list result) \<Rightarrow> ('r \<Rightarrow> string)
    \<Rightarrow> (nat \<Rightarrow> append_result) \<Rightarrow> nat \<Rightarrow> string list \<Rightarrow> 'r list \<Rightarrow> 'r list \<Rightarrow> 'r scc_result option" where
  "scc_loop 0 policy clock step key app it seen frontier out = None"
| "scc_loop (Suc fuel) policy clock step key app it seen frontier out =
     (if frontier = [] then Some \<lparr>res_out = out, res_err = None, res_reason = Fixpoint, res_iterations = it\<rparr>
      else if scc_stops policy (clock it) it (length out)
      then Some \<lparr>res_out = out, res_err = None, res_reason = Terminated, res_iterations = it\<rparr>
      else (case step it frontier of
          Inl e \<Rightarrow> Some \<lparr>res_out = out, res_err = Some e, res_reason = Running, res_iterations = Suc it\<rparr>
        | Inr derived \<Rightarrow> (case take_new key app derived seen [] out of
            (seen', next_f, out', Some ce) \<Rightarrow>
              Some \<lparr>res_out = out', res_err = ce, res_reason = Running, res_iterations = Suc it\<rparr>
          | (seen', next_f, out', None) \<Rightarrow>
              if next_f = [] then Some \<lparr>res_out = out', res_err = None, res_reason = Fixpoint, res_iterations = Suc it\<rparr>
              else scc_loop fuel policy clock step key app (Suc it) seen' next_f out')))"

definition scc_Open :: "nat \<Rightarrow> TerminationPolicy option \<Rightarrow> (nat \<Rightarrow> int) \<Rightarrow> (nat \<Rightarrow> 'r list \<Rightarrow> 'r list result) \<Rightarrow> ('r \<Rightarrow> string)
    \<Rightarrow> (nat \<Rightarrow> append_result) \<Rightarrow> 'r list \<times> err option \<Rightarrow> 'r scc_result option" where
  "scc_Open fuel policy clock step key app seed = (case take_new key app (fst seed) [] [] [] of
     (seen, frontier, out, Some ce) \<Rightarrow>
       Some \<lparr>res_out = out, res_err = ce, res_reason = Running, res_iterations = 0\<rparr>
   | (seen, frontier, out, None) \<Rightarrow> (case snd seed of
       Some e \<Rightarrow> Some \<lparr>res_out = out, res_err = Some e, res_reason = Running, res_iterations = 0\<rparr>
     | None \<Rightarrow> scc_loop fuel policy clock step key app 0 seen frontier out))"

subsection \<open>One batch\<close>

lemma take_new_ok:
  assumes "take_new key app rs seen nf out = (seen', nf', out', None)"
  shows "\<exists>new. nf' = nf @ new \<and> out' = out @ new \<and> set seen' = set seen \<union> key ` set new \<and>
    set new \<subseteq> set rs \<and> key ` set rs \<subseteq> set seen' \<and> distinct (map key new) \<and> key ` set new \<inter> set seen = {} \<and>
    (new = [] \<longrightarrow> seen' = seen)"
  using assms
proof (induction rs arbitrary: seen nf out)
  case (Cons r rs)
  show ?case
  proof (cases "key r \<in> set seen")
    case True
    with Cons.prems have "take_new key app rs seen nf out = (seen', nf', out', None)" by simp
    from Cons.IH[OF this] obtain new where n: "nf' = nf @ new" "out' = out @ new" "set seen' = set seen \<union> key ` set new"
      "set new \<subseteq> set rs" "key ` set rs \<subseteq> set seen'" "distinct (map key new)" "key ` set new \<inter> set seen = {}"
      "new = [] \<longrightarrow> seen' = seen" by (elim exE conjE)
    from True n(3-5) have "set new \<subseteq> set (r # rs)" "key ` set (r # rs) \<subseteq> set seen'" by auto
    with n show ?thesis by (intro exI[of _ new] conjI)
  next
    case False
    with Cons.prems have "take_new key app rs (key r # seen) (nf @ [r]) (out @ [r]) = (seen', nf', out', None)"
      by (simp split: append_result.splits)
    from Cons.IH[OF this] obtain new where "nf' = (nf @ [r]) @ new" "out' = (out @ [r]) @ new"
      "set seen' = set (key r # seen) \<union> key ` set new" "set new \<subseteq> set rs" "key ` set rs \<subseteq> set seen'"
      "distinct (map key new)" "key ` set new \<inter> set (key r # seen) = {}" "new = [] \<longrightarrow> seen' = key r # seen"
      by (elim exE conjE)
    note n = this
    have "key ` set (r # new) \<inter> set seen = {}" "distinct (map key (r # new))" using n(6,7) False by auto
    moreover have "nf' = nf @ r # new" "out' = out @ r # new" "set seen' = set seen \<union> key ` set (r # new)"
      "set (r # new) \<subseteq> set (r # rs)" "key ` set (r # rs) \<subseteq> set seen'" using n(1-5) by auto
    ultimately show ?thesis by (intro exI[of _ "r # new"] conjI) simp_all
  qed
qed simp

lemma take_new_batch:
  assumes "take_new key app rs seen [] out = (seen', nf, out', None)"
  shows "out' = out @ nf" "set seen' = set seen \<union> key ` set nf" "set nf \<subseteq> set rs" "key ` set rs \<subseteq> set seen'"
    "distinct (map key nf)" "key ` set nf \<inter> set seen = {}"
  using take_new_ok[OF assms] by (elim exE conjE, simp only: append_Nil)+

subsection \<open>Termination\<close>

text \<open>While the loop goes on, every round has published at least one record.\<close>

lemma scc_loop_terminates:
  assumes stop: "\<forall>it n. it \<ge> b \<longrightarrow> n \<ge> b \<longrightarrow> scc_stops policy (clock it) it n"
  shows "length out \<ge> it \<Longrightarrow> \<exists>res. scc_loop (Suc (b - it)) policy clock step key app it seen frontier out = Some res"
proof (induction "b - it" arbitrary: it seen frontier out)
  case 0
  then have "scc_stops policy (clock it) it (length out)" using stop by simp
  then show ?case using 0 by simp
next
  case (Suc n)
  show ?case
  proof (cases "frontier = [] \<or> scc_stops policy (clock it) it (length out)")
    case False
    then have nt: "frontier \<noteq> []" "\<not> scc_stops policy (clock it) it (length out)" by auto
    show ?thesis
    proof (cases "step it frontier")
      case (Inr derived)
      obtain seen' nf out' st where tn: "take_new key app derived seen [] out = (seen', nf, out', st)"
        by (metis prod_cases4)
      show ?thesis
      proof (cases st)
        case None
        note out' = take_new_batch(1)[OF tn[unfolded None]]
        show ?thesis
        proof (cases "nf = []")
          case False
          then have "length out' \<ge> Suc it" using out' Suc.prems by (cases nf) auto
          moreover have "n = b - Suc it" using Suc.hyps(2) by simp
          ultimately obtain res where "scc_loop (Suc (b - Suc it)) policy clock step key app (Suc it) seen' nf out' = Some res"
            using Suc.hyps(1) by blast
          moreover have "b - it = Suc (b - Suc it)" using Suc.hyps(2) by simp
          ultimately show ?thesis using nt Inr tn None False by simp
        qed (use nt Inr tn None in simp)
      qed (use nt Inr tn in simp)
    qed (use nt in simp)
  qed auto
qed

lemma scc_ends:
  assumes "WellFounded spec = None" "\<forall>t. \<exists>i. \<forall>j\<ge>i. clock j > (t :: int)"
  shows "\<exists>fuel res. scc_Open fuel (Some (Policy spec start)) clock step key app seed = Some res"
proof -
  from spec_stops[OF assms(1), of start] obtain b where
    b: "\<forall>now p. beyond start b now p \<longrightarrow> Stop (Policy spec start) now p" by blast
  from assms(2) obtain i where i: "\<forall>j\<ge>i. clock j > start + b" by blast
  let ?b = "max (nat b) i"
  have "scc_stops (Some (Policy spec start)) (clock it) it n" if "it \<ge> ?b" "n \<ge> ?b" for it n
  proof -
    have "beyond start b (clock it) \<lparr>pr_Round = int it, pr_Emitted = int n\<rparr>"
      using that i by (simp add: beyond_def) linarith
    with b show ?thesis by (simp add: scc_stops_def)
  qed
  then have stop: "\<forall>it n. it \<ge> ?b \<longrightarrow> n \<ge> ?b \<longrightarrow> scc_stops (Some (Policy spec start)) (clock it) it n" by blast
  obtain seen nf out st where tn: "take_new key app (fst seed) [] [] [] = (seen, nf, out, st)" by (metis prod_cases4)
  show ?thesis
  proof (cases "st = None \<and> snd seed = None")
    case True
    from scc_loop_terminates[OF stop, of 0 out step key app seen nf] obtain res where
      "scc_loop (Suc (?b - 0)) (Some (Policy spec start)) clock step key app 0 seen nf out = Some res" by auto
    then have "scc_Open (Suc (?b - 0)) (Some (Policy spec start)) clock step key app seed = Some res"
      using True tn by (simp add: scc_Open_def del: scc_loop.simps)
    then show ?thesis by blast
  next
    case False
    with tn show ?thesis by (cases st; cases "snd seed") (auto simp: scc_Open_def)
  qed
qed

text \<open>The fixpoint loop ends whenever its termination spec is well-founded and the clock goes on:
  with enough fuel it delivers a result, whatever the seed, the rounds and the readers do, and
  however many records there are to derive.\<close>

theorem scc_terminates:
  assumes "WellFounded spec = None" "\<forall>t. \<exists>i. \<forall>j\<ge>i. clock j > (t :: int)"
  shows "\<exists>fuel res. scc_Open fuel (Some (Policy spec start)) clock step key app seed = Some res"
  by (rule scc_ends[OF assms])

theorem scc_terminates_witness:
  "\<exists>fuel res. scc_Open fuel (Some (Policy (rounds 3) 0)) int (\<lambda>i fr. Inr (map (\<lambda>r. CHR ''a'' # r) fr)) id
     (\<lambda>_. AppendOk) ([''a''], None) = Some res"
proof -
  have "\<exists>i. \<forall>j\<ge>i. int j > t" for t by (rule exI[of _ "nat t + 1"]) auto
  then show ?thesis by (intro scc_terminates) auto
qed

subsection \<open>The closure\<close>

text \<open>
  The cycle as a relation on keys: one round derives from each record of the frontier its children,
  and records with one key have children with the same keys.
\<close>

definition expands :: "('r \<Rightarrow> string) \<Rightarrow> ('r \<Rightarrow> 'r list) \<Rightarrow> string \<Rightarrow> string \<Rightarrow> bool" where
  "expands key children k k' \<longleftrightarrow> (\<exists>r. key r = k \<and> k' \<in> key ` set (children r))"

definition reach :: "('r \<Rightarrow> string) \<Rightarrow> ('r \<Rightarrow> 'r list) \<Rightarrow> 'r list \<Rightarrow> string set" where
  "reach key children seeds = {k. \<exists>r\<in>set seeds. (expands key children)\<^sup>*\<^sup>* (key r) k}"

definition coherent :: "('r \<Rightarrow> string) \<Rightarrow> ('r \<Rightarrow> 'r list) \<Rightarrow> bool" where
  "coherent key children \<longleftrightarrow> (\<forall>r r'. key r = key r' \<longrightarrow> key ` set (children r) = key ` set (children r'))"

definition scc_inv :: "('r \<Rightarrow> string) \<Rightarrow> ('r \<Rightarrow> 'r list) \<Rightarrow> 'r list \<Rightarrow> string list \<Rightarrow> 'r list \<Rightarrow> 'r list \<Rightarrow> bool" where
  "scc_inv key children seeds seen frontier out \<longleftrightarrow>
     set seen = key ` set out \<and> distinct (map key out) \<and> set frontier \<subseteq> set out \<and> key ` set seeds \<subseteq> set seen \<and>
     set seen \<subseteq> reach key children seeds \<and>
     (\<forall>r\<in>set out. r \<notin> set frontier \<longrightarrow> key ` set (children r) \<subseteq> set seen)"

definition closed :: "('r \<Rightarrow> string) \<Rightarrow> ('r \<Rightarrow> 'r list) \<Rightarrow> 'r list \<Rightarrow> bool" where
  "closed key children out \<longleftrightarrow> (\<forall>r\<in>set out. key ` set (children r) \<subseteq> key ` set out)"

lemma reach_step: "k \<in> reach key children seeds \<Longrightarrow> key r = k \<Longrightarrow> k' \<in> key ` set (children r) \<Longrightarrow> k' \<in> reach key children seeds"
  unfolding reach_def expands_def by (blast intro: rtranclp.rtrancl_into_rtrancl)

text \<open>A round answers with the children of its frontier, in whatever order they were derived.\<close>

definition derives :: "(nat \<Rightarrow> 'r list \<Rightarrow> 'r list result) \<Rightarrow> ('r \<Rightarrow> 'r list) \<Rightarrow> bool" where
  "derives step children \<longleftrightarrow> (\<forall>it fr ds. step it fr = Inr ds \<longrightarrow> set ds = set (concat (map children fr)))"

lemma scc_inv_round:
  assumes inv: "scc_inv key children seeds seen frontier out" and ds: "set ds = set (concat (map children frontier))"
    and tn: "take_new key app ds seen [] out = (seen', nf, out', None)"
  shows "scc_inv key children seeds seen' nf out'" "nf = [] \<Longrightarrow> closed key children out' \<and> out' = out"
proof -
  note n = take_new_batch[OF tn]
  have reach_nf: "key ` set nf \<subseteq> reach key children seeds"
  proof
    fix k assume "k \<in> key ` set nf"
    with n(3) ds obtain r where "r \<in> set frontier" "k \<in> key ` set (children r)" by auto
    moreover from this(1) inv have "key r \<in> reach key children seeds"
      unfolding scc_inv_def by (metis image_eqI subsetD)
    ultimately show "k \<in> reach key children seeds" by (blast intro: reach_step)
  qed
  have done_old: "key ` set (children r) \<subseteq> set seen'" if "r \<in> set out" for r
  proof (cases "r \<in> set frontier")
    case True
    then have "key ` set (children r) \<subseteq> key ` set ds" using ds by auto
    with n(4) show ?thesis by blast
  next
    case False
    with inv that have "key ` set (children r) \<subseteq> set seen" unfolding scc_inv_def by blast
    with n(2) show ?thesis by blast
  qed
  have d: "distinct (map key out')" "set seen' = key ` set out'"
    using inv n by (auto simp: scc_inv_def)
  show "scc_inv key children seeds seen' nf out'"
    unfolding scc_inv_def
  proof (intro conjI ballI impI)
    from inv have i: "key ` set seeds \<subseteq> set seen \<and> set seen \<subseteq> reach key children seeds"
      unfolding scc_inv_def by (elim conjE, intro conjI)
    then show "key ` set seeds \<subseteq> set seen'" using n(2) by blast
    from i reach_nf show "set seen' \<subseteq> reach key children seeds" unfolding n(2) by blast
    show "key ` set (children r) \<subseteq> set seen'" if "r \<in> set out'" "r \<notin> set nf" for r
      using that n(1) by (intro done_old) simp
  qed (use d n(1) in simp_all)
  show "closed key children out' \<and> out' = out" if "nf = []"
    using done_old d(2) n(1) that by (simp add: closed_def)
qed

lemma scc_loop_closure:
  assumes "scc_inv key children seeds seen frontier out"
    and d: "derives step children" and "scc_loop fuel policy clock step key app it seen frontier out = Some res"
    and "res_reason res = Fixpoint"
  shows "distinct (map key (res_out res)) \<and> key ` set seeds \<subseteq> key ` set (res_out res) \<and>
    key ` set (res_out res) \<subseteq> reach key children seeds \<and> closed key children (res_out res) \<and> res_err res = None"
  using assms(1,3,4)
proof (induction fuel arbitrary: it seen frontier out)
  case (Suc fuel)
  show ?case
  proof (cases "frontier = []")
    case True
    with Suc.prems have "res = \<lparr>res_out = out, res_err = None, res_reason = Fixpoint, res_iterations = it\<rparr>" by auto
    with Suc.prems(1) True show ?thesis by (simp add: scc_inv_def closed_def) metis
  next
    case False
    then have ns: "\<not> scc_stops policy (clock it) it (length out)"
      using Suc.prems(2,3) by (auto split: if_splits)
    obtain ds where sd: "step it frontier = Inr ds"
      using Suc.prems(2,3) False ns by (cases "step it frontier") auto
    then have set_ds: "set ds = set (concat (map children frontier))" using d by (simp add: derives_def)
    obtain seen' nf out' st where tn: "take_new key app ds seen [] out = (seen', nf, out', st)"
      by (metis prod_cases4)
    have st: "st = None" using Suc.prems(2,3) False ns sd tn by (cases st) auto
    note inv = scc_inv_round[OF Suc.prems(1) set_ds tn[unfolded st]]
    show ?thesis
    proof (cases "nf = []")
      case True
      with Suc.prems(2) False ns sd tn st have res: "res_out res = out'" "res_err res = None" by auto
      from inv(2)[OF True] inv(1) res show ?thesis by (auto simp: scc_inv_def)
    next
      case nf: False
      with Suc.prems(2) False ns sd tn st
      have "scc_loop fuel policy clock step key app (Suc it) seen' nf out' = Some res"
        by simp
      from Suc.IH[OF inv(1) this Suc.prems(3)] show ?thesis .
    qed
  qed
qed simp

text \<open>Whatever way the loop ends, it has emitted nothing but seeds and what rounds derive from them.\<close>

lemma take_new_sub: "take_new key app rs seen nf out = (seen', nf', out', st) \<Longrightarrow> set rs \<subseteq> R \<Longrightarrow> set nf \<union> set out \<subseteq> R \<Longrightarrow> set nf' \<union> set out' \<subseteq> R"
  by (induction rs arbitrary: seen nf out) (auto split: if_splits append_result.splits)

lemma scc_loop_sound:
  assumes "derives step children" "\<And>r. r \<in> R \<Longrightarrow> set (children r) \<subseteq> R"
  shows "scc_loop fuel policy clock step key app it seen frontier out = Some res \<Longrightarrow> set frontier \<union> set out \<subseteq> R \<Longrightarrow> set (res_out res) \<subseteq> R"
proof (induction fuel arbitrary: it seen frontier out)
  case (Suc fuel)
  show ?case
  proof (cases "frontier = [] \<or> scc_stops policy (clock it) it (length out)")
    case True
    with Suc.prems show ?thesis by (auto split: if_splits)
  next
    case False
    show ?thesis
    proof (cases "step it frontier")
      case (Inl e)
      with False Suc.prems show ?thesis by auto
    next
      case (Inr ds)
      then have "set ds = (\<Union>r\<in>set frontier. set (children r))" using assms(1) by (simp add: derives_def)
      moreover have "(\<Union>r\<in>set frontier. set (children r)) \<subseteq> R"
        by (rule UN_least) (rule assms(2), use Suc.prems(2) in blast)
      ultimately have "set ds \<subseteq> R" by simp
      obtain seen' nf out' st where tn: "take_new key app ds seen [] out = (seen', nf, out', st)" by (metis prod_cases4)
      have sub: "set nf \<union> set out' \<subseteq> R" by (rule take_new_sub[OF tn \<open>set ds \<subseteq> R\<close>]) (use Suc.prems(2) in simp)
      show ?thesis
      proof (cases "st = None \<and> nf \<noteq> []")
        case True
        with False Inr tn Suc.prems(1) have "scc_loop fuel policy clock step key app (Suc it) seen' nf out' = Some res" by simp
        from Suc.IH[OF this sub] show ?thesis .
      next
        case over: False
        then have "res_out res = out'" using False Inr tn Suc.prems(1) by (cases st) auto
        with sub show ?thesis by simp
      qed
    qed
  qed
qed simp

lemma scc_sound:
  assumes "derives step children" "\<And>r. r \<in> R \<Longrightarrow> set (children r) \<subseteq> R" "set (fst seed) \<subseteq> R"
    and "scc_Open fuel policy clock step key app seed = Some res"
  shows "set (res_out res) \<subseteq> R"
proof -
  obtain seen nf out st where tn: "take_new key app (fst seed) [] [] [] = (seen, nf, out, st)" by (metis prod_cases4)
  have sub: "set nf \<union> set out \<subseteq> R" by (rule take_new_sub[OF tn assms(3)]) simp
  show ?thesis
  proof (cases "st = None \<and> snd seed = None")
    case True
    then have "scc_loop fuel policy clock step key app 0 seen nf out = Some res" using assms(4) tn by (simp add: scc_Open_def)
    from scc_loop_sound[OF assms(1,2) this sub] show ?thesis .
  next
    case False
    then have "res_out res = out" using assms(4) tn by (cases st; cases "snd seed") (auto simp: scc_Open_def)
    with sub show ?thesis by simp
  qed
qed

lemma closed_reach:
  assumes "coherent key children" "closed key children out" "key ` set seeds \<subseteq> key ` set out"
  shows "reach key children seeds \<subseteq> key ` set out"
proof
  fix k assume "k \<in> reach key children seeds"
  then obtain r where r: "r \<in> set seeds" "(expands key children)\<^sup>*\<^sup>* (key r) k" by (auto simp: reach_def)
  from r(2) show "k \<in> key ` set out"
  proof (induction rule: rtranclp_induct)
    case base
    with r(1) assms(3) show ?case by auto
  next
    case (step y z)
    then obtain r' where r': "key r' = y" "z \<in> key ` set (children r')" by (auto simp: expands_def)
    from step(3) obtain o' where o': "o' \<in> set out" "key o' = y" by auto
    with assms(1) r' have "z \<in> key ` set (children o')" unfolding coherent_def by metis
    with assms(2) o'(1) show ?case by (auto simp: closed_def)
  qed
qed

lemma scc_fixpoint:
  assumes "derives step children"
    and "scc_Open fuel policy clock step key app (seeds, None) = Some res"
    and "res_reason res = Fixpoint"
  shows "distinct (map key (res_out res)) \<and> key ` set seeds \<subseteq> key ` set (res_out res) \<and>
    key ` set (res_out res) \<subseteq> reach key children seeds \<and> closed key children (res_out res) \<and> res_err res = None"
proof -
  obtain seen nf out st where tn: "take_new key app seeds [] [] [] = (seen, nf, out, st)" by (metis prod_cases4)
  have st: "st = None" using assms(2,3) tn by (cases st) (auto simp: scc_Open_def)
  note b = take_new_batch[OF tn[unfolded st]]
  have n: "nf = out" "set seen = key ` set out" "set out \<subseteq> set seeds" "key ` set seeds \<subseteq> set seen" "distinct (map key out)"
    using b by simp_all
  have "key ` set seeds \<subseteq> reach key children seeds" by (auto simp: reach_def)
  then have "key ` set out \<subseteq> reach key children seeds" using image_mono[OF n(3), of key] by (rule subset_trans[rotated])
  with n have inv: "scc_inv key children seeds seen nf out"
    unfolding scc_inv_def by simp
  from assms(2) tn st have "scc_loop fuel policy clock step key app 0 seen nf out = Some res"
    by (simp add: scc_Open_def)
  from scc_loop_closure[OF inv assms(1) this assms(3)] show ?thesis .
qed

subsection \<open>The records reached\<close>

text \<open>The records a loop can reach from its seeds, and that a fixpoint emits exactly those where keys tell
  them apart.\<close>

inductive_set reached :: "('r \<Rightarrow> 'r list) \<Rightarrow> 'r list \<Rightarrow> 'r set" for children seeds where
  seed: "r \<in> set seeds \<Longrightarrow> r \<in> reached children seeds"
| child: "r \<in> reached children seeds \<Longrightarrow> r' \<in> set (children r) \<Longrightarrow> r' \<in> reached children seeds"

lemma scc_emits_reached:
  assumes d: "derives step children" and key: "inj_on key (reached children seeds)"
    and run: "scc_Open fuel policy clock step key app (seeds, None) = Some res" and fp: "res_reason res = Fixpoint"
  shows "set (res_out res) = reached children seeds" "distinct (res_out res)" "res_err res = None"
proof -
  note f = scc_fixpoint[OF d run fp]
  have sub: "set (res_out res) \<subseteq> reached children seeds"
    by (rule scc_sound[OF d _ _ run]) (auto intro: reached.intros)
  have "r \<in> set (res_out res)" if "r \<in> reached children seeds" for r
    using that
  proof induction
    case (seed r)
    then have "key r \<in> key ` set (res_out res)" using f by blast
    then show ?case using sub key reached.seed[OF seed] by (meson inj_on_image_mem_iff)
  next
    case (child r r')
    then have "key r' \<in> key ` set (res_out res)" using f unfolding closed_def by blast
    then show ?case using sub key reached.child[OF child(1,2)] by (meson inj_on_image_mem_iff)
  qed
  then show "set (res_out res) = reached children seeds" using sub by blast
  show "distinct (res_out res)" "res_err res = None" using f distinct_map by blast+
qed

text \<open>The fixpoint is the closure. Where a round derives the children of each record of its
  frontier, in whatever order, and the loop stops because a round added nothing, it has emitted exactly the keys
  reachable from the seed, each once, and ends without an error: the cut-off of the data-flow cycle
  by already seen keys loses nothing.\<close>

theorem scc_computes_closure:
  assumes "coherent key children" "derives step children"
    and "scc_Open fuel policy clock step key app (seeds, None) = Some res"
    and "res_reason res = Fixpoint"
  shows "key ` set (res_out res) = reach key children seeds \<and> distinct (map key (res_out res)) \<and> res_err res = None"
proof -
  note f = scc_fixpoint[OF assms(2,3,4)]
  then have "reach key children seeds \<subseteq> key ` set (res_out res)" by (intro closed_reach[OF assms(1)]) blast+
  with f show ?thesis by blast
qed

text \<open>A descent over strings: a name's children drop its last character.\<close>

theorem scc_computes_closure_witness:
  "\<exists>res. scc_Open 5 None int (\<lambda>_ fr. Inr (concat (map (\<lambda>r. [butlast r]) fr))) id (\<lambda>_. AppendOk) ([''ab''], None) = Some res \<and>
     id ` set (res_out res) = reach id (\<lambda>r. [butlast r]) [''ab''] \<and> res_out res = [''ab'', ''a'', []]"
proof -
  let ?o = "scc_Open 5 None int (\<lambda>_ fr. Inr (concat (map (\<lambda>r. [butlast r]) fr))) id (\<lambda>_. AppendOk) ([''ab''], None)"
  let ?r = "\<lparr>res_out = [''ab'', ''a'', []], res_err = None, res_reason = Fixpoint, res_iterations = 3\<rparr>"
  have r: "?o = Some ?r" by code_simp
  have "coherent id (\<lambda>r :: string. [butlast r])" by (simp add: coherent_def)
  moreover have "derives (\<lambda>_ fr. Inr (concat (map (\<lambda>r :: string. [butlast r]) fr))) (\<lambda>r. [butlast r])" by (simp add: derives_def)
  ultimately have "id ` set (res_out ?r) = reach id (\<lambda>r. [butlast r]) [''ab'']" using scc_computes_closure[OF _ _ r] by simp
  with r show ?thesis by (intro exI[of _ ?r]) simp
qed

end
