(* ===== verification/Flow_Control.thy ===== *)
theory Flow_Control
  imports Omni_Prelude
begin

section \<open>Retry, admission and abort: internal/system\_g/retry, admit, abort\<close>

text \<open>
  What bounds the load of a run. Durations and instants are integers in nanoseconds; arithmetic
  on an int64 is wrapped where the code computes in one. The random source is a parameter
  \<open>rnd\<close>, for which \<open>rand.Int64N\<close> documents a value from 0 up to but not including its argument.
\<close>

subsection \<open>Attempts and classification\<close>

datatype attempt_err = DeadlineExceeded | Canceled | TransportErr

record Attempt =
  a_Index :: nat
  a_Status :: int
  a_Err :: "attempt_err option"
  a_RetryAfter :: int
  a_PrevWait :: int

definition Transient :: "int list \<Rightarrow> Attempt \<Rightarrow> bool" where
  "Transient statuses a =
     (if a_Err a = Some DeadlineExceeded \<or> a_Err a = Some Canceled then False
      else if a_Err a \<noteq> None then True
      else a_Status a \<in> set statuses)"

definition DefaultTransient :: "int list" where
  "DefaultTransient = [429, 502, 503, 504]"

subsection \<open>Backoff\<close>

definition normDur :: "int \<Rightarrow> int \<Rightarrow> int" where
  "normDur d def = (if d \<le> 0 then def else d)"

datatype Backoff = fullJitter int int | decorrelatedJitter int int | constant_delay int

definition NewFullJitter :: "int \<Rightarrow> int \<Rightarrow> Backoff" where
  "NewFullJitter base cap = fullJitter (normDur base 250000000) (normDur cap 30000000000)"

definition NewDecorrelatedJitter :: "int \<Rightarrow> int \<Rightarrow> Backoff" where
  "NewDecorrelatedJitter base cap = decorrelatedJitter (normDur base 250000000) (normDur cap 30000000000)"

definition NewConstant :: "int \<Rightarrow> Backoff" where
  "NewConstant d = constant_delay (normDur d 1000000000)"

text \<open>\<open>rand.Int64N\<close> panics (None) on an argument that is not positive.\<close>

definition Int64N :: "(int \<Rightarrow> int) \<Rightarrow> int \<Rightarrow> int option" where
  "Int64N rnd n = (if n \<le> 0 then None else Some (rnd n))"

definition ceiling_of :: "int \<Rightarrow> int \<Rightarrow> nat \<Rightarrow> int" where
  "ceiling_of base cap index = (let c = wrap64 (base * 2 ^ index) in if c \<le> 0 \<or> c > cap then cap else c)"

definition decorrelated_hi :: "int \<Rightarrow> int \<Rightarrow> int \<Rightarrow> int" where
  "decorrelated_hi base cap prev = (let p = (if prev < base then base else prev); hi = wrap64 (p * 3) in
     if hi \<le> 0 \<or> hi > cap then cap else hi)"

fun Delay :: "(int \<Rightarrow> int) \<Rightarrow> Backoff \<Rightarrow> Attempt \<Rightarrow> int option" where
  "Delay rnd (fullJitter base cap) a = Int64N rnd (wrap64 (ceiling_of base cap (a_Index a) + 1))"
| "Delay rnd (decorrelatedJitter base cap) a =
     (let hi = decorrelated_hi base cap (a_PrevWait a) in
      if hi \<le> base then Some base
      else map_option (\<lambda>r. wrap64 (base + r)) (Int64N rnd (wrap64 (hi - base + 1))))"
| "Delay rnd (constant_delay d) a = Some d"

subsection \<open>The governor\<close>

text \<open>The zero time of \<open>next\<close>, before any reservation, is None.\<close>

datatype Governor = unlimited_governor | rateGovernor int int "int option"

fun Reserve :: "Governor \<Rightarrow> int \<Rightarrow> Governor \<times> int \<times> bool" where
  "Reserve unlimited_governor now = (unlimited_governor, 0, True)"
| "Reserve (rateGovernor interval burst nxt) now =
     (let at = (case nxt of None \<Rightarrow> now | Some t \<Rightarrow> if t < now then now else t);
          wait = at - now in
      (rateGovernor interval burst (Some (at + interval)), if wait > burst then burst else wait, True))"

subsection \<open>The policy\<close>

record retry_policy =
  rp_tries :: int
  rp_class :: "int list"
  rp_backoff :: Backoff

record retry_config =
  c_Tries :: int
  c_Classifier :: "int list option"
  c_Backoff :: "Backoff option"
  c_Governor :: "Governor option"

definition retry_New :: "retry_config \<Rightarrow> retry_policy \<times> Governor" where
  "retry_New cfg = (\<lparr>rp_tries = (if c_Tries cfg \<le> 0 then 4 else c_Tries cfg),
      rp_class = (case c_Classifier cfg of None \<Rightarrow> DefaultTransient | Some c \<Rightarrow> c),
      rp_backoff = (case c_Backoff cfg of None \<Rightarrow> NewFullJitter 0 0 | Some b \<Rightarrow> b)\<rparr>,
     case c_Governor cfg of None \<Rightarrow> unlimited_governor | Some g \<Rightarrow> g)"

text \<open>\<open>Override\<close> keeps the parent policy's governor, if there is a parent policy and the
  configuration names no other.\<close>

definition Override :: "(retry_policy \<times> Governor) option \<Rightarrow> retry_config \<Rightarrow> retry_policy \<times> Governor" where
  "Override parent cfg = (case parent of
     Some (_, g) \<Rightarrow> if c_Governor cfg = None then retry_New (cfg\<lparr>c_Governor := Some g\<rparr>) else retry_New cfg
   | None \<Rightarrow> retry_New cfg)"

text \<open>The wait before a retry, or None for no retry; the outer None is a panic of the backoff.\<close>

definition Recover :: "(int \<Rightarrow> int) \<Rightarrow> retry_policy \<Rightarrow> Governor \<Rightarrow> int \<Rightarrow> Attempt \<Rightarrow> (Governor \<times> int option) option" where
  "Recover rnd p gov now a =
     (if int (a_Index a) + 1 \<ge> rp_tries p then Some (gov, None)
      else if \<not> Transient (rp_class p) a then Some (gov, None)
      else (case Reserve gov now of (gov', gwait, ok) \<Rightarrow>
        if \<not> ok then Some (gov', None)
        else if a_RetryAfter a > 0 then Some (gov', Some (wrap64 (a_RetryAfter a + gwait)))
        else map_option (\<lambda>d. (gov', Some (wrap64 (d + gwait)))) (Delay rnd (rp_backoff p) a)))"

subsection \<open>Admission\<close>

text \<open>
  A scope's semaphore counts its used slots, a token remembers whether it was released. An
  acquisition that would block is not a step.
\<close>

record semaphore =
  sem_slots :: nat
  sem_used :: nat

record token =
  tok_key :: string
  tok_released :: bool

record admissions =
  limiters :: "(string, semaphore) gomap"
  tokens :: "token list"

definition NewSemaphore :: "int \<Rightarrow> semaphore" where
  "NewSemaphore n = \<lparr>sem_slots = nat (if n < 1 then 1 else n), sem_used = 0\<rparr>"

definition NewAdmissions :: admissions where
  "NewAdmissions = \<lparr>limiters = [], tokens = []\<rparr>"

definition admit_For :: "int \<Rightarrow> admissions \<Rightarrow> string \<Rightarrow> admissions \<times> semaphore" where
  "admit_For n st key = (case gm_get (limiters st) key of
     Some l \<Rightarrow> (st, l)
   | None \<Rightarrow> (st\<lparr>limiters := gm_set key (NewSemaphore n) (limiters st)\<rparr>, NewSemaphore n))"

definition admit_Acquire :: "int \<Rightarrow> admissions \<Rightarrow> string \<Rightarrow> (admissions \<times> nat) option" where
  "admit_Acquire n st key = (case admit_For n st key of (st1, l) \<Rightarrow>
     if sem_used l < sem_slots l
     then Some (st1\<lparr>limiters := gm_set key (l\<lparr>sem_used := Suc (sem_used l)\<rparr>) (limiters st1),
                 tokens := tokens st1 @ [\<lparr>tok_key = key, tok_released = False\<rparr>]\<rparr>, length (tokens st1))
     else None)"

definition admit_Release :: "admissions \<Rightarrow> nat \<Rightarrow> admissions" where
  "admit_Release st i = (if i \<ge> length (tokens st) \<or> tok_released (tokens st ! i) then st
     else (case gm_get (limiters st) (tok_key (tokens st ! i)) of
         None \<Rightarrow> st
       | Some l \<Rightarrow> st\<lparr>limiters := gm_set (tok_key (tokens st ! i)) (l\<lparr>sem_used := sem_used l - 1\<rparr>) (limiters st),
           tokens := (tokens st)[i := (tokens st ! i)\<lparr>tok_released := True\<rparr>]\<rparr>))"

inductive admit_step :: "int \<Rightarrow> admissions \<Rightarrow> admissions \<Rightarrow> bool" for n where
  step_for: "admit_step n st (fst (admit_For n st key))"
| step_acquire: "admit_Acquire n st key = Some (st', i) \<Longrightarrow> admit_step n st st'"
| step_release: "admit_step n st (admit_Release st i)"

subsection \<open>The result budget\<close>

record Budget =
  b_limit :: int
  b_count :: int

definition Take :: "Budget \<Rightarrow> Budget \<times> bool \<times> bool" where
  "Take b = (let n = wrap64 (b_count b + 1) in (b\<lparr>b_count := n\<rparr>, n \<le> b_limit b, n = b_limit b))"

definition WithLimit :: "int \<Rightarrow> Budget option" where
  "WithLimit n = (if n < 1 then None else Some \<lparr>b_limit = n, b_count = 0\<rparr>)"

fun takes_n :: "nat \<Rightarrow> Budget \<Rightarrow> (bool \<times> bool) list" where
  "takes_n 0 b = []"
| "takes_n (Suc n) b = (case Take b of (b', r) \<Rightarrow> r # takes_n n b')"

subsection \<open>Waits are bounded\<close>

lemma ceiling_of_bounds:
  assumes "0 < base" "0 < cap"
  shows "0 < ceiling_of base cap i \<and> ceiling_of base cap i \<le> cap"
    and "base * 2 ^ i < 2 ^ 63 \<Longrightarrow> ceiling_of base cap i = min cap (base * 2 ^ i)"
proof -
  show "0 < ceiling_of base cap i \<and> ceiling_of base cap i \<le> cap"
    using assms by (auto simp: ceiling_of_def Let_def)
  assume lt: "base * 2 ^ i < 2 ^ 63"
  have pos: "0 < base * 2 ^ i" using assms(1) by simp
  with lt have "wrap64 (base * 2 ^ i) = base * 2 ^ i" by (intro wrap64_id) linarith+
  with pos show "ceiling_of base cap i = min cap (base * 2 ^ i)" by (simp add: ceiling_of_def Let_def min_def)
qed

lemma decorrelated_hi_bounds: "0 < cap \<Longrightarrow> 0 < decorrelated_hi base cap prev \<and> decorrelated_hi base cap prev \<le> cap"
  by (auto simp: decorrelated_hi_def Let_def)

definition fair :: "(int \<Rightarrow> int) \<Rightarrow> bool" where
  "fair rnd \<longleftrightarrow> (\<forall>n>0. 0 \<le> rnd n \<and> rnd n < n)"

lemma Int64N_fair: "fair rnd \<Longrightarrow> 0 < n \<Longrightarrow> \<exists>r. Int64N rnd n = Some r \<and> 0 \<le> r \<and> r < n"
  by (simp add: Int64N_def fair_def)

lemma full_jitter_delay:
  assumes "fair rnd" "0 < base" "0 < cap" "cap < 2 ^ 63 - 1"
  shows "\<exists>d. Delay rnd (fullJitter base cap) a = Some d \<and> 0 \<le> d \<and> d \<le> ceiling_of base cap (a_Index a)"
proof -
  let ?c = "ceiling_of base cap (a_Index a)"
  note c = ceiling_of_bounds(1)[OF assms(2,3), of "a_Index a"]
  have "wrap64 (?c + 1) = ?c + 1" using c assms(4) by (intro wrap64_id) linarith+
  moreover from Int64N_fair[OF assms(1), of "?c + 1"] c obtain r where "Int64N rnd (?c + 1) = Some r" "0 \<le> r" "r < ?c + 1" by auto
  ultimately show ?thesis by simp
qed

lemma decorrelated_delay:
  assumes "fair rnd" "0 < base" "0 < cap" "base < 2 ^ 63" "cap < 2 ^ 63 - 1"
  shows "\<exists>d. Delay rnd (decorrelatedJitter base cap) a = Some d \<and> base \<le> d \<and> d \<le> max base cap"
proof -
  let ?hi = "decorrelated_hi base cap (a_PrevWait a)"
  note hi = decorrelated_hi_bounds[OF assms(3), of base "a_PrevWait a"]
  show ?thesis
  proof (cases "?hi \<le> base")
    case False
    have w: "wrap64 (?hi - base + 1) = ?hi - base + 1" using False hi assms(2,5) by (intro wrap64_id) linarith+
    from Int64N_fair[OF assms(1), of "?hi - base + 1"] False obtain r where
      r: "Int64N rnd (?hi - base + 1) = Some r" "0 \<le> r" "r < ?hi - base + 1" by auto
    have "wrap64 (base + r) = base + r" using r hi assms(2,5) by (intro wrap64_id) linarith+
    with False w r hi show ?thesis by (auto simp: Let_def)
  qed simp
qed


definition third_attempt :: Attempt where
  "third_attempt = \<lparr>a_Index = 3, a_Status = 503, a_Err = None, a_RetryAfter = 0, a_PrevWait = 0\<rparr>"


text \<open>
  The comment on the shift says an overflow is replaced by the cap; an overflow that happens to
  come back as a small positive number is not. With a base of 2^34 + 1 ns (17 s) and the default
  cap of 30 s, the ceiling of the 31st attempt is about one second.
\<close>

lemma ceiling_overflow_undetected: "ceiling_of (2 ^ 34 + 1) 30000000000 30 = 2 ^ 30"
  by (simp add: ceiling_of_def wrap64_def)

subsection \<open>Recovery\<close>

lemma Reserve_ok: "\<exists>g w. Reserve gov now = (g, w, True)"
  by (cases gov) (auto simp: Let_def)

lemma Recover_stops:
  "int (a_Index a) + 1 \<ge> rp_tries p \<or> \<not> Transient (rp_class p) a \<Longrightarrow> Recover rnd p gov now a = Some (gov, None)"
  by (auto simp: Recover_def)

lemma Recover_retries:
  assumes "Recover rnd p gov now a = Some (gov', Some w)"
  shows "int (a_Index a) + 1 < rp_tries p \<and> Transient (rp_class p) a \<and> a_Err a \<noteq> Some Canceled \<and>
    a_Err a \<noteq> Some DeadlineExceeded \<and>
    (\<exists>gw. Reserve gov now = (gov', gw, True) \<and> (a_RetryAfter a > 0 \<longrightarrow> w = wrap64 (a_RetryAfter a + gw)))"
  using assms Reserve_ok[of gov now]
  by (auto simp: Recover_def Transient_def split: if_splits)

text \<open>Overriding an exchange's bounds keeps the run's governor.\<close>

lemma Override_keeps_governor:
  "c_Governor cfg = None \<Longrightarrow> snd (Override (Some (p, g)) cfg) = g"
  by (simp add: Override_def retry_New_def)

text \<open>The retry policy stops. Once the attempts are used up, or the failure is permanent, or the
  run was cancelled or timed out, no retry is granted and no slot of the shared governor is taken;
  a granted retry is always of a transient failure within the attempts, and waits at least as long
  as the server asked.\<close>

theorem recover_correct:
  "(int (a_Index a) + 1 \<ge> rp_tries p \<or> a_Err a \<in> {Some Canceled, Some DeadlineExceeded} \<or>
      a_Err a = None \<and> a_Status a \<notin> set (rp_class p) \<longrightarrow> Recover rnd p gov now a = Some (gov, None)) \<and>
   (\<forall>gov' w. Recover rnd p gov now a = Some (gov', Some w) \<longrightarrow>
      int (a_Index a) + 1 < rp_tries p \<and> Transient (rp_class p) a \<and>
      (\<exists>gw. Reserve gov now = (gov', gw, True) \<and> (a_RetryAfter a > 0 \<longrightarrow> w = wrap64 (a_RetryAfter a + gw))))"
proof (intro conjI allI impI)
  assume "int (a_Index a) + 1 \<ge> rp_tries p \<or> a_Err a \<in> {Some Canceled, Some DeadlineExceeded} \<or>
      a_Err a = None \<and> a_Status a \<notin> set (rp_class p)"
  then have "int (a_Index a) + 1 \<ge> rp_tries p \<or> \<not> Transient (rp_class p) a" by (auto simp: Transient_def)
  then show "Recover rnd p gov now a = Some (gov, None)" by (rule Recover_stops)
qed (use Recover_retries in blast)+

theorem recover_correct_witness:
  "Recover (\<lambda>n. 0) \<lparr>rp_tries = 4, rp_class = DefaultTransient, rp_backoff = constant_delay 5\<rparr> unlimited_governor 0 third_attempt
     = Some (unlimited_governor, None)"
  using recover_correct[where a=third_attempt and p="\<lparr>rp_tries = 4, rp_class = DefaultTransient, rp_backoff = constant_delay 5\<rparr>"
      and rnd="\<lambda>n. 0" and gov=unlimited_governor and now=0]
  by (simp add: third_attempt_def)

text \<open>Reservations made one after another at one instant.\<close>

fun reserve_n :: "nat \<Rightarrow> Governor \<Rightarrow> int \<Rightarrow> int list" where
  "reserve_n 0 g now = []"
| "reserve_n (Suc n) g now = (case Reserve g now of (g', w, _) \<Rightarrow> w # reserve_n n g' now)"

lemma reserve_n_from:
  assumes "0 < interval"
  shows "reserve_n n (rateGovernor interval burst (Some (now + int k * interval))) now
    = map (\<lambda>j. min burst (int (k + j) * interval)) [0..<n]"
proof (induction n arbitrary: k)
  case (Suc n)
  have "now + int k * interval \<ge> now" using assms by simp
  then have "reserve_n (Suc n) (rateGovernor interval burst (Some (now + int k * interval))) now
      = min burst (int k * interval) # reserve_n n (rateGovernor interval burst (Some (now + int (Suc k) * interval))) now"
    by (simp add: Let_def algebra_simps min_def)
  also have "\<dots> = map (\<lambda>j. min burst (int (k + j) * interval)) (0 # map Suc [0..<n])"
    using Suc[of "Suc k"] by (simp add: comp_def add.left_commute)
  also have "0 # map Suc [0..<n] = [0..<Suc n]" by (simp add: map_Suc_upt upt_conv_Cons)
  finally show ?case .
qed simp

text \<open>
  The comment promises that retries across all callers issue at no more than the configured rate.
  The wait handed out is capped at the burst, so callers beyond it are all released at one
  instant: of any number of simultaneous failures, all after the first \<open>burst / interval\<close> wait
  exactly the burst.
\<close>

lemma governor_bunches:
  assumes "0 < interval" "0 < b"
  shows "reserve_n n (rateGovernor interval (int b * interval) None) now
    = map (\<lambda>j. min (int b * interval) (int j * interval)) [0..<n]"
proof (cases n)
  case (Suc m)
  have first: "Reserve (rateGovernor interval (int b * interval) None) now
      = (rateGovernor interval (int b * interval) (Some (now + int 1 * interval)), 0, True)"
    using assms by (simp add: Let_def not_less)
  have "reserve_n n (rateGovernor interval (int b * interval) None) now
      = 0 # map (\<lambda>j. min (int b * interval) (int (1 + j) * interval)) [0..<m]"
    using Suc first reserve_n_from[OF assms(1), of m "int b * interval" now 1] by simp
  also have "\<dots> = map (\<lambda>j. min (int b * interval) (int j * interval)) (0 # map Suc [0..<m])"
    using assms by (simp add: comp_def)
  finally show ?thesis using Suc by (simp add: map_Suc_upt upt_conv_Cons del: upt_Suc)
qed simp

subsection \<open>Admission is bounded\<close>

definition holders :: "admissions \<Rightarrow> string \<Rightarrow> nat" where
  "holders st key = length (filter (\<lambda>t. tok_key t = key \<and> \<not> tok_released t) (tokens st))"

definition admit_inv :: "int \<Rightarrow> admissions \<Rightarrow> bool" where
  "admit_inv n st \<longleftrightarrow> (\<forall>key. case gm_get (limiters st) key of
     None \<Rightarrow> holders st key = 0
   | Some l \<Rightarrow> sem_slots l = nat (max 1 n) \<and> sem_used l = holders st key \<and> sem_used l \<le> sem_slots l)"

lemma admit_For_inv: "admit_inv n st \<Longrightarrow> admit_For n st key = (st1, l) \<Longrightarrow>
    admit_inv n st1 \<and> gm_get (limiters st1) key = Some l \<and> tokens st1 = tokens st"
proof -
  assume inv: "admit_inv n st" and f: "admit_For n st key = (st1, l)"
  show ?thesis
  proof (cases "gm_get (limiters st) key")
    case (Some l')
    with inv f show ?thesis by (auto simp: admit_For_def)
  next
    case None
    have none: "holders st key = 0" using inv[unfolded admit_inv_def, THEN spec, of key] None by simp
    from f None have st1: "st1 = st\<lparr>limiters := gm_set key (NewSemaphore n) (limiters st)\<rparr>" "l = NewSemaphore n"
      by (auto simp: admit_For_def)
    have h: "holders st1 k = holders st k" for k by (simp add: st1 holders_def)
    have "admit_inv n st1" unfolding admit_inv_def
    proof
      fix k
      from inv show "case gm_get (limiters st1) k of None \<Rightarrow> holders st1 k = 0
        | Some l \<Rightarrow> sem_slots l = nat (max 1 n) \<and> sem_used l = holders st1 k \<and> sem_used l \<le> sem_slots l"
        unfolding h admit_inv_def by (cases "k = key") (simp_all add: st1 none NewSemaphore_def max_def)
    qed
    with st1 show ?thesis by simp
  qed
qed

lemma filter_update_length:
  "i < length xs \<Longrightarrow> P (xs ! i) \<Longrightarrow> \<not> P y \<Longrightarrow> Suc (length (filter P (xs[i := y]))) = length (filter P xs)"
proof (induction xs arbitrary: i)
  case (Cons x xs)
  then show ?case by (cases i) auto
qed simp

lemma filter_update_other:
  "i < length xs \<Longrightarrow> \<not> P (xs ! i) \<Longrightarrow> \<not> P y \<Longrightarrow> filter P (xs[i := y]) = filter P xs"
proof (induction xs arbitrary: i)
  case (Cons x xs)
  then show ?case by (cases i) auto
qed simp

lemma admit_Release_inv:
  assumes "admit_inv n st"
  shows "admit_inv n (admit_Release st i)"
proof (cases "i \<ge> length (tokens st) \<or> tok_released (tokens st ! i) \<or> gm_get (limiters st) (tok_key (tokens st ! i)) = None")
  case True
  then show ?thesis using assms by (auto simp: admit_Release_def split: option.split)
next
  case False
  let ?t = "tokens st ! i"
  from False obtain l where l: "gm_get (limiters st) (tok_key ?t) = Some l" and i: "i < length (tokens st)" "\<not> tok_released ?t"
    by auto
  let ?st = "admit_Release st i"
  have st: "?st = st\<lparr>limiters := gm_set (tok_key ?t) (l\<lparr>sem_used := sem_used l - 1\<rparr>) (limiters st),
           tokens := (tokens st)[i := ?t\<lparr>tok_released := True\<rparr>]\<rparr>"
    using l i by (simp add: admit_Release_def)
  have same: "Suc (holders ?st (tok_key ?t)) = holders st (tok_key ?t)"
    unfolding st holders_def using i by (simp add: filter_update_length)
  have other: "holders ?st k = holders st k" if "k \<noteq> tok_key ?t" for k
    unfolding st holders_def using i that by (simp add: filter_update_other)
  show ?thesis unfolding admit_inv_def
  proof
    fix key
    from assms have k: "case gm_get (limiters st) key of None \<Rightarrow> holders st key = 0
      | Some l \<Rightarrow> sem_slots l = nat (max 1 n) \<and> sem_used l = holders st key \<and> sem_used l \<le> sem_slots l"
      unfolding admit_inv_def by blast
    show "case gm_get (limiters ?st) key of None \<Rightarrow> holders ?st key = 0
      | Some l \<Rightarrow> sem_slots l = nat (max 1 n) \<and> sem_used l = holders ?st key \<and> sem_used l \<le> sem_slots l"
    proof (cases "key = tok_key ?t")
      case True
      have lim: "gm_get (limiters ?st) key = Some (l\<lparr>sem_used := sem_used l - 1\<rparr>)" using True by (simp add: st)
      have "sem_slots l = nat (max 1 n)" "sem_used l = holders st key" "sem_used l \<le> sem_slots l"
        using k l True by simp_all
      moreover have "holders ?st key = sem_used l - 1" using same True calculation by simp
      ultimately show ?thesis unfolding lim by simp
    next
      case False
      have lim: "gm_get (limiters ?st) key = gm_get (limiters st) key" using False by (simp add: st)
      show ?thesis unfolding lim other[OF False] by (rule k)
    qed
  qed
qed

lemma admit_Acquire_inv:
  assumes "admit_inv n st" "admit_Acquire n st key = Some (st', i)"
  shows "admit_inv n st'"
proof -
  obtain st1 l where f: "admit_For n st key = (st1, l)" by fastforce
  note f1 = admit_For_inv[OF assms(1) f]
  from assms(2) f have room: "sem_used l < sem_slots l"
    and st': "st' = st1\<lparr>limiters := gm_set key (l\<lparr>sem_used := Suc (sem_used l)\<rparr>) (limiters st1),
                 tokens := tokens st1 @ [\<lparr>tok_key = key, tok_released = False\<rparr>]\<rparr>"
    by (auto simp: admit_Acquire_def split: if_splits)
  have h: "holders st' k = (if k = key then Suc (holders st1 k) else holders st1 k)" for k
    by (simp add: st' holders_def)
  have inv1: "admit_inv n st1" and l: "gm_get (limiters st1) key = Some l" using f1 by simp_all
  show ?thesis unfolding admit_inv_def
  proof
    fix k
    from inv1 have "case gm_get (limiters st1) k of None \<Rightarrow> holders st1 k = 0
      | Some l \<Rightarrow> sem_slots l = nat (max 1 n) \<and> sem_used l = holders st1 k \<and> sem_used l \<le> sem_slots l"
      unfolding admit_inv_def by blast
    then show "case gm_get (limiters st') k of None \<Rightarrow> holders st' k = 0
      | Some l \<Rightarrow> sem_slots l = nat (max 1 n) \<and> sem_used l = holders st' k \<and> sem_used l \<le> sem_slots l"
      unfolding h using l room by (cases "k = key") (simp_all add: st')
  qed
qed

text \<open>C20: admission control bounds concurrency per scope: under any interleaving of lookups,
  acquisitions and releases by any number of callers, repeated releases of one token included, at
  most \<open>n\<close> callers (one, where \<open>n\<close> is less) hold a slot of one scope, and every slot in use has a
  holder, so none is ever lost.\<close>

theorem admission_bound:
  assumes "(admit_step n)\<^sup>*\<^sup>* NewAdmissions st"
  shows "holders st key \<le> nat (max 1 n) \<and>
    (\<forall>l. gm_get (limiters st) key = Some l \<longrightarrow> sem_used l = holders st key)"
proof -
  have "admit_inv n NewAdmissions" by (simp add: admit_inv_def NewAdmissions_def holders_def)
  with assms have "admit_inv n st"
  proof (induction rule: rtranclp_induct)
    case (step y z)
    note inv = step(3)[OF step(4)]
    from step(2) show ?case
    proof cases
      case (step_for key)
      with admit_For_inv[OF inv, of key] show ?thesis by (metis prod.collapse)
    qed (use inv admit_Acquire_inv admit_Release_inv in \<open>auto\<close>)
  qed
  then have "case gm_get (limiters st) key of None \<Rightarrow> holders st key = 0
     | Some l \<Rightarrow> sem_slots l = nat (max 1 n) \<and> sem_used l = holders st key \<and> sem_used l \<le> sem_slots l"
    unfolding admit_inv_def by blast
  then show ?thesis by (auto split: option.splits)
qed

theorem admission_bound_witness:
  "\<exists>st. (admit_step 2)\<^sup>*\<^sup>* NewAdmissions st \<and> holders st ''aws'' = 1 \<and> holders st ''aws'' \<le> 2"
proof -
  obtain st i where a: "admit_Acquire 2 NewAdmissions ''aws'' = Some (st, i)"
    by (simp add: admit_Acquire_def admit_For_def NewAdmissions_def NewSemaphore_def)
  then have h: "holders st ''aws'' = 1"
    by (auto simp: admit_Acquire_def admit_For_def NewAdmissions_def NewSemaphore_def holders_def)
  have s: "(admit_step 2)\<^sup>*\<^sup>* NewAdmissions st" using step_acquire[OF a] by (rule r_into_rtranclp)
  from admission_bound[OF s, of "''aws''"] s h show ?thesis by auto
qed

subsection \<open>The budget is exact\<close>

lemma takes_n_from:
  assumes "b_count b = int c" "int c + int n < 2 ^ 63"
  shows "takes_n n b = map (\<lambda>i. (int i \<le> b_limit b, int i = b_limit b)) [Suc c..<Suc c + n]"
  using assms
proof (induction n arbitrary: b c)
  case (Suc n)
  have w: "wrap64 (int c + 1) = int c + 1" using Suc.prems(2) by (intro wrap64_id) linarith+
  let ?b = "b\<lparr>b_count := int c + 1\<rparr>"
  have "takes_n n ?b = map (\<lambda>i. (int i \<le> b_limit ?b, int i = b_limit ?b)) [Suc (Suc c)..<Suc (Suc c) + n]"
    using Suc.prems(2) by (intro Suc.IH) simp_all
  moreover have "[Suc c..<Suc c + Suc n] = Suc c # [Suc (Suc c)..<Suc (Suc c) + n]" by (subst upt_conv_Cons) simp_all
  ultimately show ?case using Suc.prems(1) w by (simp add: Take_def Let_def add.commute del: upt_Suc)
qed simp

text \<open>A result limit is exact and global: of any number of reservations, in whatever order the
  outputs of a run make them, exactly the first \<open>n\<close> are granted and exactly the n-th is reported as
  the last.\<close>

theorem budget_exact:
  assumes "WithLimit n = Some b" "int m < 2 ^ 63"
  shows "takes_n m b = map (\<lambda>i. (int i \<le> n, int i = n)) [1..<Suc m] \<and>
    length (filter fst (takes_n m b)) = min m (nat n)"
proof -
  from assms(1) have b: "b_count b = int 0" "b_limit b = n" "1 \<le> n" by (auto simp: WithLimit_def split: if_splits)
  have t: "takes_n m b = map (\<lambda>i. (int i \<le> n, int i = n)) [1..<Suc m]"
    using takes_n_from[OF b(1), of m] assms(2) b(2) by (simp del: upt_Suc)
  have "length (filter (\<lambda>i. int i \<le> n) [1..<Suc k]) = min k (nat n)" for k
    by (induction k) auto
  then have "length (filter fst (takes_n m b)) = min m (nat n)"
    unfolding t by (simp add: filter_map comp_def del: upt_Suc)
  with t show ?thesis by simp
qed

theorem budget_exact_witness:
  "takes_n 3 \<lparr>b_limit = 2, b_count = 0\<rparr> = [(True, False), (True, True), (False, False)] \<and>
   length (filter fst (takes_n 3 \<lparr>b_limit = 2, b_count = 0\<rparr>)) = 2"
  using budget_exact[of 2 "\<lparr>b_limit = 2, b_count = 0\<rparr>" 3] by (simp add: WithLimit_def upt_rec)

end
