(* ===== verification/Kahn.thy ===== *)
theory Kahn
  imports Omni_Prelude
begin

section \<open>Kahn's algorithm\<close>

text \<open>
  The loop that the scheduler (schedule.go, \<open>cyclic\<close> and \<open>Run\<close>) and the condensation of a plan
  (cycle.go, \<open>condense\<close>) share: degrees count the dependencies not done yet, and what reaches zero is
  released at the end of the queue. The loop carries fuel, one unit for each vertex. The locale states
  what it needs of a graph; the scheduler's graphs and the condensations are its instances.
\<close>

text \<open>Decrement the degree of each waiting node; those that reach zero are released.\<close>

fun release :: "'a list \<Rightarrow> ('a \<Rightarrow> int) \<Rightarrow> ('a \<Rightarrow> int) \<times> 'a list" where
  "release [] deg = (deg, [])"
| "release (m # ms) deg = (let deg' = deg(m := deg m - 1) in
     (case release ms deg' of (d, new) \<Rightarrow> (d, if deg' m = 0 then m # new else new)))"

text \<open>Kahn's algorithm; the order in which nodes leave the queue, whose length is \<open>seen\<close>.\<close>

fun kahn :: "nat \<Rightarrow> ('a \<Rightarrow> 'a list) \<Rightarrow> ('a \<Rightarrow> int) \<Rightarrow> 'a list \<Rightarrow> 'a list \<Rightarrow> 'a list option" where
  "kahn fuel dependents deg [] visited = Some visited"
| "kahn 0 dependents deg (x # queue) visited = None"
| "kahn (Suc fuel) dependents deg (x # queue) visited = (case release (dependents x) deg of (deg', new) \<Rightarrow>
     kahn fuel dependents deg' (queue @ new) (visited @ [x]))"

subsection \<open>Releasing\<close>

lemma release_deg: "fst (release ms deg) m = deg m - int (count_list ms m)"
proof (induction ms arbitrary: deg)
  case (Cons a ms)
  define dg where "dg = deg(a := deg a - 1)"
  obtain d new where r: "release ms dg = (d, new)" by fastforce
  with Cons[of dg] have "d m = dg m - int (count_list ms m)" by simp
  then show ?case using r[unfolded dg_def] by (auto simp: Let_def dg_def)
qed simp

lemma release_new:
  "(\<And>m. int (count_list ms m) \<le> deg m) \<Longrightarrow>
   distinct (snd (release ms deg)) \<and> set (snd (release ms deg)) = {m \<in> set ms. deg m = int (count_list ms m)}"
proof (induction ms arbitrary: deg)
  case (Cons m ms)
  define dg where "dg = deg(m := deg m - 1)"
  have dm: "dg m = deg m - 1" and dk: "k \<noteq> m \<Longrightarrow> dg k = deg k" for k by (simp_all add: dg_def)
  have le: "int (count_list ms k) \<le> dg k" for k
    using Cons.prems[of k] by (cases "k = m") (simp_all add: dg_def)
  obtain d new where r: "release ms dg = (d, new)" by fastforce
  with Cons.IH[of dg] le have new: "distinct new" "set new = {k \<in> set ms. dg k = int (count_list ms k)}" by simp_all
  have step: "snd (release (m # ms) deg) = (if dg m = 0 then m # new else new)"
    using r[unfolded dg_def] by (simp add: Let_def dg_def)
  have zero: "m \<notin> set ms" if "dg m = 0" using le[of m] that count_list_0_iff[of ms m] by simp
  have mem: "k \<in> set (m # ms) \<and> deg k = int (count_list (m # ms) k) \<longleftrightarrow> k \<in> set new \<or> k = m \<and> dg m = 0" for k
  proof (cases "k = m")
    case True
    have "m \<in> set ms \<longleftrightarrow> 0 < count_list ms m" using count_list_0_iff[of ms m] by auto
    moreover have "m \<in> set new \<longleftrightarrow> m \<in> set ms \<and> dg m = int (count_list ms m)" using new(2) by simp
    moreover have "deg m = int (count_list (m # ms) m) \<longleftrightarrow> dg m = int (count_list ms m)" unfolding dm by simp linarith
    ultimately show ?thesis using True le[of m] by auto
  next
    case False
    then show ?thesis using new(2) dk by auto
  qed
  have "m \<notin> set new" if "dg m = 0" using new(2) zero[OF that] by auto
  then have "distinct (snd (release (m # ms) deg))" using new(1) unfolding step by simp
  moreover have "set (snd (release (m # ms) deg)) = {k \<in> set (m # ms). deg k = int (count_list (m # ms) k)}"
    unfolding step using mem by auto
  ultimately show ?case by blast
qed simp

subsection \<open>Graphs\<close>

locale kahn_deps =
  fixes verts :: "'a list" and deps :: "'a \<Rightarrow> 'a list" and dependents :: "'a \<Rightarrow> 'a list"
  assumes distinct_verts: "distinct verts" and deps_known: "set (deps m) \<subseteq> set verts"
    and deps_outside: "m \<notin> set verts \<Longrightarrow> deps m = []"
    and count_dependents: "count_list (dependents x) m = count_list (deps m) x"
begin

definition edges :: "('a \<times> 'a) set" where
  "edges = {(d, m). d \<in> set (deps m)}"

text \<open>
  What both Kahn's loop and the coordinator keep, with the nodes already done and those released
  and not yet done: a degree counts the dependencies not done, and a node is released exactly when
  it has none left.
\<close>

definition waiting :: "'a list \<Rightarrow> 'a \<Rightarrow> int" where
  "waiting dn m = int (length (filter (\<lambda>d. d \<notin> set dn) (deps m)))"

definition progress_inv :: "'a list \<Rightarrow> 'a list \<Rightarrow> ('a \<Rightarrow> int) \<Rightarrow> bool" where
  "progress_inv dn act deg \<longleftrightarrow> distinct (dn @ act) \<and> set (dn @ act) \<subseteq> (set verts) \<and>
     (\<forall>m. deg m = waiting dn m) \<and> (\<forall>m\<in>(set verts). waiting dn m = 0 \<longleftrightarrow> m \<in> set (dn @ act))"

lemma progress_init:
  assumes "distinct rs" "set rs = {m \<in> set verts. deps m = []}" "\<And>m. deg m = int (length (deps m))"
  shows "progress_inv [] rs deg"
  using assms by (auto simp: progress_inv_def waiting_def)

lemma waiting_zero: "waiting dn m = 0 \<longleftrightarrow> set (deps m) \<subseteq> set dn"
  by (auto simp: waiting_def filter_empty_conv)

lemma waiting_done: "x \<notin> set dn \<Longrightarrow> waiting (dn @ [x]) m = waiting dn m - int (count_list (deps m) x)"
proof -
  assume x: "x \<notin> set dn"
  have "length (filter (\<lambda>d. d \<notin> set dn) xs) = length (filter (\<lambda>d. d \<notin> set (dn @ [x])) xs) + count_list xs x" for xs
    using x by (induction xs) auto
  then show ?thesis by (simp add: waiting_def)
qed

lemma progress_release:
  assumes inv: "progress_inv dn act deg" and x: "x \<in> set act"
    and r: "release (dependents x) deg = (deg', new)"
  shows "progress_inv (dn @ [x]) (remove1 x act @ new) deg'"
    and "set new \<inter> set (dn @ act) = {}" and "\<forall>m\<in>set new. set (deps m) \<subseteq> set (dn @ [x])" and "distinct new"
proof -
  have xd: "x \<notin> set dn" "x \<in> (set verts)" "distinct act" using inv x by (auto simp: progress_inv_def)
  have deg: "deg m = waiting dn m" for m using inv by (simp add: progress_inv_def)
  have deg': "deg' m = waiting (dn @ [x]) m" for m
    using release_deg[of "dependents x" deg m] r by (simp add: deg count_dependents waiting_done[OF xd(1)])
  have nonneg: "0 \<le> waiting dn' m" for dn' m by (simp add: waiting_def)
  have "int (count_list (dependents x) m) \<le> deg m" for m
    using nonneg[of "dn @ [x]" m] by (simp add: deg count_dependents waiting_done[OF xd(1)])
  from release_new[OF this] r have new: "distinct new"
    "set new = {m \<in> set (dependents x). deg m = int (count_list (dependents x) m)}" by simp_all
  have new_iff: "m \<in> set new \<longleftrightarrow> x \<in> set (deps m) \<and> waiting (dn @ [x]) m = 0" for m
  proof -
    have "m \<in> set (dependents x) \<longleftrightarrow> x \<in> set (deps m)"
      using count_dependents[of x m] by (metis count_list_0_iff)
    then show ?thesis using new(2) by (auto simp: deg count_dependents waiting_done[OF xd(1)])
  qed
  show "distinct new" by (rule new(1))
  have old: "m \<in> set (dn @ act) \<longleftrightarrow> waiting dn m = 0" if "m \<in> (set verts)" for m using inv that by (simp add: progress_inv_def)
  have new_verts: "m \<in> (set verts)" if "m \<in> set new" for m using that new_iff deps_outside by fastforce
  show disj: "set new \<inter> set (dn @ act) = {}"
  proof -
    have "m \<notin> set (dn @ act)" if "m \<in> set new" for m
    proof -
      from that new_iff xd(1) have "\<not> set (deps m) \<subseteq> set dn" by auto
      then show ?thesis using old[OF new_verts[OF that]] by (simp add: waiting_zero)
    qed
    then show ?thesis by blast
  qed
  show "\<forall>m\<in>set new. set (deps m) \<subseteq> set (dn @ [x])" using new_iff waiting_zero by blast
  have act: "set (remove1 x act) = set act - {x}" using xd(3) by simp
  have cover: "waiting (dn @ [x]) m = 0 \<longleftrightarrow> m \<in> set (dn @ act) \<union> set new" if "m \<in> (set verts)" for m
  proof -
    have "set (deps m) \<subseteq> set (dn @ [x]) \<longleftrightarrow> set (deps m) \<subseteq> set dn \<or> x \<in> set (deps m) \<and> set (deps m) \<subseteq> set (dn @ [x])" by auto
    then show ?thesis using old[OF that] new_iff[of m] by (simp add: waiting_zero)
  qed
  show "progress_inv (dn @ [x]) (remove1 x act @ new) deg'"
    unfolding progress_inv_def
  proof (intro conjI allI ballI)
    show "distinct ((dn @ [x]) @ remove1 x act @ new)"
      using inv xd new(1) disj x by (auto simp: progress_inv_def act distinct_remove1)
    show "set ((dn @ [x]) @ remove1 x act @ new) \<subseteq> (set verts)"
      using inv xd new_verts by (auto simp: progress_inv_def act)
    show "waiting (dn @ [x]) m = 0 \<longleftrightarrow> m \<in> set ((dn @ [x]) @ remove1 x act @ new)" if "m \<in> (set verts)" for m
      using cover[OF that] x by (auto simp: act)
  qed (rule deg')
qed

subsection \<open>The loop\<close>

text \<open>The visited nodes are in an order in which dependencies come first.\<close>

definition topological :: "'a list \<Rightarrow> bool" where
  "topological v \<longleftrightarrow> (\<forall>i<length v. set (deps (v ! i)) \<subseteq> set (take i v))"

lemma topological_snoc: "topological v \<Longrightarrow> set (deps x) \<subseteq> set v \<Longrightarrow> topological (v @ [x])"
  unfolding topological_def by (auto simp: nth_append less_Suc_eq)

lemma kahn_result:
  assumes "progress_inv visited queue deg" "topological visited" "length visited + fuel \<ge> length verts"
  shows "\<exists>v deg'. kahn fuel dependents deg queue visited = Some v \<and> progress_inv v [] deg' \<and> topological v"
  using assms
proof (induction fuel arbitrary: deg queue visited)
  case 0
  have "queue = []"
  proof (rule ccontr)
    assume "queue \<noteq> []"
    have "distinct (visited @ queue)" "set (visited @ queue) \<subseteq> set verts"
      using 0(1) by (simp_all add: progress_inv_def)
    then have "length (visited @ queue) \<le> card (set verts)"
      by (metis card_mono distinct_card List.finite_set)
    moreover have "card (set verts) \<le> length verts" by (rule card_length)
    ultimately show False using 0(3) \<open>queue \<noteq> []\<close> by (cases queue) auto
  qed
  with 0 show ?case by auto
next
  case (Suc fuel)
  show ?case
  proof (cases queue)
    case Nil
    with Suc.prems show ?thesis by auto
  next
    case (Cons x q)
    obtain deg' new where r: "release (dependents x) deg = (deg', new)" by fastforce
    have p: "progress_inv (visited @ [x]) (q @ new) deg'"
      using progress_release(1)[OF Suc.prems(1) _ r] Cons by simp
    have "waiting visited x = 0" using Suc.prems(1) Cons by (simp add: progress_inv_def)
    then have "topological (visited @ [x])" using Suc.prems(2) by (simp add: waiting_zero topological_snoc)
    from Suc.IH[OF p this] Suc.prems(3) r Cons show ?thesis by simp
  qed
qed

lemma kahn_total:
  assumes "distinct rs" "set rs = {m \<in> set verts. deps m = []}" "\<And>m. deg m = int (length (deps m))"
  shows "\<exists>v deg'. kahn (length verts) dependents deg rs [] = Some v \<and> progress_inv v [] deg' \<and> topological v"
  by (rule kahn_result[OF progress_init]) (use assms in \<open>simp_all add: topological_def\<close>)

text \<open>A topological order of all vertices exists exactly when the graph has no cycle.\<close>

lemma topological_acyclic:
  assumes "topological v" "distinct v" "set v = set verts"
  shows "acyclic edges"
proof -
  define pos where "pos x = (LEAST i. i < length v \<and> v ! i = x)" for x
  have pos: "pos (v ! i) = i" if "i < length v" for i
    unfolding pos_def using that assms(2) by (intro Least_equality) (auto simp: nth_eq_iff_index_eq)
  have "pos d < pos m" if "(d, m) \<in> edges" for d m
  proof -
    from that have d: "d \<in> set (deps m)" by (simp add: edges_def)
    then have "m \<in> set verts" using deps_outside by fastforce
    then obtain i where i: "i < length v" "m = v ! i" using assms(3) by (metis in_set_conv_nth)
    with assms(1) d have "d \<in> set (take i v)" by (auto simp: topological_def)
    then obtain j where "j < i" "d = v ! j" using i(1) by (auto simp: in_set_conv_nth)
    with pos i show ?thesis by simp
  qed
  then have "edges \<subseteq> measure pos" by auto
  then show ?thesis by (meson acyclic_subset wf_acyclic wf_measure)
qed

lemma finite_edges: "finite edges"
proof -
  have "edges \<subseteq> set verts \<times> set verts"
    using deps_known deps_outside by (auto simp: edges_def) fastforce
  then show ?thesis using finite_subset by fastforce
qed

text \<open>Where nothing is released any more and the graph has no cycle, everything is done.\<close>

lemma progress_end:
  assumes "progress_inv dn [] deg" "acyclic edges"
  shows "set dn = set verts"
proof (rule ccontr)
  assume "set dn \<noteq> set verts"
  then obtain m where m: "m \<in> set verts" "m \<notin> set dn" using assms(1) by (auto simp: progress_inv_def)
  have "wf edges" using finite_acyclic_wf[OF finite_edges assms(2)] .
  then obtain z where z: "z \<in> set verts - set dn" "\<And>y. (y, z) \<in> edges \<Longrightarrow> y \<notin> set verts - set dn"
    using m by (metis DiffI wfE_min)
  have "set (deps z) \<subseteq> set dn"
    using z(2) deps_known[of z] by (auto simp: edges_def)
  then have "waiting dn z = 0" by (simp add: waiting_zero)
  with assms(1) z(1) show False by (simp add: progress_inv_def)
qed

end

end
