(* ===== verification/Schedule.thy ===== *)
theory Schedule
  imports Kahn
begin

section \<open>The scheduler: internal/system\_g/schedule\<close>

text \<open>
  A dependency graph is run optimistically: a node starts as soon as the nodes it depends on have
  completed. The graph is checked first (duplicates, unknown dependencies, cycles by Kahn's
  algorithm); then a coordinator launches nodes and collects their results, which arrive in any
  order. The coordinator is a step relation: which of the running nodes reports next, and with
  which result, is left open. Degrees are a Go map with default zero, so a function.
\<close>

record node =
  n_name :: string
  n_deps :: "string list"

type_synonym degrees = "string \<Rightarrow> int"

fun has_dup :: "node list \<Rightarrow> string list \<Rightarrow> bool" where
  "has_dup [] seen = False"
| "has_dup (n # ns) seen = (n_name n \<in> set seen \<or> has_dup ns (n_name n # seen))"

definition unknown_dep :: "node list \<Rightarrow> bool" where
  "unknown_dep nodes = list_ex (\<lambda>n. list_ex (\<lambda>d. d \<notin> set (map n_name nodes)) (n_deps n)) nodes"

text \<open>The loop that counts, and records who waits for whom, in node order.\<close>

definition indeg :: "node list \<Rightarrow> degrees" where
  "indeg nodes m = int (length (concat (map n_deps (filter (\<lambda>n. n_name n = m) nodes))))"

definition dependents :: "node list \<Rightarrow> string \<Rightarrow> string list" where
  "dependents nodes x = concat (map (\<lambda>n. map (\<lambda>_. n_name n) (filter (\<lambda>d. d = x) (n_deps n))) nodes)"

definition roots :: "node list \<Rightarrow> string list" where
  "roots nodes = map n_name (filter (\<lambda>n. indeg nodes (n_name n) = 0) nodes)"

definition cyclic :: "node list \<Rightarrow> bool option" where
  "cyclic nodes = map_option (\<lambda>v. length v \<noteq> length nodes) (kahn (length nodes) (dependents nodes) (indeg nodes) (roots nodes) [])"

definition Run_check :: "node list \<Rightarrow> err option" where
  "Run_check nodes = (if has_dup nodes [] then Some (ErrOther ''duplicate node'')
     else if unknown_dep nodes then Some (ErrOther ''depends on unknown'')
     else if cyclic nodes \<noteq> Some False then Some (ErrOther ''dependency cycle among nodes'')
     else None)"

subsection \<open>The coordinator\<close>

record coord =
  c_deg :: degrees
  c_running :: "string list"
  c_started :: "string list"
  c_done :: "string list"
  c_err :: "err option"

definition coord_init :: "node list \<Rightarrow> coord" where
  "coord_init nodes = \<lparr>c_deg = indeg nodes, c_running = roots nodes, c_started = roots nodes, c_done = [], c_err = None\<rparr>"

definition on_result :: "node list \<Rightarrow> coord \<Rightarrow> string \<Rightarrow> err option \<Rightarrow> coord" where
  "on_result nodes c x r = (let c1 = c\<lparr>c_running := remove1 x (c_running c)\<rparr> in
     (case r of
        Some e \<Rightarrow> if c_err c = None then c1\<lparr>c_err := Some e\<rparr> else c1
      | None \<Rightarrow> if c_err c \<noteq> None then c1\<lparr>c_done := c_done c @ [x]\<rparr>
          else (case release (dependents nodes x) (c_deg c) of (deg', new) \<Rightarrow>
            c1\<lparr>c_deg := deg', c_done := c_done c @ [x], c_running := c_running c1 @ new,
               c_started := c_started c @ new\<rparr>)))"

inductive coord_step :: "node list \<Rightarrow> coord \<Rightarrow> coord \<Rightarrow> bool" for nodes where
  report: "x \<in> set (c_running c) \<Longrightarrow> coord_step nodes c (on_result nodes c x r)"

inductive_cases coord_stepE: "coord_step nodes c c'"

subsection \<open>Graphs\<close>

lemma filter_name: "distinct (map n_name ns) \<Longrightarrow> n \<in> set ns \<Longrightarrow> filter (\<lambda>x. n_name x = n_name n) ns = [n]"
proof (induction ns)
  case (Cons a ns)
  show ?case
  proof (cases "a = n")
    case True
    with Cons.prems(1) have "\<forall>x\<in>set ns. n_name x \<noteq> n_name n" by (metis distinct.simps(2) image_eqI list.set_map list.simps(9))
    with True show ?thesis by (simp add: filter_empty_conv)
  next
    case False
    with Cons.prems have "n \<in> set ns" by simp
    moreover from this Cons.prems(1) have "n_name a \<noteq> n_name n" by (metis distinct.simps(2) image_eqI list.set_map list.simps(9))
    ultimately show ?thesis using Cons by simp
  qed
qed simp

locale graph =
  fixes nodes :: "node list"
  assumes uniq: "distinct (map n_name nodes)"
    and known: "\<And>n d. n \<in> set nodes \<Longrightarrow> d \<in> set (n_deps n) \<Longrightarrow> d \<in> n_name ` set nodes"
begin

definition deps :: "string \<Rightarrow> string list" where
  "deps m = concat (map n_deps (filter (\<lambda>n. n_name n = m) nodes))"

lemma deps_node: "n \<in> set nodes \<Longrightarrow> deps (n_name n) = n_deps n"
  using filter_name[OF uniq, of n] by (simp add: deps_def)

lemma node_deps_outside: "m \<notin> set (map n_name nodes) \<Longrightarrow> deps m = []"
  by (auto simp: deps_def filter_empty_conv)

lemma node_deps_known: "set (deps m) \<subseteq> set (map n_name nodes)"
  using known by (auto simp: deps_def)

lemma indeg_deps: "indeg nodes m = int (length (deps m))"
  by (simp add: indeg_def deps_def)

lemma node_count_dependents: "count_list (dependents nodes x) m = count_list (deps m) x"
proof -
  have "count_list (concat (map (\<lambda>n. map (\<lambda>_. n_name n) (filter (\<lambda>d. d = x) (n_deps n))) ns)) m
      = count_list (concat (map n_deps (filter (\<lambda>n. n_name n = m) ns))) x" for ns
  proof (induction ns)
    case (Cons n ns)
    have "count_list (map (\<lambda>_. n_name n) (filter (\<lambda>d. d = x) xs)) m = (if n_name n = m then count_list xs x else 0)" for xs
      by (induction xs) auto
    with Cons show ?case by simp
  qed simp
  then show ?thesis by (simp add: dependents_def deps_def)
qed

lemma set_roots: "set (roots nodes) = {m \<in> set (map n_name nodes). deps m = []}" and distinct_roots: "distinct (roots nodes)"
  using uniq by (auto simp: roots_def indeg_deps distinct_map intro: inj_on_subset)

end

sublocale graph \<subseteq> kahn_deps "map n_name nodes" deps "dependents nodes"
  by unfold_locales (rule uniq node_deps_known node_deps_outside node_count_dependents, assumption?)+

context graph
begin

lemma cyclic_correct: "cyclic nodes = Some (\<not> acyclic edges)"
proof -
  from kahn_total[OF distinct_roots set_roots indeg_deps] obtain v deg' where
    v: "kahn (length nodes) (dependents nodes) (indeg nodes) (roots nodes) [] = Some v"
    "progress_inv v [] deg'" "topological v" by auto
  have d: "distinct v" "set v \<subseteq> set (map n_name nodes)" using v(2) by (simp_all add: progress_inv_def)
  have "length v = length nodes \<longleftrightarrow> set v = set (map n_name nodes)"
    using d distinct_card[OF uniq] by (metis List.finite_set card_subset_eq distinct_card length_map)
  moreover have "set v = set (map n_name nodes) \<longleftrightarrow> acyclic edges"
    using topological_acyclic[OF v(3) d(1)] progress_end[OF v(2)] by blast
  ultimately show ?thesis by (simp add: cyclic_def v(1))
qed

subsection \<open>The coordinator\<close>

text \<open>Until an error is seen, the coordinator makes the progress of Kahn's loop, in another order.\<close>

definition coord_inv :: "coord \<Rightarrow> bool" where
  "coord_inv c \<longleftrightarrow> distinct (c_started c) \<and> set (c_running c) \<subseteq> set (c_started c) \<and>
     set (c_done c) \<subseteq> set (c_started c) \<and> distinct (c_done c @ c_running c) \<and>
     (\<forall>m\<in>set (c_started c). m \<in> set (map n_name nodes) \<and> set (deps m) \<subseteq> set (c_done c)) \<and>
     (c_err c = None \<longrightarrow> progress_inv (c_done c) (c_running c) (c_deg c) \<and> set (c_started c) = set (c_done c @ c_running c))"

lemma coord_init_inv: "coord_inv (coord_init nodes)"
  using progress_init[OF distinct_roots set_roots indeg_deps] set_roots distinct_roots by (auto simp: coord_inv_def coord_init_def)

lemma coord_step_inv:
  assumes "coord_inv c" "coord_step nodes c c'"
  shows "coord_inv c'"
  using assms(2)
proof (rule coord_stepE)
  fix x r assume c': "c' = on_result nodes c x r" and x: "x \<in> set (c_running c)"
  have dist: "distinct (c_running c)" "x \<notin> set (c_done c)" using assms(1) x by (auto simp: coord_inv_def)
  have sub: "set (remove1 x (c_running c)) \<subseteq> set (c_running c)" by (rule set_remove1_subset)
  have xr: "x \<notin> set (remove1 x (c_running c))" using dist(1) by simp
  consider e where "r = Some e" | "r = None" "c_err c \<noteq> None" | "r = None" "c_err c = None" by (cases r) auto
  then show ?thesis
  proof cases
    case 1
    then show ?thesis using assms(1) sub by (auto simp: c' on_result_def Let_def coord_inv_def distinct_remove1)
  next
    case 2
    have "coord_inv (c\<lparr>c_running := remove1 x (c_running c), c_done := c_done c @ [x]\<rparr>)"
      using assms(1) sub x xr dist 2(2) by (auto simp: coord_inv_def distinct_remove1)
    with 2 show ?thesis by (simp add: c' on_result_def Let_def)
  next
    case 3
    from assms(1) 3(2) have p: "progress_inv (c_done c) (c_running c) (c_deg c)"
      "set (c_started c) = set (c_done c @ c_running c)" by (simp_all add: coord_inv_def)
    obtain deg' new where rel: "release (dependents nodes x) (c_deg c) = (deg', new)" by fastforce
    note pr = progress_release[OF p(1) x rel]
    have new: "\<forall>m\<in>set new. m \<in> set (map n_name nodes)" using pr(1) by (auto simp: progress_inv_def)
    have "c' = c\<lparr>c_deg := deg', c_done := c_done c @ [x], c_running := remove1 x (c_running c) @ new,
        c_started := c_started c @ new\<rparr>"
      using 3 rel by (simp add: c' on_result_def Let_def)
    moreover have "distinct ((c_done c @ [x]) @ remove1 x (c_running c) @ new)"
      using pr(1) by (simp only: progress_inv_def)
    moreover have "set (remove1 x (c_running c)) = set (c_running c) - {x}" using dist(1) by simp
    ultimately show ?thesis using assms(1) pr new p(2) x unfolding coord_inv_def by auto
  qed
qed

lemma coord_reachable_inv: "(coord_step nodes)\<^sup>*\<^sup>* (coord_init nodes) c \<Longrightarrow> coord_inv c"
  by (induction rule: rtranclp_induct) (auto intro: coord_init_inv coord_step_inv)

lemma coord_complete:
  assumes "coord_inv c" "c_running c = []" "c_err c = None" "acyclic edges"
  shows "set (c_done c) = n_name ` set nodes \<and> distinct (c_done c)"
proof -
  have p: "progress_inv (c_done c) [] (c_deg c)" using assms(1-3) by (simp add: coord_inv_def)
  from progress_end[OF this assms(4)] p show ?thesis by (simp add: progress_inv_def)
qed

end

subsection \<open>The checked graphs\<close>

text \<open>What the first two checks of \<open>Run\<close> let through; the locale holds of all of it.\<close>

definition well_named :: "node list \<Rightarrow> node list" where
  "well_named nodes = (if has_dup nodes [] \<or> unknown_dep nodes then [] else nodes)"

lemma has_dup_iff: "\<not> has_dup ns seen \<longleftrightarrow> distinct (map n_name ns) \<and> set (map n_name ns) \<inter> set seen = {}"
  by (induction ns arbitrary: seen) auto

lemma unknown_dep_iff: "\<not> unknown_dep nodes \<longleftrightarrow> (\<forall>n\<in>set nodes. set (n_deps n) \<subseteq> n_name ` set nodes)"
  by (auto simp: unknown_dep_def list_ex_iff)

interpretation sched: graph "well_named nodes" for nodes
proof unfold_locales
  show "distinct (map n_name (well_named nodes))"
    using has_dup_iff[of nodes "[]"] by (auto simp: well_named_def)
  show "d \<in> n_name ` set (well_named nodes)" if "n \<in> set (well_named nodes)" "d \<in> set (n_deps n)" for n d
    using that unknown_dep_iff[of nodes] by (auto simp: well_named_def split: if_splits)
qed

definition dep_edges :: "node list \<Rightarrow> (string \<times> string) set" where
  "dep_edges nodes = {(d, n_name n) | d n. n \<in> set nodes \<and> d \<in> set (n_deps n)}"

lemma sched_edges: "sched.edges nodes = dep_edges (well_named nodes)"
  using sched.deps_node[of _ nodes] sched.deps_outside[of _ nodes]
  by (fastforce simp: sched.edges_def dep_edges_def)

lemma accepted: "Run_check nodes = None \<Longrightarrow> well_named nodes = nodes \<and> acyclic (dep_edges nodes)"
  using sched.cyclic_correct[of nodes] unfolding sched_edges
  by (auto simp: Run_check_def well_named_def split: if_splits)

lemma accepted_graph: "Run_check nodes = None \<Longrightarrow> graph nodes"
  using sched.graph_axioms[of nodes] accepted[of nodes] by simp

text \<open>A graph is accepted for running exactly when its names are distinct, every dependency is
  one of its nodes and it has no cycle; Kahn's loop always comes to an end.\<close>

theorem schedule_accepts_iff:
  "Run_check nodes = None \<longleftrightarrow> distinct (map n_name nodes) \<and> (\<forall>n\<in>set nodes. set (n_deps n) \<subseteq> n_name ` set nodes) \<and>
     acyclic (dep_edges nodes)"
proof (cases "has_dup nodes [] \<or> unknown_dep nodes")
  case True
  then show ?thesis using has_dup_iff[of nodes "[]"] unknown_dep_iff[of nodes] by (auto simp: Run_check_def)
next
  case False
  then have "well_named nodes = nodes" by (simp add: well_named_def)
  with sched.cyclic_correct[of nodes] sched_edges[of nodes] False show ?thesis
    using has_dup_iff[of nodes "[]"] unknown_dep_iff[of nodes] by (simp add: Run_check_def)
qed

definition two_nodes :: "node list" where
  "two_nodes = [\<lparr>n_name = ''b'', n_deps = [''a'']\<rparr>, \<lparr>n_name = ''a'', n_deps = []\<rparr>]"

lemma two_nodes_accepted: "Run_check two_nodes = None"
  by code_simp

theorem schedule_accepts_iff_witness: "acyclic (dep_edges two_nodes)"
  using schedule_accepts_iff[of two_nodes] two_nodes_accepted by simp

text \<open>C16: order. However the results of running nodes arrive, a node is started at most once, and
  only after every node it depends on has completed successfully.\<close>

theorem schedule_order:
  assumes "Run_check nodes = None" "(coord_step nodes)\<^sup>*\<^sup>* (coord_init nodes) c"
  shows "distinct (c_started c) \<and> (\<forall>n\<in>set nodes. n_name n \<in> set (c_started c) \<longrightarrow> set (n_deps n) \<subseteq> set (c_done c))"
proof -
  from accepted_graph[OF assms(1)] have g: "graph nodes" by simp
  from graph.coord_reachable_inv[OF g assms(2)] have i: "graph.coord_inv nodes c" .
  note parts = i[unfolded graph.coord_inv_def[OF g]]
  then have "set (graph.deps nodes m) \<subseteq> set (c_done c)" if "m \<in> set (c_started c)" for m using that by blast
  with parts graph.deps_node[OF g] show ?thesis by metis
qed

theorem schedule_order_witness:
  "set (c_started (coord_init two_nodes)) = {''a''} \<and> distinct (c_started (coord_init two_nodes))"
proof -
  have "c_started (coord_init two_nodes) = [''a'']" by code_simp
  with schedule_order[OF two_nodes_accepted rtranclp.rtrancl_refl] show ?thesis by simp
qed

lemma coord_step_counts:
  assumes "Run_check nodes = None"
  shows "(coord_step nodes ^^ k) (coord_init nodes) c \<Longrightarrow> k + length (c_running c) = length (c_started c)"
proof (induction k arbitrary: c)
  case 0
  then show ?case by (auto simp: coord_init_def)
next
  case (Suc k)
  then obtain b where b: "(coord_step nodes ^^ k) (coord_init nodes) b" "coord_step nodes b c" by auto
  from b(2) obtain x r where x: "x \<in> set (c_running b)" "c = on_result nodes b x r" by (rule coord_stepE) auto
  have "length (c_running b) = Suc (length (remove1 x (c_running b)))" using x(1) by (simp add: length_remove1)
      (metis Suc_pred length_pos_if_in_set)
  with Suc.IH[OF b(1)] show ?case
    by (simp add: x(2) on_result_def Let_def split: option.split prod.split)
qed

text \<open>C17: completion. The coordinator ends after at most as many results as there are nodes, and
  when it ends without an error every node has run to completion, exactly once.\<close>

theorem schedule_completes:
  assumes "Run_check nodes = None" "(coord_step nodes ^^ k) (coord_init nodes) c"
  shows "k \<le> length nodes \<and>
    (c_running c = [] \<and> c_err c = None \<longrightarrow> set (c_done c) = n_name ` set nodes \<and> distinct (c_done c))"
proof -
  from accepted[OF assms(1)] have w: "well_named nodes = nodes" and ac: "acyclic (dep_edges nodes)" by auto
  from assms(2) have reach: "(coord_step nodes)\<^sup>*\<^sup>* (coord_init nodes) c" by (metis rtranclp_power)
  from sched.coord_reachable_inv[of nodes c] reach w have i: "sched.coord_inv nodes c" by simp
  from i[unfolded sched.coord_inv_def] w have "distinct (c_started c)" "set (c_started c) \<subseteq> n_name ` set nodes" by auto
  then have "length (c_started c) \<le> card (n_name ` set nodes)"
    by (metis List.finite_set card_mono distinct_card finite_imageI)
  then have "k \<le> length nodes"
    using coord_step_counts[OF assms] card_image_le[of "set nodes" n_name] card_length[of nodes] by simp
  moreover have "set (c_done c) = n_name ` set nodes \<and> distinct (c_done c)" if "c_running c = []" "c_err c = None"
    using sched.coord_complete[OF i that] ac sched_edges[of nodes] w by simp
  ultimately show ?thesis by blast
qed

theorem schedule_completes_witness:
  "\<exists>c. (coord_step two_nodes ^^ 2) (coord_init two_nodes) c \<and> set (c_done c) = {''a'', ''b''}"
proof -
  let ?c1 = "on_result two_nodes (coord_init two_nodes) ''a'' None"
  let ?c2 = "on_result two_nodes ?c1 ''b'' None"
  have r: "c_running (coord_init two_nodes) = [''a'']" "c_running ?c1 = [''b'']" "c_running ?c2 = []" "c_err ?c2 = None"
    by code_simp+
  have "coord_step two_nodes (coord_init two_nodes) ?c1" using r by (intro report) simp
  moreover have "coord_step two_nodes ?c1 ?c2" using r by (intro report) simp
  ultimately have s: "(coord_step two_nodes ^^ 2) (coord_init two_nodes) ?c2"
    by (auto simp: numeral_2_eq_2)
  with schedule_completes[OF two_nodes_accepted s] r show ?thesis by (auto simp: two_nodes_def)
qed

end
