(* ===== verification/Buffer.thy ===== *)
theory Buffer
  imports Omni_Prelude
begin

section \<open>The single-writer buffer: internal/system\_g/buffer\<close>

text \<open>
  An append-only log between one producer and a fixed set of readers. Records live in chunks that
  never move; a chunk every reader has passed is dropped. Each operation runs under the mutex, so
  it is one atomic step; an operation that would wait on the condition variable is \<open>Park\<close>, an index
  out of range is \<open>Panic\<close>. The context enters as whether it is cancelled.
\<close>

datatype 'a attempt = Done 'a | Park | Panic

definition MaxInt :: int where
  "MaxInt = 2 ^ 63 - 1"

record 'r buffer =
  b_length :: nat
  b_released :: nat
  b_done :: bool
  b_err :: "err option"
  b_chunkSize :: nat
  b_chunks :: "'r option list list"
  b_base :: nat
  b_capacity :: int
  b_readers :: nat
  b_assigned :: nat
  b_closed :: nat
  b_cursors :: "int list"

record 'r cursor =
  cu_id :: nat
  cu_pos :: int
  cu_cur :: "'r option"
  cu_closed :: bool

datatype append_outcome = Appended | ErrAllReadersClosed | ErrContext

subsection \<open>Capacities\<close>

definition DefaultRowsAhead :: int where "DefaultRowsAhead = 1024"

definition DefaultPagesAhead :: int where "DefaultPagesAhead = 2"

definition resolveAhead :: "int \<Rightarrow> int \<Rightarrow> int" where
  "resolveAhead n def = (if n = 0 then def else if n < 0 then 0 else n)"

text \<open>What the context carries: nothing, or the resolved row and page read-ahead.\<close>

definition WithAhead :: "int \<Rightarrow> int \<Rightarrow> (int \<times> int) option" where
  "WithAhead rows pages = Some (resolveAhead rows DefaultRowsAhead, resolveAhead pages DefaultPagesAhead)"

definition RowsAhead :: "(int \<times> int) option \<Rightarrow> int" where
  "RowsAhead ctx = (case ctx of Some (rows, _) \<Rightarrow> rows | None \<Rightarrow> DefaultRowsAhead)"

definition PagesAhead :: "(int \<times> int) option \<Rightarrow> int" where
  "PagesAhead ctx = (case ctx of Some (_, pages) \<Rightarrow> pages | None \<Rightarrow> DefaultPagesAhead)"

definition Ahead :: "nat \<Rightarrow> int \<Rightarrow> int" where
  "Ahead readers n = (if readers = 1 then n else 0)"

subsection \<open>Storage\<close>

definition NewBuffer :: "nat \<Rightarrow> int \<Rightarrow> int \<Rightarrow> 'r buffer" where
  "NewBuffer readers chunkSize capacity =
     \<lparr>b_length = 0, b_released = 0, b_done = False, b_err = None,
      b_chunkSize = nat (if chunkSize < 1 then 1 else chunkSize), b_chunks = [], b_base = 0,
      b_capacity = capacity, b_readers = readers, b_assigned = 0, b_closed = 0, b_cursors = replicate readers 0\<rparr>"

text \<open>The chunk and the slot of an absolute index; a negative or too large chunk index panics.\<close>

definition chunk_at :: "'r buffer \<Rightarrow> nat \<Rightarrow> nat option" where
  "chunk_at b i = (let c = int (i div b_chunkSize b) - int (b_base b) in
     if 0 \<le> c \<and> nat c < length (b_chunks b) then Some (nat c) else None)"

definition store_at :: "'r buffer \<Rightarrow> nat \<Rightarrow> 'r option \<Rightarrow> 'r buffer option" where
  "store_at b i v = (case chunk_at b i of
     None \<Rightarrow> None
   | Some c \<Rightarrow> Some (b\<lparr>b_chunks := (b_chunks b)[c := (b_chunks b ! c)[i mod b_chunkSize b := v]]\<rparr>))"

definition buf_at :: "'r buffer \<Rightarrow> nat \<Rightarrow> 'r option option" where
  "buf_at b i = map_option (\<lambda>c. b_chunks b ! c ! (i mod b_chunkSize b)) (chunk_at b i)"

text \<open>\<open>put\<close> grows the chunks until the index fits (the loop runs the missing number of times).\<close>

definition grow :: "'r buffer \<Rightarrow> nat \<Rightarrow> 'r buffer" where
  "grow b i = (let c = int (i div b_chunkSize b) - int (b_base b) in
     b\<lparr>b_chunks := b_chunks b @ replicate (nat (c + 1) - length (b_chunks b)) (replicate (b_chunkSize b) None)\<rparr>)"

definition put :: "'r buffer \<Rightarrow> nat \<Rightarrow> 'r \<Rightarrow> 'r buffer option" where
  "put b i r = store_at (grow b i) i (Some r)"

definition low_water :: "'r buffer \<Rightarrow> int" where
  "low_water b = foldl (\<lambda>low c. if c < low then c else low) (int (b_length b)) (b_cursors b)"

fun free_loop :: "nat \<Rightarrow> 'r buffer \<Rightarrow> 'r buffer option" where
  "free_loop 0 b = Some b"
| "free_loop (Suc n) b = (case store_at b (b_released b) None of
     None \<Rightarrow> None
   | Some b' \<Rightarrow> free_loop n (b'\<lparr>b_released := Suc (b_released b')\<rparr>))"

fun drop_loop :: "nat \<Rightarrow> nat \<Rightarrow> nat \<Rightarrow> 'r option list list \<Rightarrow> nat \<times> 'r option list list" where
  "drop_loop cs released base [] = (base, [])"
| "drop_loop cs released base (c # chunks) =
     (if (base + 1) * cs \<le> released then drop_loop cs released (base + 1) chunks else (base, c # chunks))"

definition drop_chunks :: "'r buffer \<Rightarrow> 'r buffer" where
  "drop_chunks b = (case drop_loop (b_chunkSize b) (b_released b) (b_base b) (b_chunks b) of
     (base, chunks) \<Rightarrow> b\<lparr>b_base := base, b_chunks := chunks\<rparr>)"

definition reclaim :: "'r buffer \<Rightarrow> 'r buffer option" where
  "reclaim b = map_option drop_chunks (free_loop (nat (low_water b - int (b_released b))) b)"

subsection \<open>Operations\<close>

text \<open>The body of the waiting loop, run on entry and again on every wake-up; the entry test of the
  context comes before it.\<close>

definition append_try :: "bool \<Rightarrow> 'r buffer \<Rightarrow> 'r \<Rightarrow> ('r buffer \<times> append_outcome) attempt" where
  "append_try cancelled b r =
     (if b_closed b \<ge> b_readers b then Done (b, ErrAllReadersClosed)
      else if cancelled then Done (b, ErrContext)
      else if b_capacity b \<le> 0 \<or> int (b_length b) - int (b_released b) < b_capacity b
      then (case put b (b_length b) r of
          None \<Rightarrow> Panic
        | Some b' \<Rightarrow> Done (b'\<lparr>b_length := Suc (b_length b')\<rparr>, Appended))
      else Park)"

definition Append :: "bool \<Rightarrow> 'r buffer \<Rightarrow> 'r \<Rightarrow> ('r buffer \<times> append_outcome) attempt" where
  "Append cancelled b r = (if cancelled then Done (b, ErrContext) else append_try False b r)"

definition Complete_buffer :: "'r buffer \<Rightarrow> err option \<Rightarrow> 'r buffer" where
  "Complete_buffer b e = b\<lparr>b_err := e, b_done := True\<rparr>"

definition Reader :: "'r buffer \<Rightarrow> ('r buffer \<times> 'r cursor) attempt" where
  "Reader b = (if b_assigned b \<ge> b_readers b then Panic
     else Done (b\<lparr>b_assigned := Suc (b_assigned b)\<rparr>,
       \<lparr>cu_id = b_assigned b, cu_pos = -1, cu_cur = None, cu_closed = False\<rparr>))"

definition next_try :: "bool \<Rightarrow> 'r buffer \<Rightarrow> 'r cursor \<Rightarrow> ('r buffer \<times> 'r cursor \<times> bool) attempt" where
  "next_try cancelled b c = (let n = cu_pos c + 1 in
     if n < int (b_length b)
     then (case buf_at b (nat n) of
         None \<Rightarrow> Panic
       | Some r \<Rightarrow> (case reclaim (b\<lparr>b_cursors := (b_cursors b)[cu_id c := n + 1]\<rparr>) of
           None \<Rightarrow> Panic
         | Some b' \<Rightarrow> Done (b', c\<lparr>cu_pos := n, cu_cur := r\<rparr>, True)))
     else if b_done b then Done (b, c, False)
     else if cancelled then Done (b, c, False)
     else Park)"

definition Next :: "bool \<Rightarrow> 'r buffer \<Rightarrow> 'r cursor \<Rightarrow> ('r buffer \<times> 'r cursor \<times> bool) attempt" where
  "Next cancelled b c = (if cancelled then Done (b, c, False) else next_try False b c)"

definition Close :: "'r buffer \<Rightarrow> 'r cursor \<Rightarrow> ('r buffer \<times> 'r cursor) attempt" where
  "Close b c =
     (if cu_closed c then Done (b, c)
      else (case reclaim (b\<lparr>b_closed := Suc (b_closed b), b_cursors := (b_cursors b)[cu_id c := MaxInt]\<rparr>) of
          None \<Rightarrow> Panic
        | Some b' \<Rightarrow> Done (b', c\<lparr>cu_closed := True\<rparr>)))"


subsection \<open>The system: one producer, its readers and what they have seen\<close>

text \<open>The cursors handed out, the log of everything published, and what each reader was given
  (the last two are history, which the code does not keep).\<close>

record 'r system =
  s_buf :: "'r buffer"
  s_curs :: "'r cursor list"
  s_log :: "'r list"
  s_reads :: "'r option list list"

definition init :: "nat \<Rightarrow> int \<Rightarrow> int \<Rightarrow> 'r system" where
  "init readers chunkSize capacity = \<lparr>s_buf = NewBuffer readers chunkSize capacity, s_curs = [], s_log = [], s_reads = []\<rparr>"

text \<open>A reader does not read after it closed its cursor; nothing else is asked of the callers.\<close>

inductive buf_step :: "'r system \<Rightarrow> 'r system \<Rightarrow> bool" where
  step_append: "append_try cancelled (s_buf s) r = Done (b, Appended) \<Longrightarrow>
    buf_step s (s\<lparr>s_buf := b, s_log := s_log s @ [r]\<rparr>)"
| step_complete: "buf_step s (s\<lparr>s_buf := Complete_buffer (s_buf s) e\<rparr>)"
| step_reader: "Reader (s_buf s) = Done (b, c) \<Longrightarrow>
    buf_step s (s\<lparr>s_buf := b, s_curs := s_curs s @ [c], s_reads := s_reads s @ [[]]\<rparr>)"
| step_next: "k < length (s_curs s) \<Longrightarrow> \<not> cu_closed (s_curs s ! k) \<Longrightarrow>
    next_try cancelled (s_buf s) (s_curs s ! k) = Done (b, c, True) \<Longrightarrow>
    buf_step s (s\<lparr>s_buf := b, s_curs := (s_curs s)[k := c], s_reads := (s_reads s)[k := s_reads s ! k @ [cu_cur c]]\<rparr>)"
| step_close: "k < length (s_curs s) \<Longrightarrow> Close (s_buf s) (s_curs s ! k) = Done (b, c) \<Longrightarrow>
    buf_step s (s\<lparr>s_buf := b, s_curs := (s_curs s)[k := c]\<rparr>)"

inductive_cases buf_stepE: "buf_step s s'"

subsection \<open>The storage invariant\<close>

text \<open>Between reclaims: every chunk is full size, the chunks end where the log ends, and exactly
  the live records are stored.\<close>

definition storage_inv :: "'r buffer \<Rightarrow> 'r list \<Rightarrow> bool" where
  "storage_inv b log \<longleftrightarrow> 0 < b_chunkSize b \<and> b_length b = length log \<and> b_released b \<le> b_length b \<and>
     b_base b * b_chunkSize b \<le> b_released b \<and>
     b_base b + length (b_chunks b) = (b_length b + b_chunkSize b - 1) div b_chunkSize b \<and>
     (\<forall>c\<in>set (b_chunks b). length c = b_chunkSize b) \<and>
     (\<forall>i. b_base b * b_chunkSize b \<le> i \<and> i < (b_base b + length (b_chunks b)) * b_chunkSize b \<longrightarrow>
        buf_at b i = Some (if b_released b \<le> i \<and> i < b_length b then Some (log ! i) else None))"

lemma chunk_at_iff:
  assumes "0 < b_chunkSize b"
  shows "chunk_at b i = Some c \<longleftrightarrow> i div b_chunkSize b = b_base b + c \<and> c < length (b_chunks b)"
  by (auto simp: chunk_at_def Let_def)

lemma chunk_at_range:
  assumes "0 < b_chunkSize b" "b_base b * b_chunkSize b \<le> i" "i < (b_base b + length (b_chunks b)) * b_chunkSize b"
  shows "chunk_at b i = Some (i div b_chunkSize b - b_base b)"
  using assms div_le_mono[OF assms(2), of "b_chunkSize b"] less_mult_imp_div_less[OF assms(3)]
  by (simp add: chunk_at_iff less_diff_conv2 add.commute)

lemma chunks_reach:
  fixes n cs :: nat
  assumes "0 < cs"
  shows "n \<le> (n + cs - 1) div cs * cs" and "(n + cs - 1) div cs * cs < n + cs"
proof -
  have e: "(n + cs - 1) div cs * cs + (n + cs - 1) mod cs = n + cs - 1" by simp
  have "(n + cs - 1) mod cs < cs" using assms by simp
  with e assms show "n \<le> (n + cs - 1) div cs * cs" "(n + cs - 1) div cs * cs < n + cs" by linarith+
qed

lemma live_in_range:
  assumes "storage_inv b log" "b_released b \<le> i" "i < b_length b"
  shows "b_base b * b_chunkSize b \<le> i" "i < (b_base b + length (b_chunks b)) * b_chunkSize b"
  using assms chunks_reach(1)[of "b_chunkSize b" "b_length b"] by (auto simp: storage_inv_def)

lemma store_at_ok:
  assumes "0 < b_chunkSize b" "b_base b * b_chunkSize b \<le> i" "i < (b_base b + length (b_chunks b)) * b_chunkSize b"
    "\<forall>c\<in>set (b_chunks b). length c = b_chunkSize b"
  shows "\<exists>b'. store_at b i v = Some b' \<and> (\<exists>ch. b' = b\<lparr>b_chunks := ch\<rparr>) \<and> length (b_chunks b') = length (b_chunks b) \<and>
    (\<forall>c\<in>set (b_chunks b'). length c = b_chunkSize b) \<and> buf_at b' i = Some v \<and>
    (\<forall>j. j \<noteq> i \<longrightarrow> buf_at b' j = buf_at b j)"
proof -
  define c where "c = i div b_chunkSize b - b_base b"
  define k where "k = i mod b_chunkSize b"
  have ca: "chunk_at b i = Some c" using chunk_at_range[OF assms(1-3)] by (simp add: c_def)
  then have c: "i div b_chunkSize b = b_base b + c" "c < length (b_chunks b)" using assms(1) by (simp_all add: chunk_at_iff)
  have k: "k < b_chunkSize b" using assms(1) by (simp add: k_def)
  define b' where "b' = b\<lparr>b_chunks := (b_chunks b)[c := (b_chunks b ! c)[k := v]]\<rparr>"
  have st: "store_at b i v = Some b'" using ca by (simp add: store_at_def b'_def k_def)
  have len: "length (b_chunks b') = length (b_chunks b)" by (simp add: b'_def)
  have same: "chunk_at b' j = chunk_at b j" for j by (simp add: chunk_at_def b'_def)
  have fields: "b_chunkSize b' = b_chunkSize b" "b_chunks b' = (b_chunks b)[c := (b_chunks b ! c)[k := v]]"
    by (simp_all add: b'_def)
  have lc: "length (b_chunks b ! c) = b_chunkSize b" using assms(4) c(2) by simp
  have chunks: "\<forall>c\<in>set (b_chunks b'). length c = b_chunkSize b"
    using assms(4) lc by (auto simp: b'_def dest!: set_update_subset_insert[THEN subsetD])
  have at: "buf_at b' i = Some v" using ca k lc c(2) by (simp add: buf_at_def same fields flip: k_def)
  have other: "buf_at b' j = buf_at b j" if "j \<noteq> i" for j
  proof (cases "chunk_at b j")
    case (Some d)
    then have d: "j div b_chunkSize b = b_base b + d" using assms(1) by (simp add: chunk_at_iff)
    have "d \<noteq> c \<or> j mod b_chunkSize b \<noteq> k"
      using that d c(1) div_mult_mod_eq[of i "b_chunkSize b"] div_mult_mod_eq[of j "b_chunkSize b"] by (metis k_def)
    then show ?thesis using Some c(2) by (auto simp: buf_at_def same fields nth_list_update)
  qed (simp add: buf_at_def same)
  show ?thesis using st len chunks at other b'_def by blast
qed


lemma put_ok:
  assumes "storage_inv b log"
  shows "\<exists>b'. put b (b_length b) r = Some b' \<and> (\<exists>ch. b' = b\<lparr>b_chunks := ch\<rparr>) \<and>
    storage_inv (b'\<lparr>b_length := Suc (b_length b')\<rparr>) (log @ [r])"
proof -
  let ?cs = "b_chunkSize b" and ?n = "b_length b"
  have i: "0 < ?cs" "?n = length log" "b_released b \<le> ?n" "b_base b * ?cs \<le> b_released b"
    "b_base b + length (b_chunks b) = (?n + ?cs - 1) div ?cs" "\<forall>c\<in>set (b_chunks b). length c = ?cs"
    using assms by (simp_all add: storage_inv_def)
  define g where "g = grow b ?n"
  have base_le: "b_base b \<le> ?n div ?cs" using i(1,3,4) by (metis div_le_mono le_trans nonzero_mult_div_cancel_right not_gr0)
  have total: "b_base b + length (b_chunks g) = Suc (?n div ?cs)"
  proof -
    have "(?n + ?cs - 1) div ?cs \<le> Suc (?n div ?cs)"
    proof -
      have "(?n + ?cs - 1) div ?cs \<le> (?n + ?cs) div ?cs" by (rule div_le_mono) simp
      also have "(?n + ?cs) div ?cs = Suc (?n div ?cs)" using i(1) by (metis Suc_eq_plus1 div_add_self2 not_gr0)
      finally show ?thesis .
    qed
    then show ?thesis using base_le i(5) by (simp add: g_def grow_def Let_def)
  qed
  have new: "(Suc ?n + ?cs - 1) div ?cs = Suc (?n div ?cs)"
    using i(1) by (metis Suc_eq_plus1 add_Suc diff_Suc_1 div_add_self2 not_gr0)
  obtain m where gch: "b_chunks g = b_chunks b @ replicate m (replicate ?cs None)" by (simp add: g_def grow_def Let_def)
  have gf: "b_chunkSize g = ?cs" "b_base g = b_base b" "\<exists>ch. g = b\<lparr>b_chunks := ch\<rparr>" "b_released g = b_released b" "b_length g = ?n"
    by (auto simp: g_def grow_def Let_def)
  have glen: "\<forall>c\<in>set (b_chunks g). length c = ?cs" using i(6) by (auto simp: gch)
  have gat: "buf_at g j = Some (if b_released b \<le> j \<and> j < ?n then Some (log ! j) else None)"
    if "b_base b * ?cs \<le> j" "j < (b_base b + length (b_chunks g)) * ?cs" for j
  proof (cases "j < (b_base b + length (b_chunks b)) * ?cs")
    case True
    then have "buf_at b j = Some (if b_released b \<le> j \<and> j < ?n then Some (log ! j) else None)"
      using assms that(1) by (simp add: storage_inv_def)
    moreover have "chunk_at b j = Some (j div ?cs - b_base b)" using chunk_at_range[OF i(1) that(1) True] .
    moreover have "chunk_at g j = Some (j div ?cs - b_base b)" using chunk_at_range[of g j] gf that i(1) by simp
    moreover have "j div ?cs - b_base b < length (b_chunks b)" using calculation(2) i(1) by (simp add: chunk_at_iff)
    ultimately show ?thesis using gf by (simp add: buf_at_def gch nth_append)
  next
    case False
    have c: "chunk_at g j = Some (j div ?cs - b_base b)" using chunk_at_range[of g j] gf that i(1) by simp
    have "\<not> j div ?cs - b_base b < length (b_chunks b)"
      using False i(1) that(1) div_le_mono[OF that(1), of ?cs] by (simp add: less_diff_conv2 div_less_iff_less_mult add.commute)
    moreover have "?n \<le> j" using False chunks_reach(1)[OF i(1), of ?n] i(5) by simp
    moreover have "j div ?cs - b_base b < length (b_chunks g)" using c i(1) gf by (simp add: chunk_at_iff)
    ultimately show ?thesis using c gf i(1) by (simp add: buf_at_def gch nth_append)
  qed
  have lo: "b_base g * b_chunkSize g \<le> ?n" using i(3,4) gf by simp
  have hi: "?n < (b_base g + length (b_chunks g)) * b_chunkSize g"
    using total gf i(1) dividend_less_times_div[of ?cs ?n] by (simp add: algebra_simps)
  obtain b' where b': "store_at g ?n (Some r) = Some b'" "\<exists>ch. b' = g\<lparr>b_chunks := ch\<rparr>"
    "length (b_chunks b') = length (b_chunks g)" "\<forall>c\<in>set (b_chunks b'). length c = b_chunkSize g"
    "buf_at b' ?n = Some (Some r)" "\<And>j. j \<noteq> ?n \<Longrightarrow> buf_at b' j = buf_at g j"
    using store_at_ok[of g ?n "Some r"] lo hi glen i(1) gf by auto
  have bf: "b_chunkSize b' = ?cs" "b_base b' = b_base b" "b_released b' = b_released b" "b_length b' = ?n"
    "\<exists>ch. b' = b\<lparr>b_chunks := ch\<rparr>" using b'(2) gf by auto
  have at_len: "buf_at (b'\<lparr>b_length := x\<rparr>) j = buf_at b' j" for j x by (simp add: buf_at_def chunk_at_def)
  have slots: "buf_at b' j = Some (if b_released b \<le> j \<and> j < Suc ?n then Some ((log @ [r]) ! j) else None)"
    if "b_base b * ?cs \<le> j" "j < (b_base b + length (b_chunks b')) * ?cs" for j
  proof (cases "j = ?n")
    case True
    then show ?thesis using b'(5) i(2,3) by simp
  next
    case False
    then have "j < Suc ?n \<longleftrightarrow> j < ?n" by auto
    then show ?thesis using b'(6)[OF False] gat[of j] that b'(3) i(2) by (simp add: nth_append)
  qed
  have "storage_inv (b'\<lparr>b_length := Suc ?n\<rparr>) (log @ [r])"
    unfolding storage_inv_def using i b'(3,4) bf gf total new slots by (simp add: at_len)
  then show ?thesis using b'(1) bf by (auto simp: put_def g_def)
qed

lemma free_loop_ok:
  assumes "storage_inv b log" "b_released b + n \<le> b_length b"
  shows "\<exists>b'. free_loop n b = Some b' \<and> (\<exists>ch. b' = b\<lparr>b_chunks := ch, b_released := b_released b + n\<rparr>) \<and> storage_inv b' log"
  using assms
proof (induction n arbitrary: b)
  case 0
  then show ?case by (auto intro!: exI[of _ "b_chunks b"])
next
  case (Suc n)
  let ?i = "b_released b"
  have i: "0 < b_chunkSize b" "\<forall>c\<in>set (b_chunks b). length c = b_chunkSize b" using Suc.prems(1) by (simp_all add: storage_inv_def)
  note rng = live_in_range[OF Suc.prems(1), of ?i]
  from store_at_ok[OF i(1) _ _ i(2), of ?i None] rng Suc.prems(2) obtain b1 where
    b1: "store_at b ?i None = Some b1" "\<exists>ch. b1 = b\<lparr>b_chunks := ch\<rparr>" "length (b_chunks b1) = length (b_chunks b)"
      "\<forall>c\<in>set (b_chunks b1). length c = b_chunkSize b" "buf_at b1 ?i = Some None" "\<And>j. j \<noteq> ?i \<Longrightarrow> buf_at b1 j = buf_at b j"
    by auto
  let ?b2 = "b1\<lparr>b_released := Suc (b_released b1)\<rparr>"
  have at: "buf_at (b1\<lparr>b_released := x\<rparr>) j = buf_at b1 j" for j x by (simp add: buf_at_def chunk_at_def)
  have slots: "buf_at ?b2 j = Some (if Suc ?i \<le> j \<and> j < b_length b then Some (log ! j) else None)"
    if "b_base b * b_chunkSize b \<le> j" "j < (b_base b + length (b_chunks b)) * b_chunkSize b" for j
  proof (cases "j = ?i")
    case False
    then have "Suc ?i \<le> j \<longleftrightarrow> ?i \<le> j" by auto
    then show ?thesis using Suc.prems(1) that b1(6)[OF False] by (simp add: at storage_inv_def)
  qed (simp add: at b1(5))
  obtain chs where chs: "b1 = b\<lparr>b_chunks := chs\<rparr>" using b1(2) by blast
  have "storage_inv ?b2 log"
    using Suc.prems b1(3,4) slots unfolding storage_inv_def chs by simp
  moreover have "b_released ?b2 + n \<le> b_length ?b2" using Suc.prems(2) by (simp add: chs)
  ultimately obtain b' ch where
    b': "free_loop n ?b2 = Some b'" "b' = ?b2\<lparr>b_chunks := ch, b_released := b_released ?b2 + n\<rparr>" "storage_inv b' log"
    using Suc.IH[of ?b2] by blast
  then have "b' = b\<lparr>b_chunks := ch, b_released := b_released b + Suc n\<rparr>" by (simp add: chs)
  moreover have "free_loop (Suc n) b = Some b'" using b1(1) b'(1) by simp
  ultimately show ?case using b'(3) by blast
qed

lemma drop_loop_eq:
  "drop_loop cs rel base ch = (base', ch') \<Longrightarrow>
   \<exists>k. base' = base + k \<and> ch' = drop k ch \<and> k \<le> length ch \<and> (0 < k \<longrightarrow> base' * cs \<le> rel) \<and> (ch' = [] \<or> rel < (base' + 1) * cs)"
proof (induction cs rel base ch arbitrary: base' ch' rule: drop_loop.induct)
  case (2 cs rel base c chunks)
  show ?case
  proof (cases "(base + 1) * cs \<le> rel")
    case True
    with 2 obtain k where k: "base' = base + 1 + k" "ch' = drop k chunks" "k \<le> length chunks" "0 < k \<longrightarrow> base' * cs \<le> rel"
      "ch' = [] \<or> rel < (base' + 1) * cs" by auto
    then show ?thesis using True by (intro exI[of _ "Suc k"]) (cases "k = 0"; simp)
  next
    case False
    with 2 show ?thesis by (intro exI[of _ 0]) auto
  qed
qed simp

text \<open>After a reclaim the first kept chunk is the one of the first live record.\<close>

lemma drop_chunks_ok:
  assumes "storage_inv b log"
  shows "\<exists>ba ch. drop_chunks b = b\<lparr>b_base := ba, b_chunks := ch\<rparr> \<and> storage_inv (drop_chunks b) log \<and>
    ba = b_released b div b_chunkSize b"
proof -
  obtain ba ch where d: "drop_loop (b_chunkSize b) (b_released b) (b_base b) (b_chunks b) = (ba, ch)" by fastforce
  from drop_loop_eq[OF d] obtain k where k: "ba = b_base b + k" "ch = drop k (b_chunks b)" "k \<le> length (b_chunks b)"
    "0 < k \<longrightarrow> ba * b_chunkSize b \<le> b_released b" "ch = [] \<or> b_released b < (ba + 1) * b_chunkSize b" by blast
  let ?b = "b\<lparr>b_base := ba, b_chunks := ch\<rparr>"
  have e: "drop_chunks b = ?b" by (simp add: drop_chunks_def d)
  have i: "0 < b_chunkSize b" "b_base b * b_chunkSize b \<le> b_released b"
     "b_base b + length (b_chunks b) = (b_length b + b_chunkSize b - 1) div b_chunkSize b" "b_released b \<le> b_length b"
    using assms by (simp_all add: storage_inv_def)
  have lo: "ba * b_chunkSize b \<le> b_released b" using k(1,4) i(2) by (cases "k = 0") auto
  have tot: "ba + length ch = b_base b + length (b_chunks b)" using k(1-3) by simp
  have at: "buf_at ?b j = buf_at b j" if "ba * b_chunkSize b \<le> j" "j < (ba + length ch) * b_chunkSize b" for j
  proof -
    have "b_base b * b_chunkSize b \<le> j" using that(1) k(1) by (metis add_leD1 distrib_right)
    then have c: "chunk_at b j = Some (j div b_chunkSize b - b_base b)"
      using chunk_at_range[OF i(1), of j] that(2) tot by simp
    have c': "chunk_at ?b j = Some (j div b_chunkSize b - ba)"
      using chunk_at_range[of ?b j] i(1) that by simp
    from c' i(1) have "j div b_chunkSize b = ba + (j div b_chunkSize b - ba)" by (simp add: chunk_at_iff)
    then show ?thesis using c c' k(1-3) by (simp add: buf_at_def add.commute)
  qed
  have slots: "buf_at ?b j = Some (if b_released b \<le> j \<and> j < b_length b then Some (log ! j) else None)"
    if "ba * b_chunkSize b \<le> j" "j < (ba + length ch) * b_chunkSize b" for j
  proof -
    have "b_base b * b_chunkSize b \<le> j" using that(1) k(1) by (metis add_leD1 distrib_right)
    then have "buf_at b j = Some (if b_released b \<le> j \<and> j < b_length b then Some (log ! j) else None)"
      using assms that(2) tot by (simp add: storage_inv_def)
    with at[OF that] show ?thesis by simp
  qed
  have "\<forall>c\<in>set ch. length c = b_chunkSize b" using assms k(2) by (auto simp: storage_inv_def dest: in_set_dropD)
  with slots assms lo tot have inv': "storage_inv ?b log" by (simp add: storage_inv_def)
  have "ba = b_released b div b_chunkSize b"
  proof (cases "ch = []")
    case True
    then have "b_length b \<le> ba * b_chunkSize b" using tot i(1,3) chunks_reach(1)[OF i(1), of "b_length b"] by simp
    then have "b_released b = ba * b_chunkSize b" using lo i(4) by simp
    then show ?thesis using i(1) by simp
  next
    case False
    then have "b_released b < (ba + 1) * b_chunkSize b" using k(5) by simp
    then show ?thesis using lo i(1) by (intro div_nat_eqI[symmetric]) (simp_all add: mult.commute)
  qed
  with e inv' show ?thesis by auto
qed


subsection \<open>The low-water mark\<close>

lemma low_water_fold:
  "foldl (\<lambda>low c. if c < low then c else low) a cs = Min (insert a (set cs))"
proof (induction cs arbitrary: a)
  case (Cons c cs)
  have "(if c < a then c else a) = min a c" by auto
  then show ?case using Cons[of "min a c"]
    by (cases cs) (auto simp: min.assoc min.commute min.left_commute)
qed simp

lemma low_water_le: "low_water b \<le> int (b_length b)" "c \<in> set (b_cursors b) \<Longrightarrow> low_water b \<le> c"
  by (simp_all add: low_water_def low_water_fold)

lemma low_water_reached: "low_water b = int (b_length b) \<or> low_water b \<in> set (b_cursors b)"
proof -
  have "Min (insert (int (b_length b)) (set (b_cursors b))) \<in> insert (int (b_length b)) (set (b_cursors b))"
    by (rule Min_in) simp_all
  then show ?thesis by (auto simp: low_water_def low_water_fold)
qed

lemma reclaim_ok:
  assumes "storage_inv b log" "int (b_released b) \<le> low_water b"
  shows "\<exists>b' ba ch. reclaim b = Some b' \<and> b' = b\<lparr>b_base := ba, b_chunks := ch, b_released := nat (low_water b)\<rparr> \<and>
    storage_inv b' log \<and> ba = b_released b' div b_chunkSize b"
proof -
  let ?n = "nat (low_water b - int (b_released b))"
  have le: "b_released b + ?n \<le> b_length b" and n: "b_released b + ?n = nat (low_water b)"
    using assms(2) low_water_le(1)[of b] by linarith+
  from free_loop_ok[OF assms(1) le] obtain b1 ch where
    b1: "free_loop ?n b = Some b1" "b1 = b\<lparr>b_chunks := ch, b_released := b_released b + ?n\<rparr>" "storage_inv b1 log" by blast
  from drop_chunks_ok[OF b1(3)] obtain ba ch' where
    d: "drop_chunks b1 = b1\<lparr>b_base := ba, b_chunks := ch'\<rparr>" "storage_inv (drop_chunks b1) log"
      "ba = b_released b1 div b_chunkSize b1" by blast
  have "reclaim b = Some (drop_chunks b1)" using b1(1) by (simp add: reclaim_def)
  moreover have "drop_chunks b1 = b\<lparr>b_base := ba, b_chunks := ch', b_released := nat (low_water b)\<rparr>"
    using d(1) b1(2) n by simp
  moreover have "ba = b_released (drop_chunks b1) div b_chunkSize b" using d(1,3) b1(2) by simp
  ultimately show ?thesis using d(2) by blast
qed

subsection \<open>The system invariant\<close>

text \<open>A cursor that has not been closed stands at its position and is never ahead of the log.\<close>

definition cursor_ok :: "'r system \<Rightarrow> nat \<Rightarrow> bool" where
  "cursor_ok s k = (let b = s_buf s; c = s_curs s ! k in cu_id c = k \<and> -1 \<le> cu_pos c \<and> cu_pos c < int (b_length b) \<and>
     b_cursors b ! k = (if cu_closed c then MaxInt else cu_pos c + 1) \<and>
     s_reads s ! k = map Some (take (nat (cu_pos c + 1)) (s_log s)))"

definition buf_inv :: "'r system \<Rightarrow> bool" where
  "buf_inv s \<longleftrightarrow> (let b = s_buf s in storage_inv b (s_log s) \<and> b_base b = b_released b div b_chunkSize b \<and>
     int (b_released b) = low_water b \<and>
     length (b_cursors b) = b_readers b \<and> b_assigned b = length (s_curs s) \<and> length (s_reads s) = length (s_curs s) \<and>
     b_assigned b \<le> b_readers b \<and> b_closed b = length (filter cu_closed (s_curs s)) \<and>
     (\<forall>k < length (s_curs s). cursor_ok s k) \<and> (\<forall>k. length (s_curs s) \<le> k \<and> k < b_readers b \<longrightarrow> b_cursors b ! k = 0) \<and>
     (0 < b_capacity b \<longrightarrow> int (b_length b) - int (b_released b) \<le> b_capacity b))"

lemma buf_invD:
  assumes "buf_inv s"
  shows "storage_inv (s_buf s) (s_log s)" "b_base (s_buf s) = b_released (s_buf s) div b_chunkSize (s_buf s)"
    "int (b_released (s_buf s)) = low_water (s_buf s)" "length (b_cursors (s_buf s)) = b_readers (s_buf s)"
    "b_assigned (s_buf s) = length (s_curs s)" "length (s_reads s) = length (s_curs s)"
    "length (s_curs s) \<le> b_readers (s_buf s)" "b_closed (s_buf s) = length (filter cu_closed (s_curs s))"
    "\<And>k. k < length (s_curs s) \<Longrightarrow> cursor_ok s k"
    "\<And>k. length (s_curs s) \<le> k \<Longrightarrow> k < b_readers (s_buf s) \<Longrightarrow> b_cursors (s_buf s) ! k = 0"
    "0 < b_capacity (s_buf s) \<Longrightarrow> int (b_length (s_buf s)) - int (b_released (s_buf s)) \<le> b_capacity (s_buf s)"
  using assms by (auto simp: buf_inv_def Let_def)

lemma buf_init_inv: "buf_inv (init readers chunkSize capacity)"
proof -
  have z: "low_water (NewBuffer readers chunkSize capacity) = 0"
    using low_water_reached[of "NewBuffer readers chunkSize capacity"] by (auto simp: NewBuffer_def)
  show ?thesis
    unfolding buf_inv_def Let_def init_def system.simps
    using z by (auto simp: NewBuffer_def storage_inv_def div_eq_0_iff)
qed

text \<open>While somebody still reads, some reader is not past the end of the log.\<close>

lemma someone_behind:
  assumes "buf_inv s" "b_closed (s_buf s) < b_readers (s_buf s)"
  shows "\<exists>k < b_readers (s_buf s). b_cursors (s_buf s) ! k \<le> int (b_length (s_buf s)) \<and>
    (k < length (s_curs s) \<longrightarrow> \<not> cu_closed (s_curs s ! k))"
proof (cases "length (s_curs s) < b_readers (s_buf s)")
  case True
  with buf_invD(10)[OF assms(1), of "length (s_curs s)"] show ?thesis by (intro exI[of _ "length (s_curs s)"]) simp
next
  case False
  then have "length (filter cu_closed (s_curs s)) < length (s_curs s)"
    using assms buf_invD(7,8)[OF assms(1)] by simp
  then have "\<not> (\<forall>c\<in>set (s_curs s). cu_closed c)" by (metis filter_True less_irrefl)
  then obtain k where k: "k < length (s_curs s)" "\<not> cu_closed (s_curs s ! k)" by (auto simp: in_set_conv_nth)
  with buf_invD(9)[OF assms(1) k(1)] buf_invD(7)[OF assms(1)] show ?thesis
    by (intro exI[of _ k]) (simp add: cursor_ok_def Let_def)
qed


lemma storage_inv_irrelevant [simp]:
  "storage_inv (b\<lparr>b_cursors := x\<rparr>) log = storage_inv b log" "storage_inv (b\<lparr>b_closed := y\<rparr>) log = storage_inv b log"
  "storage_inv (b\<lparr>b_assigned := z\<rparr>) log = storage_inv b log"
  "storage_inv (b\<lparr>b_err := e, b_done := d\<rparr>) log = storage_inv b log"
  by (simp_all add: storage_inv_def buf_at_def chunk_at_def)

lemma low_water_irrelevant [simp]:
  "low_water (b\<lparr>b_base := x\<rparr>) = low_water b" "low_water (b\<lparr>b_chunks := y\<rparr>) = low_water b"
  "low_water (b\<lparr>b_released := z\<rparr>) = low_water b" "low_water (b\<lparr>b_closed := c\<rparr>) = low_water b"
  "low_water (b\<lparr>b_assigned := a\<rparr>) = low_water b" "low_water (b\<lparr>b_err := e, b_done := d\<rparr>) = low_water b"
  by (simp_all add: low_water_def)

lemma low_water_ge: "l \<le> int (b_length b) \<Longrightarrow> (\<And>c. c \<in> set (b_cursors b) \<Longrightarrow> l \<le> c) \<Longrightarrow> l \<le> low_water b"
  using low_water_reached[of b] by auto

text \<open>Moving one cursor forward and reclaiming keeps the storage in order.\<close>

lemma advance_ok:
  assumes "buf_inv s" "b = s_buf s" "k < length (s_curs s)" "b_cursors b ! k \<le> v"
  shows "\<exists>b' ba ch rl. reclaim (b\<lparr>b_closed := cl, b_cursors := (b_cursors b)[k := v]\<rparr>) = Some b' \<and>
    b' = b\<lparr>b_base := ba, b_chunks := ch, b_released := rl, b_closed := cl, b_cursors := (b_cursors b)[k := v]\<rparr> \<and>
    storage_inv b' (s_log s) \<and> ba = b_released b' div b_chunkSize b \<and> int (b_released b') = low_water b' \<and>
    b_released b \<le> b_released b'"
proof -
  let ?b = "b\<lparr>b_closed := cl, b_cursors := (b_cursors b)[k := v]\<rparr>"
  note i = buf_invD[OF assms(1), folded assms(2)]
  have ge: "int (b_released b) \<le> low_water ?b"
  proof (rule low_water_ge)
    show "int (b_released b) \<le> int (b_length ?b)" using i(1) by (simp add: storage_inv_def)
    fix c assume "c \<in> set (b_cursors ?b)"
    then consider "c = v" | "c \<in> set (b_cursors b)" by (auto dest!: set_update_subset_insert[THEN subsetD])
    then show "int (b_released b) \<le> c"
    proof cases
      case 1
      have "b_cursors b ! k \<in> set (b_cursors b)" using assms(3) i(4,7) by simp
      then show ?thesis using low_water_le(2)[of "b_cursors b ! k" b] i(3) assms(4) 1 by simp
    next
      case 2
      then show ?thesis using low_water_le(2)[of c b] i(3) by simp
    qed
  qed
  then have rel: "int (b_released ?b) \<le> low_water ?b" by simp
  have sto: "storage_inv ?b (s_log s)" using i(1) by simp
  from reclaim_ok[OF sto rel] obtain b' ba ch where
    r: "reclaim ?b = Some b'" "b' = ?b\<lparr>b_base := ba, b_chunks := ch, b_released := nat (low_water ?b)\<rparr>"
      "storage_inv b' (s_log s)" "ba = b_released b' div b_chunkSize ?b" by blast
  define rl where "rl = nat (low_water ?b)"
  have "int (b_released b') = low_water b'" "b_released b \<le> b_released b'" using r(2) ge by auto
  moreover have "b' = b\<lparr>b_base := ba, b_chunks := ch, b_released := rl, b_closed := cl, b_cursors := (b_cursors b)[k := v]\<rparr>"
    using r(2) by (simp add: rl_def)
  moreover have "ba = b_released b' div b_chunkSize b" using r(4) by simp
  ultimately show ?thesis using r(1,3) by blast
qed

lemma append_inv:
  assumes "buf_inv s" "append_try cancelled (s_buf s) r = Done (b, Appended)"
  shows "buf_inv (s\<lparr>s_buf := b, s_log := s_log s @ [r]\<rparr>)"
proof -
  let ?b = "s_buf s"
  note i = buf_invD[OF assms(1)]
  from put_ok[OF i(1), of r] obtain b0 ch where
    p: "put ?b (b_length ?b) r = Some b0" "b0 = ?b\<lparr>b_chunks := ch\<rparr>" "storage_inv (b0\<lparr>b_length := Suc (b_length b0)\<rparr>) (s_log s @ [r])"
    by blast
  from assms(2) p(1) have open_r: "b_closed ?b < b_readers ?b"
    and room: "b_capacity ?b \<le> 0 \<or> int (b_length ?b) - int (b_released ?b) < b_capacity ?b"
    and b: "b = b0\<lparr>b_length := Suc (b_length b0)\<rparr>" by (auto simp: append_try_def split: if_splits)
  have bf: "b = ?b\<lparr>b_chunks := ch, b_length := Suc (b_length ?b)\<rparr>" using b p(2) by simp
  from someone_behind[OF assms(1) open_r] obtain k where k: "k < b_readers ?b" "b_cursors ?b ! k \<le> int (b_length ?b)" by blast
  then have "b_cursors ?b ! k \<in> set (b_cursors b)" using i(4) bf by simp
  from low_water_le(2)[OF this] k(2) have "low_water b \<le> int (b_length ?b)" by simp
  then have "low_water b \<le> low_water ?b"
    using low_water_le(2)[of _ b] bf by (intro low_water_ge) auto
  moreover have "low_water ?b \<le> low_water b"
    using low_water_le[where b = ?b] bf by (intro low_water_ge) auto
  ultimately have low: "low_water b = low_water ?b" by simp
  have cur: "cursor_ok (s\<lparr>s_buf := b, s_log := s_log s @ [r]\<rparr>) k" if "k < length (s_curs s)" for k
    using i(9)[OF that] i(1) by (auto simp: cursor_ok_def Let_def bf storage_inv_def)
  have "storage_inv b (s_log s @ [r])" using p(3) b by simp
  then show ?thesis using i cur low room unfolding buf_inv_def Let_def by (auto simp: bf)
qed


lemma next_reads:
  assumes "buf_inv s" "k < length (s_curs s)" "\<not> cu_closed (s_curs s ! k)" "cu_pos (s_curs s ! k) + 1 < int (b_length (s_buf s))"
  defines "n \<equiv> nat (cu_pos (s_curs s ! k) + 1)"
  shows "\<exists>b' ba ch rl. next_try cancelled (s_buf s) (s_curs s ! k) =
      Done (b', (s_curs s ! k)\<lparr>cu_pos := int n, cu_cur := Some (s_log s ! n)\<rparr>, True) \<and> n < length (s_log s) \<and>
    b' = (s_buf s)\<lparr>b_base := ba, b_chunks := ch, b_released := rl, b_cursors := (b_cursors (s_buf s))[k := int n + 1]\<rparr> \<and>
    storage_inv b' (s_log s) \<and> ba = b_released b' div b_chunkSize (s_buf s) \<and> int (b_released b') = low_water b' \<and>
    b_released (s_buf s) \<le> b_released b'"
proof -
  let ?b = "s_buf s" and ?c = "s_curs s ! k"
  note i = buf_invD[OF assms(1)]
  have ok: "cu_id ?c = k" "-1 \<le> cu_pos ?c" "b_cursors ?b ! k = cu_pos ?c + 1"
    using i(9)[OF assms(2)] assms(3) by (auto simp: cursor_ok_def Let_def)
  have n: "int n = cu_pos ?c + 1" using ok(2) by (simp add: n_def)
  have "b_cursors ?b ! k \<in> set (b_cursors ?b)" using assms(2) i(4,7) by simp
  from low_water_le(2)[OF this] have rel: "b_released ?b \<le> n" using i(3) ok(3) n by linarith
  have nl: "n < b_length ?b" using assms(4) n by linarith
  have at: "buf_at ?b n = Some (Some (s_log s ! n))"
    using live_in_range[OF i(1) rel nl] i(1) rel nl by (simp add: storage_inv_def)
  have "b_cursors ?b ! k \<le> int n + 1" using ok(3) n by simp
  note adv = advance_ok[OF assms(1) refl assms(2) this, of "b_closed ?b"]
  have "?b\<lparr>b_closed := b_closed ?b, b_cursors := x\<rparr> = ?b\<lparr>b_cursors := x\<rparr>"
    "?b\<lparr>b_base := ba, b_chunks := ch, b_released := rl, b_closed := b_closed ?b, b_cursors := x\<rparr> =
     ?b\<lparr>b_base := ba, b_chunks := ch, b_released := rl, b_cursors := x\<rparr>" for x ba ch rl by simp_all
  from adv[unfolded this] obtain b' ba ch rl where
    a: "reclaim (?b\<lparr>b_cursors := (b_cursors ?b)[k := int n + 1]\<rparr>) = Some b'"
      "b' = ?b\<lparr>b_base := ba, b_chunks := ch, b_released := rl, b_cursors := (b_cursors ?b)[k := int n + 1]\<rparr>"
      "storage_inv b' (s_log s)" "ba = b_released b' div b_chunkSize ?b" "int (b_released b') = low_water b'"
      "b_released ?b \<le> b_released b'" by blast
  have "next_try cancelled ?b ?c = Done (b', ?c\<lparr>cu_pos := int n, cu_cur := Some (s_log s ! n)\<rparr>, True)"
    using at a(1) assms(4) ok(1) n by (simp add: next_try_def Let_def n_def[symmetric])
  moreover have "n < length (s_log s)" using nl i(1) by (simp add: storage_inv_def)
  ultimately show ?thesis using a by blast
qed

lemma filter_cursor_update:
  "k < length xs \<Longrightarrow> length (filter P (xs[k := y])) + of_bool (P (xs ! k)) = length (filter P xs) + of_bool (P y)"
proof (induction xs arbitrary: k)
  case (Cons x xs)
  then show ?case using Cons.IH[of "k - 1"] by (cases k) auto
qed simp

lemma next_inv:
  assumes "buf_inv s" "k < length (s_curs s)" "\<not> cu_closed (s_curs s ! k)"
    "next_try cancelled (s_buf s) (s_curs s ! k) = Done (b, c, True)"
  shows "buf_inv (s\<lparr>s_buf := b, s_curs := (s_curs s)[k := c], s_reads := (s_reads s)[k := s_reads s ! k @ [cu_cur c]]\<rparr>)"
proof -
  let ?b = "s_buf s" and ?c = "s_curs s ! k"
  note i = buf_invD[OF assms(1)]
  define n where "n = nat (cu_pos ?c + 1)"
  have lt: "cu_pos ?c + 1 < int (b_length ?b)"
    using assms(4) by (auto simp: next_try_def Let_def split: if_splits option.splits)
  from next_reads[OF assms(1-3) lt, of cancelled, folded n_def] assms(4) obtain ba ch rl where
    c: "c = ?c\<lparr>cu_pos := int n, cu_cur := Some (s_log s ! n)\<rparr>" "n < length (s_log s)"
    and b: "b = ?b\<lparr>b_base := ba, b_chunks := ch, b_released := rl, b_cursors := (b_cursors ?b)[k := int n + 1]\<rparr>"
    and a: "storage_inv b (s_log s)" "ba = b_released b div b_chunkSize ?b" "int (b_released b) = low_water b"
      "b_released ?b \<le> b_released b" by auto
  have ok: "cursor_ok s k" by (rule i(9)[OF assms(2)])
  let ?s = "s\<lparr>s_buf := b, s_curs := (s_curs s)[k := c], s_reads := (s_reads s)[k := s_reads s ! k @ [cu_cur c]]\<rparr>"
  have cur: "cursor_ok ?s j" if "j < length (s_curs s)" for j
  proof (cases "j = k")
    case True
    have "int n = cu_pos ?c + 1" using ok by (simp add: cursor_ok_def Let_def n_def)
    then have nk: "nat (int n + 1) = Suc n" "nat (cu_pos ?c + 1) = n" by simp_all
    show ?thesis using ok assms(2,3) c i(1,4,6,7) True nk
      by (simp add: cursor_ok_def Let_def b storage_inv_def take_Suc_conv_app_nth)
  next
    case False
    then show ?thesis using i(9)[OF that] by (simp add: cursor_ok_def Let_def b)
  qed
  have closed: "length (filter cu_closed ((s_curs s)[k := c])) = length (filter cu_closed (s_curs s))"
    using filter_cursor_update[OF assms(2), of cu_closed c] c(1) assms(3) by simp
  have other: "b_cursors b ! j = 0" if "length (s_curs s) \<le> j" "j < b_readers ?b" for j
    using i(10)[OF that] that assms(2) by (simp add: b)
  have cap: "0 < b_capacity b \<Longrightarrow> int (b_length b) - int (b_released b) \<le> b_capacity b"
    using i(11) a(4) by (simp add: b)
  have bf: "b_base b = b_released b div b_chunkSize b" "b_readers b = b_readers ?b" "b_assigned b = b_assigned ?b"
    "length (b_cursors b) = length (b_cursors ?b)" using a(2) by (simp_all add: b)
  have bc: "b_closed b = length (filter cu_closed ((s_curs s)[k := c]))" using i(8) closed by (simp add: b)
  show ?thesis using i(4-7) a(1,3) cur other cap bf bc unfolding buf_inv_def Let_def by simp
qed

lemma close_ok:
  assumes "buf_inv s" "k < length (s_curs s)" "\<not> cu_closed (s_curs s ! k)" "int (length (s_log s)) \<le> MaxInt"
  shows "\<exists>b' ba ch rl. Close (s_buf s) (s_curs s ! k) = Done (b', (s_curs s ! k)\<lparr>cu_closed := True\<rparr>) \<and>
    b' = (s_buf s)\<lparr>b_base := ba, b_chunks := ch, b_released := rl, b_closed := Suc (b_closed (s_buf s)),
      b_cursors := (b_cursors (s_buf s))[k := MaxInt]\<rparr> \<and>
    storage_inv b' (s_log s) \<and> ba = b_released b' div b_chunkSize (s_buf s) \<and> int (b_released b') = low_water b' \<and>
    b_released (s_buf s) \<le> b_released b'"
proof -
  let ?b = "s_buf s" and ?c = "s_curs s ! k"
  note i = buf_invD[OF assms(1)]
  have ok: "cu_id ?c = k" "b_cursors ?b ! k \<le> MaxInt"
    using i(9)[OF assms(2)] assms(3,4) i(1) by (auto simp: cursor_ok_def Let_def storage_inv_def)
  from advance_ok[OF assms(1) refl assms(2) ok(2), of "Suc (b_closed ?b)"] obtain b' ba ch rl where
    a: "reclaim (?b\<lparr>b_closed := Suc (b_closed ?b), b_cursors := (b_cursors ?b)[k := MaxInt]\<rparr>) = Some b'"
      "b' = ?b\<lparr>b_base := ba, b_chunks := ch, b_released := rl, b_closed := Suc (b_closed ?b), b_cursors := (b_cursors ?b)[k := MaxInt]\<rparr>"
      "storage_inv b' (s_log s)" "ba = b_released b' div b_chunkSize ?b" "int (b_released b') = low_water b'"
      "b_released ?b \<le> b_released b'" by blast
  have "Close ?b ?c = Done (b', ?c\<lparr>cu_closed := True\<rparr>)" using a(1) assms(3) ok(1) by (simp add: Close_def)
  with a show ?thesis by blast
qed


lemma close_inv:
  assumes "buf_inv s" "k < length (s_curs s)" "Close (s_buf s) (s_curs s ! k) = Done (b, c)" "int (length (s_log s)) \<le> MaxInt"
  shows "buf_inv (s\<lparr>s_buf := b, s_curs := (s_curs s)[k := c]\<rparr>)"
proof (cases "cu_closed (s_curs s ! k)")
  case True
  with assms(3) have "b = s_buf s" "c = s_curs s ! k" by (simp_all add: Close_def)
  with assms(1) show ?thesis by simp
next
  case False
  let ?b = "s_buf s" and ?c = "s_curs s ! k"
  note i = buf_invD[OF assms(1)]
  from close_ok[OF assms(1,2) False assms(4)] assms(3) obtain ba ch rl where
    c: "c = ?c\<lparr>cu_closed := True\<rparr>"
    and b: "b = ?b\<lparr>b_base := ba, b_chunks := ch, b_released := rl, b_closed := Suc (b_closed ?b), b_cursors := (b_cursors ?b)[k := MaxInt]\<rparr>"
    and a: "storage_inv b (s_log s)" "ba = b_released b div b_chunkSize ?b" "int (b_released b) = low_water b"
      "b_released ?b \<le> b_released b" by auto
  let ?s = "s\<lparr>s_buf := b, s_curs := (s_curs s)[k := c]\<rparr>"
  have cur: "cursor_ok ?s j" if "j < length (s_curs s)" for j
    using i(9)[OF that] i(4,7) assms(2) by (cases "j = k") (auto simp: cursor_ok_def Let_def b c)
  have closed: "length (filter cu_closed ((s_curs s)[k := c])) = Suc (length (filter cu_closed (s_curs s)))"
    using filter_cursor_update[OF assms(2), of cu_closed c] c False by simp
  have other: "b_cursors b ! j = 0" if "length (s_curs s) \<le> j" "j < b_readers ?b" for j
    using i(10)[OF that] that assms(2) by (simp add: b)
  have cap: "0 < b_capacity b \<Longrightarrow> int (b_length b) - int (b_released b) \<le> b_capacity b"
    using i(11) a(4) by (simp add: b)
  have bf: "b_base b = b_released b div b_chunkSize b" "b_readers b = b_readers ?b" "b_assigned b = b_assigned ?b"
    "length (b_cursors b) = length (b_cursors ?b)" using a(2) by (simp_all add: b)
  have bc: "b_closed b = length (filter cu_closed ((s_curs s)[k := c]))" using i(8) closed by (simp add: b)
  show ?thesis using i(4-7) a(1,3) cur other cap bf bc unfolding buf_inv_def Let_def by simp
qed

lemma reader_inv:
  assumes "buf_inv s" "Reader (s_buf s) = Done (b, c)"
  shows "buf_inv (s\<lparr>s_buf := b, s_curs := s_curs s @ [c], s_reads := s_reads s @ [[]]\<rparr>)"
proof -
  let ?b = "s_buf s"
  note i = buf_invD[OF assms(1)]
  from assms(2) have b: "b = ?b\<lparr>b_assigned := Suc (length (s_curs s))\<rparr>" and lt: "length (s_curs s) < b_readers ?b"
    and c: "c = \<lparr>cu_id = length (s_curs s), cu_pos = -1, cu_cur = None, cu_closed = False\<rparr>"
    using i(5) by (auto simp: Reader_def split: if_splits)
  let ?s = "s\<lparr>s_buf := b, s_curs := s_curs s @ [c], s_reads := s_reads s @ [[]]\<rparr>"
  have cur: "cursor_ok ?s j" if "j < Suc (length (s_curs s))" for j
  proof (cases "j = length (s_curs s)")
    case True
    then show ?thesis using i(6) i(10)[of j] lt i(1)
      by (simp add: cursor_ok_def Let_def b c nth_append)
  next
    case False
    then have "j < length (s_curs s)" using that by simp
    from i(9)[OF this] this i(6) show ?thesis by (simp add: cursor_ok_def Let_def b nth_append)
  qed
  show ?thesis using i cur lt unfolding buf_inv_def Let_def by (auto simp: b c)
qed

lemma buf_step_inv:
  assumes "buf_step s s'" "buf_inv s" "int (length (s_log s)) \<le> MaxInt"
  shows "buf_inv s'"
  using assms(1)
proof cases
  case (step_complete e)
  have "cursor_ok (s\<lparr>s_buf := Complete_buffer (s_buf s) e\<rparr>) k = cursor_ok s k" for k
    by (simp add: cursor_ok_def Let_def Complete_buffer_def)
  with assms(2) show ?thesis unfolding step_complete buf_inv_def Let_def by (auto simp: Complete_buffer_def)
qed (use assms append_inv reader_inv next_inv close_inv in \<open>simp_all\<close>)

lemma buf_reachable_inv:
  assumes "buf_step\<^sup>*\<^sup>* (init readers chunkSize capacity) s" "int (length (s_log s)) \<le> MaxInt"
  shows "buf_inv s"
  using assms
proof (induction rule: rtranclp_induct)
  case base
  show ?case by (rule buf_init_inv)
next
  case (step s s')
  have "length (s_log s) \<le> length (s_log s')" using step.hyps(2) by cases simp_all
  with step show ?case using buf_step_inv[OF step.hyps(2)] by simp
qed


subsection \<open>Correctness\<close>

text \<open>C21: whatever the order of appends, reads, closes and completion, every reader has been given
  exactly the first records of the log, in order and none missing or already reclaimed; an open
  reader's next read yields the next record of the log if there is one, ends the stream only when
  the producer has completed and everything was read, waits otherwise, and never panics.\<close>

theorem buffer_delivers_log:
  assumes "buf_step\<^sup>*\<^sup>* (init readers chunkSize capacity) s" "int (length (s_log s)) \<le> MaxInt" "k < length (s_curs s)"
  defines "n \<equiv> length (s_reads s ! k)"
  shows "n \<le> length (s_log s) \<and> s_reads s ! k = map Some (take n (s_log s)) \<and>
    (\<not> cu_closed (s_curs s ! k) \<longrightarrow>
      (case next_try False (s_buf s) (s_curs s ! k) of
         Done (b, c, True) \<Rightarrow> n < length (s_log s) \<and> cu_cur c = Some (s_log s ! n)
       | Done (b, c, False) \<Rightarrow> n = length (s_log s) \<and> b_done (s_buf s)
       | Park \<Rightarrow> n = length (s_log s) \<and> \<not> b_done (s_buf s)
       | Panic \<Rightarrow> False))"
proof -
  let ?c = "s_curs s ! k"
  have v: "buf_inv s" by (rule buf_reachable_inv[OF assms(1,2)])
  note i = buf_invD[OF v]
  have len: "b_length (s_buf s) = length (s_log s)" using i(1) by (simp add: storage_inv_def)
  have ok: "-1 \<le> cu_pos ?c" "cu_pos ?c < int (length (s_log s))" "s_reads s ! k = map Some (take (nat (cu_pos ?c + 1)) (s_log s))"
    using i(9)[OF assms(3)] len by (simp_all add: cursor_ok_def Let_def)
  have n: "n = nat (cu_pos ?c + 1)" using ok by (simp add: n_def)
  have nl: "n \<le> length (s_log s)" "int n = cu_pos ?c + 1" using ok n by linarith+
  have "case next_try False (s_buf s) ?c of
         Done (b, c, True) \<Rightarrow> n < length (s_log s) \<and> cu_cur c = Some (s_log s ! n)
       | Done (b, c, False) \<Rightarrow> n = length (s_log s) \<and> b_done (s_buf s)
       | Park \<Rightarrow> n = length (s_log s) \<and> \<not> b_done (s_buf s)
       | Panic \<Rightarrow> False" if "\<not> cu_closed ?c"
  proof (cases "cu_pos ?c + 1 < int (b_length (s_buf s))")
    case True
    from next_reads[OF v assms(3) that True, of False, folded n] show ?thesis by auto
  next
    case False
    then have "n = length (s_log s)" using nl len by linarith
    then show ?thesis using False by (simp add: next_try_def Let_def)
  qed
  then show ?thesis using ok(3) n nl by simp
qed

text \<open>A run with one record published and one reader.\<close>

definition one_appended :: "string system" where
  "one_appended = (case append_try False (NewBuffer 1 2 1) ''r'' of
     Done (b, Appended) \<Rightarrow> (init 1 2 1)\<lparr>s_buf := b, s_log := [''r'']\<rparr> | _ \<Rightarrow> init 1 2 1)"

definition one_reader :: "string system" where
  "one_reader = (case Reader (s_buf one_appended) of
     Done (b, c) \<Rightarrow> one_appended\<lparr>s_buf := b, s_curs := [c], s_reads := [[]]\<rparr> | _ \<Rightarrow> one_appended)"

lemma one_reader_reachable: "buf_step\<^sup>*\<^sup>* (init 1 2 1) one_reader"
proof -
  have "(case append_try False (NewBuffer 1 2 1) ''r'' of Done (_, Appended) \<Rightarrow> True | _ \<Rightarrow> False)" by code_simp
  then obtain b where b: "append_try False (NewBuffer 1 2 1) ''r'' = Done (b, Appended)"
    by (auto split: attempt.splits prod.splits append_outcome.splits)
  then have o: "one_appended = (init 1 2 1)\<lparr>s_buf := b, s_log := [''r'']\<rparr>" by (simp add: one_appended_def)
  have 1: "buf_step (init 1 2 1) one_appended"
    using step_append[of False "init 1 2 1" "''r''" b] b o by (simp add: init_def)
  have "(case Reader (s_buf one_appended) of Done _ \<Rightarrow> True | _ \<Rightarrow> False)" by code_simp
  then obtain b' c where r: "Reader (s_buf one_appended) = Done (b', c)" by (auto split: attempt.splits)
  have "s_curs one_appended = []" "s_reads one_appended = []" by code_simp+
  with step_reader[OF r] r have 2: "buf_step one_appended one_reader" by (simp add: one_reader_def)
  from 1 2 show ?thesis by (metis converse_rtranclp_into_rtranclp rtranclp.rtrancl_refl)
qed


theorem buffer_delivers_log_witness:
  "\<exists>b c. next_try False (s_buf one_reader) (s_curs one_reader ! 0) = Done (b, c, True) \<and> cu_cur c = Some ''r''"
proof -
  have e: "s_log one_reader = [''r'']" "length (s_curs one_reader) = 1" "length (s_reads one_reader ! 0) = 0"
    "\<not> cu_closed (s_curs one_reader ! 0)" "\<not> b_done (s_buf one_reader)" by code_simp+
  then have "int (length (s_log one_reader)) \<le> MaxInt" by (simp add: MaxInt_def)
  from buffer_delivers_log[OF one_reader_reachable this, of 0] e show ?thesis
    by (auto split: attempt.splits prod.splits bool.splits)
qed

text \<open>Memory follows the slowest reader. The live records never exceed the capacity (when there
  is one), the chunks kept hold less than two chunks more than the live records, and a record is
  live exactly as long as some reader still has to read it.\<close>

theorem buffer_memory_bounded:
  assumes "buf_step\<^sup>*\<^sup>* (init readers chunkSize capacity) s" "int (length (s_log s)) \<le> MaxInt"
  defines "live \<equiv> b_length (s_buf s) - b_released (s_buf s)"
  shows "(0 < b_capacity (s_buf s) \<longrightarrow> int live \<le> b_capacity (s_buf s)) \<and>
    length (b_chunks (s_buf s)) * b_chunkSize (s_buf s) < live + 2 * b_chunkSize (s_buf s) \<and>
    (\<forall>i < length (s_log s). b_released (s_buf s) \<le> i \<longleftrightarrow> (\<exists>c\<in>set (b_cursors (s_buf s)). c \<le> int i))"
proof (intro conjI allI impI)
  let ?b = "s_buf s" and ?cs = "b_chunkSize (s_buf s)"
  have v: "buf_inv s" by (rule buf_reachable_inv[OF assms(1,2)])
  note i = buf_invD[OF v]
  have st: "0 < ?cs" "b_length ?b = length (s_log s)" "b_released ?b \<le> b_length ?b"
    "b_base ?b + length (b_chunks ?b) = (b_length ?b + ?cs - 1) div ?cs" using i(1) by (simp_all add: storage_inv_def)
  show "int live \<le> b_capacity ?b" if "0 < b_capacity ?b" using i(11)[OF that] st(3) by (simp add: live_def of_nat_diff)
  have "(b_base ?b + length (b_chunks ?b)) * ?cs < b_length ?b + ?cs" using chunks_reach(2)[OF st(1)] st(4) by simp
  moreover have "b_released ?b < (b_base ?b + 1) * ?cs"
    using i(2) dividend_less_div_times[OF st(1), of "b_released ?b"] by (simp add: algebra_simps)
  ultimately show "length (b_chunks ?b) * ?cs < live + 2 * ?cs" using st(3) by (simp add: live_def algebra_simps)
  fix j assume j: "j < length (s_log s)"
  show "b_released ?b \<le> j \<longleftrightarrow> (\<exists>c\<in>set (b_cursors ?b). c \<le> int j)"
  proof
    assume "b_released ?b \<le> j"
    then have "low_water ?b \<le> int j" using i(3) by simp
    then show "\<exists>c\<in>set (b_cursors ?b). c \<le> int j" using low_water_reached[of ?b] j st(2) by auto
  next
    assume "\<exists>c\<in>set (b_cursors ?b). c \<le> int j"
    then have "low_water ?b \<le> int j" using low_water_le(2)[of _ ?b] by (meson order_trans)
    then show "b_released ?b \<le> j" using i(3) by simp
  qed
qed

theorem buffer_memory_bounded_witness:
  "b_capacity (s_buf one_reader) = 1 \<and> b_length (s_buf one_reader) - b_released (s_buf one_reader) \<le> 1"
proof -
  have e: "s_log one_reader = [''r'']" "b_capacity (s_buf one_reader) = 1" by code_simp+
  then have "int (length (s_log one_reader)) \<le> MaxInt" by (simp add: MaxInt_def)
  from buffer_memory_bounded[OF one_reader_reachable this] e show ?thesis by simp
qed



end
