(* ===== verification/Heap_Array.thy ===== *)
theory Heap_Array
  imports Main "HOL-Library.Multiset"
begin

section \<open>Array heaps: what container/heap does for a slice\<close>

text \<open>
  The standard library's heap on a slice ordered by an integer key: sift up, sift down over the
  first n elements, push, and removal at an index. The lemmas say that the parent of every element
  stays no larger than it, so the front is a minimum, and which elements are in the slice.
\<close>

definition heap_swap :: "'a list \<Rightarrow> nat \<Rightarrow> nat \<Rightarrow> 'a list" where
  "heap_swap xs i j = xs[i := xs ! j, j := xs ! i]"

function heap_up :: "('a \<Rightarrow> int) \<Rightarrow> 'a list \<Rightarrow> nat \<Rightarrow> 'a list" where
  "heap_up f xs j = (let i = (j - 1) div 2 in
     if i = j \<or> \<not> f (xs ! j) < f (xs ! i) then xs else heap_up f (heap_swap xs i j) i)"
  by pat_completeness auto
termination by (relation "measure (\<lambda>(f, xs, j). j)") auto

function heap_down :: "('a \<Rightarrow> int) \<Rightarrow> 'a list \<Rightarrow> nat \<Rightarrow> nat \<Rightarrow> 'a list \<times> nat" where
  "heap_down f xs i n = (let j1 = 2 * i + 1 in
     if j1 \<ge> n then (xs, i)
     else let j = (if j1 + 1 < n \<and> f (xs ! (j1 + 1)) < f (xs ! j1) then j1 + 1 else j1) in
       if \<not> f (xs ! j) < f (xs ! i) then (xs, i) else heap_down f (heap_swap xs i j) j n)"
  by pat_completeness auto
termination by (relation "measure (\<lambda>(f, xs, i, n). n - i)") (auto split: if_splits)

declare heap_up.simps [simp del] heap_down.simps [simp del]

definition heap_push :: "('a \<Rightarrow> int) \<Rightarrow> 'a list \<Rightarrow> 'a \<Rightarrow> 'a list" where
  "heap_push f xs x = heap_up f (xs @ [x]) (length xs)"

definition heap_remove :: "('a \<Rightarrow> int) \<Rightarrow> 'a list \<Rightarrow> nat \<Rightarrow> 'a list" where
  "heap_remove f xs i = (let n = length xs - 1 in
     if n = i then butlast xs
     else (case heap_down f (heap_swap xs i n) i n of (ys, i') \<Rightarrow> butlast (if i' > i then ys else heap_up f ys i)))"

definition heap_on :: "('a \<Rightarrow> int) \<Rightarrow> 'a list \<Rightarrow> nat \<Rightarrow> bool" where
  "heap_on f xs n \<longleftrightarrow> (\<forall>m. 0 < m \<and> m < n \<longrightarrow> f (xs ! ((m - 1) div 2)) \<le> f (xs ! m))"

lemma length_swap [simp]: "length (heap_swap xs i j) = length xs"
  by (simp add: heap_swap_def)

lemma nth_swap:
  "i < length xs \<Longrightarrow> j < length xs \<Longrightarrow> heap_swap xs i j ! m = (if m = i then xs ! j else if m = j then xs ! i else xs ! m)"
  by (auto simp: heap_swap_def nth_list_update)

lemma mset_heap_swap: "i < length xs \<Longrightarrow> j < length xs \<Longrightarrow> mset (heap_swap xs i j) = mset xs"
  by (simp add: heap_swap_def mset_swap)

lemma heap_up_props:
  "j < n \<Longrightarrow> n \<le> length xs \<Longrightarrow> mset (heap_up f xs j) = mset xs \<and> length (heap_up f xs j) = length xs \<and>
     (\<forall>m\<ge>n. heap_up f xs j ! m = xs ! m)"
proof (induction f xs j rule: heap_up.induct)
  case (1 f xs j)
  let ?i = "(j - 1) div 2"
  show ?case
  proof (cases "?i = j \<or> \<not> f (xs ! j) < f (xs ! ?i)")
    case False
    have i: "?i < n" using 1(2) by linarith
    then have "?i < n" "n \<le> length (heap_swap xs ?i j)" using 1(3) by simp_all
    from 1(1)[OF refl False this] i 1(2,3) show ?thesis
      using False by (simp add: heap_up.simps[of f xs j] Let_def mset_heap_swap nth_swap)
  qed (simp add: heap_up.simps[of f xs j] Let_def)
qed

lemma heap_down_props:
  "i < n \<Longrightarrow> n \<le> length xs \<Longrightarrow> heap_down f xs i n = (ys, i') \<Longrightarrow> mset ys = mset xs \<and> length ys = length xs \<and>
     (\<forall>m\<ge>n. ys ! m = xs ! m) \<and> i \<le> i'"
proof (induction f xs i n arbitrary: ys i' rule: heap_down.induct)
  case (1 f xs i n)
  define j where "j = (if 2 * i + 1 + 1 < n \<and> f (xs ! (2 * i + 1 + 1)) < f (xs ! (2 * i + 1)) then 2 * i + 1 + 1 else 2 * i + 1)"
  show ?case
  proof (cases "2 * i + 1 \<ge> n \<or> \<not> f (xs ! j) < f (xs ! i)")
    case True
    then have "heap_down f xs i n = (xs, i)"
      unfolding heap_down.simps[of f xs i n] Let_def j_def[symmetric] by auto
    then show ?thesis using 1(4) by simp
  next
    case False
    then have e: "heap_down f xs i n = heap_down f (heap_swap xs i j) j n"
      unfolding heap_down.simps[of f xs i n] Let_def j_def[symmetric] by auto
    have j: "j < n" "i < j" using False by (auto simp: j_def)
    from False have "\<not> n \<le> 2 * i + 1" "\<not> \<not> f (xs ! j) < f (xs ! i)" by auto
    from 1(1)[OF refl this(1) j_def this(2) j(1), of ys i'] 1(3,4) e
    have "mset ys = mset (heap_swap xs i j)" "length ys = length xs" "\<forall>m\<ge>n. ys ! m = heap_swap xs i j ! m" "j \<le> i'" by simp_all
    then show ?thesis using j 1(2,3) by (simp add: mset_heap_swap nth_swap)
  qed
qed


lemma heap_up_ok:
  assumes "j < n" "n \<le> length xs"
    and "\<And>m. 0 < m \<Longrightarrow> m < n \<Longrightarrow> m \<noteq> j \<Longrightarrow> f (xs ! ((m - 1) div 2)) \<le> f (xs ! m)"
    and "\<And>m. 0 < m \<Longrightarrow> m < n \<Longrightarrow> (m - 1) div 2 = j \<Longrightarrow> 0 < j \<Longrightarrow> f (xs ! ((j - 1) div 2)) \<le> f (xs ! m)"
  shows "heap_on f (heap_up f xs j) n"
  using assms
proof (induction f xs j rule: heap_up.induct)
  case (1 f xs j)
  define i where "i = (j - 1) div 2"
  show ?case
  proof (cases "i = j \<or> \<not> f (xs ! j) < f (xs ! i)")
    case True
    then have e: "heap_up f xs j = xs" by (simp add: heap_up.simps[of f xs j] Let_def i_def)
    have "f (xs ! ((m - 1) div 2)) \<le> f (xs ! m)" if "0 < m" "m < n" for m
    proof (cases "m = j")
      case mj: True
      then have "i \<noteq> j" using that(1) unfolding i_def by linarith
      then show ?thesis using True mj i_def by auto
    qed (use 1(4) that in blast)
    then show ?thesis by (simp add: e heap_on_def)
  next
    case False
    then have e: "heap_up f xs j = heap_up f (heap_swap xs i j) i" by (simp add: heap_up.simps[of f xs j] Let_def i_def)
    let ?ys = "heap_swap xs i j"
    have ij: "i < j" "0 < j" using False unfolding i_def by linarith+
    have lens: "i < length xs" "j < length xs" using ij 1(2,3) by linarith+
    note nth = nth_swap[OF lens]
    have ip: "(j - Suc 0) div 2 = i" by (simp add: i_def)
    have "heap_on f (heap_up f ?ys i) n"
    proof (rule 1(1)[OF i_def False[unfolded i_def[symmetric]]])
      show "i < n" "n \<le> length ?ys" using ij 1(2,3) by auto
      fix m assume m: "0 < m" "m < n"
      {
        assume mi: "m \<noteq> i"
        consider "m = j" | "m \<noteq> j" "(m - 1) div 2 = j" | "m \<noteq> j" "(m - 1) div 2 = i" | "m \<noteq> j" "(m - 1) div 2 \<noteq> j" "(m - 1) div 2 \<noteq> i"
          by blast
        then show "f (?ys ! ((m - 1) div 2)) \<le> f (?ys ! m)"
        proof cases
          case 1
          then show ?thesis using False ij by (simp add: nth ip)
        next
          case 2
          from "1.prems"(4)[OF m 2(2) ij(2)] 2 mi ij show ?thesis by (simp add: nth ip)
        next
          case 3
          from "1.prems"(3)[OF m 3(1)] 3 mi ij False show ?thesis by (simp add: nth)
        next
          case 4
          from "1.prems"(3)[OF m 4(1)] 4 mi show ?thesis by (simp add: nth)
        qed
      }
      assume mp: "(m - 1) div 2 = i" and i0: "0 < i"
      have "(i - 1) div 2 < i" using i0 by linarith
      then have p: "(i - 1) div 2 \<noteq> i" "(i - 1) div 2 \<noteq> j" using ij by auto
      have pi: "f (xs ! ((i - 1) div 2)) \<le> f (xs ! i)" using "1.prems"(3)[of i] i0 ij 1(2) by simp
      have "m \<noteq> i" using mp i0 by linarith
      then show "f (?ys ! ((i - 1) div 2)) \<le> f (?ys ! m)"
        using "1.prems"(3)[OF m] mp p pi by (cases "m = j") (simp_all add: nth)
    qed
    with e show ?thesis by simp
  qed
qed

text \<open>Sifting down: the children of i may be smaller than it, nothing else is out of order.\<close>

lemma heap_down_ok:
  assumes "i < n" "n \<le> length xs"
    and "\<And>m. 0 < m \<Longrightarrow> m < n \<Longrightarrow> (m - 1) div 2 \<noteq> i \<Longrightarrow> f (xs ! ((m - 1) div 2)) \<le> f (xs ! m)"
    and "\<And>m. 0 < m \<Longrightarrow> m < n \<Longrightarrow> (m - 1) div 2 = i \<Longrightarrow> 0 < i \<Longrightarrow> f (xs ! ((i - 1) div 2)) \<le> f (xs ! m)"
  shows "heap_on f (fst (heap_down f xs i n)) n"
  using assms
proof (induction f xs i n rule: heap_down.induct)
  case (1 f xs i n)
  define j where "j = (if 2 * i + 1 + 1 < n \<and> f (xs ! (2 * i + 1 + 1)) < f (xs ! (2 * i + 1)) then 2 * i + 1 + 1 else 2 * i + 1)"
  have child: "m = 2 * i + 1 \<or> m = 2 * i + 1 + 1" if "0 < m" "(m - 1) div 2 = i" for m using that by linarith
  have least: "f (xs ! j) \<le> f (xs ! m)" if "0 < m" "m < n" "(m - 1) div 2 = i" for m
    using child[OF that(1,3)] that(2) by (auto simp: j_def)
  show ?case
  proof (cases "2 * i + 1 \<ge> n \<or> \<not> f (xs ! j) < f (xs ! i)")
    case True
    then have e: "heap_down f xs i n = (xs, i)"
      unfolding heap_down.simps[of f xs i n] Let_def j_def[symmetric] by auto
    have "f (xs ! ((m - 1) div 2)) \<le> f (xs ! m)" if "0 < m" "m < n" for m
    proof (cases "(m - 1) div 2 = i")
      case mi: True
      then have "2 * i + 1 < n" using child[OF that(1)] that(2) by linarith
      then have "f (xs ! i) \<le> f (xs ! j)" using True by auto
      then show ?thesis using least[OF that mi] mi by simp
    qed (use 1(4) that in blast)
    then show ?thesis by (simp add: e heap_on_def)
  next
    case False
    then have e: "heap_down f xs i n = heap_down f (heap_swap xs i j) j n"
      unfolding heap_down.simps[of f xs i n] Let_def j_def[symmetric] by auto
    let ?ys = "heap_swap xs i j"
    have j: "j < n" "i < j" "(j - 1) div 2 = i" using False by (auto simp: j_def)
    have lens: "i < length xs" "j < length xs" using j 1(2,3) by linarith+
    note nth = nth_swap[OF lens]
    from False have c: "\<not> n \<le> 2 * i + 1" "\<not> \<not> f (xs ! j) < f (xs ! i)" by auto
    have "heap_on f (fst (heap_down f ?ys j n)) n"
    proof (rule 1(1)[OF refl c(1) j_def c(2) j(1)])
      show "n \<le> length ?ys" using 1(3) by simp
      fix m assume m: "0 < m" "m < n"
      {
        assume mj: "(m - 1) div 2 \<noteq> j"
        consider "m = i" | "m \<noteq> i" "(m - 1) div 2 = i" | "m \<noteq> i" "(m - 1) div 2 \<noteq> i" by blast
        then show "f (?ys ! ((m - 1) div 2)) \<le> f (?ys ! m)"
        proof cases
          case 1
          then have "(m - 1) div 2 < i" using m(1) by linarith
          then show ?thesis using "1.prems"(4)[of j] j m(1) 1 by (simp add: nth)
        next
          case 2
          then show ?thesis using least[OF m 2(2)] False j by (auto simp: nth)
        next
          case 3
          then have "m \<noteq> j" using j(3) by auto
          then show ?thesis using "1.prems"(3)[OF m 3(2)] 3 mj by (simp add: nth)
        qed
      }
      assume mp: "(m - 1) div 2 = j"
      then have "m \<noteq> i" "m \<noteq> j" "(m - 1) div 2 \<noteq> i" using j(2) m(1) by linarith+
      then show "f (?ys ! ((j - 1) div 2)) \<le> f (?ys ! m)" using "1.prems"(3)[OF m] mp j(3) by (simp add: nth)
    qed
    with e show ?thesis by simp
  qed
qed


lemma heap_down_still:
  assumes "i < n" "n \<le> length xs" "heap_down f xs i n = (ys, i')" "\<not> i < i'"
  shows "ys = xs \<and> (\<forall>m. 0 < m \<and> m < n \<and> (m - 1) div 2 = i \<longrightarrow> f (xs ! i) \<le> f (xs ! m))"
proof -
  define j where "j = (if 2 * i + 1 + 1 < n \<and> f (xs ! (2 * i + 1 + 1)) < f (xs ! (2 * i + 1)) then 2 * i + 1 + 1 else 2 * i + 1)"
  have child: "m = 2 * i + 1 \<or> m = 2 * i + 1 + 1" if "0 < m" "(m - 1) div 2 = i" for m using that by linarith
  have stop: "2 * i + 1 \<ge> n \<or> \<not> f (xs ! j) < f (xs ! i)"
  proof (rule ccontr)
    assume n: "\<not> (2 * i + 1 \<ge> n \<or> \<not> f (xs ! j) < f (xs ! i))"
    then have e: "heap_down f (heap_swap xs i j) j n = (ys, i')"
      using assms(3) unfolding heap_down.simps[of f xs i n] Let_def j_def[symmetric] by auto
    have j: "j < n" "i < j" using n by (auto simp: j_def)
    from heap_down_props[OF j(1) _ e] assms(2) have "j \<le> i'" by simp
    with j assms(4) show False by simp
  qed
  then have e: "heap_down f xs i n = (xs, i)"
    unfolding heap_down.simps[of f xs i n] Let_def j_def[symmetric] by auto
  have "f (xs ! i) \<le> f (xs ! m)" if "0 < m" "m < n" "(m - 1) div 2 = i" for m
    using child[OF that(1,3)] that(2) stop by (auto simp: j_def split: if_splits)
  then show ?thesis using e assms(3) by auto
qed

lemma heap_push_ok:
  assumes "heap_on f xs (length xs)"
  shows "heap_on f (heap_push f xs x) (Suc (length xs))" "mset (heap_push f xs x) = add_mset x (mset xs)"
    "length (heap_push f xs x) = Suc (length xs)"
proof -
  have "f ((xs @ [x]) ! ((m - 1) div 2)) \<le> f ((xs @ [x]) ! m)" if "0 < m" "m < Suc (length xs)" "m \<noteq> length xs" for m
  proof -
    have "m < length xs" "(m - 1) div 2 < length xs" using that by linarith+
    then show ?thesis using assms that(1) by (simp add: heap_on_def nth_append)
  qed
  moreover have "(m - 1) div 2 \<noteq> length xs" if "0 < m" "m < Suc (length xs)" for m using that by linarith
  ultimately show "heap_on f (heap_push f xs x) (Suc (length xs))"
    unfolding heap_push_def by (intro heap_up_ok) auto
  show "mset (heap_push f xs x) = add_mset x (mset xs)" "length (heap_push f xs x) = Suc (length xs)"
    using heap_up_props[of "length xs" "Suc (length xs)" "xs @ [x]" f] by (simp_all add: heap_push_def)
qed

lemma butlast_heap: "heap_on f xs n \<Longrightarrow> n < length xs \<Longrightarrow> heap_on f (butlast xs) n"
  unfolding heap_on_def
proof (intro allI impI)
  fix m assume a: "\<forall>m. 0 < m \<and> m < n \<longrightarrow> f (xs ! ((m - 1) div 2)) \<le> f (xs ! m)" "n < length xs" "0 < m \<and> m < n"
  then have "m < length xs - 1" "(m - 1) div 2 < length xs - 1" by linarith+
  with a show "f (butlast xs ! ((m - 1) div 2)) \<le> f (butlast xs ! m)" by (simp add: nth_butlast)
qed

lemma mset_butlast: "n < length xs \<Longrightarrow> n = length xs - 1 \<Longrightarrow> mset (butlast xs) = mset xs - {#xs ! n#}"
  by (metis add_mset_remove_trivial append_butlast_last_id last_conv_nth length_greater_0_conv less_zeroE mset.simps(2)
      mset_append mset_single_iff_right union_commute add_mset_add_single mset.simps(1) gr_zeroI list.size(3))

lemma heap_remove_ok:
  assumes "heap_on f xs (length xs)" "i < length xs"
  shows "heap_on f (heap_remove f xs i) (length xs - 1) \<and> mset (heap_remove f xs i) = mset xs - {#xs ! i#} \<and>
    length (heap_remove f xs i) = length xs - 1"
proof (cases "length xs - 1 = i")
  case True
  have "heap_on f xs i" using assms by (auto simp: heap_on_def)
  then have "heap_on f (butlast xs) i" using butlast_heap assms(2) by blast
  moreover have "mset (butlast xs) = mset xs - {#xs ! i#}" using mset_butlast[of i xs] True assms(2) by simp
  ultimately show ?thesis using True by (simp add: heap_remove_def)
next
  case False
  define n where "n = length xs - 1"
  have n: "i < n" "n < length xs" using False assms(2) by (auto simp: n_def)
  let ?ys = "heap_swap xs i n"
  have nth: "?ys ! m = (if m = i then xs ! n else if m = n then xs ! i else xs ! m)" for m
    using nth_swap[OF assms(2) n(2)] by simp
  have old: "f (xs ! ((m - 1) div 2)) \<le> f (xs ! m)" if "0 < m" "m < length xs" for m using assms(1) that by (simp add: heap_on_def)
  have rest: "f (?ys ! ((m - 1) div 2)) \<le> f (?ys ! m)" if "0 < m" "m < n" "(m - 1) div 2 \<noteq> i" "m \<noteq> i" for m
  proof -
    have "(m - 1) div 2 \<noteq> n" "m < length xs" using that n by linarith+
    then show ?thesis using old[of m] that by (simp add: nth)
  qed
  have skip: "f (?ys ! ((i - 1) div 2)) \<le> f (?ys ! m)" if "0 < m" "m < n" "(m - 1) div 2 = i" "0 < i" for m
  proof -
    have p: "(i - 1) div 2 \<noteq> i" "(i - 1) div 2 \<noteq> n" "m \<noteq> i" "m \<noteq> n" "m < length xs" using that n by linarith+
    from old[of m] old[of i] that n p show ?thesis by (simp add: nth)
  qed
  obtain zs i' where d: "heap_down f ?ys i n = (zs, i')" by fastforce
  have "n \<le> length ?ys" using n by simp
  note dp = heap_down_props[OF n(1) \<open>n \<le> length ?ys\<close> d]
  define ws where "ws = (if i' > i then zs else heap_up f zs i)"
  have heap: "heap_on f ws n"
  proof (cases "i < i'")
    case moved: True
    have "f (?ys ! ((i - 1) div 2)) \<le> f (?ys ! i)" if "0 < i"
    proof (rule ccontr)
      assume c: "\<not> f (?ys ! ((i - 1) div 2)) \<le> f (?ys ! i)"
      then have "f (?ys ! i) \<le> f (?ys ! m)" if "0 < m" "m < n" "(m - 1) div 2 = i" for m
        using skip[OF that \<open>0 < i\<close>] by linarith
      then have "heap_down f ?ys i n = (?ys, i)"
        using n by (subst heap_down.simps) (auto simp: Let_def not_less)
      with d moved show False by simp
    qed
    then have "f (?ys ! ((m - 1) div 2)) \<le> f (?ys ! m)" if "0 < m" "m < n" "(m - 1) div 2 \<noteq> i" for m
      using rest[OF that] that by blast
    from heap_down_ok[OF n(1) \<open>n \<le> length ?ys\<close> this skip] have "heap_on f (fst (heap_down f ?ys i n)) n" .
    then show ?thesis using d moved by (simp add: ws_def)
  next
    case still: False
    from heap_down_still[OF n(1) \<open>n \<le> length ?ys\<close> d still] have
      s: "zs = ?ys" "\<And>m. 0 < m \<Longrightarrow> m < n \<Longrightarrow> (m - 1) div 2 = i \<Longrightarrow> f (?ys ! i) \<le> f (?ys ! m)" by auto
    have "f (?ys ! ((m - 1) div 2)) \<le> f (?ys ! m)" if "0 < m" "m < n" "m \<noteq> i" for m
      using rest[OF that(1,2) _ that(3)] s(2)[OF that(1,2)] by (cases "(m - 1) div 2 = i") auto
    from heap_up_ok[OF n(1) \<open>n \<le> length ?ys\<close> this skip] have "heap_on f (heap_up f ?ys i) n" .
    then show ?thesis using s(1) still by (simp add: ws_def)
  qed
  have wp: "mset ws = mset xs" "length ws = length xs" "ws ! n = xs ! i"
  proof -
    have "mset zs = mset xs" "length zs = length xs" "zs ! n = xs ! i"
      using dp mset_heap_swap[OF assms(2) n(2)] by (simp_all add: nth)
    then show "mset ws = mset xs" "length ws = length xs" "ws ! n = xs ! i"
      using heap_up_props[of i n zs f] n by (auto simp: ws_def)
  qed
  have "heap_remove f xs i = butlast ws" using False d unfolding heap_remove_def Let_def n_def[symmetric] by (simp add: ws_def)
  moreover have "heap_on f (butlast ws) n" using butlast_heap[OF heap] wp(2) n(2) by simp
  moreover have "mset (butlast ws) = mset xs - {#xs ! i#}" using mset_butlast[of n ws] wp n by (simp add: n_def)
  ultimately show ?thesis using wp(2) by (simp add: n_def)
qed

lemma heap_front_least:
  assumes "heap_on f xs n" "m < n"
  shows "f (xs ! 0) \<le> f (xs ! m)"
  using assms(2)
proof (induction m rule: less_induct)
  case (less m)
  show ?case
  proof (cases "m = 0")
    case False
    then have "(m - 1) div 2 < m" by linarith
    with less have "f (xs ! 0) \<le> f (xs ! ((m - 1) div 2))" by simp
    moreover have "f (xs ! ((m - 1) div 2)) \<le> f (xs ! m)" using assms(1) less(2) False by (simp add: heap_on_def)
    ultimately show ?thesis by simp
  qed simp
qed


lemma length_heap_remove: "i < length xs \<Longrightarrow> length (heap_remove f xs i) = length xs - 1"
proof (cases "length xs - 1 = i")
  case False
  assume i: "i < length xs"
  define n where "n = length xs - 1"
  have n: "i < n" "n \<le> length (heap_swap xs i n)" using False i by (auto simp: n_def)
  obtain ys i' where d: "heap_down f (heap_swap xs i n) i n = (ys, i')" by fastforce
  from heap_down_props[OF n d] have ys: "length ys = length xs" by simp
  with heap_up_props[of i n ys f] n have "length (heap_up f ys i) = length xs" by simp
  with ys d False show ?thesis unfolding heap_remove_def Let_def n_def[symmetric] by (simp add: n_def)
qed (simp add: heap_remove_def)

end
