(* ===== verification/Row_Cache.thy ===== *)
theory Row_Cache
  imports Omni_Prelude Heap_Array
begin

section \<open>The row cache: pkg/rowcache\<close>

text \<open>
  A bounded in-memory cache of rows with transactional writers, least-recently-used eviction and
  expiry by a heap, and the managed layer in front of it. Every store operation holds the mutex, so
  it is one atomic step. The digest of a key (SHA-256 of its JSON text) is a parameter; instants
  and durations are integers in nanoseconds; a context enters as the answers of its \<open>Err\<close> tests.
  The list order and the heap hold pointers to the entries of the map; here they hold the entries,
  and an entry's heap index is its position.
\<close>

datatype cache_err = ErrClosed | ErrCapacity | ErrUnsupported | ErrCancelled | ErrInvalid string

subsection \<open>Values and their cost\<close>

datatype cell =
    CNil | CBool bool | CInt int | CFloat int
  | CString string | CNumber string | CBytes string
  | CMap "(string \<times> cell) list" | CSlice "cell list"
  | COther

type_synonym cache_row = "(string \<times> cell) list"

definition within_budget :: "int \<Rightarrow> int \<Rightarrow> cache_err + int" where
  "within_budget budget cost = (if cost > budget then Inl ErrCapacity else Inr cost)"

fun valueCost :: "cell \<Rightarrow> nat \<Rightarrow> int \<Rightarrow> cache_err + int"
  and map_cost :: "(string \<times> cell) list \<Rightarrow> nat \<Rightarrow> int \<Rightarrow> int \<Rightarrow> cache_err + int"
  and slice_cost :: "cell list \<Rightarrow> nat \<Rightarrow> int \<Rightarrow> int \<Rightarrow> cache_err + int" where
  "valueCost v depth budget = (if depth > 64 then Inl ErrUnsupported else
     (case v of
        CString s \<Rightarrow> within_budget budget (32 + int (length s))
      | CNumber s \<Rightarrow> within_budget budget (32 + int (length s))
      | CBytes s \<Rightarrow> within_budget budget (32 + int (length s))
      | CMap m \<Rightarrow> let cost = 32 + int (length m) * 80 in
          if cost > budget then Inl ErrCapacity
          else (case map_cost m depth budget cost of Inl e \<Rightarrow> Inl e | Inr c \<Rightarrow> within_budget budget c)
      | CSlice xs \<Rightarrow> let cost = 32 + int (length xs) * 16 in
          if cost > budget then Inl ErrCapacity
          else (case slice_cost xs depth budget cost of Inl e \<Rightarrow> Inl e | Inr c \<Rightarrow> within_budget budget c)
      | COther \<Rightarrow> Inl ErrUnsupported
      | _ \<Rightarrow> within_budget budget 32))"
| "map_cost [] depth budget cost = Inr cost"
| "map_cost ((name, v) # m) depth budget cost = (let c = cost + int (length name) in
     (case valueCost v (depth + 1) (budget - c) of Inl e \<Rightarrow> Inl e | Inr n \<Rightarrow> map_cost m depth budget (c + n)))"
| "slice_cost [] depth budget cost = Inr cost"
| "slice_cost (v # xs) depth budget cost =
     (case valueCost v (depth + 1) (budget - cost) of Inl e \<Rightarrow> Inl e | Inr n \<Rightarrow> slice_cost xs depth budget (cost + n))"

text \<open>The copy handed to and from the cache.\<close>

fun cloneValue :: "cell \<Rightarrow> cell" where
  "cloneValue (CMap m) = CMap (map (\<lambda>(k, v). (k, cloneValue v)) m)"
| "cloneValue (CSlice xs) = CSlice (map cloneValue xs)"
| "cloneValue v = v"

definition clone_row :: "cache_row \<Rightarrow> cache_row" where
  "clone_row row = map (\<lambda>(k, v). (k, cloneValue v)) row"

subsection \<open>The store\<close>

record MemoryConfig =
  MaxBytes :: int
  MaxEntryBytes :: int
  MaxEntries :: int

record 'k entry =
  e_key :: 'k
  e_rows :: "cache_row list"
  e_cost :: int
  e_expires :: int

record 'k store =
  limits :: MemoryConfig
  entries :: "('k, 'k entry) gomap"
  expiry :: "'k entry list"
  order :: "'k entry list"
  s_bytes :: int
  s_reserved :: int
  s_writers :: int
  s_closed :: bool

definition normal_limits :: "MemoryConfig \<Rightarrow> MemoryConfig" where
  "normal_limits l = (let b = (if MaxBytes l = 0 then 64 * 2 ^ 20 else MaxBytes l);
       e = (if MaxEntryBytes l = 0 then 4 * 2 ^ 20 else MaxEntryBytes l);
       n = (if MaxEntries l = 0 then 1024 else MaxEntries l) in
     \<lparr>MaxBytes = b, MaxEntryBytes = (if e > b then b else e), MaxEntries = n\<rparr>)"

definition NewMemory_cache :: "MemoryConfig \<Rightarrow> cache_err + 'k store" where
  "NewMemory_cache l = (if MaxBytes l < 0 \<or> MaxEntryBytes l < 0 \<or> MaxEntries l < 0
     then Inl (ErrInvalid ''negative memory limit'')
     else Inr \<lparr>limits = normal_limits l, entries = [], expiry = [], order = [], s_bytes = 0, s_reserved = 0,
       s_writers = 0, s_closed = False\<rparr>)"

definition heap_index :: "'k \<Rightarrow> 'k entry list \<Rightarrow> nat" where
  "heap_index k xs = length (takeWhile (\<lambda>e. e_key e \<noteq> k) xs)"

definition cache_remove :: "'k entry \<Rightarrow> 'k store \<Rightarrow> 'k store" where
  "cache_remove e st = st\<lparr>entries := gm_del (e_key e) (entries st), order := remove1 e (order st),
     expiry := heap_remove e_expires (expiry st) (heap_index (e_key e) (expiry st)), s_bytes := s_bytes st - e_cost e\<rparr>"

text \<open>The least recently used entry that is not the protected one.\<close>

definition candidate :: "'k \<Rightarrow> 'k store \<Rightarrow> 'k entry option" where
  "candidate protected st = find (\<lambda>e. e_key e \<noteq> protected) (rev (order st))"

lemma candidate_in_order: "candidate p st = Some e \<Longrightarrow> e \<in> set (order st)"
  by (auto simp: candidate_def find_Some_iff) (metis length_rev nth_mem set_rev)

lemma candidate_shrinks: "candidate p st = Some e \<Longrightarrow> length (order (cache_remove e st)) < length (order st)"
  using length_pos_if_in_set[OF candidate_in_order, of p st e] candidate_in_order[of p st e]
  by (simp add: cache_remove_def length_remove1)

function reserve_loop :: "int \<Rightarrow> 'k \<Rightarrow> 'k store \<Rightarrow> 'k store \<times> bool" where
  "reserve_loop cost protected st =
     (if s_bytes st + s_reserved st + cost > MaxBytes (limits st)
      then (case candidate protected st of
          None \<Rightarrow> (st, False)
        | Some e \<Rightarrow> reserve_loop cost protected (cache_remove e st))
      else (st, True))"
  by pat_completeness auto
termination by (relation "measure (\<lambda>(c, p, st). length (order st))") (auto simp: candidate_shrinks)

declare reserve_loop.simps [simp del]

definition reserve :: "int \<Rightarrow> 'k \<Rightarrow> 'k store \<Rightarrow> 'k store \<times> bool" where
  "reserve cost protected st = (case reserve_loop cost protected st of
     (st', False) \<Rightarrow> (st', False)
   | (st', True) \<Rightarrow> if s_bytes st' + s_reserved st' + cost > MaxBytes (limits st') then (st', False)
       else (st'\<lparr>s_reserved := s_reserved st' + cost\<rparr>, True))"

definition cache_Lookup :: "('q \<Rightarrow> cache_err + 'k) \<Rightarrow> bool \<Rightarrow> 'q \<Rightarrow> int \<Rightarrow> 'k store \<Rightarrow> 'k store \<times> (cache_err + cache_row list option)" where
  "cache_Lookup digest cancelled key now st =
     (if cancelled then (st, Inl ErrCancelled)
      else (case digest key of
          Inl e \<Rightarrow> (st, Inl e)
        | Inr k \<Rightarrow> if s_closed st then (st, Inl ErrClosed)
            else (case gm_get (entries st) k of
                None \<Rightarrow> (st, Inr None)
              | Some e \<Rightarrow> if \<not> now < e_expires e then (cache_remove e st, Inr None)
                  else (st\<lparr>order := e # remove1 e (order st)\<rparr>, Inr (Some (e_rows e))))))"

record 'k mwriter =
  w_key :: 'k
  w_rows :: "cache_row list"
  w_cost :: int
  w_finished :: bool

definition initialCost :: int where "initialCost = 128"

definition cache_Begin :: "('q \<Rightarrow> cache_err + 'k) \<Rightarrow> bool \<Rightarrow> 'q \<Rightarrow> 'k store \<Rightarrow> 'k store \<times> (cache_err + 'k mwriter)" where
  "cache_Begin digest cancelled key st =
     (if cancelled then (st, Inl ErrCancelled)
      else (case digest key of
          Inl e \<Rightarrow> (st, Inl e)
        | Inr k \<Rightarrow> if s_closed st then (st, Inl ErrClosed)
            else if s_writers st \<ge> MaxEntries (limits st) \<or> initialCost > MaxEntryBytes (limits st) then (st, Inl ErrCapacity)
            else (case reserve initialCost k st of
                (st', False) \<Rightarrow> (st', Inl ErrCapacity)
              | (st', True) \<Rightarrow> (st'\<lparr>s_writers := s_writers st' + 1\<rparr>,
                  Inr \<lparr>w_key = k, w_rows = [], w_cost = initialCost, w_finished = False\<rparr>))))"

text \<open>The context is asked on entry and again before each removal.\<close>

function collect_loop :: "(nat \<Rightarrow> bool) \<Rightarrow> int \<Rightarrow> nat \<Rightarrow> 'k store \<Rightarrow> 'k store \<times> nat \<times> cache_err option" where
  "collect_loop cancelled now n st = (case expiry st of
     [] \<Rightarrow> (st, n, None)
   | e # rest \<Rightarrow> if now < e_expires e then (st, n, None)
       else if cancelled (Suc n) then (st, n, Some ErrCancelled)
       else collect_loop cancelled now (Suc n) (cache_remove e st))"
  by pat_completeness auto
termination
  by (relation "measure (\<lambda>(c, now, n, st). length (expiry st))")
    (auto simp: cache_remove_def heap_index_def length_heap_remove)

declare collect_loop.simps [simp del]

definition cache_Collect :: "(nat \<Rightarrow> bool) \<Rightarrow> int \<Rightarrow> 'k store \<Rightarrow> 'k store \<times> nat \<times> cache_err option" where
  "cache_Collect cancelled now st =
     (if cancelled 0 then (st, 0, Some ErrCancelled)
      else if s_closed st then (st, 0, Some ErrClosed)
      else collect_loop cancelled now 0 st)"

definition cache_close :: "'k store \<Rightarrow> 'k store" where
  "cache_close st = st\<lparr>s_closed := True, entries := [], expiry := [], order := [], s_bytes := 0\<rparr>"


subsection \<open>Writers\<close>

definition cache_Append :: "bool \<Rightarrow> cache_row \<Rightarrow> 'k mwriter \<Rightarrow> 'k store \<Rightarrow> 'k store \<times> 'k mwriter \<times> cache_err option" where
  "cache_Append cancelled row w st =
     (if cancelled then (st, w, Some ErrCancelled)
      else if w_finished w then (st, w, Some ErrClosed)
      else (case valueCost (CMap row) 0 (MaxEntryBytes (limits st) - w_cost w) of
          Inl e \<Rightarrow> (st, w, Some e)
        | Inr cost \<Rightarrow> if s_closed st then (st, w, Some ErrClosed)
            else (case reserve cost (w_key w) st of
                (st', False) \<Rightarrow> (st', w, Some ErrCapacity)
              | (st', True) \<Rightarrow> (st', w\<lparr>w_cost := w_cost w + cost, w_rows := w_rows w @ [clone_row row]\<rparr>, None))))"

text \<open>Evict from the back of the list until there is room; taking the back of an empty list would
  dereference nil (None).\<close>

function evict_loop :: "'k store \<Rightarrow> 'k store option" where
  "evict_loop st = (if int (length (entries st)) \<ge> MaxEntries (limits st)
     then (if order st = [] then None else evict_loop (cache_remove (last (order st)) st))
     else Some st)"
  by pat_completeness auto
termination
  by (relation "measure (\<lambda>st. length (order st))") (auto simp: cache_remove_def length_remove1 length_pos_if_in_set)

declare evict_loop.simps [simp del]

definition cache_insert :: "'k entry \<Rightarrow> 'k store \<Rightarrow> 'k store" where
  "cache_insert e st = st\<lparr>order := e # order st, expiry := heap_push e_expires (expiry st) e,
     entries := gm_set (e_key e) e (entries st), s_reserved := s_reserved st - e_cost e,
     s_bytes := s_bytes st + e_cost e, s_writers := s_writers st - 1\<rparr>"

text \<open>The context is asked before taking the lock and once more under it. None is a panic.\<close>

definition cache_Commit :: "bool \<times> bool \<Rightarrow> int \<Rightarrow> 'k mwriter \<Rightarrow> 'k store \<Rightarrow> ('k store \<times> 'k mwriter \<times> cache_err option) option" where
  "cache_Commit cancelled expires w st =
     (if fst cancelled then Some (st, w, Some ErrCancelled)
      else if w_finished w then Some (st, w, Some ErrClosed)
      else if s_closed st then Some (st, w, Some ErrClosed)
      else if snd cancelled then Some (st, w, Some ErrCancelled)
      else let st1 = (case gm_get (entries st) (w_key w) of None \<Rightarrow> st | Some old \<Rightarrow> cache_remove old st) in
        (case evict_loop st1 of
           None \<Rightarrow> None
         | Some st2 \<Rightarrow> Some (cache_insert \<lparr>e_key = w_key w, e_rows = w_rows w, e_cost = w_cost w, e_expires = expires\<rparr> st2,
             w\<lparr>w_finished := True, w_rows := []\<rparr>, None)))"

definition cache_Abort :: "'k mwriter \<Rightarrow> 'k store \<Rightarrow> 'k store \<times> 'k mwriter" where
  "cache_Abort w st = (if w_finished w then (st, w)
     else (st\<lparr>s_reserved := s_reserved st - w_cost w, s_writers := s_writers st - 1\<rparr>,
       w\<lparr>w_finished := True, w_rows := []\<rparr>))"

subsection \<open>Reading the rows of a hit\<close>

record memoryRows =
  mr_rows :: "cache_row list"
  mr_index :: nat
  mr_current :: "cache_row option"
  mr_err :: "cache_err option"
  mr_closed :: bool

definition rows_Next :: "bool \<Rightarrow> memoryRows \<Rightarrow> memoryRows \<times> bool" where
  "rows_Next cancelled r =
     (if mr_closed r \<or> mr_err r \<noteq> None then (r, False)
      else if cancelled then (r\<lparr>mr_err := Some ErrCancelled\<rparr>, False)
      else if mr_index r \<ge> length (mr_rows r) then (r\<lparr>mr_current := None\<rparr>, False)
      else (r\<lparr>mr_current := Some (clone_row (mr_rows r ! mr_index r)), mr_index := Suc (mr_index r)\<rparr>, True))"

definition rows_Close :: "memoryRows \<Rightarrow> memoryRows" where
  "rows_Close r = r\<lparr>mr_closed := True, mr_rows := [], mr_current := None\<rparr>"

subsection \<open>What a value costs\<close>

text \<open>The reference: the cost of the whole value, whether it holds only supported kinds and how
  deep it nests, without budgets and without an order of visiting.\<close>

fun full_cost :: "cell \<Rightarrow> int" where
  "full_cost (CString s) = 32 + int (length s)"
| "full_cost (CNumber s) = 32 + int (length s)"
| "full_cost (CBytes s) = 32 + int (length s)"
| "full_cost (CMap m) = 32 + (\<Sum>(k, v)\<leftarrow>m. 80 + int (length k) + full_cost v)"
| "full_cost (CSlice xs) = 32 + (\<Sum>v\<leftarrow>xs. 16 + full_cost v)"
| "full_cost _ = 32"

fun fits_depth :: "nat \<Rightarrow> cell \<Rightarrow> bool" where
  "fits_depth n COther = False"
| "fits_depth n (CMap m) = (m = [] \<or> (case n of 0 \<Rightarrow> False | Suc n' \<Rightarrow> list_all (\<lambda>(k, v). fits_depth n' v) m))"
| "fits_depth n (CSlice xs) = (xs = [] \<or> (case n of 0 \<Rightarrow> False | Suc n' \<Rightarrow> list_all (fits_depth n') xs))"
| "fits_depth n v = True"


lemma full_cost_pos: "32 \<le> full_cost v"
proof (induction v rule: full_cost.induct)
  case (4 m)
  have "0 \<le> (\<Sum>(k, v)\<leftarrow>m. 80 + int (length k) + full_cost v)"
    using 4 by (intro sum_list_nonneg) fastforce
  then show ?case by simp
next
  case (5 xs)
  have "0 \<le> (\<Sum>v\<leftarrow>xs. 16 + full_cost v)" using 5 by (intro sum_list_nonneg) fastforce
  then show ?case by simp
qed auto

lemma costs_nonneg: "0 \<le> (\<Sum>(k, v)\<leftarrow>m. int (length k) + full_cost v)" "0 \<le> (\<Sum>v\<leftarrow>xs. full_cost v)"
proof -
  have "0 \<le> int (length k) + full_cost v" "0 \<le> full_cost v" for k :: string and v using full_cost_pos[of v] by linarith+
  then show "0 \<le> (\<Sum>(k, v)\<leftarrow>m. int (length k) + full_cost v)" "0 \<le> (\<Sum>v\<leftarrow>xs. full_cost v)"
    by (auto intro!: sum_list_nonneg)
qed

lemma sum_const: "(\<Sum>x\<leftarrow>xs. c + g x) = int (length xs) * c + (\<Sum>x\<leftarrow>xs. g x)"
  by (induction xs) (auto simp: algebra_simps)

lemma full_cost_map: "full_cost (CMap m) = 32 + int (length m) * 80 + (\<Sum>(k, v)\<leftarrow>m. int (length k) + full_cost v)"
  using sum_const[of 80 "\<lambda>(k, v). int (length k) + full_cost v" m] by (simp add: case_prod_unfold add.assoc)

lemma full_cost_slice: "full_cost (CSlice xs) = 32 + int (length xs) * 16 + (\<Sum>v\<leftarrow>xs. full_cost v)"
  using sum_const[of 16 full_cost xs] by simp

lemma Let_case_sum_Inr_iff:
  "(case x of Inl e \<Rightarrow> Inl e | Inr n \<Rightarrow> g n) = Inr c \<longleftrightarrow> (\<exists>n. x = Inr n \<and> g n = Inr c)"
  by (cases x) auto

lemma within_budget_Inr_iff: "within_budget b x = Inr c \<longleftrightarrow> c = x \<and> x \<le> b"
  by (auto simp: within_budget_def)

declare valueCost.simps [simp del]

lemma map_cost_iff:
  assumes "\<And>k v b' c'. (k, v) \<in> set m \<Longrightarrow>
    valueCost v (Suc d) b' = Inr c' \<longleftrightarrow> Suc d \<le> 64 \<and> fits_depth (63 - d) v \<and> full_cost v \<le> b' \<and> c' = full_cost v"
  shows "map_cost m d b c0 = Inr c \<longleftrightarrow> c = c0 + (\<Sum>(k, v)\<leftarrow>m. int (length k) + full_cost v) \<and>
     (m = [] \<or> c \<le> b \<and> d < 64 \<and> list_all (\<lambda>(k, v). fits_depth (63 - d) v) m)"
  using assms
proof (induction m arbitrary: c0)
  case (Cons p m)
  obtain k v where p: "p = (k, v)" by fastforce
  let ?c1 = "c0 + int (length k)" and ?r = "(\<Sum>(k, v)\<leftarrow>m. int (length k) + full_cost v)"
  have one: "valueCost v (Suc d) b' = Inr c' \<longleftrightarrow> Suc d \<le> 64 \<and> fits_depth (63 - d) v \<and> full_cost v \<le> b' \<and> c' = full_cost v" for b' c'
    using Cons.prems[of k v] p by auto
  have ih: "map_cost m d b c0 = Inr c \<longleftrightarrow> c = c0 + ?r \<and>
     (m = [] \<or> c \<le> b \<and> d < 64 \<and> list_all (\<lambda>(k, v). fits_depth (63 - d) v) m)" for c0
    using Cons.IH[of c0] Cons.prems by (meson list.set_intros(2))
  have "map_cost (p # m) d b c0 = Inr c \<longleftrightarrow>
     (\<exists>n. valueCost v (Suc d) (b - ?c1) = Inr n \<and> map_cost m d b (?c1 + n) = Inr c)"
    by (simp add: p Let_def Let_case_sum_Inr_iff)
  also have "\<dots> \<longleftrightarrow> Suc d \<le> 64 \<and> fits_depth (63 - d) v \<and> full_cost v \<le> b - ?c1 \<and> map_cost m d b (?c1 + full_cost v) = Inr c"
    unfolding one by blast
  finally show ?case unfolding ih using costs_nonneg(1)[of m] by (auto simp: p)
qed auto

lemma slice_cost_iff:
  assumes "\<And>v b' c'. v \<in> set xs \<Longrightarrow>
    valueCost v (Suc d) b' = Inr c' \<longleftrightarrow> Suc d \<le> 64 \<and> fits_depth (63 - d) v \<and> full_cost v \<le> b' \<and> c' = full_cost v"
  shows "slice_cost xs d b c0 = Inr c \<longleftrightarrow> c = c0 + (\<Sum>v\<leftarrow>xs. full_cost v) \<and>
     (xs = [] \<or> c \<le> b \<and> d < 64 \<and> list_all (fits_depth (63 - d)) xs)"
  using assms
proof (induction xs arbitrary: c0)
  case (Cons v xs)
  have one: "valueCost v (Suc d) b' = Inr c' \<longleftrightarrow> Suc d \<le> 64 \<and> fits_depth (63 - d) v \<and> full_cost v \<le> b' \<and> c' = full_cost v" for b' c'
    using Cons.prems[of v] by auto
  have ih: "slice_cost xs d b c0 = Inr c \<longleftrightarrow> c = c0 + (\<Sum>v\<leftarrow>xs. full_cost v) \<and>
     (xs = [] \<or> c \<le> b \<and> d < 64 \<and> list_all (fits_depth (63 - d)) xs)" for c0
    using Cons.IH[of c0] Cons.prems by (meson list.set_intros(2))
  have "slice_cost (v # xs) d b c0 = Inr c \<longleftrightarrow>
     (\<exists>n. valueCost v (Suc d) (b - c0) = Inr n \<and> slice_cost xs d b (c0 + n) = Inr c)"
    by (simp add: Let_case_sum_Inr_iff)
  also have "\<dots> \<longleftrightarrow> Suc d \<le> 64 \<and> fits_depth (63 - d) v \<and> full_cost v \<le> b - c0 \<and> slice_cost xs d b (c0 + full_cost v) = Inr c"
    unfolding one by blast
  finally show ?case unfolding ih using costs_nonneg(2)[of xs] by auto
qed auto

lemma valueCost_iff:
  "valueCost v d b = Inr c \<longleftrightarrow> d \<le> 64 \<and> fits_depth (64 - d) v \<and> full_cost v \<le> b \<and> c = full_cost v"
proof (induction v arbitrary: d b c)
  case (CMap m)
  let ?c = "32 + int (length m) * 80"
  have ih: "map_cost m d b ?c = Inr n \<longleftrightarrow> n = ?c + (\<Sum>(k, v)\<leftarrow>m. int (length k) + full_cost v) \<and>
     (m = [] \<or> n \<le> b \<and> d < 64 \<and> list_all (\<lambda>(k, v). fits_depth (63 - d) v) m)" for n
    using CMap[of _ _ "Suc d"] by (intro map_cost_iff) auto
  have s: "64 - d = Suc (63 - d)" if "d < 64" using that by simp
  have "valueCost (CMap m) d b = Inr c \<longleftrightarrow> d \<le> 64 \<and> ?c \<le> b \<and> (\<exists>n. map_cost m d b ?c = Inr n \<and> within_budget b n = Inr c)"
    by (auto simp: valueCost.simps Let_def Let_case_sum_Inr_iff)
  then show ?case unfolding ih within_budget_Inr_iff full_cost_map
    using costs_nonneg(1)[of m] s by (cases "d < 64") auto
next
  case (CSlice xs)
  let ?c = "32 + int (length xs) * 16"
  have ih: "slice_cost xs d b ?c = Inr n \<longleftrightarrow> n = ?c + (\<Sum>v\<leftarrow>xs. full_cost v) \<and>
     (xs = [] \<or> n \<le> b \<and> d < 64 \<and> list_all (fits_depth (63 - d)) xs)" for n
    using CSlice[of _ "Suc d"] by (intro slice_cost_iff) auto
  have s: "64 - d = Suc (63 - d)" if "d < 64" using that by simp
  have "valueCost (CSlice xs) d b = Inr c \<longleftrightarrow> d \<le> 64 \<and> ?c \<le> b \<and> (\<exists>n. slice_cost xs d b ?c = Inr n \<and> within_budget b n = Inr c)"
    by (auto simp: valueCost.simps Let_def Let_case_sum_Inr_iff)
  then show ?case unfolding ih within_budget_Inr_iff full_cost_slice
    using costs_nonneg(2)[of xs] s by (cases "d < 64") auto
qed (auto simp: valueCost.simps within_budget_Inr_iff)

lemma cloneValue_eq [simp]: "cloneValue v = v"
  by (induction v rule: cloneValue.induct) (auto simp: case_prod_unfold intro!: map_idI)

lemma clone_row_eq [simp]: "clone_row row = row"
  by (simp add: clone_row_def case_prod_unfold)


subsection \<open>The store's invariant\<close>

definition entry_list :: "'k store \<Rightarrow> 'k entry list" where
  "entry_list st = map snd (entries st)"

text \<open>The map, the recency list and the heap hold the same entries, each under its own key; the
  byte count is the sum of their costs and the limits are respected.\<close>

definition store_inv :: "'k store \<Rightarrow> bool" where
  "store_inv st \<longleftrightarrow> gm_wf (entries st) \<and> (\<forall>(k, e)\<in>set (entries st). e_key e = k \<and> 0 \<le> e_cost e \<and> e_cost e \<le> MaxEntryBytes (limits st)) \<and>
     mset (order st) = mset (entry_list st) \<and> mset (expiry st) = mset (entry_list st) \<and>
     heap_on e_expires (expiry st) (length (expiry st)) \<and> s_bytes st = (\<Sum>e\<leftarrow>entry_list st. e_cost e) \<and>
     0 \<le> s_reserved st \<and> s_bytes st + s_reserved st \<le> MaxBytes (limits st) \<and>
     1 \<le> MaxEntries (limits st) \<and> MaxEntryBytes (limits st) \<le> MaxBytes (limits st) \<and>
     int (length (entries st)) \<le> MaxEntries (limits st) \<and>
     (s_closed st \<longrightarrow> entries st = [])"

lemma delete_split:
  assumes "distinct (map fst m)" "map_of m k = Some v"
  shows "mset m = add_mset (k, v) (mset (AList.delete k m)) \<and> length m = Suc (length (AList.delete k m))"
  using assms
proof (induction m)
  case (Cons p m)
  show ?case
  proof (cases "fst p = k")
    case True
    then have "AList.delete k m = m" using Cons.prems(1) by (auto intro: delete_idem)
    then show ?thesis using True Cons.prems(2) by (cases p) auto
  next
    case False
    then show ?thesis using Cons by (cases p) auto
  qed
qed simp

lemma heap_index_nth:
  assumes "e \<in> set xs" "inj_on e_key (set xs)"
  shows "heap_index (e_key e) xs < length xs \<and> xs ! heap_index (e_key e) xs = e"
proof -
  have l: "length (takeWhile (\<lambda>x. e_key x \<noteq> e_key e) xs) < length xs"
    using assms(1) by (metis (mono_tags) length_takeWhile_le le_neq_implies_less takeWhile_eq_all_conv takeWhile_eq_take take_all_iff order.refl)
  then have "e_key (xs ! heap_index (e_key e) xs) = e_key e" using nth_length_takeWhile[OF l] by (simp add: heap_index_def)
  with l assms show ?thesis by (auto simp: heap_index_def inj_on_def)
qed

lemma store_inv_entries:
  assumes "store_inv st"
  shows "gm_get (entries st) k = Some e \<Longrightarrow> e \<in> set (entry_list st) \<and> e_key e = k"
    and "e \<in> set (entry_list st) \<Longrightarrow> gm_get (entries st) (e_key e) = Some e"
    and "inj_on e_key (set (entry_list st))"
proof -
  have wf: "gm_wf (entries st)" and key: "\<And>k e. (k, e) \<in> set (entries st) \<Longrightarrow> e_key e = k" using assms by (auto simp: store_inv_def)
  show "e \<in> set (entry_list st) \<and> e_key e = k" if "gm_get (entries st) k = Some e" for k e
    using map_of_SomeD[OF that] key by (force simp: entry_list_def)
  show g: "gm_get (entries st) (e_key e) = Some e" if "e \<in> set (entry_list st)" for e
    using that key gm_get_Some_iff[OF wf] by (auto simp: entry_list_def)
  show "inj_on e_key (set (entry_list st))" using g by (metis inj_onI option.inject)
qed

lemma cache_remove_inv:
  assumes "store_inv st" "e \<in> set (entry_list st)"
  shows "store_inv (cache_remove e st) \<and> mset (entry_list st) = add_mset e (mset (entry_list (cache_remove e st))) \<and>
    length (entries st) = Suc (length (entries (cache_remove e st))) \<and>
    (\<forall>k. gm_get (entries (cache_remove e st)) k = (if k = e_key e then None else gm_get (entries st) k)) \<and>
    limits (cache_remove e st) = limits st \<and> s_reserved (cache_remove e st) = s_reserved st \<and>
    s_writers (cache_remove e st) = s_writers st \<and> s_closed (cache_remove e st) = s_closed st"
proof -
  let ?st = "cache_remove e st"
  note i = assms(1)[unfolded store_inv_def]
  note k = store_inv_entries[OF assms(1)]
  have wf: "distinct (map fst (entries st))" using i by (simp add: gm_wf_def)
  note sp = delete_split[OF wf k(2)[OF assms(2)]]
  have ents: "entries ?st = AList.delete (e_key e) (entries st)" by (simp add: cache_remove_def)
  have ms: "mset (entry_list st) = add_mset e (mset (entry_list ?st))"
    using sp by (simp add: entry_list_def ents)
  have ord: "mset (order ?st) = mset (entry_list ?st)"
    using i ms by (simp add: cache_remove_def)
  have exp_set: "set (expiry st) = set (entry_list st)" using i by (metis set_mset_mset)
  then have hi: "heap_index (e_key e) (expiry st) < length (expiry st)" "expiry st ! heap_index (e_key e) (expiry st) = e"
    using heap_index_nth[of e "expiry st"] assms(2) k(3) by simp_all
  from i have hp: "heap_on e_expires (expiry st) (length (expiry st))" by blast
  from heap_remove_ok[OF hp hi(1)] hi(2) have
    h: "heap_on e_expires (expiry ?st) (length (expiry ?st))" "mset (expiry ?st) = mset (expiry st) - {#e#}"
    by (simp_all add: cache_remove_def)
  have exp: "mset (expiry ?st) = mset (entry_list ?st)" using h(2) i ms by simp
  have bytes: "s_bytes ?st = (\<Sum>e\<leftarrow>entry_list ?st. e_cost e)"
  proof -
    have "(\<Sum>e\<leftarrow>entry_list st. e_cost e) = e_cost e + (\<Sum>e\<leftarrow>entry_list ?st. e_cost e)"
      using ms by (metis image_mset_add_mset mset_map sum_mset.add_mset sum_mset_sum_list)
    moreover have "s_bytes st = (\<Sum>e\<leftarrow>entry_list st. e_cost e)" using i by blast
    moreover have "s_bytes ?st = s_bytes st - e_cost e" by (simp add: cache_remove_def)
    ultimately show ?thesis by linarith
  qed
  have pos: "0 \<le> e_cost e" using i k(2)[OF assms(2)] by (auto dest!: map_of_SomeD)
  have sub: "set (entries ?st) \<subseteq> set (entries st)" by (auto simp: ents AList.delete_eq)
  have len: "length (entries st) = Suc (length (entries ?st))" using sp ents by simp
  have "store_inv ?st"
    unfolding store_inv_def
  proof (intro conjI)
    show "gm_wf (entries ?st)" using i ents by simp
    show "\<forall>(k, e)\<in>set (entries ?st). e_key e = k \<and> 0 \<le> e_cost e \<and> e_cost e \<le> MaxEntryBytes (limits ?st)"
      using i sub by (auto simp: cache_remove_def)
    show "s_bytes ?st + s_reserved ?st \<le> MaxBytes (limits ?st)" using i pos by (simp add: cache_remove_def)
    show "int (length (entries ?st)) \<le> MaxEntries (limits ?st)" using i len by (simp add: cache_remove_def)
    show "s_closed ?st \<longrightarrow> entries ?st = []" using i by (simp add: cache_remove_def)
  qed (use i ord exp h bytes in \<open>simp_all add: cache_remove_def\<close>)
  then show ?thesis using ms len by (simp add: cache_remove_def)
qed


text \<open>What an operation that only evicts leaves alone.\<close>

definition only_evicts :: "'k store \<Rightarrow> 'k store \<Rightarrow> bool" where
  "only_evicts st st' \<longleftrightarrow> limits st' = limits st \<and> s_writers st' = s_writers st \<and> s_closed st' = s_closed st \<and>
     s_reserved st' = s_reserved st \<and> length (entries st') \<le> length (entries st) \<and>
     (\<forall>k e. gm_get (entries st') k = Some e \<longrightarrow> gm_get (entries st) k = Some e)"

lemma only_evicts_refl [simp]: "only_evicts st st"
  by (simp add: only_evicts_def)

lemma only_evicts_trans: "only_evicts a b \<Longrightarrow> only_evicts b c \<Longrightarrow> only_evicts a c"
  unfolding only_evicts_def by (metis le_trans)

lemma cache_remove_evicts: "store_inv st \<Longrightarrow> e \<in> set (entry_list st) \<Longrightarrow> only_evicts st (cache_remove e st)"
  using cache_remove_inv[of st e] unfolding only_evicts_def by (auto split: if_splits)

lemma in_order_in_entries: "store_inv st \<Longrightarrow> e \<in> set (order st) \<Longrightarrow> e \<in> set (entry_list st)"
  unfolding store_inv_def by (metis set_mset_mset)

lemma reserve_loop_inv:
  assumes "store_inv st" "reserve_loop cost p st = (st', ok)"
  shows "store_inv st' \<and> only_evicts st st' \<and> gm_get (entries st') p = gm_get (entries st) p \<and>
    (ok \<longrightarrow> s_bytes st' + s_reserved st' + cost \<le> MaxBytes (limits st'))"
  using assms
proof (induction cost p st rule: reserve_loop.induct)
  case (1 cost p st)
  show ?case
  proof (cases "s_bytes st + s_reserved st + cost > MaxBytes (limits st)")
    case True
    show ?thesis
    proof (cases "candidate p st")
      case None
      then show ?thesis using 1(2,3) True by (simp add: reserve_loop.simps[of cost p st])
    next
      case (Some e)
      have e: "e \<in> set (entry_list st)" by (rule in_order_in_entries[OF 1(2) candidate_in_order[OF Some]])
      have ep: "e_key e \<noteq> p" using Some by (auto simp: candidate_def find_Some_iff)
      from 1(3) True Some have r: "reserve_loop cost p (cache_remove e st) = (st', ok)"
        by (simp add: reserve_loop.simps[of cost p st])
      note rm = cache_remove_inv[OF 1(2) e]
      from 1(1)[OF True Some conjunct1[OF rm] r] rm ep cache_remove_evicts[OF 1(2) e] show ?thesis
        using only_evicts_trans by auto
    qed
  next
    case False
    then show ?thesis using 1(2,3) by (simp add: reserve_loop.simps[of cost p st])
  qed
qed

lemma store_inv_reserved:
  "store_inv st \<Longrightarrow> 0 \<le> r \<Longrightarrow> s_bytes st + r \<le> MaxBytes (limits st) \<Longrightarrow> store_inv (st\<lparr>s_reserved := r\<rparr>)"
  "store_inv st \<Longrightarrow> store_inv (st\<lparr>s_writers := w\<rparr>)"
  by (simp_all add: store_inv_def entry_list_def)

lemma reserve_inv:
  assumes "store_inv st" "0 \<le> cost" "reserve cost p st = (st', ok)"
  shows "store_inv st' \<and> limits st' = limits st \<and> s_writers st' = s_writers st \<and> s_closed st' = s_closed st \<and>
    s_reserved st' = s_reserved st + (if ok then cost else 0) \<and> gm_get (entries st') p = gm_get (entries st) p \<and>
    (\<forall>k e. gm_get (entries st') k = Some e \<longrightarrow> gm_get (entries st) k = Some e)"
proof -
  obtain s1 ok1 where l: "reserve_loop cost p st = (s1, ok1)" by fastforce
  note i = reserve_loop_inv[OF assms(1) l]
  have f: "store_inv s1" "limits s1 = limits st" "s_writers s1 = s_writers st" "s_closed s1 = s_closed st"
    "s_reserved s1 = s_reserved st" "gm_get (entries s1) p = gm_get (entries st) p"
    "\<forall>k e. gm_get (entries s1) k = Some e \<longrightarrow> gm_get (entries st) k = Some e"
    using i unfolding only_evicts_def by blast+
  have r: "0 \<le> s_reserved s1" using f(1) by (simp add: store_inv_def)
  show ?thesis
  proof (cases ok1)
    case True
    then have room: "s_bytes s1 + (s_reserved s1 + cost) \<le> MaxBytes (limits s1)" using i by simp
    then have "reserve cost p st = (s1\<lparr>s_reserved := s_reserved s1 + cost\<rparr>, True)" using True by (simp add: reserve_def l)
    then have e: "st' = s1\<lparr>s_reserved := s_reserved s1 + cost\<rparr>" "ok" using assms(3) by simp_all
    have sinv: "store_inv (s1\<lparr>s_reserved := s_reserved s1 + cost\<rparr>)"
      using store_inv_reserved(1)[OF f(1) _ room] r assms(2) by simp
    show ?thesis unfolding e(1) by (intro conjI) (auto simp: f(2-6) e(2) sinv[unfolded f(5)] intro: f(7)[rule_format])
  next
    case False
    then have e: "st' = s1" "\<not> ok" using assms(3) by (auto simp: reserve_def l)
    show ?thesis unfolding e(1) by (intro conjI) (auto simp: f(1-6) e(2) intro: f(7)[rule_format])
  qed
qed

lemma evict_loop_inv:
  assumes "store_inv st"
  shows "\<exists>st'. evict_loop st = Some st' \<and> store_inv st' \<and> only_evicts st st' \<and> int (length (entries st')) < MaxEntries (limits st')"
  using assms
proof (induction st rule: evict_loop.induct)
  case (1 st)
  show ?case
  proof (cases "int (length (entries st)) \<ge> MaxEntries (limits st)")
    case True
    then have "entries st \<noteq> []" using 1(2) by (auto simp: store_inv_def)
    moreover have "length (order st) = length (entries st)"
      using 1(2) by (metis entry_list_def length_map size_mset store_inv_def)
    ultimately have ne: "order st \<noteq> []" by auto
    let ?e = "last (order st)"
    have e: "?e \<in> set (entry_list st)" using in_order_in_entries[OF 1(2)] ne by simp
    have rm: "store_inv (cache_remove ?e st)" using cache_remove_inv[OF 1(2) e] by blast
    from 1(1)[OF True ne rm] obtain st' where st': "evict_loop (cache_remove ?e st) = Some st'" "store_inv st'"
      "only_evicts (cache_remove ?e st) st'" "int (length (entries st')) < MaxEntries (limits st')" by blast
    then show ?thesis using True ne only_evicts_trans[OF cache_remove_evicts[OF 1(2) e]]
      by (simp add: evict_loop.simps[of st])
  next
    case False
    then show ?thesis using 1(2) by (simp add: evict_loop.simps[of st])
  qed
qed

lemma update_fresh: "map_of m k = None \<Longrightarrow> AList.update k v m = m @ [(k, v)]"
  by (induction m) (auto split: if_splits)

lemma cache_insert_inv:
  assumes "store_inv st" "gm_get (entries st) (e_key e) = None" "int (length (entries st)) < MaxEntries (limits st)"
    "0 \<le> e_cost e" "e_cost e \<le> MaxEntryBytes (limits st)" "e_cost e \<le> s_reserved st" "\<not> s_closed st"
  shows "store_inv (cache_insert e st)"
proof -
  let ?st = "cache_insert e st"
  note i = assms(1)[unfolded store_inv_def]
  have ents: "entries ?st = entries st @ [(e_key e, e)]" using update_fresh[OF assms(2)] by (simp add: cache_insert_def)
  then have el: "entry_list ?st = entry_list st @ [e]" by (simp add: entry_list_def)
  from i have hp: "heap_on e_expires (expiry st) (length (expiry st))" by blast
  note h = heap_push_ok[OF hp, of e]
  show ?thesis
    unfolding store_inv_def
  proof (intro conjI)
    have "e_key e \<notin> set (map fst (entries st))" using assms(2) by (simp add: map_of_eq_None_iff)
    then show "gm_wf (entries ?st)" using i by (auto simp: ents gm_wf_def)
    show "\<forall>(k, e)\<in>set (entries ?st). e_key e = k \<and> 0 \<le> e_cost e \<and> e_cost e \<le> MaxEntryBytes (limits ?st)"
      unfolding ents using i assms(4,5) by (auto simp: cache_insert_def)
    show "mset (order ?st) = mset (entry_list ?st)" using i by (simp add: el) (simp add: cache_insert_def)
    show "mset (expiry ?st) = mset (entry_list ?st)" using i h(2) by (simp add: el) (simp add: cache_insert_def)
    show "heap_on e_expires (expiry ?st) (length (expiry ?st))" using h by (simp add: cache_insert_def)
    show "s_bytes ?st = (\<Sum>e\<leftarrow>entry_list ?st. e_cost e)" using i by (simp add: el) (simp add: cache_insert_def)
    show "0 \<le> s_reserved ?st" "s_bytes ?st + s_reserved ?st \<le> MaxBytes (limits ?st)" using i assms(6) by (simp_all add: cache_insert_def)
    show "1 \<le> MaxEntries (limits ?st)" "MaxEntryBytes (limits ?st) \<le> MaxBytes (limits ?st)" using i by (simp_all add: cache_insert_def)
    show "int (length (entries ?st)) \<le> MaxEntries (limits ?st)" using assms(3) by (simp add: ents) (simp add: cache_insert_def)
    show "s_closed ?st \<longrightarrow> entries ?st = []" using assms(7) by (simp add: cache_insert_def)
  qed
qed


subsection \<open>The cache in use\<close>

text \<open>The store, every writer ever begun, and (history) what was last committed for each digest.\<close>

record 'k cache_sys =
  y_store :: "'k store"
  y_writers :: "'k mwriter list"
  y_last :: "'k \<Rightarrow> (cache_row list \<times> int) option"

inductive cache_step :: "('q \<Rightarrow> cache_err + 'k) \<Rightarrow> 'k cache_sys \<Rightarrow> 'k cache_sys \<Rightarrow> bool" for digest where
  do_lookup: "cache_Lookup digest c key now (y_store y) = (st, r) \<Longrightarrow> cache_step digest y (y\<lparr>y_store := st\<rparr>)"
| do_begin: "cache_Begin digest c key (y_store y) = (st, Inr w) \<Longrightarrow>
    cache_step digest y (y\<lparr>y_store := st, y_writers := y_writers y @ [w]\<rparr>)"
| begin_fails: "cache_Begin digest c key (y_store y) = (st, Inl e) \<Longrightarrow> cache_step digest y (y\<lparr>y_store := st\<rparr>)"
| do_append: "i < length (y_writers y) \<Longrightarrow> cache_Append c row (y_writers y ! i) (y_store y) = (st, w, e) \<Longrightarrow>
    cache_step digest y (y\<lparr>y_store := st, y_writers := (y_writers y)[i := w]\<rparr>)"
| do_commit: "i < length (y_writers y) \<Longrightarrow> cache_Commit cc expires (y_writers y ! i) (y_store y) = Some (st, w, None) \<Longrightarrow>
    cache_step digest y (y\<lparr>y_store := st, y_writers := (y_writers y)[i := w],
      y_last := (y_last y)(w_key w \<mapsto> (w_rows (y_writers y ! i), expires))\<rparr>)"
| do_abort: "i < length (y_writers y) \<Longrightarrow> cache_Abort (y_writers y ! i) (y_store y) = (st, w) \<Longrightarrow>
    cache_step digest y (y\<lparr>y_store := st, y_writers := (y_writers y)[i := w]\<rparr>)"
| do_collect: "cache_Collect cs now (y_store y) = (st, n, e) \<Longrightarrow> cache_step digest y (y\<lparr>y_store := st\<rparr>)"
| do_close: "cache_step digest y (y\<lparr>y_store := cache_close (y_store y)\<rparr>)"

definition open_cost :: "'k mwriter \<Rightarrow> int" where
  "open_cost w = (if w_finished w then 0 else w_cost w)"

definition writer_ok :: "int \<Rightarrow> 'k mwriter \<Rightarrow> bool" where
  "writer_ok m w \<longleftrightarrow> (\<not> w_finished w \<longrightarrow> w_cost w = initialCost + (\<Sum>row\<leftarrow>w_rows w. full_cost (CMap row)) \<and> w_cost w \<le> m)"

definition cache_inv :: "'k cache_sys \<Rightarrow> bool" where
  "cache_inv y \<longleftrightarrow> store_inv (y_store y) \<and> s_reserved (y_store y) = (\<Sum>w\<leftarrow>y_writers y. open_cost w) \<and>
     s_writers (y_store y) = int (length (filter (\<lambda>w. \<not> w_finished w) (y_writers y))) \<and>
     s_writers (y_store y) \<le> MaxEntries (limits (y_store y)) \<and>
     (\<forall>w\<in>set (y_writers y). writer_ok (MaxEntryBytes (limits (y_store y))) w) \<and>
     (\<forall>k e. gm_get (entries (y_store y)) k = Some e \<longrightarrow> y_last y k = Some (e_rows e, e_expires e))"

lemma cache_invD:
  assumes "cache_inv y"
  shows "store_inv (y_store y)" "s_reserved (y_store y) = (\<Sum>w\<leftarrow>y_writers y. open_cost w)"
    "s_writers (y_store y) = int (length (filter (\<lambda>w. \<not> w_finished w) (y_writers y)))"
    "s_writers (y_store y) \<le> MaxEntries (limits (y_store y))"
    "\<And>w. w \<in> set (y_writers y) \<Longrightarrow> writer_ok (MaxEntryBytes (limits (y_store y))) w"
    "\<And>k e. gm_get (entries (y_store y)) k = Some e \<Longrightarrow> y_last y k = Some (e_rows e, e_expires e)"
  using assms by (auto simp: cache_inv_def)

lemma writer_ok_cost: "writer_ok m w \<Longrightarrow> 0 \<le> open_cost w"
proof -
  have "0 \<le> (\<Sum>row\<leftarrow>w_rows w. full_cost (CMap row))"
    by (intro sum_list_nonneg) (auto simp del: full_cost.simps intro: order_trans[OF _ full_cost_pos])
  then show "writer_ok m w \<Longrightarrow> 0 \<le> open_cost w" by (auto simp: writer_ok_def open_cost_def initialCost_def)
qed

lemma sum_list_map_update:
  "i < length xs \<Longrightarrow> (\<Sum>x\<leftarrow>xs[i := y]. g x) = (\<Sum>x\<leftarrow>xs. g x) + g y - (g (xs ! i) :: int)"
proof (induction xs arbitrary: i)
  case (Cons x xs)
  then show ?case by (cases i) auto
qed simp

lemma elem_le_sum: "i < length xs \<Longrightarrow> (\<And>x. x \<in> set xs \<Longrightarrow> 0 \<le> (g x :: int)) \<Longrightarrow> g (xs ! i) \<le> (\<Sum>x\<leftarrow>xs. g x)"
proof (induction xs arbitrary: i)
  case (Cons x xs)
  have "0 \<le> (\<Sum>x\<leftarrow>xs. g x)" using Cons.prems(2) by (intro sum_list_nonneg) auto
  moreover have "0 \<le> g x" using Cons.prems(2)[of x] by simp
  ultimately show ?case using Cons.IH[of "i - 1"] Cons.prems by (cases i) force+
qed simp

text \<open>A step that changes the store only by evicting keeps everything else.\<close>

lemma store_changes_inv:
  assumes "cache_inv y" "store_inv st" "only_evicts (y_store y) st"
  shows "cache_inv (y\<lparr>y_store := st\<rparr>)"
proof -
  have f: "limits st = limits (y_store y)" "s_writers st = s_writers (y_store y)" "s_reserved st = s_reserved (y_store y)"
    "\<And>k e. gm_get (entries st) k = Some e \<Longrightarrow> gm_get (entries (y_store y)) k = Some e"
    using assms(3) unfolding only_evicts_def by blast+
  show ?thesis
    unfolding cache_inv_def using cache_invD[OF assms(1)] assms(2) f(4)
    by (simp add: f(1-3))
qed

lemma collect_loop_inv:
  assumes "store_inv st" "collect_loop cs now n st = (st', m, er)"
  shows "store_inv st' \<and> only_evicts st st' \<and> m + length (entries st') = n + length (entries st) \<and>
    (\<forall>k e. gm_get (entries st) k = Some e \<and> now < e_expires e \<longrightarrow> gm_get (entries st') k = Some e) \<and>
    (er = None \<longrightarrow> (\<forall>k e. gm_get (entries st') k = Some e \<longrightarrow> now < e_expires e)) \<and>
    (er \<noteq> None \<longrightarrow> (\<exists>j. cs j))"
  using assms
proof (induction cs now n st rule: collect_loop.induct)
  case (1 cs now n st)
  have exp_set: "set (expiry st) = set (entry_list st)" using 1(2) unfolding store_inv_def by (metis set_mset_mset)
  show ?case
  proof (cases "expiry st")
    case Nil
    then have "entry_list st = []" using exp_set by simp
    then show ?thesis using 1(2,3) Nil by (auto simp: collect_loop.simps[of cs now n st] entry_list_def)
  next
    case (Cons e rest)
    have hp: "heap_on e_expires (expiry st) (length (expiry st))" using 1(2) unfolding store_inv_def by blast
    have front: "e_expires e \<le> e_expires x" if "x \<in> set (expiry st)" for x
    proof -
      obtain m where m: "m < length (expiry st)" "expiry st ! m = x" using \<open>x \<in> set (expiry st)\<close> by (auto simp: in_set_conv_nth)
      show ?thesis using heap_front_least[OF hp m(1)] m(2) Cons by simp
    qed
    have e: "e \<in> set (entry_list st)" using exp_set Cons by auto
    consider "now < e_expires e" | "\<not> now < e_expires e" "cs (Suc n)" | "\<not> now < e_expires e" "\<not> cs (Suc n)" by blast
    then show ?thesis
    proof cases
      case c: 1
      have "now < e_expires x" if "gm_get (entries st) k = Some x" for k x
        using front[of x] store_inv_entries(1)[OF 1(2) that] exp_set c by auto
      then show ?thesis using 1(2,3) Cons c by (auto simp: collect_loop.simps[of cs now n st])
    next
      case 2
      then show ?thesis using 1(2,3) Cons by (auto simp: collect_loop.simps[of cs now n st])
    next
      case 3
      then have r: "collect_loop cs now (Suc n) (cache_remove e st) = (st', m, er)"
        using 1(3) Cons by (simp add: collect_loop.simps[of cs now n st])
      note rm = cache_remove_inv[OF 1(2) e]
      note ih = 1(1)[OF Cons 3(1,2) conjunct1[OF rm] r]
      have keep: "gm_get (entries (cache_remove e st)) k = Some x" if "gm_get (entries st) k = Some x" "now < e_expires x" for k x
        using that 3(1) rm store_inv_entries(2)[OF 1(2) e] by auto
      have "only_evicts st st'" using ih only_evicts_trans[OF cache_remove_evicts[OF 1(2) e]] by blast
      moreover have "m + length (entries st') = n + length (entries st)" using ih rm by simp
      ultimately show ?thesis using ih keep by blast
    qed
  qed
qed


lemma lookup_inv:
  assumes "store_inv st" "cache_Lookup digest c key now st = (st', r)"
  shows "store_inv st' \<and> only_evicts st st'"
proof -
  consider (same) "st' = st"
    | (expired) e where "st' = cache_remove e st" "e \<in> set (entry_list st)"
    | (hit) e where "st' = st\<lparr>order := e # remove1 e (order st)\<rparr>" "e \<in> set (entry_list st)"
    using assms(2) store_inv_entries(1)[OF assms(1)]
    by (auto simp: cache_Lookup_def split: if_splits sum.splits option.splits)
  then show ?thesis
  proof cases
    case same
    then show ?thesis using assms(1) by simp
  next
    case expired
    then show ?thesis using cache_remove_inv[OF assms(1), of e] cache_remove_evicts[OF assms(1), of e] by blast
  next
    case hit
    have "e \<in># mset (order st)" using hit(2) assms(1) by (simp add: store_inv_def)
    then have "mset (e # remove1 e (order st)) = mset (order st)" by simp
    then have "store_inv st'" using assms(1) hit(1) by (simp add: store_inv_def entry_list_def)
    then show ?thesis using hit(1) by (simp add: only_evicts_def)
  qed
qed

lemma filter_open_update:
  "i < length xs \<Longrightarrow> int (length (filter (\<lambda>w. \<not> w_finished w) (xs[i := y]))) =
     int (length (filter (\<lambda>w. \<not> w_finished w) xs)) + of_bool (\<not> w_finished y) - of_bool (\<not> w_finished (xs ! i))"
proof (induction xs arbitrary: i)
  case (Cons x xs)
  then show ?case using Cons.IH[of "i - 1"] by (cases i) auto
qed simp

text \<open>Replacing one writer and the store, whichever operation does it.\<close>

lemma writer_changes_inv:
  assumes "cache_inv y" "i < length (y_writers y)" "store_inv st" "limits st = limits (y_store y)"
    "s_reserved st = s_reserved (y_store y) + open_cost w - open_cost (y_writers y ! i)"
    "s_writers st = s_writers (y_store y) + of_bool (\<not> w_finished w) - of_bool (\<not> w_finished (y_writers y ! i))"
    "s_writers st \<le> s_writers (y_store y)"
    "writer_ok (MaxEntryBytes (limits st)) w"
    "\<And>k e. gm_get (entries st) k = Some e \<Longrightarrow> l k = Some (e_rows e, e_expires e)"
  shows "cache_inv (y\<lparr>y_store := st, y_writers := (y_writers y)[i := w], y_last := l\<rparr>)"
proof -
  note i = cache_invD[OF assms(1)]
  have "\<forall>x\<in>set ((y_writers y)[i := w]). writer_ok (MaxEntryBytes (limits st)) x"
    using i(5) assms(4,8) by (auto dest!: set_update_subset_insert[THEN subsetD])
  moreover have "s_reserved st = (\<Sum>w\<leftarrow>(y_writers y)[i := w]. open_cost w)"
    using sum_list_map_update[OF assms(2), of open_cost w] i(2) assms(5) by simp
  moreover have "s_writers st = int (length (filter (\<lambda>w. \<not> w_finished w) ((y_writers y)[i := w])))"
    using filter_open_update[OF assms(2), of w] i(3) assms(6) by simp
  moreover have "s_writers st \<le> MaxEntries (limits st)" using i(4) assms(4,7) by simp
  ultimately show ?thesis unfolding cache_inv_def using assms(3,9) by simp
qed

lemma append_cache_inv:
  assumes "cache_inv y" "i < length (y_writers y)" "cache_Append c row (y_writers y ! i) (y_store y) = (st, w, e)"
  shows "cache_inv (y\<lparr>y_store := st, y_writers := (y_writers y)[i := w]\<rparr>)"
proof -
  let ?w = "y_writers y ! i" and ?st = "y_store y"
  note v = cache_invD[OF assms(1)]
  have wok: "writer_ok (MaxEntryBytes (limits ?st)) ?w" using v(5) assms(2) by simp
  consider (same) "st = ?st" "w = ?w"
    | (tried) cost ok where "valueCost (CMap row) 0 (MaxEntryBytes (limits ?st) - w_cost ?w) = Inr cost" "\<not> w_finished ?w"
        "reserve cost (w_key ?w) ?st = (st, ok)"
        "w = (if ok then ?w\<lparr>w_cost := w_cost ?w + cost, w_rows := w_rows ?w @ [clone_row row]\<rparr> else ?w)"
    using assms(3) by (auto simp: cache_Append_def split: if_splits sum.splits prod.splits bool.splits)
  then show ?thesis
  proof cases
    case same
    then show ?thesis using assms(1) by simp
  next
    case tried
    from tried(1) have cost: "cost = full_cost (CMap row)" "full_cost (CMap row) \<le> MaxEntryBytes (limits ?st) - w_cost ?w"
      unfolding valueCost_iff by auto
    then have pos: "0 \<le> cost" using full_cost_pos[of "CMap row"] by linarith
    note r = reserve_inv[OF v(1) pos tried(3)]
    have lim: "limits st = limits ?st" using r by blast
    have "cache_inv (y\<lparr>y_store := st, y_writers := (y_writers y)[i := w], y_last := y_last y\<rparr>)"
    proof (rule writer_changes_inv[OF assms(1,2)])
      show "store_inv st" "limits st = limits ?st" using r by blast+
      show "s_reserved st = s_reserved ?st + open_cost w - open_cost ?w"
        using r tried(2,4) by (auto simp: open_cost_def)
      show "s_writers st = s_writers ?st + of_bool (\<not> w_finished w) - of_bool (\<not> w_finished ?w)" "s_writers st \<le> s_writers ?st"
        using r tried(4) by auto
      show "writer_ok (MaxEntryBytes (limits st)) w"
        using wok tried(2,4) cost lim by (auto simp: writer_ok_def simp del: full_cost.simps)
      show "y_last y k = Some (e_rows e, e_expires e)" if "gm_get (entries st) k = Some e" for k e
        using r that v(6) by blast
    qed
    then show ?thesis by simp
  qed
qed


lemma commit_result:
  assumes "cache_inv y" "i < length (y_writers y)" "\<not> w_finished (y_writers y ! i)" "\<not> s_closed (y_store y)"
  defines "w \<equiv> y_writers y ! i"
  shows "\<exists>st2. cache_Commit (False, False) expires w (y_store y) =
      Some (cache_insert \<lparr>e_key = w_key w, e_rows = w_rows w, e_cost = w_cost w, e_expires = expires\<rparr> st2,
        w\<lparr>w_finished := True, w_rows := []\<rparr>, None) \<and>
    store_inv (cache_insert \<lparr>e_key = w_key w, e_rows = w_rows w, e_cost = w_cost w, e_expires = expires\<rparr> st2) \<and>
    only_evicts (y_store y) st2"
proof -
  let ?st = "y_store y" and ?e = "\<lparr>e_key = w_key w, e_rows = w_rows w, e_cost = w_cost w, e_expires = expires\<rparr>"
  note v = cache_invD[OF assms(1)]
  have wok: "writer_ok (MaxEntryBytes (limits ?st)) w" using v(5) assms(2) by (simp add: w_def)
  have wc: "0 \<le> w_cost w" "w_cost w \<le> MaxEntryBytes (limits ?st)" "w_cost w \<le> s_reserved ?st"
    using writer_ok_cost[OF wok] wok assms(3) elem_le_sum[OF assms(2), of open_cost] writer_ok_cost[OF v(5)] v(2)
    by (auto simp: writer_ok_def open_cost_def w_def)
  define st1 where "st1 = (case gm_get (entries ?st) (w_key w) of None \<Rightarrow> ?st | Some old \<Rightarrow> cache_remove old ?st)"
  have st1: "store_inv st1" "only_evicts ?st st1" "gm_get (entries st1) (w_key w) = None"
  proof (atomize (full), cases "gm_get (entries ?st) (w_key w)")
    case None
    then show "store_inv st1 \<and> only_evicts ?st st1 \<and> gm_get (entries st1) (w_key w) = None" using v(1) by (simp add: st1_def)
  next
    case (Some old)
    from store_inv_entries(1)[OF v(1) Some] have old: "old \<in> set (entry_list ?st)" "e_key old = w_key w" by auto
    then show "store_inv st1 \<and> only_evicts ?st st1 \<and> gm_get (entries st1) (w_key w) = None"
      using cache_remove_inv[OF v(1) old(1)] cache_remove_evicts[OF v(1) old(1)] Some by (simp add: st1_def)
  qed
  from evict_loop_inv[OF st1(1)] obtain st2 where st2: "evict_loop st1 = Some st2" "store_inv st2" "only_evicts st1 st2"
    "int (length (entries st2)) < MaxEntries (limits st2)" by blast
  have o: "only_evicts ?st st2" using only_evicts_trans[OF st1(2) st2(3)] .
  have "gm_get (entries st2) (w_key w) = None" using st1(3) st2(3) unfolding only_evicts_def by (metis option.exhaust option.distinct(1))
  then have "store_inv (cache_insert ?e st2)"
    using st2(2,4) o wc assms(4) by (intro cache_insert_inv) (auto simp: only_evicts_def)
  moreover have "cache_Commit (False, False) expires w ?st =
      Some (cache_insert ?e st2, w\<lparr>w_finished := True, w_rows := []\<rparr>, None)"
    using assms(3,4) st2(1) unfolding cache_Commit_def Let_def st1_def[symmetric] by (simp add: w_def)
  ultimately show ?thesis using o by blast
qed

lemma commit_cases:
  assumes "cache_Commit cc expires w st = Some (st', w', e)"
  shows "st' = st \<and> w' = w \<and> e \<noteq> None \<or>
    e = None \<and> \<not> w_finished w \<and> \<not> s_closed st \<and> cache_Commit (False, False) expires w st = Some (st', w', e)"
  using assms unfolding cache_Commit_def by (auto simp: Let_def split: if_splits option.splits)

lemma commit_cache_inv:
  assumes "cache_inv y" "i < length (y_writers y)" "cache_Commit cc expires (y_writers y ! i) (y_store y) = Some (st, w, None)"
  shows "cache_inv (y\<lparr>y_store := st, y_writers := (y_writers y)[i := w],
      y_last := (y_last y)(w_key w \<mapsto> (w_rows (y_writers y ! i), expires))\<rparr>)"
proof -
  let ?w = "y_writers y ! i" and ?st = "y_store y"
  let ?e = "\<lparr>e_key = w_key ?w, e_rows = w_rows ?w, e_cost = w_cost ?w, e_expires = expires\<rparr>"
  note v = cache_invD[OF assms(1)]
  from commit_cases[OF assms(3)] have fresh: "\<not> w_finished ?w" "\<not> s_closed ?st"
    "cache_Commit (False, False) expires ?w ?st = Some (st, w, None)" by auto
  from commit_result[OF assms(1,2) fresh(1,2), of expires] fresh(3) obtain st2 where
    c: "st = cache_insert ?e st2" "w = ?w\<lparr>w_finished := True, w_rows := []\<rparr>" "store_inv st" "only_evicts ?st st2" by auto
  have o: "limits st2 = limits ?st" "s_writers st2 = s_writers ?st" "s_reserved st2 = s_reserved ?st"
    "\<And>k e. gm_get (entries st2) k = Some e \<Longrightarrow> gm_get (entries ?st) k = Some e"
    using c(4) unfolding only_evicts_def by blast+
  show ?thesis
  proof (rule writer_changes_inv[OF assms(1,2) c(3)])
    show "limits st = limits ?st" "s_writers st \<le> s_writers ?st" by (simp_all add: c(1) cache_insert_def o)
    show "s_reserved st = s_reserved ?st + open_cost w - open_cost ?w"
      using fresh(1) by (simp add: c(1,2) cache_insert_def o open_cost_def)
    show "s_writers st = s_writers ?st + of_bool (\<not> w_finished w) - of_bool (\<not> w_finished ?w)"
      using fresh(1) by (simp add: c(1,2) cache_insert_def o)
    show "writer_ok (MaxEntryBytes (limits st)) w" by (simp add: c(2) writer_ok_def)
    show "((y_last y)(w_key w \<mapsto> (w_rows ?w, expires))) k = Some (e_rows e, e_expires e)"
      if "gm_get (entries st) k = Some e" for k e
      using that v(6) o(4)[of k e] by (auto simp: c(1,2) cache_insert_def split: if_splits)
  qed
qed

lemma abort_cache_inv:
  assumes "cache_inv y" "i < length (y_writers y)" "cache_Abort (y_writers y ! i) (y_store y) = (st, w)"
  shows "cache_inv (y\<lparr>y_store := st, y_writers := (y_writers y)[i := w]\<rparr>)"
proof (cases "w_finished (y_writers y ! i)")
  case True
  then have "st = y_store y" "w = y_writers y ! i" using assms(3) by (simp_all add: cache_Abort_def)
  then show ?thesis using assms(1) by simp
next
  case False
  let ?w = "y_writers y ! i" and ?st = "y_store y"
  note v = cache_invD[OF assms(1)]
  have c: "st = ?st\<lparr>s_reserved := s_reserved ?st - w_cost ?w, s_writers := s_writers ?st - 1\<rparr>"
    "w = ?w\<lparr>w_finished := True, w_rows := []\<rparr>" using assms(3) False by (auto simp: cache_Abort_def)
  have "open_cost ?w \<le> s_reserved ?st" "0 \<le> open_cost ?w"
    using elem_le_sum[OF assms(2), of open_cost] writer_ok_cost[OF v(5)] v(2) nth_mem[OF assms(2)] by auto
  then have "w_cost ?w \<le> s_reserved ?st" "0 \<le> w_cost ?w" using False by (simp_all add: open_cost_def)
  then have "store_inv (?st\<lparr>s_reserved := s_reserved ?st - w_cost ?w\<rparr>)"
    using v(1) by (intro store_inv_reserved(1)) (auto simp: store_inv_def)
  then have "store_inv st" using store_inv_reserved(2) c(1) by fastforce
  then have "cache_inv (y\<lparr>y_store := st, y_writers := (y_writers y)[i := w], y_last := y_last y\<rparr>)"
    using v(6) False by (intro writer_changes_inv[OF assms(1,2)]) (auto simp: c open_cost_def writer_ok_def)
  then show ?thesis by simp
qed

lemma begin_cases:
  assumes "cache_Begin digest c key st = (st1, r)"
  obtains (same) e where "st1 = st" "r = Inl e"
    | (tried) k st' ok where "s_writers st < MaxEntries (limits st)" "initialCost \<le> MaxEntryBytes (limits st)"
       "reserve initialCost k st = (st', ok)"
       "st1 = (if ok then st'\<lparr>s_writers := s_writers st' + 1\<rparr> else st')"
       "r = (if ok then Inr \<lparr>w_key = k, w_rows = [], w_cost = initialCost, w_finished = False\<rparr> else Inl ErrCapacity)"
proof (cases "digest key")
  case (Inl e)
  have "st1 = st \<and> (\<exists>e. r = Inl e)" using assms Inl by (cases c) (auto simp: cache_Begin_def)
  then show ?thesis using same by blast
next
  case (Inr k)
  obtain st' ok where rs: "reserve initialCost k st = (st', ok)" by fastforce
  show ?thesis
  proof (cases "c \<or> s_closed st \<or> s_writers st \<ge> MaxEntries (limits st) \<or> initialCost > MaxEntryBytes (limits st)")
    case True
    then have "st1 = st \<and> (\<exists>e. r = Inl e)"
      using assms Inr by (cases c; cases "s_closed st") (auto simp: cache_Begin_def)
    then show ?thesis using same by blast
  next
    case False
    then have "(st1, r) = (if ok then (st'\<lparr>s_writers := s_writers st' + 1\<rparr>,
        Inr \<lparr>w_key = k, w_rows = [], w_cost = initialCost, w_finished = False\<rparr>) else (st', Inl ErrCapacity))"
      using assms Inr rs by (cases ok) (simp_all add: cache_Begin_def)
    then show ?thesis using tried[OF _ _ rs] False by (cases ok) simp_all
  qed
qed

lemma begin_cache_inv:
  assumes "cache_inv y" "cache_Begin digest c key (y_store y) = (st, r)"
  shows "(case r of Inl e \<Rightarrow> cache_inv (y\<lparr>y_store := st\<rparr>)
     | Inr w \<Rightarrow> cache_inv (y\<lparr>y_store := st, y_writers := y_writers y @ [w]\<rparr>))"
proof -
  let ?st = "y_store y"
  note v = cache_invD[OF assms(1)]
  from assms(2) show ?thesis
  proof (cases rule: begin_cases)
    case (same e)
    then show ?thesis using assms(1) by simp
  next
    case (tried k st' ok)
    have "0 \<le> initialCost" by (simp add: initialCost_def)
    note q = reserve_inv[OF v(1) this tried(3)]
    have f: "store_inv st'" "limits st' = limits ?st" "s_writers st' = s_writers ?st"
      "s_reserved st' = s_reserved ?st + (if ok then initialCost else 0)"
      "\<And>k e. gm_get (entries st') k = Some e \<Longrightarrow> gm_get (entries ?st) k = Some e" using q by blast+
    have last: "y_last y k = Some (e_rows e, e_expires e)" if "gm_get (entries st') k = Some e" for k e
      using v(6)[OF f(5)[OF that]] .
    show ?thesis
    proof (cases ok)
      case True
      let ?w = "\<lparr>w_key = k, w_rows = [], w_cost = initialCost, w_finished = False\<rparr>"
      have "store_inv st" using store_inv_reserved(2)[OF f(1)] tried(4) True by simp
      moreover have "open_cost ?w = initialCost" "writer_ok (MaxEntryBytes (limits ?st)) ?w"
        using tried(2) by (simp_all add: open_cost_def writer_ok_def)
      ultimately show ?thesis
        unfolding cache_inv_def tried(5) using v(2-5) f(2-4) tried(1,2,4) True last by auto
    next
      case False
      then show ?thesis unfolding cache_inv_def tried(5) using v(2-5) f(1-4) tried(4) last by auto
    qed
  qed
qed

lemma close_cache_inv:
  assumes "cache_inv y"
  shows "cache_inv (y\<lparr>y_store := cache_close (y_store y)\<rparr>)"
proof -
  note v = cache_invD[OF assms]
  have "\<forall>e\<in>set (entry_list (y_store y)). 0 \<le> e_cost e" using v(1) by (auto simp: store_inv_def entry_list_def)
  then have "0 \<le> (\<Sum>e\<leftarrow>entry_list (y_store y). e_cost e)" by (intro sum_list_nonneg) auto
  then have "0 \<le> s_bytes (y_store y)" using v(1) by (simp add: store_inv_def)
  then have "store_inv (cache_close (y_store y))" using v(1) by (auto simp: store_inv_def cache_close_def entry_list_def heap_on_def)
  then show ?thesis unfolding cache_inv_def using v(2-5) by (simp add: cache_close_def)
qed

lemma cache_step_inv:
  assumes "cache_step digest y y'" "cache_inv y"
  shows "cache_inv y'"
  using assms(1)
proof cases
  case (do_lookup c key now st r)
  then show ?thesis using lookup_inv[OF cache_invD(1)[OF assms(2)] do_lookup(2)] store_changes_inv[OF assms(2)] by simp
next
  case (do_begin c key st w)
  then show ?thesis using begin_cache_inv[OF assms(2) do_begin(2)] by simp
next
  case (begin_fails c key st e)
  then show ?thesis using begin_cache_inv[OF assms(2) begin_fails(2)] by simp
next
  case (do_collect cs now st n e)
  then have "store_inv st \<and> only_evicts (y_store y) st"
    using collect_loop_inv[OF cache_invD(1)[OF assms(2)]] cache_invD(1)[OF assms(2)]
    by (fastforce simp: cache_Collect_def split: if_splits)
  then show ?thesis using store_changes_inv[OF assms(2)] do_collect(1) by simp
next
  case do_close
  then show ?thesis using close_cache_inv[OF assms(2)] by simp
qed (use append_cache_inv commit_cache_inv abort_cache_inv assms(2) in \<open>blast+\<close>)


definition cache_start :: "'k store \<Rightarrow> 'k cache_sys" where
  "cache_start st = \<lparr>y_store = st, y_writers = [], y_last = (\<lambda>_. None)\<rparr>"

lemma NewMemory_inv:
  assumes "NewMemory_cache l = Inr st"
  shows "cache_inv (cache_start st)"
  using assms
  by (auto simp: NewMemory_cache_def cache_inv_def cache_start_def store_inv_def normal_limits_def Let_def entry_list_def heap_on_def
      split: if_splits)

lemma cache_reachable_inv:
  assumes "(cache_step digest)\<^sup>*\<^sup>* (cache_start st) y" "NewMemory_cache l = Inr st"
  shows "cache_inv y"
  using assms(1)
proof (induction rule: rtranclp_induct)
  case base
  show ?case by (rule NewMemory_inv[OF assms(2)])
next
  case (step y y')
  then show ?case using cache_step_inv by blast
qed


definition small_store :: "string store" where
  "small_store = \<lparr>limits = \<lparr>MaxBytes = 1000, MaxEntryBytes = 500, MaxEntries = 2\<rparr>, entries = [], expiry = [], order = [],
     s_bytes = 0, s_reserved = 0, s_writers = 0, s_closed = False\<rparr>"

definition begun :: "string cache_sys" where
  "begun = (case cache_Begin Inr False ''q'' small_store of
     (st, Inr w) \<Rightarrow> \<lparr>y_store = st, y_writers = [w], y_last = (\<lambda>_. None)\<rparr> | _ \<Rightarrow> cache_start small_store)"

lemma small_store_new: "NewMemory_cache \<lparr>MaxBytes = 1000, MaxEntryBytes = 500, MaxEntries = 2\<rparr> = Inr small_store"
  by (simp add: NewMemory_cache_def normal_limits_def Let_def small_store_def)

lemma begun_reachable: "(cache_step Inr)\<^sup>*\<^sup>* (cache_start small_store) begun"
proof -
  have "(case snd (cache_Begin Inr False ''q'' small_store) of Inr w \<Rightarrow> True | Inl e \<Rightarrow> False)" by code_simp
  then obtain st w where b: "cache_Begin Inr False ''q'' small_store = (st, Inr w)"
    by (cases "cache_Begin Inr False ''q'' small_store") (auto split: sum.splits)
  then have "cache_step Inr (cache_start small_store) begun"
    using do_begin[of Inr False "''q''" "cache_start small_store" st w] by (simp add: begun_def cache_start_def)
  then show ?thesis by blast
qed


text \<open>C24: transactions. Committing an open writer of an open cache succeeds and never panics, and a
  lookup at once afterwards gives exactly the rows appended, in order, until the expiry; whatever
  happens later, a lookup never gives anything but the rows last committed for that key, complete,
  and never after their expiry; a commit that fails changes nothing.\<close>

theorem cache_is_transactional:
  assumes "NewMemory_cache l = Inr st0" "(cache_step digest)\<^sup>*\<^sup>* (cache_start st0) y" "digest key = Inr k"
  shows "(snd (cache_Lookup digest c key now (y_store y)) = Inr (Some rows) \<longrightarrow>
      (\<exists>expires. y_last y k = Some (rows, expires) \<and> now < expires)) \<and>
    (i < length (y_writers y) \<and> \<not> w_finished (y_writers y ! i) \<and> \<not> s_closed (y_store y) \<and> w_key (y_writers y ! i) = k \<longrightarrow>
      (\<exists>st w. cache_Commit (False, False) expires (y_writers y ! i) (y_store y) = Some (st, w, None) \<and>
        snd (cache_Lookup digest False key now st) = Inr (if now < expires then Some (w_rows (y_writers y ! i)) else None))) \<and>
    (cache_Commit cc expires (y_writers y ! i) (y_store y) = Some (st', w', Some e) \<longrightarrow> st' = y_store y \<and> w' = y_writers y ! i)"
proof (intro conjI impI)
  have v: "cache_inv y" by (rule cache_reachable_inv[OF assms(2,1)])
  note iv = cache_invD[OF v]
  show "\<exists>expires. y_last y k = Some (rows, expires) \<and> now < expires"
    if "snd (cache_Lookup digest c key now (y_store y)) = Inr (Some rows)"
    using that iv(6)[of k] assms(3) by (auto simp: cache_Lookup_def split: if_splits option.splits)
  show "\<exists>st w. cache_Commit (False, False) expires (y_writers y ! i) (y_store y) = Some (st, w, None) \<and>
        snd (cache_Lookup digest False key now st) = Inr (if now < expires then Some (w_rows (y_writers y ! i)) else None)"
    if "i < length (y_writers y) \<and> \<not> w_finished (y_writers y ! i) \<and> \<not> s_closed (y_store y) \<and> w_key (y_writers y ! i) = k"
  proof -
    let ?w = "y_writers y ! i"
    let ?e = "\<lparr>e_key = w_key ?w, e_rows = w_rows ?w, e_cost = w_cost ?w, e_expires = expires\<rparr>"
    from commit_result[OF v, of i expires] that obtain st2 where
      c: "cache_Commit (False, False) expires ?w (y_store y) =
        Some (cache_insert ?e st2, ?w\<lparr>w_finished := True, w_rows := []\<rparr>, None)" "only_evicts (y_store y) st2" by blast
    have "\<not> s_closed (cache_insert ?e st2)" using c(2) that by (simp add: cache_insert_def only_evicts_def)
    moreover have "gm_get (entries (cache_insert ?e st2)) k = Some ?e" using that by (simp add: cache_insert_def)
    ultimately have "snd (cache_Lookup digest False key now (cache_insert ?e st2)) =
      Inr (if now < expires then Some (w_rows ?w) else None)" using assms(3) by (simp add: cache_Lookup_def)
    with c(1) show ?thesis by blast
  qed
  show "st' = y_store y" "w' = y_writers y ! i"
    if "cache_Commit cc expires (y_writers y ! i) (y_store y) = Some (st', w', Some e)"
    using commit_cases[OF that] by auto
qed

theorem cache_is_transactional_witness:
  "\<exists>st w. cache_Commit (False, False) 10 (y_writers begun ! 0) (y_store begun) = Some (st, w, None) \<and>
     snd (cache_Lookup Inr False ''q'' 5 st) = Inr (Some [])"
proof -
  have e: "length (y_writers begun) = 1" "\<not> w_finished (y_writers begun ! 0)" "\<not> s_closed (y_store begun)"
    "w_key (y_writers begun ! 0) = ''q''" "w_rows (y_writers begun ! 0) = []" by code_simp+
  from cache_is_transactional[OF small_store_new begun_reachable, of "''q''" "''q''" False 5 "[]" 0 10] e show ?thesis by auto
qed


text \<open>Collection. A collection that is not cancelled removes exactly the expired entries, keeps
  every other one, and reports how many it removed; cancelled half-way, it still removes nothing
  that has not expired.\<close>

theorem collect_removes_expired:
  assumes "NewMemory_cache l = Inr st0" "(cache_step digest)\<^sup>*\<^sup>* (cache_start st0) y" "\<not> s_closed (y_store y)" "\<not> cs 0"
    "cache_Collect cs now (y_store y) = (st, n, er)"
  shows "(\<forall>k e. gm_get (entries (y_store y)) k = Some e \<and> now < e_expires e \<longrightarrow> gm_get (entries st) k = Some e) \<and>
    (\<forall>k e. gm_get (entries st) k = Some e \<longrightarrow> gm_get (entries (y_store y)) k = Some e) \<and>
    n + length (entries st) = length (entries (y_store y)) \<and>
    ((\<forall>j. \<not> cs j) \<longrightarrow> er = None \<and> (\<forall>k e. gm_get (entries st) k = Some e \<longrightarrow> now < e_expires e))"
proof -
  have v: "store_inv (y_store y)" by (rule cache_invD(1)[OF cache_reachable_inv[OF assms(2,1)]])
  from assms(3-5) have "collect_loop cs now 0 (y_store y) = (st, n, er)" by (simp add: cache_Collect_def)
  note c = collect_loop_inv[OF v this, unfolded only_evicts_def]
  show ?thesis
  proof (intro conjI impI)
    assume n: "\<forall>j. \<not> cs j"
    show "er = None" using c n by blast
    then show "\<forall>k e. gm_get (entries st) k = Some e \<longrightarrow> now < e_expires e" using c by blast
  qed (use c in \<open>(blast | linarith)+\<close>)
qed

theorem collect_removes_expired_witness:
  "fst (snd (cache_Collect (\<lambda>_. False) 7 (y_store begun))) = 0"
proof -
  have e: "\<not> s_closed (y_store begun)" "entries (y_store begun) = []" by code_simp+
  obtain st n er where c: "cache_Collect (\<lambda>_. False) 7 (y_store begun) = (st, n, er)" by (metis prod_cases3)
  from collect_removes_expired[OF small_store_new begun_reachable e(1) _ c] e(2) c show ?thesis by simp
qed

text \<open>The bounded traversal that prices a value agrees with the plain definition of its cost,
  whatever the budget and the order in which map entries are visited: it succeeds exactly for values
  of supported kinds nested at most 64 deep whose whole cost is within the budget, with that cost.\<close>

theorem value_cost_exact:
  "valueCost v 0 budget = Inr c \<longleftrightarrow> fits_depth 64 v \<and> full_cost v \<le> budget \<and> c = full_cost v"
  by (simp add: valueCost_iff)

subsection \<open>The managed cache\<close>

text \<open>
  The layer a query uses: it checks the key, refuses once its lifetime has ended, and gives every
  commit the configured time to live. It works over any store; the store's operations are
  parameters, its promises a locale.
\<close>

record cache_config =
  TTL :: int
  GCInterval :: int

definition newManaged :: "cache_config \<Rightarrow> cache_err + cache_config" where
  "newManaged cfg = (if TTL cfg < 0 \<or> GCInterval cfg < 0 then Inl (ErrInvalid ''TTL and GC interval must be positive'')
     else Inr \<lparr>TTL = (if TTL cfg = 0 then 5 * 60 * 1000000000 else TTL cfg),
       GCInterval = (if GCInterval cfg = 0 then 30 * 1000000000 else GCInterval cfg)\<rparr>)"

record cache_key =
  Partition :: string
  Resource :: string
  Method_name :: string
  Document :: string
  Request :: string

definition active :: "bool \<Rightarrow> bool \<Rightarrow> cache_key \<Rightarrow> cache_err option" where
  "active cancelled ended key =
     (if cancelled then Some ErrCancelled
      else if ended then Some ErrClosed
      else if Partition key = '''' \<or> Resource key = '''' \<or> Method_name key = '''' \<or> Document key = '''' \<or> Request key = ''''
      then Some (ErrInvalid ''partition, resource, method, document and request are required'')
      else None)"

definition managed_Lookup :: "(cache_key \<Rightarrow> int \<Rightarrow> 's \<Rightarrow> 's \<times> (cache_err + cache_row list option)) \<Rightarrow> bool \<Rightarrow> bool \<Rightarrow> cache_key \<Rightarrow> int
    \<Rightarrow> 's \<Rightarrow> 's \<times> (cache_err + cache_row list option)" where
  "managed_Lookup store_lookup cancelled ended key now s = (case active cancelled ended key of
     Some e \<Rightarrow> (s, Inl e) | None \<Rightarrow> store_lookup key now s)"

definition managed_Begin :: "(cache_key \<Rightarrow> 's \<Rightarrow> 's \<times> (cache_err + 't)) \<Rightarrow> bool \<Rightarrow> bool \<Rightarrow> cache_key \<Rightarrow> 's \<Rightarrow> 's \<times> (cache_err + 't)" where
  "managed_Begin store_begin cancelled ended key s = (case active cancelled ended key of
     Some e \<Rightarrow> (s, Inl e) | None \<Rightarrow> store_begin key s)"

record 't managed_writer =
  tx :: 't
  mw_finished :: bool

definition managed_Append :: "('t \<Rightarrow> 's \<Rightarrow> 's \<times> 't \<times> cache_err option) \<Rightarrow> bool \<Rightarrow> 't managed_writer \<Rightarrow> 's
    \<Rightarrow> 's \<times> 't managed_writer \<times> cache_err option" where
  "managed_Append store_append ended w s = (if mw_finished w \<or> ended then (s, w, Some ErrClosed)
     else (case store_append (tx w) s of (s', t, e) \<Rightarrow> (s', w\<lparr>tx := t\<rparr>, e)))"

definition managed_Commit :: "(int \<Rightarrow> 't \<Rightarrow> 's \<Rightarrow> ('s \<times> 't \<times> cache_err option) option) \<Rightarrow> cache_config \<Rightarrow> bool \<Rightarrow> bool \<Rightarrow> int
    \<Rightarrow> 't managed_writer \<Rightarrow> 's \<Rightarrow> ('s \<times> 't managed_writer \<times> cache_err option) option" where
  "managed_Commit store_commit cfg cancelled ended now w s =
     (if mw_finished w then Some (s, w, Some ErrClosed)
      else if cancelled then Some (s, w, Some ErrCancelled)
      else if ended then Some (s, w, Some ErrClosed)
      else (case store_commit (now + TTL cfg) (tx w) s of
          None \<Rightarrow> None
        | Some (s', t, e) \<Rightarrow> Some (s', w\<lparr>tx := t, mw_finished := (e = None)\<rparr>, e)))"

definition managed_Abort :: "('t \<Rightarrow> 's \<Rightarrow> 's \<times> 't) \<Rightarrow> 't managed_writer \<Rightarrow> 's \<Rightarrow> 's \<times> 't managed_writer" where
  "managed_Abort store_abort w s = (if mw_finished w then (s, w)
     else (case store_abort (tx w) s of (s', t) \<Rightarrow> (s', w\<lparr>tx := t, mw_finished := True\<rparr>)))"

text \<open>What a store promises: a hit is the latest commit and has not expired; a commit that succeeds
  is the latest commit from then on; a commit that fails changes nothing.\<close>

locale row_store =
  fixes ok_store :: "'s \<Rightarrow> bool"
    and latest :: "'s \<Rightarrow> cache_key \<Rightarrow> (cache_row list \<times> int) option"
    and store_lookup :: "cache_key \<Rightarrow> int \<Rightarrow> 's \<Rightarrow> 's \<times> (cache_err + cache_row list option)"
    and store_commit :: "int \<Rightarrow> 't \<Rightarrow> 's \<Rightarrow> ('s \<times> 't \<times> cache_err option) option"
    and tx_key :: "'s \<Rightarrow> 't \<Rightarrow> cache_key \<Rightarrow> bool"
    and tx_rows :: "'s \<Rightarrow> 't \<Rightarrow> cache_row list"
  assumes hit_is_latest: "ok_store s \<Longrightarrow> snd (store_lookup key now s) = Inr (Some rows) \<Longrightarrow>
      \<exists>expires. latest s key = Some (rows, expires) \<and> now < expires"
    and commit_is_latest: "ok_store s \<Longrightarrow> store_commit expires t s = Some (s', t', None) \<Longrightarrow> tx_key s t key \<Longrightarrow>
      latest s' key = Some (tx_rows s t, expires)"
    and commit_keeps_inv: "ok_store s \<Longrightarrow> store_commit expires t s = Some (s', t', er) \<Longrightarrow> ok_store s'"
    and failed_commit: "store_commit expires t s = Some (s', t', Some e) \<Longrightarrow> s' = s"
begin

lemma managed_read_your_writes:
  assumes "ok_store s" "managed_Commit store_commit cfg c d now0 w s = Some (s', w', None)" "tx_key s (tx w) key"
    and "snd (managed_Lookup store_lookup c' d' key now s') = Inr (Some rows)"
  shows "rows = tx_rows s (tx w) \<and> now < now0 + TTL cfg"
proof -
  from assms(2) obtain t where t: "store_commit (now0 + TTL cfg) (tx w) s = Some (s', t, None)"
    by (auto simp: managed_Commit_def split: if_splits option.splits)
  have "snd (store_lookup key now s') = Inr (Some rows)" using assms(4) by (auto simp: managed_Lookup_def split: option.splits)
  from hit_is_latest[OF commit_keeps_inv[OF assms(1) t] this] commit_is_latest[OF assms(1) t assms(3)] show ?thesis by auto
qed

lemma managed_failed_commit:
  "managed_Commit store_commit cfg c d now w s = Some (s', w', Some e) \<Longrightarrow> s' = s"
  by (auto simp: managed_Commit_def split: if_splits option.splits dest: failed_commit)

end

text \<open>The memory store, with its writers addressed by number.\<close>

definition mem_lookup :: "(cache_key \<Rightarrow> cache_err + 'k) \<Rightarrow> cache_key \<Rightarrow> int \<Rightarrow> 'k cache_sys \<Rightarrow> 'k cache_sys \<times> (cache_err + cache_row list option)" where
  "mem_lookup digest key now y = (case cache_Lookup digest False key now (y_store y) of (st, r) \<Rightarrow> (y\<lparr>y_store := st\<rparr>, r))"

definition mem_commit :: "int \<Rightarrow> nat \<Rightarrow> 'k cache_sys \<Rightarrow> ('k cache_sys \<times> nat \<times> cache_err option) option" where
  "mem_commit expires i y = (if i \<ge> length (y_writers y) then Some (y, i, Some ErrClosed)
     else (case cache_Commit (False, False) expires (y_writers y ! i) (y_store y) of
         None \<Rightarrow> None
       | Some (st, w, Some e) \<Rightarrow> Some (y, i, Some e)
       | Some (st, w, None) \<Rightarrow> Some (y\<lparr>y_store := st, y_writers := (y_writers y)[i := w],
           y_last := (y_last y)(w_key w \<mapsto> (w_rows (y_writers y ! i), expires))\<rparr>, i, None)))"


definition mem_latest :: "(cache_key \<Rightarrow> cache_err + 'k) \<Rightarrow> 'k cache_sys \<Rightarrow> cache_key \<Rightarrow> (cache_row list \<times> int) option" where
  "mem_latest digest y key = (case digest key of Inl e \<Rightarrow> None | Inr k \<Rightarrow> y_last y k)"

definition mem_tx_key :: "(cache_key \<Rightarrow> cache_err + 'k) \<Rightarrow> 'k cache_sys \<Rightarrow> nat \<Rightarrow> cache_key \<Rightarrow> bool" where
  "mem_tx_key digest y i key \<longleftrightarrow> i < length (y_writers y) \<and> digest key = Inr (w_key (y_writers y ! i))"

definition mem_tx_rows :: "'k cache_sys \<Rightarrow> nat \<Rightarrow> cache_row list" where
  "mem_tx_rows y i = w_rows (y_writers y ! i)"

lemma mem_commit_success:
  assumes "mem_commit expires i y = Some (y', j, None)"
  obtains st w where "i < length (y_writers y)" "cache_Commit (False, False) expires (y_writers y ! i) (y_store y) = Some (st, w, None)"
    "y' = y\<lparr>y_store := st, y_writers := (y_writers y)[i := w], y_last := (y_last y)(w_key w \<mapsto> (w_rows (y_writers y ! i), expires))\<rparr>"
  using assms by (auto simp: mem_commit_def split: if_splits option.splits)

lemma commit_keeps_key:
  "cache_Commit cc expires w st = Some (st', w', er) \<Longrightarrow> w_key w' = w_key w"
  by (auto simp: cache_Commit_def Let_def split: if_splits option.splits)

interpretation mem_store: row_store cache_inv "mem_latest digest" "mem_lookup digest" mem_commit "mem_tx_key digest" mem_tx_rows
  for digest
proof
  fix s key now rows
  assume "cache_inv s" "snd (mem_lookup digest key now s) = Inr (Some rows)"
  then show "\<exists>expires. mem_latest digest s key = Some (rows, expires) \<and> now < expires"
    using cache_invD(6)[of s]
    by (auto simp: mem_lookup_def mem_latest_def cache_Lookup_def split: if_splits option.splits sum.splits)
next
  fix s expires t s' t' key
  assume "cache_inv s" "mem_commit expires t s = Some (s', t', None)" "mem_tx_key digest s t key"
  then show "mem_latest digest s' key = Some (mem_tx_rows s t, expires)"
    by (auto simp: mem_latest_def mem_tx_key_def mem_tx_rows_def commit_keeps_key elim!: mem_commit_success)
next
  fix s expires t s' t' er
  assume a: "cache_inv s" "mem_commit expires t s = Some (s', t', er)"
  show "cache_inv s'"
  proof (cases er)
    case None
    with a(2) show ?thesis using commit_cache_inv[OF a(1)] by (auto elim!: mem_commit_success)
  next
    case (Some e)
    with a have "s' = s" by (auto simp: mem_commit_def split: if_splits option.splits)
    with a(1) show ?thesis by simp
  qed
next
  fix expires t s s' t' e
  assume "mem_commit expires t s = Some (s', t', Some e)"
  then show "s' = s" by (auto simp: mem_commit_def split: if_splits option.splits)
qed

text \<open>Through the managed cache, what a lookup gives after a commit is what that writer wrote,
  and it is younger than the time to live; a commit that fails changes nothing.\<close>

theorem managed_cache_serves_fresh_rows:
  assumes "cache_inv s" "managed_Commit mem_commit cfg c d now0 w s = Some (s', w', er)" "mem_tx_key digest s (tx w) key"
  shows "(er = None \<and> snd (managed_Lookup (mem_lookup digest) c' d' key now s') = Inr (Some rows) \<longrightarrow>
      rows = mem_tx_rows s (tx w) \<and> now < now0 + TTL cfg) \<and> (er \<noteq> None \<longrightarrow> s' = s)"
  using mem_store.managed_read_your_writes[OF assms(1) _ assms(3)] mem_store.managed_failed_commit assms(2)
  by (cases er) blast+

definition some_key :: cache_key where
  "some_key = \<lparr>Partition = ''p'', Resource = ''r'', Method_name = ''m'', Document = ''d'', Request = ''q''\<rparr>"

theorem managed_cache_serves_fresh_rows_witness:
  "\<exists>s' w'. managed_Commit mem_commit \<lparr>TTL = 10, GCInterval = 1\<rparr> False False 0 \<lparr>tx = 0, mw_finished = False\<rparr> begun = Some (s', w', None) \<and>
    (\<forall>now rows. snd (managed_Lookup (mem_lookup (\<lambda>k. Inr (Request k))) False False some_key now s') = Inr (Some rows) \<longrightarrow> rows = [] \<and> now < 10)"
proof -
  have iv: "cache_inv begun" by (rule cache_reachable_inv[OF begun_reachable small_store_new])
  have e: "length (y_writers begun) = 1" "\<not> w_finished (y_writers begun ! 0)" "\<not> s_closed (y_store begun)"
    "w_key (y_writers begun ! 0) = ''q''" "w_rows (y_writers begun ! 0) = []" by code_simp+
  from commit_result[OF iv, of 0 10] e obtain st w where
    "cache_Commit (False, False) 10 (y_writers begun ! 0) (y_store begun) = Some (st, w, None)" by auto
  then obtain s' w' where m: "managed_Commit mem_commit \<lparr>TTL = 10, GCInterval = 1\<rparr> False False 0 \<lparr>tx = 0, mw_finished = False\<rparr> begun = Some (s', w', None)"
    using e by (simp add: managed_Commit_def mem_commit_def)
  have k: "mem_tx_key (\<lambda>k. Inr (Request k)) begun (tx \<lparr>tx = 0, mw_finished = False\<rparr>) some_key"
    using e by (simp add: mem_tx_key_def some_key_def)
  from managed_cache_serves_fresh_rows[OF iv m k] m e show ?thesis by (auto simp: mem_tx_rows_def)
qed

end
