(* ===== verification/Namespace.thy ===== *)
theory Namespace
  imports Omni_Prelude "HOL-Library.Multiset"
begin

section \<open>Name resolution: pkg/namespace\<close>

text \<open>
  The attributes an exchange can address live in several spaces that share one flat vocabulary. A
  namespace is built from all of them; a bare name that two spaces claim is settled by a partial
  ranking of spaces, or the build fails. The ranking is an interface (a locale), with the default
  and the listed ranking as its instances. Spaces are strings.
\<close>

record attribute =
  a_space :: string
  a_name :: string

definition Projection :: string where "Projection = ''projection''"

definition Qualified :: "attribute \<Rightarrow> string" where
  "Qualified a = a_space a @ ''.'' @ a_name a"

type_synonym outranks = "string \<Rightarrow> string \<Rightarrow> bool"

definition DefaultOrder :: outranks where
  "DefaultOrder winner loser \<longleftrightarrow> winner = Projection \<and> loser \<noteq> Projection"

text \<open>The rank of a listed space is its last position in the list, as the map is filled in order.\<close>

fun rank_map :: "string list \<Rightarrow> nat \<Rightarrow> (string, nat) gomap \<Rightarrow> (string, nat) gomap" where
  "rank_map [] i m = m"
| "rank_map (s # ss) i m = rank_map ss (Suc i) (gm_set s i m)"

definition RankedOrder :: "string list \<Rightarrow> outranks" where
  "RankedOrder spaces winner loser = (case (gm_get (rank_map spaces 0 []) winner, gm_get (rank_map spaces 0 []) loser) of
     (Some w, Some l) \<Rightarrow> w < l | _ \<Rightarrow> False)"

text \<open>The first claimant, by position, that outranks every claimant at another position.\<close>

definition wins :: "outranks \<Rightarrow> attribute list \<Rightarrow> nat \<Rightarrow> bool" where
  "wins order cs i = list_all (\<lambda>j. j = i \<or> order (a_space (cs ! i)) (a_space (cs ! j))) [0..<length cs]"

definition rank :: "outranks \<Rightarrow> attribute list \<Rightarrow> attribute option" where
  "rank order cs = (if length cs = 1 then Some (cs ! 0)
     else map_option (\<lambda>i. cs ! i) (find (wins order cs) [0..<length cs]))"

record name_table =
  ns_attrs :: "attribute list"
  ns_bare :: "(string, attribute) gomap"

definition claimants :: "attribute list \<Rightarrow> string \<Rightarrow> attribute list" where
  "claimants attrs name = filter (\<lambda>a. a_name a = name) attrs"

definition Build :: "outranks \<Rightarrow> attribute list \<Rightarrow> name_table result" where
  "Build order attrs = (let names = remdups (map a_name attrs);
       ambiguous = filter (\<lambda>n. rank order (claimants attrs n) = None) names in
     if ambiguous \<noteq> [] then Inl (ErrOther ''ambiguous'')
     else Inr \<lparr>ns_attrs = attrs,
       ns_bare = map (\<lambda>n. (n, the (rank order (claimants attrs n)))) names\<rparr>)"

definition Resolve_name :: "name_table \<Rightarrow> string \<Rightarrow> attribute result" where
  "Resolve_name ns name = (case Cut (CHR ''.'') name of
     (space, bare, True) \<Rightarrow> (case find (\<lambda>a. a_space a = space \<and> a_name a = bare) (ns_attrs ns) of
         Some a \<Rightarrow> Inr a | None \<Rightarrow> Inl (ErrOther ''no such name in space''))
   | (_, _, False) \<Rightarrow> (case gm_get (ns_bare ns) name of
         Some a \<Rightarrow> Inr a | None \<Rightarrow> Inl (ErrOther ''no attribute'')))"

definition In_space :: "name_table \<Rightarrow> string \<Rightarrow> attribute list" where
  "In_space ns space = sort_key a_name (filter (\<lambda>a. a_space a = space) (ns_attrs ns))"

definition Spaces :: "name_table \<Rightarrow> string list" where
  "Spaces ns = sort (rev (remdups (rev (map a_space (ns_attrs ns)))))"

subsection \<open>Rankings\<close>

text \<open>A ranking never lets two claimants outrank each other, nor one itself.\<close>

locale space_order =
  fixes order :: outranks
  assumes asym: "order w l \<Longrightarrow> \<not> order l w"
begin

lemma irrefl: "\<not> order s s"
  using asym by blast

lemma one_winner:
  assumes "i < length cs" "j < length cs" "wins order cs i" "wins order cs j"
  shows "i = j"
proof (rule ccontr)
  assume "i \<noteq> j"
  then have "order (a_space (cs ! i)) (a_space (cs ! j))" "order (a_space (cs ! j)) (a_space (cs ! i))"
    using assms by (auto simp: wins_def list_all_iff)
  then show False using asym by blast
qed

lemma wins_alone: "length cs = 1 \<Longrightarrow> wins order cs 0"
  by (simp add: wins_def)

text \<open>The ranking picks a claimant exactly when its space beats the space of every other claimant.\<close>

lemma wins_mset:
  assumes "i < length cs"
  shows "wins order cs i \<longleftrightarrow> (\<forall>b \<in># mset cs - {#cs ! i#}. order (a_space (cs ! i)) (a_space b))"
proof -
  have m: "mset cs - {#cs ! i#} = image_mset ((!) cs) (mset_set ({0..<length cs} - {i}))"
  proof -
    have "mset cs = image_mset ((!) cs) (mset_set {0..<length cs})"
      by (metis map_nth mset_map mset_upt)
    moreover have "mset_set {0..<length cs} = add_mset i (mset_set ({0..<length cs} - {i}))"
      using assms by (simp add: mset_set.remove)
    ultimately show ?thesis by simp
  qed
  show ?thesis unfolding m by (auto simp: wins_def list_all_iff)
qed

lemma rank_Some_iff:
  "rank order cs = Some a \<longleftrightarrow> a \<in> set cs \<and> (\<forall>b \<in># mset cs - {#a#}. order (a_space a) (a_space b))"
proof (cases "length cs = 1")
  case True
  then obtain c where "cs = [c]" by (auto simp: length_Suc_conv)
  then show ?thesis by (auto simp: rank_def)
next
  case False
  show ?thesis
  proof
    assume "rank order cs = Some a"
    then obtain i where "i < length cs" "wins order cs i" "a = cs ! i"
      using False by (auto simp: rank_def find_Some_iff)
    then show "a \<in> set cs \<and> (\<forall>b \<in># mset cs - {#a#}. order (a_space a) (a_space b))" using wins_mset by auto
  next
    assume a: "a \<in> set cs \<and> (\<forall>b \<in># mset cs - {#a#}. order (a_space a) (a_space b))"
    then obtain i where i: "i < length cs" "cs ! i = a" by (auto simp: in_set_conv_nth)
    with a have w: "wins order cs i" using wins_mset by auto
    obtain k where k: "find (wins order cs) [0..<length cs] = Some k"
      using w i(1) by (cases "find (wins order cs) [0..<length cs]") (auto simp: find_None_iff)
    then have "k < length cs" "wins order cs k" by (auto simp: find_Some_iff)
    then have "k = i" using one_winner w i(1) by blast
    then show "rank order cs = Some a" using k i(2) False by (simp add: rank_def)
  qed
qed

text \<open>What a claim to a bare name needs in order to win it.\<close>

definition wins_name :: "attribute list \<Rightarrow> string \<Rightarrow> attribute \<Rightarrow> bool" where
  "wins_name attrs n a \<longleftrightarrow> a \<in> set attrs \<and> a_name a = n \<and>
     (\<forall>b \<in># filter_mset (\<lambda>b. a_name b = n) (mset attrs) - {#a#}. order (a_space a) (a_space b))"

lemma rank_claimants: "rank order (claimants attrs n) = Some a \<longleftrightarrow> wins_name attrs n a"
  by (auto simp: rank_Some_iff claimants_def wins_name_def)

lemma build_fails_iff: "(\<exists>e. Build order attrs = Inl e) \<longleftrightarrow> (\<exists>b\<in>set attrs. \<nexists>a. wins_name attrs (a_name b) a)"
proof -
  have "(\<exists>e. Build order attrs = Inl e) \<longleftrightarrow> (\<exists>n\<in>a_name ` set attrs. rank order (claimants attrs n) = None)"
    by (auto simp: Build_def Let_def filter_empty_conv)
  also have "\<dots> \<longleftrightarrow> (\<exists>n\<in>a_name ` set attrs. \<nexists>a. wins_name attrs n a)"
    by (metis not_Some_eq rank_claimants)
  finally show ?thesis by blast
qed

lemma resolve_bare:
  assumes "Build order attrs = Inr ns" "CHR ''.'' \<notin> set n"
  shows "Resolve_name ns n = Inr a \<longleftrightarrow> wins_name attrs n a"
proof -
  have c: "Cut (CHR ''.'') n = (n, [], False)"
    using Cut_correct[of "CHR ''.''" n] assms(2) by (cases "Cut (CHR ''.'') n") (fastforce split: if_splits)
  let ?names = "remdups (map a_name attrs)"
  have b: "ns_bare ns = map (\<lambda>n. (n, the (rank order (claimants attrs n)))) ?names"
    and ok: "\<forall>n\<in>set ?names. rank order (claimants attrs n) \<noteq> None"
    using assms(1) by (auto simp: Build_def Let_def filter_empty_conv split: if_splits)
  have "gm_get (ns_bare ns) n = (if n \<in> set ?names then rank order (claimants attrs n) else None)"
    unfolding b using ok by (auto simp: map_of_map_restrict)
  also have "\<dots> = rank order (claimants attrs n)"
  proof (cases "rank order (claimants attrs n)")
    case (Some c)
    then have "c \<in> set attrs" "a_name c = n" using rank_claimants[of attrs n c] by (simp_all add: wins_name_def)
    then show ?thesis by auto
  qed simp
  finally show ?thesis
    by (simp add: Resolve_name_def c rank_claimants[symmetric] split: option.split)
qed

end

lemma resolve_qualified:
  assumes "Build order attrs = Inr ns" "a \<in> set attrs" "CHR ''.'' \<notin> set (a_space a)"
  shows "Resolve_name ns (Qualified a) = Inr a"
proof -
  have "ns_attrs ns = attrs" using assms(1) by (auto simp: Build_def Let_def split: if_splits)
  moreover have "Cut (CHR ''.'') (Qualified a) = (a_space a, a_name a, True)"
    using Cut_found[OF assms(3)] by (simp add: Qualified_def)
  moreover obtain b where b: "find (\<lambda>b. a_space b = a_space a \<and> a_name b = a_name a) attrs = Some b"
    using assms(2) by (cases "find (\<lambda>b. a_space b = a_space a \<and> a_name b = a_name a) attrs") (auto simp: find_None_iff)
  moreover from b have "b = a" by (auto simp: find_Some_iff intro: attribute.equality)
  ultimately show ?thesis by (simp add: Resolve_name_def)
qed

interpretation default_order: space_order DefaultOrder
  by unfold_locales (auto simp: DefaultOrder_def)

interpretation ranked_order: space_order "RankedOrder spaces" for spaces
  by unfold_locales (auto simp: RankedOrder_def split: option.splits)

definition provided :: "outranks \<Rightarrow> string list \<Rightarrow> bool" where
  "provided order spaces \<longleftrightarrow> order = DefaultOrder \<or> order = RankedOrder spaces"

lemma provided_order: "provided order spaces \<Longrightarrow> space_order order"
  using default_order.space_order_axioms ranked_order.space_order_axioms by (auto simp: provided_def)

text \<open>C27: resolution is unambiguous. Under the default or a listed ranking, building a namespace
  fails exactly when some declared name has no claimant whose space outranks every other claimant's;
  otherwise a bare name resolves exactly to that one claimant, whatever the order of declaration,
  and a qualified name always resolves to the attribute it names.\<close>

theorem namespace_resolution:
  assumes "provided order spaces"
  shows "((\<exists>e. Build order attrs = Inl e) \<longleftrightarrow> (\<exists>b\<in>set attrs. \<nexists>a. space_order.wins_name order attrs (a_name b) a)) \<and>
    (Build order attrs = Inr ns \<longrightarrow>
      (CHR ''.'' \<notin> set n \<longrightarrow> (Resolve_name ns n = Inr a \<longleftrightarrow> space_order.wins_name order attrs n a)) \<and>
      (b \<in> set attrs \<and> CHR ''.'' \<notin> set (a_space b) \<longrightarrow> Resolve_name ns (Qualified b) = Inr b) \<and>
      (mset attrs' = mset attrs \<longrightarrow> (\<exists>ns'. Build order attrs' = Inr ns' \<and>
         (CHR ''.'' \<notin> set n \<longrightarrow> (Resolve_name ns' n = Inr a \<longleftrightarrow> Resolve_name ns n = Inr a)))))"
proof -
  note so = provided_order[OF assms]
  note fails = space_order.build_fails_iff[OF so]
  have same: "space_order.wins_name order attrs' m c = space_order.wins_name order attrs m c" if "mset attrs' = mset attrs" for m c
    using that mset_eq_setD[OF that] by (simp add: space_order.wins_name_def[OF so])
  have "\<exists>ns'. Build order attrs' = Inr ns' \<and>
         (CHR ''.'' \<notin> set n \<longrightarrow> (Resolve_name ns' n = Inr a \<longleftrightarrow> Resolve_name ns n = Inr a))"
    if b: "Build order attrs = Inr ns" and m: "mset attrs' = mset attrs"
  proof -
    from b have "\<nexists>e. Build order attrs = Inl e" by simp
    then have "\<nexists>e. Build order attrs' = Inl e"
      unfolding fails using same[OF m] mset_eq_setD[OF m] by simp
    then obtain ns' where ns': "Build order attrs' = Inr ns'" by (cases "Build order attrs'") auto
    then show ?thesis
      using space_order.resolve_bare[OF so b, of n a] space_order.resolve_bare[OF so ns', of n a] same[OF m] by blast
  qed
  then show ?thesis
    using fails space_order.resolve_bare[OF so] resolve_qualified by (intro conjI impI) blast+
qed

definition two_spaces :: "attribute list" where
  "two_spaces = [\<lparr>a_space = ''query'', a_name = ''VpcId''\<rparr>, \<lparr>a_space = ''projection'', a_name = ''VpcId''\<rparr>]"

theorem namespace_resolution_witness:
  "\<exists>ns. Build DefaultOrder two_spaces = Inr ns \<and> Resolve_name ns ''VpcId'' = Inr (two_spaces ! 1) \<and>
     Resolve_name ns ''query.VpcId'' = Inr (two_spaces ! 0)"
proof -
  have "(case Build DefaultOrder two_spaces of Inr ns \<Rightarrow> Resolve_name ns ''VpcId'' = Inr (two_spaces ! 1) | Inl e \<Rightarrow> False)" by code_simp
  then obtain ns where ns: "Build DefaultOrder two_spaces = Inr ns" "Resolve_name ns ''VpcId'' = Inr (two_spaces ! 1)"
    by (cases "Build DefaultOrder two_spaces") auto
  have p: "provided DefaultOrder []" by (simp add: provided_def)
  have q: "two_spaces ! 0 \<in> set two_spaces" "CHR ''.'' \<notin> set (a_space (two_spaces ! 0))" "Qualified (two_spaces ! 0) = ''query.VpcId''"
    by (simp_all add: two_spaces_def Qualified_def)
  from namespace_resolution[OF p, of two_spaces ns "''VpcId''" "two_spaces ! 1" "two_spaces ! 0" two_spaces] ns q show ?thesis by auto
qed

end
