(* ===== verification/Like.thy ===== *)
theory Like
  imports Omni_Prelude "HOL-Library.Sublist"
begin

section \<open>LIKE: pkg/sqlfn/pg\_like.go\<close>

text \<open>
  Postgres's matcher for LIKE patterns: \<open>%\<close> any text, \<open>_\<close> one character, backslash escaping. It
  returns early with an abort when no later starting point can match either, and tries a recursive
  match only where the first literal of the rest agrees. Text and pattern positions are suffixes;
  stepping over a character drops as many bytes as its first byte announces.
\<close>

datatype like_result = pgLikeFalse | pgLikeTrue | pgLikeAbort

definition errLikeEscape :: err where
  "errLikeEscape = ErrOther ''LIKE pattern must not end with escape character''"

text \<open>The top bits of the first byte: 0xxxxxxx, 110xxxxx, 1110xxxx, 11110xxx.\<close>

definition pgCharLen :: "char \<Rightarrow> nat" where
  "pgCharLen ch = (let c = (of_char ch :: nat) in
     if c < 128 then 1 else if c div 32 = 6 then 2 else if c div 16 = 14 then 3 else if c div 8 = 30 then 4 else 1)"

definition next_char :: "string \<Rightarrow> string" where
  "next_char t = drop (case t of [] \<Rightarrow> 0 | c # _ \<Rightarrow> pgCharLen c) t"

lemma next_char_shorter: "t \<noteq> [] \<Longrightarrow> length (next_char t) < length t"
  by (cases t) (auto simp: next_char_def pgCharLen_def Let_def)

text \<open>After a \<open>%\<close>: further wildcards are taken at once; None when the text runs out before an underscore.\<close>

fun like_skip :: "string \<Rightarrow> string \<Rightarrow> (string \<times> string) option" where
  "like_skip t [] = Some (t, [])"
| "like_skip t (c # p) =
     (if c = CHR ''%'' then like_skip t p
      else if c = CHR ''_'' then (if t = [] then None else like_skip (next_char t) p)
      else Some (t, c # p))"

lemma like_skip_shorter: "like_skip t p = Some (t', p') \<Longrightarrow> length p' \<le> length p"
  by (induction t p rule: like_skip.induct) (auto split: if_splits)

definition like_end :: "string \<Rightarrow> string \<Rightarrow> like_result" where
  "like_end t p = (if t \<noteq> [] then pgLikeFalse
     else if dropWhile (\<lambda>c. c = CHR ''%'') p = [] then pgLikeTrue else pgLikeAbort)"

text \<open>The literal the rest of a pattern starts with; a lone backslash is an error.\<close>

definition firstpat :: "string \<Rightarrow> char result" where
  "firstpat p = (if hd p = CHR 0x5C then (if length p < 2 then Inl errLikeEscape else Inr (p ! 1)) else Inr (hd p))"

function pgMatchText :: "string \<Rightarrow> string \<Rightarrow> like_result result"
  and like_loop :: "string \<Rightarrow> string \<Rightarrow> like_result result"
  and like_scan :: "string \<Rightarrow> string \<Rightarrow> char \<Rightarrow> like_result result" where
  "pgMatchText t p = (if p = ''%'' then Inr pgLikeTrue else like_loop t p)"
| "like_loop t p =
     (if t = [] \<or> p = [] then Inr (like_end t p)
      else if hd p = CHR 0x5C then
        (if tl p = [] then Inl errLikeEscape
         else if hd (tl p) \<noteq> hd t then Inr pgLikeFalse
         else like_loop (tl t) (tl (tl p)))
      else if hd p = CHR ''%'' then
        (case like_skip t (tl p) of
           None \<Rightarrow> Inr pgLikeAbort
         | Some (t', p') \<Rightarrow>
             if p' = [] then Inr pgLikeTrue
             else (case firstpat p' of Inl e \<Rightarrow> Inl e | Inr fp \<Rightarrow> like_scan t' p' fp))
      else if hd p = CHR ''_'' then like_loop (next_char t) (tl p)
      else if hd p \<noteq> hd t then Inr pgLikeFalse
      else like_loop (tl t) (tl p))"
| "like_scan t p fp =
     (if t = [] then Inr pgLikeAbort
      else if hd t = fp then
        (case pgMatchText t p of
           Inl e \<Rightarrow> Inl e
         | Inr r \<Rightarrow> if r \<noteq> pgLikeFalse then Inr r else like_scan (next_char t) p fp)
      else like_scan (next_char t) p fp)"
  by pat_completeness auto
termination
proof (relation "inv_image (less_than <*lex*> less_than <*lex*> less_than)
   (\<lambda>x. case x of Inl (t, p) \<Rightarrow> (length p, length t, 1::nat) | Inr (Inl (t, p)) \<Rightarrow> (length p, length t, 0)
      | Inr (Inr (t, p, fp)) \<Rightarrow> (length p, length t, 2))", goal_cases)
  case (4 t p x2 x y xa)
  then have "like_skip t (tl p) = Some (x, y)" by simp
  from like_skip_shorter[OF this] have "length y \<le> length (tl p)" .
  then show ?case using 4 by (cases p) auto
qed (auto simp: next_char_shorter)

declare pgMatchText.simps [simp del] like_loop.simps [simp del] like_scan.simps [simp del]

definition pg_like :: "string \<Rightarrow> string \<Rightarrow> bool result" where
  "pg_like t p = rfmap (\<lambda>r. r = pgLikeTrue) (pgMatchText t p)"

subsection \<open>What a pattern means\<close>

datatype pat_token = Lit char | One | Many | Dangling

fun tokens :: "string \<Rightarrow> pat_token list" where
  "tokens [] = []"
| "tokens (c # p) =
     (if c = CHR 0x5C then (case p of [] \<Rightarrow> [Dangling] | d # p' \<Rightarrow> Lit d # tokens p')
      else if c = CHR ''%'' then Many # tokens p
      else if c = CHR ''_'' then One # tokens p
      else Lit c # tokens p)"

fun likes :: "string \<Rightarrow> pat_token list \<Rightarrow> bool" where
  "likes t [] = (t = [])"
| "likes t (Lit c # ts) = (t \<noteq> [] \<and> hd t = c \<and> likes (tl t) ts)"
| "likes t (One # ts) = (t \<noteq> [] \<and> likes (tl t) ts)"
| "likes t (Many # ts) = (\<exists>u\<in>set (suffixes t). likes u ts)"
| "likes t (Dangling # ts) = False"

definition single_byte :: "string \<Rightarrow> bool" where
  "single_byte t = list_all (\<lambda>c. (of_char c :: nat) < 128) t"

lemma next_char_single [simp]: "single_byte t \<Longrightarrow> next_char t = tl t"
  by (cases t) (auto simp: next_char_def single_byte_def pgCharLen_def)

lemma single_tl [simp]: "single_byte t \<Longrightarrow> single_byte (tl t)"
  by (cases t) (auto simp: single_byte_def)

lemma suffixes_tl: "t \<noteq> [] \<Longrightarrow> u \<in> set (suffixes t) \<longleftrightarrow> u = t \<or> u \<in> set (suffixes (tl t))"
  by (cases t) (auto simp: suffixes_eq_snoc)

lemma suffix_tl_mono: "u \<in> set (suffixes t) \<Longrightarrow> u \<noteq> [] \<Longrightarrow> tl u \<in> set (suffixes (tl t))"
  by (auto simp: suffix_def) (metis append_Cons append_Nil append_assoc list.collapse list.sel(3) neq_Nil_conv tl_append2)

lemma suffixes_trans: "u \<in> set (suffixes t) \<Longrightarrow> v \<in> set (suffixes u) \<Longrightarrow> v \<in> set (suffixes t)"
  using suffix_order.trans by auto

lemma likes_nil: "likes [] (tokens p) \<longleftrightarrow> dropWhile (\<lambda>c. c = CHR ''%'') p = []"
  by (induction p rule: tokens.induct) (auto split: list.splits)


lemma like_skip_tokens:
  assumes "single_byte t"
  shows "case like_skip t p of
      None \<Rightarrow> \<forall>u\<in>set (suffixes t). \<not> likes u (tokens p)
    | Some (t', p') \<Rightarrow> single_byte t' \<and> ((\<exists>u\<in>set (suffixes t). likes u (tokens p)) \<longleftrightarrow> (\<exists>u\<in>set (suffixes t'). likes u (tokens p'))) \<and>
        (p' \<noteq> [] \<longrightarrow> hd p' \<noteq> CHR ''%'' \<and> hd p' \<noteq> CHR ''_'') \<and> (Dangling \<in> set (tokens p') \<longrightarrow> Dangling \<in> set (tokens p))"
  using assms
proof (induction t p rule: like_skip.induct)
  case (2 t c p)
  consider "c = CHR ''%''" | "c = CHR ''_''" "t = []" | "c = CHR ''_''" "t \<noteq> []" | "c \<noteq> CHR ''%''" "c \<noteq> CHR ''_''" by blast
  then show ?case
  proof cases
    case 1
    have "(\<exists>u\<in>set (suffixes t). likes u (tokens (c # p))) \<longleftrightarrow> (\<exists>u\<in>set (suffixes t). likes u (tokens p))"
      using 1 suffixes_trans by (auto intro: suffix_order.order_refl)
    then show ?thesis using 2(1)[OF 1 2(3)] 1 by (auto split: option.splits)
  next
    case c: 2
    then show ?thesis by simp
  next
    case c: 3
    have "(\<exists>u\<in>set (suffixes t). likes u (tokens (c # p))) \<longleftrightarrow> (\<exists>u\<in>set (suffixes (tl t)). likes u (tokens p))"
    proof
      assume "\<exists>u\<in>set (suffixes t). likes u (tokens (c # p))"
      then obtain u where "u \<in> set (suffixes t)" "u \<noteq> []" "likes (tl u) (tokens p)" using c(1) by auto
      then show "\<exists>u\<in>set (suffixes (tl t)). likes u (tokens p)" using suffix_tl_mono by blast
    next
      assume "\<exists>u\<in>set (suffixes (tl t)). likes u (tokens p)"
      then obtain u where u: "u \<in> set (suffixes (tl t))" "likes u (tokens p)" by blast
      then obtain ys where "tl t = ys @ u" by (auto simp: suffix_def)
      then have "\<exists>x. x # u \<in> set (suffixes t)"
        using c(2) by (metis append.assoc append_Cons append_Nil append_butlast_last_id in_set_suffixes list.collapse suffixI)
      then show "\<exists>u\<in>set (suffixes t). likes u (tokens (c # p))" using c(1) u(2) by force
    qed
    then show ?thesis using 2(2) 2(3) c by (auto split: option.splits)
  next
    case 4
    then show ?thesis using 2(3) by simp
  qed
qed simp

text \<open>What each of the three loops answers, for text of single-byte characters.\<close>

definition answers :: "string \<Rightarrow> pat_token list \<Rightarrow> like_result result \<Rightarrow> bool" where
  "answers t ts r \<longleftrightarrow> (r = Inr pgLikeTrue \<longleftrightarrow> likes t ts) \<and> (r = Inr pgLikeAbort \<longrightarrow> (\<forall>u\<in>set (suffixes t). \<not> likes u ts)) \<and>
     (\<forall>e. r = Inl e \<longrightarrow> Dangling \<in> set ts)"

lemma likes_dangling: "Dangling \<in> set ts \<Longrightarrow> \<not> likes t ts"
  by (induction t ts rule: likes.induct) auto

lemma likes_step: "t \<noteq> [] \<Longrightarrow> u \<in> set (suffixes t) \<Longrightarrow> u \<noteq> [] \<Longrightarrow> likes (tl u) ts \<Longrightarrow> \<exists>v\<in>set (suffixes (tl t)). likes v ts"
  using suffix_tl_mono by blast

lemma answers_lit:
  assumes "t \<noteq> []"
  shows "hd t = c \<Longrightarrow> answers (tl t) ts r \<Longrightarrow> answers t (Lit c # ts) r" "hd t \<noteq> c \<Longrightarrow> answers t (Lit c # ts) (Inr pgLikeFalse)"
proof -
  assume a: "hd t = c" "answers (tl t) ts r"
  have "\<not> likes u (Lit c # ts)" if "r = Inr pgLikeAbort" "u \<in> set (suffixes t)" for u
    using likes_step[OF assms that(2), of ts] a(2) that(1) unfolding answers_def by auto
  then show "answers t (Lit c # ts) r" using a assms unfolding answers_def by auto
next
  assume "hd t \<noteq> c"
  then show "answers t (Lit c # ts) (Inr pgLikeFalse)" by (simp add: answers_def)
qed

lemma answers_one:
  assumes "t \<noteq> []" "answers (tl t) ts r"
  shows "answers t (One # ts) r"
proof -
  have "\<not> likes u (One # ts)" if "r = Inr pgLikeAbort" "u \<in> set (suffixes t)" for u
    using likes_step[OF assms(1) that(2), of ts] assms(2) that(1) unfolding answers_def by auto
  then show ?thesis using assms unfolding answers_def by auto
qed

lemma likes_many_suffix: "u \<in> set (suffixes t) \<Longrightarrow> likes u (Many # ts) \<Longrightarrow> likes t (Many # ts)"
  by (auto simp del: in_set_suffixes dest: suffixes_trans)

lemma answers_many: "t \<noteq> [] \<Longrightarrow> \<not> likes t ts \<Longrightarrow> answers (tl t) (Many # ts) r \<Longrightarrow> answers t (Many # ts) r"
proof -
  assume a: "t \<noteq> []" "\<not> likes t ts" "answers (tl t) (Many # ts) r"
  have m: "likes t (Many # ts) \<longleftrightarrow> likes (tl t) (Many # ts)" using suffixes_tl[OF a(1)] a(2) by auto
  have "\<not> likes u (Many # ts)" if "r = Inr pgLikeAbort" "u \<in> set (suffixes t)" for u
  proof -
    have "tl t \<in> set (suffixes (tl t))" by simp
    then have "\<not> likes (tl t) (Many # ts)" using a(3) that(1) unfolding answers_def by blast
    then show ?thesis using m likes_many_suffix[OF that(2)] by blast
  qed
  then show ?thesis using a(3) m unfolding answers_def by auto
qed

lemma answers_stop:
  assumes m: "answers t ts r" and nf: "r \<noteq> Inr pgLikeFalse"
  shows "answers t (Many # ts) r"
proof (cases r)
  case (Inl e)
  then have "Dangling \<in> set ts" using m by (simp add: answers_def)
  then show ?thesis using Inl likes_dangling[of "Many # ts" t] by (simp add: answers_def)
next
  case (Inr x)
  then consider "x = pgLikeTrue" | "x = pgLikeAbort" using nf by (cases x) auto
  then show ?thesis
  proof cases
    case 1
    then have "likes t ts" using m Inr by (simp add: answers_def)
    then have "likes t (Many # ts)" by auto
    then show ?thesis using Inr 1 unfolding answers_def by simp
  next
    case 2
    then have "\<not> likes t (Many # ts)" using m Inr unfolding answers_def by simp
    then show ?thesis using Inr 2 likes_many_suffix unfolding answers_def by blast
  qed
qed

lemma answers_skip:
  assumes "single_byte t" "like_skip t p = Some (t', p')" "answers t' (Many # tokens p') r"
  shows "answers t (Many # tokens p) r"
proof -
  have s: "likes t (Many # tokens p) \<longleftrightarrow> likes t' (Many # tokens p')" "Dangling \<in> set (tokens p') \<longrightarrow> Dangling \<in> set (tokens p)"
    using like_skip_tokens[OF assms(1), of p] assms(2) by auto
  have "\<not> likes u (Many # tokens p)" if "r = Inr pgLikeAbort" "u \<in> set (suffixes t)" for u
  proof -
    have "t' \<in> set (suffixes t')" by simp
    then have "\<not> likes t' (Many # tokens p')" using assms(3) that(1) unfolding answers_def by blast
    then show ?thesis using s likes_many_suffix[OF that(2)] by blast
  qed
  then show ?thesis using s assms(3) unfolding answers_def by auto
qed

lemma like_loop_cases:
  assumes "t \<noteq> []"
  shows "like_loop t [CHR 0x5C] = Inl errLikeEscape"
    "like_loop t (CHR 0x5C # d # p) = (if d \<noteq> hd t then Inr pgLikeFalse else like_loop (tl t) p)"
    "like_loop t (CHR ''%'' # p) = (case like_skip t p of None \<Rightarrow> Inr pgLikeAbort
       | Some (t', p') \<Rightarrow> if p' = [] then Inr pgLikeTrue
           else (case firstpat p' of Inl e \<Rightarrow> Inl e | Inr fp \<Rightarrow> like_scan t' p' fp))"
    "like_loop t (CHR ''_'' # p) = like_loop (next_char t) p"
    "c \<noteq> CHR 0x5C \<Longrightarrow> c \<noteq> CHR ''%'' \<Longrightarrow> c \<noteq> CHR ''_'' \<Longrightarrow>
       like_loop t (c # p) = (if c \<noteq> hd t then Inr pgLikeFalse else like_loop (tl t) p)"
  using assms by (subst like_loop.simps, simp)+

lemma like_correct:
  "single_byte t \<Longrightarrow> answers t (tokens p) (pgMatchText t p)"
  "single_byte t \<Longrightarrow> answers t (tokens p) (like_loop t p)"
  "single_byte t \<Longrightarrow> p \<noteq> [] \<Longrightarrow> firstpat p = Inr fp \<Longrightarrow> hd p \<noteq> CHR ''%'' \<Longrightarrow> hd p \<noteq> CHR ''_'' \<Longrightarrow>
     answers t (Many # tokens p) (like_scan t p fp)"
proof (induction t p and t p and t p fp rule: pgMatchText_like_loop_like_scan.induct)
  case (1 t p)
  show ?case
  proof (cases "p = ''%''")
    case True
    then show ?thesis by (auto simp: pgMatchText.simps answers_def intro: bexI[of _ "[]"])
  next
    case False
    then show ?thesis using 1 by (simp add: pgMatchText.simps[of t p])
  qed
next
  case (2 t p)
  show ?case
  proof (cases "t = [] \<or> p = []")
    case True
    then have e: "like_loop t p = Inr (like_end t p)" unfolding like_loop.simps[of t p] by (rule if_P)
    show ?thesis
    proof (cases "t = []")
      case nil: True
      have "like_end t p = (if likes t (tokens p) then pgLikeTrue else pgLikeAbort)" by (simp add: like_end_def nil likes_nil)
      then show ?thesis using e[unfolded nil] unfolding answers_def nil by simp
    next
      case False
      then have "like_end t p = pgLikeFalse" "p = []" using True by (simp_all add: like_end_def)
      then show ?thesis unfolding e answers_def using False by simp
    qed
  next
    case ne: False
    then obtain c p1 where p: "p = c # p1" by (cases p) auto
    from ne have t: "t \<noteq> []" by simp
    consider (esc) "c = CHR 0x5C" | (many) "c = CHR ''%''" | (one) "c = CHR ''_''"
      | (lit) "c \<noteq> CHR 0x5C" "c \<noteq> CHR ''%''" "c \<noteq> CHR ''_''" by blast
    then show ?thesis
    proof cases
      case esc
      show ?thesis
      proof (cases p1)
        case Nil
        then show ?thesis using p esc like_loop_cases(1)[OF t] by (simp add: answers_def)
      next
        case (Cons d p2)
        have tok: "tokens p = Lit d # tokens p2" using esc p Cons by simp
        show ?thesis
        proof (cases "d = hd t")
          case True
          have "answers (tl t) (tokens p2) (like_loop (tl t) p2)" using 2(1) ne esc p Cons True 2(5) by simp
          then show ?thesis using answers_lit(1)[OF t, of d] True esc p Cons like_loop_cases(2)[OF t, of d p2] by simp
        next
          case False
          then show ?thesis unfolding tok using answers_lit(2)[OF t, of d] esc p Cons like_loop_cases(2)[OF t, of d p2] by simp
        qed
      qed
    next
      case many
      have tok: "tokens p = Many # tokens p1" using many p by simp
      show ?thesis
      proof (cases "like_skip t p1")
        case None
        then have "\<forall>u\<in>set (suffixes t). \<not> likes u (tokens p1)" using like_skip_tokens[OF 2(5), of p1] by simp
        then have "\<not> likes t (Many # tokens p1)" by simp
        then have "\<forall>u\<in>set (suffixes t). \<not> likes u (Many # tokens p1)" using likes_many_suffix by blast
        with \<open>\<not> likes t (Many # tokens p1)\<close> show ?thesis unfolding tok
          using None many p like_loop_cases(3)[OF t, of p1] by (simp add: answers_def)
      next
        case (Some q)
        obtain t' p' where q: "q = (t', p')" by fastforce
        have sk: "single_byte t'" "p' \<noteq> [] \<longrightarrow> hd p' \<noteq> CHR ''%'' \<and> hd p' \<noteq> CHR ''_''"
          using like_skip_tokens[OF 2(5), of p1] Some q by auto
        show ?thesis unfolding tok
        proof (rule answers_skip[OF 2(5), of p1 t' p'])
          show "like_skip t p1 = Some (t', p')" using Some q by simp
          show "answers t' (Many # tokens p') (like_loop t p)"
          proof (cases "p' = []")
            case True
            then show ?thesis using Some q many p like_loop_cases(3)[OF t, of p1] by (auto simp: answers_def intro: bexI[of _ "[]"])
          next
            case False
            show ?thesis
            proof (cases "firstpat p'")
              case (Inl e)
              then have "p' = [CHR 0x5C]" using False by (cases p') (auto simp: firstpat_def split: if_splits)
              then show ?thesis using Inl Some q many p like_loop_cases(3)[OF t, of p1] by (auto simp: answers_def)
            next
              case (Inr fp)
              have "answers t' (Many # tokens p') (like_scan t' p' fp)"
                using 2(2) ne many p Some q False Inr sk by simp
              then show ?thesis using Inr Some q many p False like_loop_cases(3)[OF t, of p1] by simp
            qed
          qed
        qed
      qed
    next
      case one
      have "answers (tl t) (tokens p1) (like_loop (tl t) p1)" using 2(3) ne one p 2(5) by simp
      then show ?thesis using answers_one[OF t] one p 2(5) like_loop_cases(4)[OF t, of p1] by simp
    next
      case lit
      have tok: "tokens p = Lit c # tokens p1" using lit p by simp
      show ?thesis
      proof (cases "c = hd t")
        case True
        have "answers (tl t) (tokens p1) (like_loop (tl t) p1)" using 2(4) ne lit p True 2(5) by simp
        then show ?thesis unfolding tok using answers_lit(1)[OF t, of c] True lit p like_loop_cases(5)[OF t lit, of p1] by simp
      next
        case False
        then show ?thesis unfolding tok using answers_lit(2)[OF t, of c] lit p like_loop_cases(5)[OF t lit, of p1] by simp
      qed
    qed
  qed
next
  case (3 t p fp)
  have lit: "\<exists>ts. tokens p = Lit fp # ts"
    using 3(5-8) by (cases p) (auto simp: firstpat_def split: if_splits list.splits)
  show ?case
  proof (cases "t = []")
    case True
    then have e: "like_scan t p fp = Inr pgLikeAbort" unfolding like_scan.simps[of t p fp] by (rule if_P)
    show ?thesis unfolding e using lit True by (auto simp: answers_def)
  next
    case ne: False
    show ?thesis
    proof (cases "hd t = fp")
      case True
      have m: "answers t (tokens p) (pgMatchText t p)" using 3(1)[OF ne True] 3(4) by simp
      show ?thesis
      proof (cases "pgMatchText t p = Inr pgLikeFalse")
        case f: True
        then have "\<not> likes t (tokens p)" using m by (auto simp: answers_def)
        moreover have "answers (tl t) (Many # tokens p) (like_scan (tl t) p fp)"
          using 3(2)[OF ne True f] 3(4-8) by simp
        ultimately show ?thesis using answers_many[OF ne] f True ne 3(4) by (simp add: like_scan.simps[of t p fp])
      next
        case nf: False
        then have e: "like_scan t p fp = pgMatchText t p"
          using ne True by (auto simp: like_scan.simps[of t p fp] split: sum.splits)
        show ?thesis unfolding e by (rule answers_stop[OF m nf])
      qed
    next
      case False
      then have "\<not> likes t (tokens p)" using lit by auto
      moreover have "answers (tl t) (Many # tokens p) (like_scan (tl t) p fp)"
        using 3(3)[OF ne False] 3(4-8) by simp
      ultimately show ?thesis using answers_many[OF ne] False ne 3(4) by (simp add: like_scan.simps[of t p fp])
    qed
  qed
qed





subsection \<open>ESCAPE clauses\<close>

text \<open>Rewriting a pattern with another escape character into one that escapes with backslash. Taking
  a character's bytes past the end of the pattern would panic (None).\<close>

function escape_none :: "string \<Rightarrow> string option" where
  "escape_none pat = (if pat = [] then Some []
     else let n = pgCharLen (hd pat) in
       if n > length pat then None
       else map_option (\<lambda>r. (if hd pat = CHR 0x5C then [CHR 0x5C] else []) @ take n pat @ r) (escape_none (next_char pat)))"
  by pat_completeness auto
termination by (relation "measure length") (auto simp: next_char_shorter)

function escape_loop :: "string \<Rightarrow> bool \<Rightarrow> string \<Rightarrow> string option" where
  "escape_loop esc after pat = (if pat = [] then Some []
     else let n = pgCharLen (hd pat) in
       if take n pat = esc \<and> \<not> after then map_option (\<lambda>r. CHR 0x5C # r) (escape_loop esc True (next_char pat))
       else if hd pat = CHR 0x5C
       then map_option (\<lambda>r. (if after then [CHR 0x5C] else [CHR 0x5C, CHR 0x5C]) @ r) (escape_loop esc False (next_char pat))
       else if n > length pat then None
       else map_option (\<lambda>r. take n pat @ r) (escape_loop esc False (next_char pat)))"
  by pat_completeness auto
termination by (relation "measure (\<lambda>(e, a, p). length p)") (auto simp: next_char_shorter)

declare escape_none.simps [simp del] escape_loop.simps [simp del]

definition pgLikeEscape :: "string \<Rightarrow> string \<Rightarrow> string result option" where
  "pgLikeEscape pat esc =
     (if esc = [] then map_option Inr (escape_none pat)
      else if pgCharLen (hd esc) \<noteq> length esc then Some (Inl (ErrOther ''invalid escape string''))
      else if esc = [CHR 0x5C] then Some (Inr pat)
      else map_option Inr (escape_loop esc False pat))"

text \<open>The meaning of a pattern under an escape character of its own, or none.\<close>

fun tokens_with :: "char option \<Rightarrow> string \<Rightarrow> pat_token list" where
  "tokens_with e [] = []"
| "tokens_with e (c # p) =
     (if e = Some c then (case p of [] \<Rightarrow> [Dangling] | d # p' \<Rightarrow> Lit d # tokens_with e p')
      else if c = CHR ''%'' then Many # tokens_with e p
      else if c = CHR ''_'' then One # tokens_with e p
      else Lit c # tokens_with e p)"

lemma single_Cons [simp]: "single_byte (c # t) \<longleftrightarrow> (of_char c :: nat) < 128 \<and> single_byte t"
  by (simp add: single_byte_def)

lemma pgCharLen_single [simp]: "(of_char c :: nat) < 128 \<Longrightarrow> pgCharLen c = 1"
  by (simp add: pgCharLen_def)

lemma escape_none_step:
  "escape_none [] = Some []"
  "single_byte (c # p) \<Longrightarrow> escape_none (c # p) =
     map_option (\<lambda>r. (if c = CHR 0x5C then [CHR 0x5C, c] else [c]) @ r) (escape_none p)"
proof -
  show "escape_none [] = Some []" unfolding escape_none.simps[of "[]"] by simp
  assume a: "single_byte (c # p)"
  then have "next_char (c # p) = p" "pgCharLen c = 1" by (simp_all add: next_char_single[OF a] del: next_char_single)
  then show "escape_none (c # p) = map_option (\<lambda>r. (if c = CHR 0x5C then [CHR 0x5C, c] else [c]) @ r) (escape_none p)"
    unfolding escape_none.simps[of "c # p"] by (auto intro!: option.map_cong0)
qed

lemma escape_none_ok: "single_byte p \<Longrightarrow> \<exists>q. escape_none p = Some q \<and> tokens q = tokens_with None p"
proof (induction p)
  case (Cons c p)
  then obtain q where "escape_none p = Some q" "tokens q = tokens_with None p" by auto
  then show ?case using Cons.prems by (simp add: escape_none_step(2))
qed (simp add: escape_none_step)

lemma escape_loop_step:
  "escape_loop [e] after [] = Some []"
  "single_byte (c # p) \<Longrightarrow> escape_loop [e] after (c # p) =
     (if c = e \<and> \<not> after then map_option (\<lambda>r. CHR 0x5C # r) (escape_loop [e] True p)
      else if c = CHR 0x5C
      then map_option (\<lambda>r. (if after then [CHR 0x5C] else [CHR 0x5C, CHR 0x5C]) @ r) (escape_loop [e] False p)
      else map_option (\<lambda>r. c # r) (escape_loop [e] False p))"
proof -
  show "escape_loop [e] after [] = Some []" unfolding escape_loop.simps[of "[e]" after "[]"] by simp
  assume a: "single_byte (c # p)"
  then have nx: "next_char (c # p) = p" "pgCharLen c = 1" by (simp_all add: next_char_single[OF a] del: next_char_single)
  have cons: "(@) [x] = (#) x" for x :: char by (rule ext) simp
  show "escape_loop [e] after (c # p) =
     (if c = e \<and> \<not> after then map_option (\<lambda>r. CHR 0x5C # r) (escape_loop [e] True p)
      else if c = CHR 0x5C
      then map_option (\<lambda>r. (if after then [CHR 0x5C] else [CHR 0x5C, CHR 0x5C]) @ r) (escape_loop [e] False p)
      else map_option (\<lambda>r. c # r) (escape_loop [e] False p))"
    unfolding escape_loop.simps[of "[e]" after "c # p"] nx Let_def list.sel by (auto simp: cons nx(2))
qed

lemma escape_loop_ok:
  assumes "single_byte p" "e \<noteq> CHR 0x5C"
  shows "(\<exists>q. escape_loop [e] False p = Some q \<and> tokens q = tokens_with (Some e) p) \<and>
    (p \<noteq> [] \<longrightarrow> (\<exists>q. escape_loop [e] True p = Some (hd p # q) \<and> tokens q = tokens_with (Some e) (tl p)))"
  using assms(1)
proof (induction p)
  case (Cons c p)
  from Cons.prems have sb: "single_byte p" by simp
  note ih = Cons.IH[OF sb]
  from ih obtain q where q: "escape_loop [e] False p = Some q" "tokens q = tokens_with (Some e) p" by blast
  have t: "\<exists>q. escape_loop [e] True (c # p) = Some (hd (c # p) # q) \<and> tokens q = tokens_with (Some e) (tl (c # p))"
    using q Cons.prems by (auto simp: escape_loop_step(2))
  have "\<exists>q. escape_loop [e] False (c # p) = Some q \<and> tokens q = tokens_with (Some e) (c # p)"
  proof (cases "c = e")
    case True
    show ?thesis
    proof (cases p)
      case Nil
      then show ?thesis using True Cons.prems by (simp add: escape_loop_step)
    next
      case p: (Cons d p')
      from ih p obtain q' where "escape_loop [e] True p = Some (d # q')" "tokens q' = tokens_with (Some e) p'" by auto
      then show ?thesis using True p Cons.prems by (simp add: escape_loop_step(2)[of e "d # p'"])
    qed
  next
    case False
    then show ?thesis using q Cons.prems by (auto simp: escape_loop_step(2))
  qed
  with t show ?case by blast
qed (simp add: escape_loop_step)

text \<open>An ESCAPE clause means what it says. For a single-byte pattern and an escape that is empty
  or one single-byte character, the rewritten pattern has exactly the meaning of the original under
  that escape character, and nothing panics.\<close>

theorem like_escape_correct:
  assumes "single_byte pat" "single_byte esc" "length esc \<le> 1"
  shows "\<exists>q. pgLikeEscape pat esc = Some (Inr q) \<and> tokens q = tokens_with (case esc of [] \<Rightarrow> None | e # _ \<Rightarrow> Some e) pat"
proof (cases esc)
  case Nil
  then show ?thesis using escape_none_ok[OF assms(1)] by (auto simp: pgLikeEscape_def)
next
  case (Cons e es)
  then have e: "esc = [e]" "pgCharLen e = 1" using assms(2,3) by auto
  show ?thesis
  proof (cases "e = CHR 0x5C")
    case True
    have "tokens p = tokens_with (Some (CHR 0x5C)) p" for p
      by (induction p rule: tokens.induct) (auto split: list.splits)
    then show ?thesis using e True by (simp add: pgLikeEscape_def)
  next
    case False
    then show ?thesis using escape_loop_ok[OF assms(1) False] e by (auto simp: pgLikeEscape_def)
  qed
qed

theorem like_escape_correct_witness: "pgLikeEscape ''10!%'' ''!'' = Some (Inr [CHR ''1'', CHR ''0'', CHR 0x5C, CHR ''%''])"
proof -
  have sb: "single_byte ''10!%''" "single_byte ''!''" by (simp_all add: single_byte_def)
  from like_escape_correct[OF sb] obtain q where "pgLikeEscape ''10!%'' ''!'' = Some (Inr q)" by auto
  moreover have "pgLikeEscape ''10!%'' ''!'' = map_option Inr (escape_loop ''!'' False ''10!%'')" using sb by (simp add: pgLikeEscape_def single_byte_def)
  ultimately show ?thesis using sb by (simp add: escape_loop_step single_byte_def)
qed

end
