(* ===== verification/Jsonpath.thy ===== *)
theory Jsonpath
  imports Json "HOL-Library.Char_ord"
begin

section \<open>JSON paths: pkg/jsonpath\<close>

text \<open>
  Property paths, wildcards, array indices and half-open slices over decoded documents. White space
  is the ASCII white space; a path is a byte string. \<open>strconv.Unquote\<close> is modelled for double-quoted
  text: bytes from 128 up pass through, which is what it does for valid UTF-8.
\<close>

record step =
  st_name :: string
  st_array :: bool
  st_wildcard :: bool
  st_index :: int
  st_slice :: bool
  st_start :: "int option"
  st_end :: "int option"

definition zero_step :: step where
  "zero_step = \<lparr>st_name = [], st_array = False, st_wildcard = False, st_index = 0, st_slice = False, st_start = None, st_end = None\<rparr>"

definition path_err :: err where "path_err = ErrOther ''jsonpath''"

subsection \<open>Library functions\<close>

definition is_space :: "char \<Rightarrow> bool" where
  "is_space c \<longleftrightarrow> c \<in> {CHR '' '', CHR 0x09, CHR 0x0A, CHR 0x0B, CHR 0x0C, CHR 0x0D}"

definition TrimSpace :: "string \<Rightarrow> string" where
  "TrimSpace s = rev (dropWhile is_space (rev (dropWhile is_space s)))"

definition Atoi :: "string \<Rightarrow> int option" where
  "Atoi s = (let (neg, d) = (case s of c # t \<Rightarrow> if c = CHR ''-'' then (True, t) else if c = CHR ''+'' then (False, t) else (False, s)
       | [] \<Rightarrow> (False, [])) in
     case parse_nat d of None \<Rightarrow> None
     | Some n \<Rightarrow> let i = (if neg then - int n else int n) in if - (2 ^ 63) \<le> i \<and> i < 2 ^ 63 then Some i else None)"

definition hex_val :: "char \<Rightarrow> nat option" where
  "hex_val c = (let n = (of_char c :: nat) in
     if 48 \<le> n \<and> n \<le> 57 then Some (n - 48) else if 97 \<le> n \<and> n \<le> 102 then Some (n - 87)
     else if 65 \<le> n \<and> n \<le> 70 then Some (n - 55) else None)"

fun hex_number :: "string \<Rightarrow> nat \<Rightarrow> nat option" where
  "hex_number [] v = Some v"
| "hex_number (c # cs) v = (case hex_val c of None \<Rightarrow> None | Some d \<Rightarrow> hex_number cs (16 * v + d))"

definition utf8 :: "nat \<Rightarrow> string" where
  "utf8 r = (if r < 0x80 then [char_of r]
     else if r < 0x800 then [char_of (0xC0 + r div 64), char_of (0x80 + r mod 64)]
     else if r < 0x10000 then [char_of (0xE0 + r div 4096), char_of (0x80 + r div 64 mod 64), char_of (0x80 + r mod 64)]
     else [char_of (0xF0 + r div 262144), char_of (0x80 + r div 4096 mod 64), char_of (0x80 + r div 64 mod 64), char_of (0x80 + r mod 64)])"

definition valid_rune :: "nat \<Rightarrow> bool" where
  "valid_rune r \<longleftrightarrow> r < 0xD800 \<or> 0xDFFF < r \<and> r \<le> 0x10FFFF"

definition simple_escape :: "char \<Rightarrow> char option" where
  "simple_escape c = map_of [(CHR ''a'', CHR 0x07), (CHR ''b'', CHR 0x08), (CHR ''f'', CHR 0x0C), (CHR ''n'', CHR 0x0A),
     (CHR ''r'', CHR 0x0D), (CHR ''t'', CHR 0x09), (CHR ''v'', CHR 0x0B), (CHR 0x5C, CHR 0x5C), (CHR 0x22, CHR 0x22)] c"

text \<open>One escape after the backslash: its bytes and the rest. \<open>\x\<close> and octal give one byte, \<open>\u\<close> and
  \<open>\U\<close> a character.\<close>

definition unescape :: "string \<Rightarrow> (string \<times> string) option" where
  "unescape s = (case s of
     [] \<Rightarrow> None
   | c # t \<Rightarrow> (case simple_escape c of
       Some x \<Rightarrow> Some ([x], t)
     | None \<Rightarrow>
         let n = (if c = CHR ''x'' then 2 else if c = CHR ''u'' then 4 else if c = CHR ''U'' then 8 else 0) in
         if n > 0 then
           (if length t < n then None
            else (case hex_number (take n t) 0 of
                None \<Rightarrow> None
              | Some r \<Rightarrow> if c = CHR ''x'' then Some ([char_of r], drop n t)
                  else if valid_rune r then Some (utf8 r, drop n t) else None))
         else if CHR ''0'' \<le> c \<and> c \<le> CHR ''7'' then
           (if length s < 3 \<or> \<not> list_all (\<lambda>d. CHR ''0'' \<le> d \<and> d \<le> CHR ''7'') (take 3 s) then None
            else let v = foldl (\<lambda>v d. 8 * v + digit_val d) 0 (take 3 s) in
              if v > 255 then None else Some ([char_of v], drop 3 s))
         else None))"


lemma unescape_shorter: "unescape s = Some (x, r) \<Longrightarrow> length r < length s"
  by (cases s) (auto simp: unescape_def Let_def split: option.splits if_splits)

function unquote_body :: "string \<Rightarrow> string option" where
  "unquote_body s = (case s of
     [] \<Rightarrow> Some []
   | c # t \<Rightarrow> if c = CHR 0x22 \<or> c = CHR 0x0A then None
       else if c = CHR 0x5C then
         (case unescape t of None \<Rightarrow> None | Some (x, r) \<Rightarrow> map_option (\<lambda>u. x @ u) (unquote_body r))
       else map_option (\<lambda>u. c # u) (unquote_body t))"
  by pat_completeness auto
termination by (relation "measure length") (auto dest: unescape_shorter)

declare unquote_body.simps [simp del]

subsection \<open>Parsing\<close>

definition strip_dot :: "string \<Rightarrow> string result" where
  "strip_dot p = (if hd p = CHR ''.'' then (if tl p = [] then Inl path_err else Inr (tl p)) else Inr p)"

definition parse_property :: "string \<Rightarrow> (step \<times> string) result" where
  "parse_property p = (let name = takeWhile (\<lambda>c. c \<notin> set ''.['') p; rest = dropWhile (\<lambda>c. c \<notin> set ''.['') p in
     if name = [] then Inl path_err
     else if name = ''*'' then Inr (zero_step\<lparr>st_array := True, st_wildcard := True\<rparr>, rest)
     else if ContainsAny name ('' ()?@*$'' @ [CHR 0x27]) then Inl path_err
     else Inr (zero_step\<lparr>st_name := name\<rparr>, rest))"

definition bound_of :: "string \<Rightarrow> int option result" where
  "bound_of a = (if a = [] then Inr None else (case Atoi a of None \<Rightarrow> Inl path_err | Some n \<Rightarrow> Inr (Some n)))"

definition quoted :: "char \<Rightarrow> string \<Rightarrow> bool" where
  "quoted q part \<longleftrightarrow> hd part = q \<and> last part = q"

definition selector :: "string \<Rightarrow> step result" where
  "selector part =
     (if length part \<ge> 2 \<and> (quoted (CHR 0x27) part \<or> quoted (CHR 0x22) part) then
        (let inner = butlast (tl part) in
         if hd part = CHR 0x22 then
           (case unquote_body inner of None \<Rightarrow> Inl path_err | Some name \<Rightarrow> Inr (zero_step\<lparr>st_name := name\<rparr>))
         else Inr (zero_step\<lparr>st_name := inner\<rparr>))
      else if part = ''*'' then Inr (zero_step\<lparr>st_array := True, st_wildcard := True\<rparr>)
      else (case Cut (CHR '':'') part of
          (a, b, True) \<Rightarrow> (case bound_of a of Inl e \<Rightarrow> Inl e
            | Inr s \<Rightarrow> (case bound_of b of Inl e \<Rightarrow> Inl e
              | Inr t \<Rightarrow> Inr (zero_step\<lparr>st_array := True, st_slice := True, st_start := s, st_end := t\<rparr>)))
        | (_, _, False) \<Rightarrow> (case Atoi part of None \<Rightarrow> Inl path_err
            | Some i \<Rightarrow> Inr (zero_step\<lparr>st_array := True, st_index := i\<rparr>))))"

definition parse_bracket :: "string \<Rightarrow> (step \<times> string) result" where
  "parse_bracket p = (case Cut (CHR '']'') p of
     (_, _, False) \<Rightarrow> Inl path_err
   | (a, rest, True) \<Rightarrow>
       if rest \<noteq> [] \<and> hd rest \<noteq> CHR ''.'' \<and> hd rest \<noteq> CHR ''['' then Inl path_err
       else rfmap (\<lambda>s. (s, rest)) (selector (TrimSpace (tl a))))"

definition parse_step :: "string \<Rightarrow> (step \<times> string) result" where
  "parse_step p = (if hd p \<noteq> CHR ''['' then parse_property p else parse_bracket p)"

lemma parse_step_shorter: "parse_step p = Inr (s, rest) \<Longrightarrow> length rest < length p"
proof (cases "hd p \<noteq> CHR ''[''")
  case True
  assume "parse_step p = Inr (s, rest)"
  with True have "takeWhile (\<lambda>c. c \<notin> set ''.['') p \<noteq> []" "rest = dropWhile (\<lambda>c. c \<notin> set ''.['') p"
    by (auto simp: parse_step_def parse_property_def Let_def split: if_splits)
  then show ?thesis by (metis append_Nil length_append length_greater_0_conv less_add_same_cancel2 takeWhile_dropWhile_id)
next
  case False
  assume "parse_step p = Inr (s, rest)"
  with False obtain a where "Cut (CHR '']'') p = (a, rest, True)"
    by (auto simp: parse_step_def parse_bracket_def rfmap_Inr_iff split: prod.splits bool.splits if_splits)
  then show ?thesis by (rule Cut_shorter)
qed

function parse_path :: "string \<Rightarrow> step list result" where
  "parse_path p = (if p = [] then Inr []
     else (case strip_dot p of
         Inl e \<Rightarrow> Inl e
       | Inr p1 \<Rightarrow> (case parse_step p1 of
           Inl e \<Rightarrow> Inl e
         | Inr (s, rest) \<Rightarrow> rfmap (\<lambda>ss. s # ss) (parse_path rest))))"
  by pat_completeness auto
termination
proof (relation "measure length", goal_cases)
  case (2 p p1 x s rest)
  from 2 have "parse_step p1 = Inr (s, rest)" by simp
  from parse_step_shorter[OF this] have "length rest < length p1" .
  moreover have "length p1 \<le> length p" using 2 by (auto simp: strip_dot_def split: if_splits)
  ultimately show ?case by simp
qed simp

declare parse_path.simps [simp del]

definition Parse :: "string \<Rightarrow> step list result" where
  "Parse path = (let p = TrimSpace path in parse_path (if HasPrefix p ''$'' then tl p else p))"

subsection \<open>Selecting\<close>

definition position :: "int \<Rightarrow> nat \<Rightarrow> nat" where
  "position i n = (let j = (if i < 0 then i + int n else i) in if j < 0 then 0 else if j > int n then n else nat j)"

definition step_values :: "step \<Rightarrow> json \<Rightarrow> json list" where
  "step_values s v =
     (if \<not> st_array s then
        (case v of JObj m \<Rightarrow> (case gm_get m (st_name s) of Some c \<Rightarrow> [c] | None \<Rightarrow> []) | _ \<Rightarrow> [])
      else (case v of
          JObj m \<Rightarrow> if st_wildcard s then map (\<lambda>k. the (gm_get m k)) (sort (gm_keys m)) else []
        | JArr items \<Rightarrow>
            if st_wildcard s then items
            else if st_slice s then
              (let lo = (case st_start s of None \<Rightarrow> 0 | Some i \<Rightarrow> position i (length items));
                   hi = (case st_end s of None \<Rightarrow> length items | Some i \<Rightarrow> position i (length items)) in
               if lo < hi then take (hi - lo) (drop lo items) else [])
            else (let i = (if st_index s < 0 then st_index s + int (length items) else st_index s) in
               if 0 \<le> i \<and> i < int (length items) then [items ! nat i] else [])
        | _ \<Rightarrow> []))"

definition Values :: "step list \<Rightarrow> json \<Rightarrow> json list" where
  "Values steps doc = foldl (\<lambda>vs s. concat (map (step_values s) vs)) [doc] steps"


subsection \<open>The canonical text of a path\<close>

definition fmt_bound :: "int option \<Rightarrow> string" where
  "fmt_bound b = (case b of None \<Rightarrow> [] | Some i \<Rightarrow> fmt_int i)"

definition selector_text :: "step \<Rightarrow> string" where
  "selector_text s =
     (if \<not> st_array s then CHR 0x27 # st_name s @ [CHR 0x27]
      else if st_wildcard s then ''*''
      else if st_slice s then fmt_bound (st_start s) @ '':'' @ fmt_bound (st_end s)
      else fmt_int (st_index s))"

definition path_text :: "step list \<Rightarrow> string" where
  "path_text ss = ''$'' @ concat (map (\<lambda>s. ''['' @ selector_text s @ '']'') ss)"

definition int64 :: "int \<Rightarrow> bool" where
  "int64 i \<longleftrightarrow> - (2 ^ 63) \<le> i \<and> i < 2 ^ 63"

text \<open>The steps the parser can produce, with names that do not hold a closing bracket.\<close>

definition wf_step :: "step \<Rightarrow> bool" where
  "wf_step s \<longleftrightarrow> (\<exists>n. CHR '']'' \<notin> set n \<and> s = zero_step\<lparr>st_name := n\<rparr>) \<or>
     s = zero_step\<lparr>st_array := True, st_wildcard := True\<rparr> \<or>
     (\<exists>i. int64 i \<and> s = zero_step\<lparr>st_array := True, st_index := i\<rparr>) \<or>
     (\<exists>a b. (\<forall>i. a = Some i \<longrightarrow> int64 i) \<and> (\<forall>i. b = Some i \<longrightarrow> int64 i) \<and>
        s = zero_step\<lparr>st_array := True, st_slice := True, st_start := a, st_end := b\<rparr>)"

lemma fmt_int_chars: "c \<in> set (fmt_int i) \<Longrightarrow> c = CHR ''-'' \<or> is_digit c"
  using fmt_nat_digits by (auto simp: fmt_int_def list_all_iff split: if_splits)

lemma fmt_int_not_Nil [simp]: "fmt_int i \<noteq> []"
  by (simp add: fmt_int_def)

lemma digit_not: "is_digit c \<Longrightarrow> c \<notin> {CHR ''-'', CHR ''+'', CHR '':'', CHR '']'', CHR ''*'', CHR 0x27, CHR 0x22} \<and> \<not> is_space c"
  by (auto simp: is_digit_def is_space_def)

lemma Atoi_fmt_int: "int64 i \<Longrightarrow> Atoi (fmt_int i) = Some i"
proof (cases "i < 0")
  case True
  assume "int64 i"
  with True show ?thesis by (simp add: Atoi_def fmt_int_def int64_def)
next
  case False
  assume i: "int64 i"
  obtain c t where ct: "fmt_nat (nat i) = c # t" by (cases "fmt_nat (nat i)") auto
  have "is_digit c" using fmt_nat_digits[of "nat i"] ct by simp
  then have "c \<noteq> CHR ''-''" "c \<noteq> CHR ''+''" using digit_not by auto
  moreover have "parse_nat (c # t) = Some (nat i)" using ct parse_nat_fmt_nat[of "nat i"] by simp
  ultimately show ?thesis using i False ct by (simp add: Atoi_def fmt_int_def int64_def)
qed

lemma TrimSpace_id: "s \<noteq> [] \<Longrightarrow> \<not> is_space (hd s) \<Longrightarrow> \<not> is_space (last s) \<Longrightarrow> TrimSpace s = s"
  by (simp add: TrimSpace_def dropWhile_eq_self_iff[THEN iffD2] hd_rev)

lemma Cut_none: "c \<notin> set s \<Longrightarrow> Cut c s = (s, [], False)"
  using Cut_correct[of c s] by (cases "Cut c s") (fastforce split: if_splits)

lemma bound_of_fmt: "(\<forall>i. b = Some i \<longrightarrow> int64 i) \<Longrightarrow> bound_of (fmt_bound b) = Inr b"
  by (cases b) (auto simp: bound_of_def fmt_bound_def Atoi_fmt_int)

lemma number_text:
  assumes "\<forall>c\<in>set s. c = CHR ''-'' \<or> c = CHR '':'' \<or> is_digit c" "s \<noteq> []"
  shows "TrimSpace s = s" "CHR '']'' \<notin> set s" "hd s \<noteq> CHR 0x27" "hd s \<noteq> CHR 0x22" "s \<noteq> ''*''"
proof -
  have ok: "\<not> is_space c \<and> c \<noteq> CHR 0x27 \<and> c \<noteq> CHR 0x22 \<and> c \<noteq> CHR '']'' \<and> c \<noteq> CHR ''*''" if "c \<in> set s" for c
  proof -
    from assms(1) that consider "c = CHR ''-''" | "c = CHR '':''" | "is_digit c" by blast
    then show ?thesis
    proof cases
      case 3
      then show ?thesis using digit_not[of c] by simp
    qed (simp_all add: is_space_def)
  qed
  show "TrimSpace s = s" using ok[of "hd s"] ok[of "last s"] assms(2) by (intro TrimSpace_id) auto
  show "CHR '']'' \<notin> set s" "hd s \<noteq> CHR 0x27" "hd s \<noteq> CHR 0x22" using ok ok[of "hd s"] assms(2) by auto
  show "s \<noteq> ''*''" using ok[of "hd s"] assms(2) by auto
qed

lemma selector_text_ok:
  assumes "wf_step s"
  shows "CHR '']'' \<notin> set (selector_text s) \<and> selector (TrimSpace (selector_text s)) = Inr s"
proof -
  consider (name) n where "CHR '']'' \<notin> set n" "s = zero_step\<lparr>st_name := n\<rparr>"
    | (wild) "s = zero_step\<lparr>st_array := True, st_wildcard := True\<rparr>"
    | (index) i where "int64 i" "s = zero_step\<lparr>st_array := True, st_index := i\<rparr>"
    | (slice) a b where "\<forall>i. a = Some i \<longrightarrow> int64 i" "\<forall>i. b = Some i \<longrightarrow> int64 i"
        "s = zero_step\<lparr>st_array := True, st_slice := True, st_start := a, st_end := b\<rparr>"
    using assms by (auto simp: wf_step_def)
  then show ?thesis
  proof cases
    case name
    have t: "selector_text s = CHR 0x27 # n @ [CHR 0x27]" using name by (simp add: selector_text_def zero_step_def)
    have tr: "TrimSpace (CHR 0x27 # n @ [CHR 0x27]) = CHR 0x27 # n @ [CHR 0x27]"
      by (rule TrimSpace_id) (simp_all add: is_space_def)
    show ?thesis unfolding t tr using name by (simp add: selector_def quoted_def Let_def)
  next
    case wild
    have t: "selector_text s = ''*''" using wild by (simp add: selector_text_def zero_step_def)
    have tr: "TrimSpace ''*'' = ''*''" by (rule TrimSpace_id) (simp_all add: is_space_def)
    show ?thesis unfolding t tr using wild by (simp add: selector_def)
  next
    case index
    have t: "selector_text s = fmt_int i" using index by (simp add: selector_text_def zero_step_def)
    have "\<forall>c\<in>set (fmt_int i). c = CHR ''-'' \<or> c = CHR '':'' \<or> is_digit c" using fmt_int_chars by blast
    note nt = number_text[OF this fmt_int_not_Nil]
    have "CHR '':'' \<notin> set (fmt_int i)" using fmt_int_chars digit_not by fastforce
    then show ?thesis unfolding t using nt index Cut_none[of "CHR '':''" "fmt_int i"]
      by (simp add: selector_def quoted_def Atoi_fmt_int)
  next
    case slice
    have t: "selector_text s = fmt_bound a @ '':'' @ fmt_bound b" using slice by (simp add: selector_text_def zero_step_def)
    have fb: "c = CHR ''-'' \<or> is_digit c" if "c \<in> set (fmt_bound x)" for c x
      using that fmt_int_chars by (auto simp: fmt_bound_def split: option.splits)
    have "\<forall>c\<in>set (selector_text s). c = CHR ''-'' \<or> c = CHR '':'' \<or> is_digit c" unfolding t using fb by auto
    note nt = number_text[OF this]
    have ne: "selector_text s \<noteq> []" by (simp add: t)
    have "CHR '':'' \<notin> set (fmt_bound a)" using fb digit_not by fastforce
    then have "Cut (CHR '':'') (selector_text s) = (fmt_bound a, fmt_bound b, True)" using Cut_found by (simp add: t)
    then show ?thesis using nt[OF ne] slice by (simp add: selector_def quoted_def bound_of_fmt)
  qed
qed

lemma parse_path_step:
  assumes "wf_step s" "rest = [] \<or> hd rest = CHR ''[''"
  shows "parse_path (''['' @ selector_text s @ '']'' @ rest) = rfmap (\<lambda>ss. s # ss) (parse_path rest)"
proof -
  note st = selector_text_ok[OF assms(1)]
  have "Cut (CHR '']'') (''['' @ selector_text s @ '']'' @ rest) = (''['' @ selector_text s, rest, True)"
    using Cut_found[of "CHR '']''" "''['' @ selector_text s" rest] st by simp
  then have "parse_step (''['' @ selector_text s @ '']'' @ rest) = Inr (s, rest)"
    using st assms(2) by (auto simp: parse_step_def parse_bracket_def)
  then show ?thesis by (subst parse_path.simps) (simp add: strip_dot_def)
qed

text \<open>Parsing is the inverse of writing. The canonical text of any sequence of supported steps
  (property names without a closing bracket, wildcards, indices and slices with 64-bit bounds) parses
  back to exactly those steps.\<close>

theorem jsonpath_roundtrip:
  assumes "list_all wf_step ss"
  shows "Parse (path_text ss) = Inr ss"
proof -
  let ?t = "concat (map (\<lambda>s. ''['' @ selector_text s @ '']'') ss)"
  have "parse_path ?t = Inr ss"
    using assms
  proof (induction ss)
    case Nil
    show ?case by (simp add: parse_path.simps)
  next
    case (Cons s ss)
    let ?r = "concat (map (\<lambda>s. ''['' @ selector_text s @ '']'') ss)"
    have "?r = [] \<or> hd ?r = CHR ''[''" by (cases ss) auto
    with Cons parse_path_step[of s ?r] show ?case by simp
  qed
  moreover have "TrimSpace (path_text ss) = path_text ss"
  proof (rule TrimSpace_id)
    show "\<not> is_space (last (path_text ss))"
      by (cases ss rule: rev_cases) (auto simp: path_text_def is_space_def)
  qed (simp_all add: path_text_def is_space_def)
  ultimately show ?thesis by (simp add: Parse_def path_text_def HasPrefix_def)
qed

theorem jsonpath_roundtrip_witness:
  "Parse ''$['edges'][-1:]'' = Inr [zero_step\<lparr>st_name := ''edges''\<rparr>,
     zero_step\<lparr>st_array := True, st_slice := True, st_start := Some (-1), st_end := None\<rparr>]"
proof -
  let ?ss = "[zero_step\<lparr>st_name := ''edges''\<rparr>, zero_step\<lparr>st_array := True, st_slice := True, st_start := Some (-1), st_end := None\<rparr>]"
  have "wf_step (?ss ! 0)" "wf_step (?ss ! 1)"
    by (auto simp: wf_step_def int64_def zero_step_def)
  then have "Parse (path_text ?ss) = Inr ?ss" by (intro jsonpath_roundtrip) simp
  moreover have "path_text ?ss = ''$['edges'][-1:]''" by code_simp
  ultimately show ?thesis by simp
qed

end
