(* ===== verification/Bind_Join.thy ===== *)
theory Bind_Join
  imports Json "HOL-Library.Multiset"
begin

section \<open>The bind join: internal/system\_g/bind\<close>

text \<open>
  The dependent nested-loop join that moves values between exchanges. A row is a Go map from
  attribute to decoded value, here a map; a nil value is \<open>JNull\<close>. The inner operator is a parameter:
  for the bound inputs it yields records (those that are no document are None) and the error its
  stream ends with. Rows of the outer are driven concurrently, so the join is a step relation in
  which any running row may emit, finish or be cancelled next.
\<close>

type_synonym drow = "string \<rightharpoonup> json"

record binding =
  b_src :: string
  b_tgt :: string

definition row_get :: "drow \<Rightarrow> string \<Rightarrow> json" where
  "row_get row k = (case row k of None \<Rightarrow> JNull | Some v \<Rightarrow> v)"

definition emptyValue :: "json \<Rightarrow> bool" where
  "emptyValue v \<longleftrightarrow> v = JNull \<or> v = JStr []"

definition mergeMaps :: "drow \<Rightarrow> drow \<Rightarrow> drow" where
  "mergeMaps a b = (\<lambda>k. case b k of None \<Rightarrow> a k | Some v \<Rightarrow> Some v)"

subsection \<open>Binding the inputs\<close>

fun bind_loop :: "drow \<Rightarrow> binding list \<Rightarrow> drow \<Rightarrow> drow" where
  "bind_loop row [] bound = bound"
| "bind_loop row (b # bs) bound = bind_loop row bs
     (case bound (b_tgt b) of
        Some cur \<Rightarrow> if \<not> emptyValue cur then bound else bound(b_tgt b \<mapsto> row_get row (b_src b))
      | None \<Rightarrow> bound(b_tgt b \<mapsto> row_get row (b_src b)))"

text \<open>The transform on the assembled inbox, if any, overrides it; one that yields no document is an error.\<close>

definition applyInbound :: "(drow \<Rightarrow> drow option result) \<Rightarrow> drow \<Rightarrow> drow result" where
  "applyInbound t bound = (case t bound of
     Inl e \<Rightarrow> Inl e
   | Inr None \<Rightarrow> Inl (ErrOther ''inbound transform did not yield a document'')
   | Inr (Some shaped) \<Rightarrow> Inr (mergeMaps bound shaped))"

definition bound_inputs :: "(drow \<Rightarrow> drow option result) option \<Rightarrow> binding list \<Rightarrow> drow \<Rightarrow> drow result" where
  "bound_inputs inbound bs row = (let bound = bind_loop row bs Map.empty in
     case inbound of None \<Rightarrow> Inr bound | Some t \<Rightarrow> applyInbound t bound)"

subsection \<open>One outer row\<close>

type_synonym inner = "drow \<Rightarrow> drow option list \<times> err option"

type_synonym tuple = "drow \<times> drow option"

text \<open>A record that is no document is skipped, by the outer loop and by the inner one.\<close>

fun documents :: "drow option list \<Rightarrow> drow list" where
  "documents [] = []"
| "documents (None # rs) = documents rs"
| "documents (Some i # rs) = i # documents rs"

text \<open>What a row's unit emits, in order, and the error it returns: one tuple per inner document, or
  the left-outer tuple when the inner ended cleanly without any. A binding error is the unit's error.\<close>

definition row_Run :: "inner \<Rightarrow> drow \<Rightarrow> drow \<Rightarrow> tuple list \<times> err option" where
  "row_Run inner omap bound = (case inner bound of (recs, e) \<Rightarrow>
     let matched = map (\<lambda>i. (omap, Some i)) (documents recs) in
     (case e of
        Some er \<Rightarrow> (matched, Some er)
      | None \<Rightarrow> (if matched = [] then [(omap, None)] else matched, None)))"

definition row_unit :: "inner \<Rightarrow> (drow \<Rightarrow> drow option result) option \<Rightarrow> binding list \<Rightarrow> drow \<Rightarrow> tuple list \<times> err option" where
  "row_unit inner inbound bs row = (case bound_inputs inbound bs row of
     Inl e \<Rightarrow> ([], Some e)
   | Inr bound \<Rightarrow> row_Run inner row bound)"

subsection \<open>The fan-out\<close>

record join_state =
  j_units :: "(tuple list \<times> err option) list"
  j_out :: "tuple list"
  j_err :: "err option"

definition join_init :: "inner \<Rightarrow> (drow \<Rightarrow> drow option result) option \<Rightarrow> binding list \<Rightarrow> drow option list \<Rightarrow> err option \<Rightarrow> join_state" where
  "join_init inner inbound bs outer outer_err =
     \<lparr>j_units = map (row_unit inner inbound bs) (documents outer) @
        (case outer_err of None \<Rightarrow> [] | Some e \<Rightarrow> [([], Some e)]),
      j_out = [], j_err = None\<rparr>"

text \<open>The first failure is kept and cancels the rest: a cancelled unit stops where it is.\<close>

inductive join_step :: "join_state \<Rightarrow> join_state \<Rightarrow> bool" where
  unit_emits: "j_units s = us @ (t # ts, e) # vs \<Longrightarrow>
    join_step s (s\<lparr>j_units := us @ (ts, e) # vs, j_out := j_out s @ [t]\<rparr>)"
| unit_ends: "j_units s = us @ ([], e) # vs \<Longrightarrow>
    join_step s (s\<lparr>j_units := us @ vs, j_err := (case j_err s of None \<Rightarrow> e | Some x \<Rightarrow> Some x)\<rparr>)"
| unit_cancelled: "j_units s = us @ u # vs \<Longrightarrow> j_err s \<noteq> None \<Longrightarrow> join_step s (s\<lparr>j_units := us @ vs\<rparr>)"

inductive_cases join_stepE: "join_step s s'"

subsection \<open>Flattening\<close>

definition tupleFlatten :: "tuple \<Rightarrow> drow" where
  "tupleFlatten t = (case snd t of None \<Rightarrow> fst t | Some out \<Rightarrow> mergeMaps (fst t) out)"

definition innerFlatten :: "tuple \<Rightarrow> drow option" where
  "innerFlatten t = map_option (mergeMaps (fst t)) (snd t)"

definition selectKeys :: "string list \<Rightarrow> drow \<Rightarrow> drow" where
  "selectKeys keys m = (\<lambda>k. if k \<in> set keys then Some (row_get m k) else None)"

text \<open>A projected attribute that the row lacks is not left out: it is present as null.\<close>

lemma selectKeys_keeps_absent:
  "dom (selectKeys keys m) = set keys" "m k = None \<Longrightarrow> k \<in> set keys \<Longrightarrow> selectKeys keys m k = Some JNull"
  by (auto simp: selectKeys_def row_get_def split: if_splits)

subsection \<open>Which value an input gets\<close>

text \<open>The first source with a value wins; where none has one, the last source's emptiness stays.\<close>

definition sources :: "binding list \<Rightarrow> string \<Rightarrow> string list" where
  "sources bs t = map b_src (filter (\<lambda>b. b_tgt b = t) bs)"

definition chosen :: "drow \<Rightarrow> string list \<Rightarrow> json option" where
  "chosen row ss = (case find (\<lambda>v. \<not> emptyValue v) (map (row_get row) ss) of
     Some v \<Rightarrow> Some v | None \<Rightarrow> (if ss = [] then None else Some (row_get row (last ss))))"

lemma bind_loop_get:
  "bind_loop row bs bound t = (case bound t of
     Some cur \<Rightarrow> if emptyValue cur then (case chosen row (sources bs t) of None \<Rightarrow> Some cur | Some v \<Rightarrow> Some v) else Some cur
   | None \<Rightarrow> chosen row (sources bs t))"
proof (induction bs arbitrary: bound)
  case Nil
  show ?case by (simp add: sources_def chosen_def split: option.split)
next
  case (Cons b bs)
  show ?case
  proof (cases "b_tgt b = t")
    case False
    then show ?thesis by (simp add: Cons sources_def split: option.split)
  next
    case True
    let ?v = "row_get row (b_src b)"
    have c: "chosen row (sources (b # bs) t) = (if emptyValue ?v then (case chosen row (sources bs t) of None \<Rightarrow> Some ?v | Some v \<Rightarrow> Some v) else Some ?v)"
      using True by (auto simp: chosen_def sources_def split: option.split)
    show ?thesis using True by (auto simp: Cons c split: option.split)
  qed
qed


subsection \<open>What the join delivers\<close>

definition pending_tuples :: "join_state \<Rightarrow> tuple multiset" where
  "pending_tuples s = mset (j_out s) + mset (concat (map fst (j_units s)))"

definition may_fail :: "join_state \<Rightarrow> bool" where
  "may_fail s \<longleftrightarrow> j_err s \<noteq> None \<or> (\<exists>u\<in>set (j_units s). snd u \<noteq> None)"

lemma join_step_inv:
  assumes "join_step s s'"
  shows "pending_tuples s' \<subseteq># pending_tuples s \<and> (j_err s = None \<longrightarrow> pending_tuples s' = pending_tuples s) \<and>
    (may_fail s' \<longleftrightarrow> may_fail s) \<and> (j_err s \<noteq> None \<longrightarrow> j_err s' = j_err s)"
  using assms
proof cases
  case (unit_emits us t ts e vs)
  then show ?thesis by (auto simp: pending_tuples_def may_fail_def)
next
  case (unit_ends us e vs)
  then show ?thesis by (auto simp: pending_tuples_def may_fail_def split: option.splits)
next
  case (unit_cancelled us u vs)
  then show ?thesis by (auto simp: pending_tuples_def may_fail_def)
qed

lemma join_reach_inv:
  assumes "join_step\<^sup>*\<^sup>* s s'"
  shows "pending_tuples s' \<subseteq># pending_tuples s \<and> (j_err s' = None \<longrightarrow> pending_tuples s' = pending_tuples s) \<and>
    (may_fail s' \<longleftrightarrow> may_fail s)"
  using assms
proof (induction rule: rtranclp_induct)
  case (step t u)
  note i = join_step_inv[OF step.hyps(2)]
  have "j_err t = None" if "j_err u = None" using i that by auto
  then show ?case using i step.IH by (metis subset_mset.order_trans)
qed simp

lemma join_step_shrinks:
  assumes "join_step s s'"
  shows "(\<Sum>u\<leftarrow>j_units s'. Suc (length (fst u))) < (\<Sum>u\<leftarrow>j_units s. Suc (length (fst u)))"
  using assms by cases auto

lemma join_wf: "wfP join_step\<inverse>\<inverse>"
proof (rule wfp_if_convertible_to_nat)
  fix s' s assume "join_step\<inverse>\<inverse> s' s"
  then show "(\<Sum>u\<leftarrow>j_units s'. Suc (length (fst u))) < (\<Sum>u\<leftarrow>j_units s. Suc (length (fst u)))"
    using join_step_shrinks by simp
qed

lemma join_progress: "j_units s \<noteq> [] \<Longrightarrow> \<exists>s'. join_step s s'"
proof -
  assume "j_units s \<noteq> []"
  then obtain u vs where u: "j_units s = [] @ u # vs" by (cases "j_units s") auto
  show ?thesis
  proof (cases "fst u")
    case Nil
    then have "j_units s = [] @ ([], snd u) # vs" using u by (cases u) simp
    from unit_ends[OF this] show ?thesis by blast
  next
    case (Cons t ts)
    then have "j_units s = [] @ (t # ts, snd u) # vs" using u by (cases u) simp
    from unit_emits[OF this] show ?thesis by blast
  qed
qed

text \<open>The rows a left-outer bind join should give for one outer row, when its inner succeeds.\<close>

definition left_outer :: "inner \<Rightarrow> (drow \<Rightarrow> drow option result) option \<Rightarrow> binding list \<Rightarrow> drow \<Rightarrow> tuple list" where
  "left_outer inner inbound bs row = (case bound_inputs inbound bs row of
     Inl _ \<Rightarrow> []
   | Inr bound \<Rightarrow> (case documents (fst (inner bound)) of
       [] \<Rightarrow> [(row, None)]
     | outs \<Rightarrow> map (\<lambda>i. (row, Some i)) outs))"

lemma set_documents: "set (documents rs) = {r. Some r \<in> set rs}"
  by (induction rs rule: documents.induct) auto

lemma row_unit_ok:
  "snd (row_unit inner inbound bs row) = None \<Longrightarrow> fst (row_unit inner inbound bs row) = left_outer inner inbound bs row"
  by (auto simp: row_unit_def Let_def row_Run_def left_outer_def split: option.splits prod.splits sum.splits list.splits)


definition one_outer :: "drow option list" where
  "one_outer = [Some (Map.empty(''vpc'' \<mapsto> JStr ''v1''))]"


end
