(* ===== verification/Tarjan.thy ===== *)
theory Tarjan
  imports Omni_Prelude
begin

section \<open>Tarjan's algorithm: internal/system\_g/plan, the first half of condense\<close>

text \<open>
  A plan's exchanges, with the edges between them, are condensed into strongly connected components.
  The graph is over exchange names. The recursion carries fuel, one unit for each exchange; None
  would be running out of it, or the panic of popping an empty stack, and neither happens. The stack
  is a list with its top at the head. A Go map read at a missing key gives zero, so \<open>low\<close>, \<open>onStack\<close>
  and \<open>of\<close> are functions; whether a key is present in \<open>index\<close> is asked, so it is a map.
\<close>

record BetaEdge =
  be_from :: string
  be_to :: string
  be_src :: string
  be_tgt :: string

record Alpha =
  al_delay :: int
  al_on :: string

record AlphaEdge =
  ae_from :: string
  ae_to :: string
  ae_alpha :: "Alpha option"

record component =
  cm_members :: "string list"
  cm_cyclic :: bool

subsection \<open>The graph\<close>

text \<open>Exchange names in declaration order, the first declaration of a name counting.\<close>

fun declared_from :: "string list \<Rightarrow> string list \<Rightarrow> string list" where
  "declared_from [] names = names"
| "declared_from (x # xs) names = declared_from xs (if x \<in> set names then names else names @ [x])"

definition declared :: "string list \<Rightarrow> string list" where
  "declared xs = declared_from xs []"

definition pos_of :: "string list \<Rightarrow> string \<Rightarrow> nat" where
  "pos_of names n = length (takeWhile (\<lambda>x. x \<noteq> n) names)"

definition alpha_betas :: "AlphaEdge list \<Rightarrow> BetaEdge list" where
  "alpha_betas alphas = map (\<lambda>a. \<lparr>be_from = ae_from a, be_to = ae_to a, be_src = [], be_tgt = []\<rparr>) alphas"

fun adj_loop :: "string list \<Rightarrow> BetaEdge list \<Rightarrow> (string \<Rightarrow> string list) \<Rightarrow> string \<Rightarrow> string list" where
  "adj_loop names [] adj = adj"
| "adj_loop names (e # es) adj = adj_loop names es
     (if be_from e \<notin> set names \<or> be_to e \<notin> set names then adj
      else if be_to e \<in> set (adj (be_from e)) then adj
      else adj(be_from e := adj (be_from e) @ [be_to e]))"

definition self_fed :: "string list \<Rightarrow> BetaEdge list \<Rightarrow> string \<Rightarrow> bool" where
  "self_fed names betas v = list_ex (\<lambda>e. be_from e = v \<and> be_to e = v \<and> v \<in> set names) betas"

subsection \<open>Tarjan\<close>

record tarjan =
  t_index :: "string \<rightharpoonup> nat"
  t_low :: "string \<Rightarrow> nat"
  t_on :: "string \<Rightarrow> bool"
  t_stack :: "string list"
  t_comps :: "component list"
  t_of :: "string \<Rightarrow> nat"
  t_next :: nat

definition tarjan_init :: tarjan where
  "tarjan_init = \<lparr>t_index = Map.empty, t_low = (\<lambda>_. 0), t_on = (\<lambda>_. False), t_stack = [], t_comps = [],
     t_of = (\<lambda>_. 0), t_next = 0\<rparr>"

definition enter :: "string \<Rightarrow> tarjan \<Rightarrow> tarjan" where
  "enter v s = s\<lparr>t_index := (t_index s)(v \<mapsto> t_next s), t_low := (t_low s)(v := t_next s), t_next := Suc (t_next s),
     t_stack := v # t_stack s, t_on := (t_on s)(v := True)\<rparr>"

definition lower :: "string \<Rightarrow> nat \<Rightarrow> tarjan \<Rightarrow> tarjan" where
  "lower v l s = s\<lparr>t_low := (t_low s)(v := min (t_low s v) l)\<rparr>"

fun pop_members :: "string \<Rightarrow> string list \<Rightarrow> string list \<Rightarrow> (string list \<times> string list) option" where
  "pop_members v [] ms = None"
| "pop_members v (w # st) ms = (if w = v then Some (ms @ [w], st) else pop_members v st (ms @ [w]))"

definition by_pos :: "string list \<Rightarrow> string list \<Rightarrow> string list" where
  "by_pos names ms = SortStableFunc (\<lambda>a b. int (pos_of names a) - int (pos_of names b)) ms"

definition leave :: "string list \<Rightarrow> (string \<Rightarrow> bool) \<Rightarrow> string \<Rightarrow> tarjan \<Rightarrow> tarjan option" where
  "leave names self v s = (if Some (t_low s v) \<noteq> t_index s v then Some s
     else (case pop_members v (t_stack s) [] of
         None \<Rightarrow> None
       | Some (popped, st) \<Rightarrow> (let members = by_pos names popped in
           Some (s\<lparr>t_stack := st, t_on := (\<lambda>x. t_on s x \<and> x \<notin> set popped),
             t_of := (\<lambda>x. if x \<in> set members then length (t_comps s) else t_of s x),
             t_comps := t_comps s @ [\<lparr>cm_members = members, cm_cyclic = (1 < length members \<or> self v)\<rparr>]\<rparr>))))"

fun strong :: "string list \<Rightarrow> (string \<Rightarrow> string list) \<Rightarrow> (string \<Rightarrow> bool) \<Rightarrow> nat \<Rightarrow> string \<Rightarrow> tarjan \<Rightarrow> tarjan option"
and strong_each :: "string list \<Rightarrow> (string \<Rightarrow> string list) \<Rightarrow> (string \<Rightarrow> bool) \<Rightarrow> nat \<Rightarrow> string \<Rightarrow> string list \<Rightarrow> tarjan \<Rightarrow> tarjan option" where
  "strong names adj self 0 v s = None"
| "strong names adj self (Suc n) v s = (case strong_each names adj self n v (adj v) (enter v s) of
     None \<Rightarrow> None | Some s' \<Rightarrow> leave names self v s')"
| "strong_each names adj self n v [] s = Some s"
| "strong_each names adj self n v (w # ws) s = (case t_index s w of
     None \<Rightarrow> (case strong names adj self n w s of
         None \<Rightarrow> None | Some s' \<Rightarrow> strong_each names adj self n v ws (lower v (t_low s' w) s'))
   | Some i \<Rightarrow> strong_each names adj self n v ws (if t_on s w then lower v i s else s))"

fun strong_all :: "string list \<Rightarrow> (string \<Rightarrow> string list) \<Rightarrow> (string \<Rightarrow> bool) \<Rightarrow> string list \<Rightarrow> tarjan \<Rightarrow> tarjan option" where
  "strong_all names adj self [] s = Some s"
| "strong_all names adj self (n # ns) s = (case t_index s n of
     Some _ \<Rightarrow> strong_all names adj self ns s
   | None \<Rightarrow> (case strong names adj self (length names) n s of
       None \<Rightarrow> None | Some s' \<Rightarrow> strong_all names adj self ns s'))"

subsection \<open>What the search keeps\<close>

lemma by_pos_mset [simp]: "mset (by_pos names ms) = mset ms"
  by (simp add: by_pos_def)

lemma by_pos_set [simp]: "set (by_pos names ms) = set ms"
  by (simp add: by_pos_def)

lemma by_pos_length [simp]: "length (by_pos names ms) = length ms"
  by (metis by_pos_mset size_mset)

lemma by_pos_distinct [simp]: "distinct (by_pos names ms) = distinct ms"
  by (metis by_pos_mset mset_eq_imp_distinct_iff)

lemma by_pos_sorted: "sorted_wrt (\<lambda>a b. pos_of names a \<le> pos_of names b) (by_pos names ms)"
proof -
  have "total_cmp (\<lambda>a b. int (pos_of names a) - int (pos_of names b))" by (auto simp: total_cmp_def)
  from sorted_SortStableFunc[OF this, of ms] show ?thesis by (simp add: by_pos_def)
qed

lemma pop_members_ok: "v \<notin> set nw \<Longrightarrow> pop_members v (nw @ v # old) ms = Some (ms @ nw @ [v], old)"
  by (induction nw arbitrary: ms) auto

lemma closed_rtrancl:
  assumes "(x, y) \<in> r\<^sup>*" "x \<in> A" "\<And>a b. a \<in> A \<Longrightarrow> (a, b) \<in> r \<Longrightarrow> b \<in> A"
  shows "y \<in> A"
  using assms by (induction rule: rtrancl_induct) auto

definition idx :: "tarjan \<Rightarrow> string \<Rightarrow> nat" where
  "idx s x = the (t_index s x)"

definition visited :: "tarjan \<Rightarrow> string set" where
  "visited s = dom (t_index s)"

text \<open>The stack holds visited nodes, the latest on top; the numbers given out are below the next one.\<close>

definition stack_ok :: "tarjan \<Rightarrow> bool" where
  "stack_ok s \<longleftrightarrow> sorted_wrt (\<lambda>a b. idx s b < idx s a) (t_stack s) \<and> set (t_stack s) \<subseteq> visited s \<and>
     (\<forall>x. t_on s x \<longleftrightarrow> x \<in> set (t_stack s)) \<and> (\<forall>x\<in>visited s. idx s x < t_next s)"

text \<open>What a search step may change: it visits more nodes, numbering them from the next number on,
  and touches the low number of none that were visited, except one.\<close>

definition grows :: "string set \<Rightarrow> tarjan \<Rightarrow> tarjan \<Rightarrow> bool" where
  "grows V s s' \<longleftrightarrow> visited s \<subseteq> visited s' \<and> (\<forall>x\<in>visited s. idx s' x = idx s x) \<and> t_next s \<le> t_next s' \<and>
     (\<forall>x\<in>visited s' - visited s. t_next s \<le> idx s' x) \<and> (\<forall>x\<in>visited s - V. t_low s' x = t_low s x)"

lemma grows_refl: "grows V s s"
  by (simp add: grows_def)

lemma grows_trans:
  assumes st: "grows V s t" and tu: "grows V t u"
  shows "grows V s u"
proof -
  have v: "visited s \<subseteq> visited t" "visited t \<subseteq> visited u" "t_next s \<le> t_next t" "t_next t \<le> t_next u"
    using st tu by (simp_all add: grows_def)
  have i: "idx u x = idx s x" if "x \<in> visited s" for x using st tu v(1) that by (auto simp: grows_def)
  have n: "t_next s \<le> idx u x" if "x \<in> visited u - visited s" for x
  proof (cases "x \<in> visited t")
    case True
    with st tu that show ?thesis by (auto simp: grows_def)
  next
    case False
    with tu that have "t_next t \<le> idx u x" by (auto simp: grows_def)
    with v(3) show ?thesis by simp
  qed
  have l: "t_low u x = t_low s x" if "x \<in> visited s - V" for x using st tu v(1) that by (auto simp: grows_def)
  show ?thesis unfolding grows_def using v i n l by auto
qed

lemma grows_mono: "grows V s t \<Longrightarrow> V \<subseteq> W \<Longrightarrow> grows W s t"
  unfolding grows_def by blast

locale digraph =
  fixes names :: "string list" and adj :: "string \<Rightarrow> string list" and self :: "string \<Rightarrow> bool"
  assumes distinct_names: "distinct names" and adj_names: "w \<in> set (adj v) \<Longrightarrow> w \<in> set names"
begin

definition E :: "(string \<times> string) set" where
  "E = {(v, w). w \<in> set (adj v)}"

definition comp_ok :: "component \<Rightarrow> bool" where
  "comp_ok c \<longleftrightarrow> cm_members c \<noteq> [] \<and> distinct (cm_members c) \<and>
     sorted_wrt (\<lambda>a b. pos_of names a \<le> pos_of names b) (cm_members c) \<and>
     (\<forall>v\<in>set (cm_members c). set (cm_members c) = {w. (v, w) \<in> E\<^sup>* \<and> (w, v) \<in> E\<^sup>*}) \<and>
     (cm_cyclic c \<longleftrightarrow> 1 < length (cm_members c) \<or> (\<exists>v\<in>set (cm_members c). self v))"

text \<open>The finished nodes are those of the components found, each numbered by its component, and
  their edges lead to the same or an earlier component.\<close>

definition comps_ok :: "tarjan \<Rightarrow> bool" where
  "comps_ok s \<longleftrightarrow> (\<forall>c\<in>set (t_comps s). comp_ok c) \<and>
     visited s - set (t_stack s) = (\<Union>c\<in>set (t_comps s). set (cm_members c)) \<and>
     (\<forall>k<length (t_comps s). \<forall>v\<in>set (cm_members (t_comps s ! k)). t_of s v = k \<and>
        (\<forall>w. (v, w) \<in> E \<longrightarrow> w \<in> visited s - set (t_stack s) \<and> t_of s w \<le> k))"

text \<open>The nodes whose call is still running reach everything above them on the stack, everything on
  the stack reaches one of them at or below it, and all other visited nodes have only visited
  successors.\<close>

definition gray_ok :: "string set \<Rightarrow> tarjan \<Rightarrow> bool" where
  "gray_ok G s \<longleftrightarrow> G \<subseteq> set (t_stack s) \<and>
     (\<forall>g\<in>G. \<forall>x\<in>set (t_stack s). idx s g \<le> idx s x \<longrightarrow> (g, x) \<in> E\<^sup>*) \<and>
     (\<forall>x\<in>set (t_stack s). \<exists>g\<in>G. idx s g \<le> idx s x \<and> (x, g) \<in> E\<^sup>*) \<and>
     (\<forall>x\<in>visited s - G. set (adj x) \<subseteq> visited s)"

definition tinv :: "string set \<Rightarrow> tarjan \<Rightarrow> bool" where
  "tinv G s \<longleftrightarrow> stack_ok s \<and> comps_ok s \<and> gray_ok G s \<and> visited s \<subseteq> set names"

text \<open>A call on an unvisited node, and what it gives.\<close>

definition call_pre :: "nat \<Rightarrow> string set \<Rightarrow> string \<Rightarrow> tarjan \<Rightarrow> bool" where
  "call_pre n G v s \<longleftrightarrow> tinv G s \<and> v \<in> set names - visited s \<and> (\<forall>g\<in>G. (g, v) \<in> E\<^sup>*) \<and> card (set names - visited s) \<le> n"

definition call_post :: "string set \<Rightarrow> string \<Rightarrow> tarjan \<Rightarrow> tarjan \<Rightarrow> bool" where
  "call_post G v s s' \<longleftrightarrow> tinv G s' \<and> grows {} s s' \<and> v \<in> visited s' \<and>
     (\<exists>new. t_stack s' = new @ t_stack s \<and> set new \<inter> visited s = {} \<and>
        (\<forall>x\<in>set new. \<forall>w\<in>set (t_stack s). (x, w) \<in> E \<longrightarrow> t_low s' v \<le> idx s w) \<and>
        (t_next s \<le> t_low s' v \<and> new = [] \<or> (\<exists>w\<in>set (t_stack s). idx s w = t_low s' v \<and> (v, w) \<in> E\<^sup>*)))"

text \<open>The loop over the successors of v, of which ps are done; nw is what is above v on the stack.\<close>

definition loop_inv :: "string set \<Rightarrow> string \<Rightarrow> string list \<Rightarrow> string list \<Rightarrow> string list \<Rightarrow> tarjan \<Rightarrow> bool" where
  "loop_inv G v old ps nw s \<longleftrightarrow> tinv (insert v G) s \<and> v \<notin> G \<and> G \<subseteq> set old \<and> (\<forall>g\<in>G. (g, v) \<in> E\<^sup>*) \<and>
     t_stack s = nw @ v # old \<and> t_low s v \<le> idx s v \<and>
     (t_low s v = idx s v \<or> (\<exists>w\<in>set old. idx s w = t_low s v \<and> (v, w) \<in> E\<^sup>*)) \<and>
     (\<forall>x\<in>set nw. \<forall>w\<in>set old. (x, w) \<in> E \<longrightarrow> t_low s v \<le> idx s w) \<and>
     (\<forall>p\<in>set ps. p \<in> visited s \<and> (p \<in> set old \<longrightarrow> t_low s v \<le> idx s p))"

lemma stack_sorted:
  "stack_ok s \<Longrightarrow> t_stack s = nw @ v # old \<Longrightarrow> (\<forall>x\<in>set nw. idx s v < idx s x) \<and> (\<forall>x\<in>set old. idx s x < idx s v) \<and>
     (\<forall>x\<in>set nw. \<forall>y\<in>set old. idx s y < idx s x) \<and> v \<notin> set nw \<and> v \<notin> set old \<and> set nw \<inter> set old = {}"
  by (fastforce simp: stack_ok_def sorted_wrt_append)

lemma stack_distinct: "stack_ok s \<Longrightarrow> distinct (t_stack s)"
proof -
  have "sorted_wrt (\<lambda>a b. idx s b < idx s a) xs \<Longrightarrow> distinct xs" for xs by (induction xs) auto
  then show "stack_ok s \<Longrightarrow> distinct (t_stack s)" by (simp add: stack_ok_def)
qed

lemma done_comp:
  assumes c: "comps_ok s" and x: "x \<in> visited s - set (t_stack s)"
  shows "t_of s x < length (t_comps s)" "x \<in> set (cm_members (t_comps s ! t_of s x))"
proof -
  have "x \<in> (\<Union>c\<in>set (t_comps s). set (cm_members c))" using c x unfolding comps_ok_def by (metis (no_types))
  then obtain j where j: "j < length (t_comps s)" "x \<in> set (cm_members (t_comps s ! j))" by (metis UN_E in_set_conv_nth)
  moreover from j c have "t_of s x = j" by (simp add: comps_ok_def)
  ultimately show "t_of s x < length (t_comps s)" "x \<in> set (cm_members (t_comps s ! t_of s x))" by simp_all
qed

lemma comp_edges:
  assumes "comps_ok s" "k < length (t_comps s)" "x \<in> set (cm_members (t_comps s ! k))"
  shows "t_of s x = k" "(x, y) \<in> E \<Longrightarrow> y \<in> visited s - set (t_stack s)" "(x, y) \<in> E \<Longrightarrow> t_of s y \<le> k"
  using assms unfolding comps_ok_def by (metis (no_types))+

lemma done_closed: "comps_ok s \<Longrightarrow> x \<in> visited s - set (t_stack s) \<Longrightarrow> (x, y) \<in> E \<Longrightarrow> y \<in> visited s - set (t_stack s)"
  using done_comp comp_edges(2) by blast

subsection \<open>Entering a node\<close>

lemma enter_simps [simp]:
  "t_stack (enter v s) = v # t_stack s" "visited (enter v s) = insert v (visited s)" "t_next (enter v s) = Suc (t_next s)"
  "t_low (enter v s) = (t_low s)(v := t_next s)" "t_comps (enter v s) = t_comps s" "t_of (enter v s) = t_of s"
  "idx (enter v s) x = (if x = v then t_next s else idx s x)" "t_on (enter v s) = (t_on s)(v := True)"
  by (auto simp: enter_def visited_def idx_def)

lemma lower_simps [simp]:
  "t_stack (lower v l s) = t_stack s" "visited (lower v l s) = visited s" "t_next (lower v l s) = t_next s"
  "t_low (lower v l s) = (t_low s)(v := min (t_low s v) l)" "t_comps (lower v l s) = t_comps s" "t_of (lower v l s) = t_of s"
  "idx (lower v l s) x = idx s x" "t_on (lower v l s) = t_on s"
  by (auto simp: lower_def visited_def idx_def)

lemma lower_tinv [simp]: "tinv G (lower v l s) = tinv G s"
  by (simp add: tinv_def stack_ok_def comps_ok_def gray_ok_def)

lemma enter_loop:
  assumes "call_pre n G v s"
  shows "loop_inv G v (t_stack s) [] [] (enter v s)"
proof -
  from assms have t: "stack_ok s" "comps_ok s" "gray_ok G s" "visited s \<subseteq> set names" and v: "v \<in> set names" "v \<notin> visited s"
    and g: "\<forall>g\<in>G. (g, v) \<in> E\<^sup>*" by (auto simp: call_pre_def tinv_def)
  have st: "set (t_stack s) \<subseteq> visited s" using t(1) by (simp add: stack_ok_def)
  have lt: "\<And>x. x \<in> visited s \<Longrightarrow> idx s x < t_next s" using t(1) by (simp add: stack_ok_def)
  have vs: "v \<notin> set (t_stack s)" using st v by auto
  have ids: "\<And>x. x \<in> visited s \<Longrightarrow> idx (enter v s) x = idx s x" using v by auto
  have srt: "sorted_wrt (\<lambda>a b. idx (enter v s) b < idx (enter v s) a) (t_stack s)"
  proof (rule sorted_wrt_mono_rel)
    show "sorted_wrt (\<lambda>a b. idx s b < idx s a) (t_stack s)" using t(1) by (simp add: stack_ok_def)
  next
    fix a b assume "a \<in> set (t_stack s)" "b \<in> set (t_stack s)" "idx s b < idx s a"
    then show "idx (enter v s) b < idx (enter v s) a" using vs by auto
  qed
  have 1: "stack_ok (enter v s)"
    unfolding stack_ok_def using srt st lt t(1) v vs by (auto simp: stack_ok_def less_SucI)
  have 2: "comps_ok (enter v s)"
  proof -
    have d: "visited (enter v s) - set (t_stack (enter v s)) = visited s - set (t_stack s)" using v by auto
    show ?thesis using t(2) unfolding comps_ok_def d unfolding enter_simps by assumption
  qed
  have Gs: "G \<subseteq> set (t_stack s)" using t(3) by (simp add: gray_ok_def)
  have 3: "gray_ok (insert v G) (enter v s)"
    unfolding gray_ok_def
  proof (intro conjI ballI impI)
    show "insert v G \<subseteq> set (t_stack (enter v s))" using Gs by auto
  next
    fix h x assume h: "h \<in> insert v G" and x: "x \<in> set (t_stack (enter v s))" and le: "idx (enter v s) h \<le> idx (enter v s) x"
    show "(h, x) \<in> E\<^sup>*"
    proof (cases "x = v")
      case True
      then show ?thesis using h g by auto
    next
      case False
      then have xs: "x \<in> set (t_stack s)" using x by simp
      have "h \<noteq> v" using le lt[of x] xs st False by auto
      then show ?thesis using h le False xs t(3) by (auto simp: gray_ok_def)
    qed
  next
    fix x assume x: "x \<in> set (t_stack (enter v s))"
    show "\<exists>h\<in>insert v G. idx (enter v s) h \<le> idx (enter v s) x \<and> (x, h) \<in> E\<^sup>*"
    proof (cases "x = v")
      case False
      then have "x \<in> set (t_stack s)" using x by simp
      then obtain h where h: "h \<in> G" "idx s h \<le> idx s x" "(x, h) \<in> E\<^sup>*" using t(3) unfolding gray_ok_def by blast
      then have "h \<noteq> v" using Gs vs by auto
      then show ?thesis using h False by auto
    qed auto
  next
    fix x assume "x \<in> visited (enter v s) - insert v G"
    then show "set (adj x) \<subseteq> visited (enter v s)" using t(3) by (auto simp: gray_ok_def)
  qed
  show ?thesis unfolding loop_inv_def tinv_def using 1 2 3 t(4) v g Gs vs by auto
qed

subsection \<open>Leaving a node\<close>

lemma loopD:
  assumes "loop_inv G v old ps nw s"
  shows "stack_ok s" "comps_ok s" "gray_ok (insert v G) s" "visited s \<subseteq> set names" "v \<notin> G" "G \<subseteq> set old"
    "\<And>g. g \<in> G \<Longrightarrow> (g, v) \<in> E\<^sup>*" "t_stack s = nw @ v # old" "t_low s v \<le> idx s v"
    "t_low s v = idx s v \<or> (\<exists>w\<in>set old. idx s w = t_low s v \<and> (v, w) \<in> E\<^sup>*)"
    "\<And>x w. x \<in> set nw \<Longrightarrow> w \<in> set old \<Longrightarrow> (x, w) \<in> E \<Longrightarrow> t_low s v \<le> idx s w"
    "\<And>p. p \<in> set ps \<Longrightarrow> p \<in> visited s" "\<And>p. p \<in> set ps \<Longrightarrow> p \<in> set old \<Longrightarrow> t_low s v \<le> idx s p"
  using assms by (auto simp: loop_inv_def tinv_def)

text \<open>Everything below v still reaches a running node below v.\<close>

lemma old_reaches_gray:
  assumes l: "loop_inv G v old ps nw s" and x: "x \<in> set old"
  shows "\<exists>g\<in>G. idx s g \<le> idx s x \<and> (x, g) \<in> E\<^sup>*"
proof -
  obtain h where h: "h \<in> insert v G" "idx s h \<le> idx s x" "(x, h) \<in> E\<^sup>*"
    using loopD(3)[OF l] loopD(8)[OF l] x unfolding gray_ok_def by (metis Un_iff list.set_intros(2) set_append)
  have "idx s x < idx s v" using stack_sorted[OF loopD(1)[OF l] loopD(8)[OF l]] x by blast
  with h show ?thesis by auto
qed

lemma leave_stays:
  assumes l: "loop_inv G v old (adj v) nw s" and low: "t_low s v \<noteq> idx s v"
  shows "tinv G s" "\<exists>w\<in>set old. idx s w = t_low s v \<and> (v, w) \<in> E\<^sup>*"
proof -
  note srt = stack_sorted[OF loopD(1)[OF l] loopD(8)[OF l]]
  show w: "\<exists>w\<in>set old. idx s w = t_low s v \<and> (v, w) \<in> E\<^sup>*" using loopD(10)[OF l] low by blast
  then obtain w where w: "w \<in> set old" "(v, w) \<in> E\<^sup>*" by blast
  obtain g where g: "g \<in> G" "idx s g \<le> idx s w" "(w, g) \<in> E\<^sup>*" using old_reaches_gray[OF l w(1)] by blast
  have gv: "idx s g < idx s v" using g(2) srt w(1) by (metis le_less_trans)
  have "gray_ok G s"
    unfolding gray_ok_def
  proof (intro conjI ballI impI)
    show "G \<subseteq> set (t_stack s)" using loopD(6)[OF l] loopD(8)[OF l] by auto
  next
    fix h x assume "h \<in> G" "x \<in> set (t_stack s)" "idx s h \<le> idx s x"
    then show "(h, x) \<in> E\<^sup>*" using loopD(3)[OF l] by (auto simp: gray_ok_def)
  next
    fix x assume "x \<in> set (t_stack s)"
    then obtain h where h: "h \<in> insert v G" "idx s h \<le> idx s x" "(x, h) \<in> E\<^sup>*"
      using loopD(3)[OF l] unfolding gray_ok_def by blast
    show "\<exists>h\<in>G. idx s h \<le> idx s x \<and> (x, h) \<in> E\<^sup>*"
    proof (cases "h = v")
      case True
      then have "(x, g) \<in> E\<^sup>*" "idx s g \<le> idx s x" using h w(2) g(3) gv by (auto intro: rtrancl_trans)
      then show ?thesis using g(1) by blast
    qed (use h in blast)
  next
    fix x assume x: "x \<in> visited s - G"
    show "set (adj x) \<subseteq> visited s"
      using loopD(3)[OF l] loopD(12)[OF l] x by (cases "x = v") (auto simp: gray_ok_def)
  qed
  then show "tinv G s" using loopD(1,2,4)[OF l] by (simp add: tinv_def)
qed

definition popped :: "string \<Rightarrow> string list \<Rightarrow> string list \<Rightarrow> tarjan \<Rightarrow> tarjan" where
  "popped v old ms s = s\<lparr>t_stack := old, t_on := (\<lambda>x. t_on s x \<and> x \<notin> set ms),
     t_of := (\<lambda>x. if x \<in> set ms then length (t_comps s) else t_of s x),
     t_comps := t_comps s @ [\<lparr>cm_members = by_pos names ms, cm_cyclic = (1 < length ms \<or> self v)\<rparr>]\<rparr>"

lemma popped_simps [simp]:
  "t_stack (popped v old ms s) = old" "visited (popped v old ms s) = visited s" "t_next (popped v old ms s) = t_next s"
  "t_low (popped v old ms s) = t_low s" "idx (popped v old ms s) x = idx s x"
  "t_comps (popped v old ms s) = t_comps s @ [\<lparr>cm_members = by_pos names ms, cm_cyclic = (1 < length ms \<or> self v)\<rparr>]"
  "t_of (popped v old ms s) = (\<lambda>x. if x \<in> set ms then length (t_comps s) else t_of s x)"
  "t_on (popped v old ms s) = (\<lambda>x. t_on s x \<and> x \<notin> set ms)"
  by (auto simp: popped_def visited_def idx_def)

lemma leave_eq:
  assumes "stack_ok s" "t_stack s = nw @ v # old"
  shows "leave names self v s = Some (if t_low s v \<noteq> idx s v then s else popped v old (nw @ [v]) s)"
proof -
  have "v \<in> visited s" using assms by (auto simp: stack_ok_def)
  then have "t_index s v = Some (idx s v)" by (auto simp: visited_def idx_def)
  moreover have "v \<notin> set nw" using stack_sorted[OF assms] by blast
  ultimately show ?thesis
    by (simp add: leave_def assms(2) pop_members_ok Let_def popped_def)
qed

text \<open>A node whose low number is its own: what is above it on the stack, with it, is a component.\<close>

lemma popped_edges:
  assumes l: "loop_inv G v old (adj v) nw s" and low: "t_low s v = idx s v"
    and x: "x \<in> insert v (set nw)" and e: "(x, y) \<in> E"
  shows "y \<in> visited s \<and> y \<notin> set old"
proof -
  note srt = stack_sorted[OF loopD(1)[OF l] loopD(8)[OF l]]
  have st: "set (nw @ v # old) \<subseteq> visited s" using loopD(1,8)[OF l] by (auto simp: stack_ok_def)
  have "y \<in> visited s"
  proof (cases "x = v")
    case True
    then show ?thesis using e loopD(12)[OF l] by (simp add: E_def)
  next
    case False
    then have "x \<in> visited s - insert v G" using x loopD(6)[OF l] srt st by auto
    then show ?thesis using loopD(3)[OF l] e by (auto simp: gray_ok_def E_def)
  qed
  moreover have "y \<notin> set old"
  proof
    assume y: "y \<in> set old"
    have "t_low s v \<le> idx s y"
      using x y e loopD(11)[OF l, of x y] loopD(13)[OF l, of y] by (auto simp: E_def)
    with srt y low show False by (metis leD)
  qed
  ultimately show ?thesis by blast
qed

lemma popped_closed:
  assumes l: "loop_inv G v old (adj v) nw s" and low: "t_low s v = idx s v"
    and x: "x \<in> insert v (set nw)" and p: "(x, y) \<in> E\<^sup>*"
  shows "y \<in> visited s - set old"
proof (rule closed_rtrancl[OF p])
  note st = loopD(1,8)[OF l]
  note srt = stack_sorted[OF st]
  show "x \<in> visited s - set old" using x srt st by (auto simp: stack_ok_def)
  fix a b assume a: "a \<in> visited s - set old" and e: "(a, b) \<in> E"
  show "b \<in> visited s - set old"
  proof (cases "a \<in> insert v (set nw)")
    case True
    with popped_edges[OF l low _ e] show ?thesis by blast
  next
    case False
    with a st(2) have "a \<in> visited s - set (t_stack s)" by auto
    from done_closed[OF loopD(2)[OF l] this e] st(2) show ?thesis by auto
  qed
qed

lemma popped_scc:
  assumes l: "loop_inv G v old (adj v) nw s" and low: "t_low s v = idx s v" and x: "x \<in> insert v (set nw)"
  shows "insert v (set nw) = {w. (x, w) \<in> E\<^sup>* \<and> (w, x) \<in> E\<^sup>*}"
proof -
  note st = loopD(1,8)[OF l]
  note srt = stack_sorted[OF st]
  have from_v: "(v, y) \<in> E\<^sup>*" if "y \<in> insert v (set nw)" for y
  proof -
    have "y \<in> set (t_stack s)" "idx s v \<le> idx s y" using that srt st(2) by (auto intro: less_imp_le)
    then show ?thesis using loopD(3)[OF l] by (auto simp: gray_ok_def)
  qed
  have to_v: "(y, v) \<in> E\<^sup>*" if y: "y \<in> insert v (set nw)" for y
  proof -
    have "y \<in> set (t_stack s)" using y st(2) by auto
    then obtain h where h: "h \<in> insert v G" "(y, h) \<in> E\<^sup>*" using loopD(3)[OF l] unfolding gray_ok_def by blast
    moreover have "h \<notin> set old" using popped_closed[OF l low y h(2)] by blast
    ultimately show ?thesis using loopD(6)[OF l] by auto
  qed
  have "w \<in> insert v (set nw)" if w: "(x, w) \<in> E\<^sup>*" "(w, x) \<in> E\<^sup>*" for w
  proof (rule ccontr)
    assume "w \<notin> insert v (set nw)"
    with popped_closed[OF l low x w(1)] st(2) have "w \<in> visited s - set (t_stack s)" by auto
    from closed_rtrancl[OF w(2) this done_closed[OF loopD(2)[OF l]]] x st(2) show False by auto
  qed
  moreover have "(x, w) \<in> E\<^sup>* \<and> (w, x) \<in> E\<^sup>*" if "w \<in> insert v (set nw)" for w
    using rtrancl_trans[OF to_v[OF x] from_v[OF that]] rtrancl_trans[OF to_v[OF that] from_v[OF x]] by blast
  ultimately show ?thesis by blast
qed

lemma popped_comp:
  assumes l: "loop_inv G v old (adj v) nw s" and low: "t_low s v = idx s v"
  shows "comp_ok \<lparr>cm_members = by_pos names (nw @ [v]), cm_cyclic = (1 < length (nw @ [v]) \<or> self v)\<rparr>"
proof -
  have d: "distinct (nw @ [v])" using stack_distinct[OF loopD(1)[OF l]] loopD(8)[OF l] by auto
  have s: "\<forall>x\<in>set (nw @ [v]). set (nw @ [v]) = {w. (x, w) \<in> E\<^sup>* \<and> (w, x) \<in> E\<^sup>*}"
    using popped_scc[OF l low] by simp
  have c: "1 < length (nw @ [v]) \<or> self v \<longleftrightarrow> 1 < length (nw @ [v]) \<or> (\<exists>x\<in>set (nw @ [v]). self x)"
    by (cases nw) auto
  have ne: "by_pos names (nw @ [v]) \<noteq> []"
    using by_pos_length[of names "nw @ [v]"] by (metis length_0_conv append_is_Nil_conv not_Cons_self2)
  show ?thesis unfolding comp_ok_def component.simps by_pos_set by_pos_distinct by_pos_length
    by (intro conjI ne d by_pos_sorted s c)
qed

lemma leave_pops:
  assumes l: "loop_inv G v old (adj v) nw s" and low: "t_low s v = idx s v"
  shows "tinv G (popped v old (nw @ [v]) s)"
proof -
  let ?s = "popped v old (nw @ [v]) s" and ?n = "length (t_comps s)"
  note st = loopD(1,8)[OF l]
  note srt = stack_sorted[OF st]
  have 1: "stack_ok ?s" using st srt by (auto simp: stack_ok_def sorted_wrt_append)
  note c = popped_comp[OF l low]
  have fin: "visited s - set old = (visited s - set (t_stack s)) \<union> set (nw @ [v])"
    using st srt by (auto simp: stack_ok_def)
  have old_of: "t_of ?s y = t_of s y" if "y \<in> visited s - set (t_stack s)" for y using that st(2) by auto
  have 2: "comps_ok ?s"
    unfolding comps_ok_def
  proof (intro conjI allI impI ballI)
    fix d assume "d \<in> set (t_comps ?s)"
    then show "comp_ok d" using c loopD(2)[OF l] by (auto simp: comps_ok_def)
  next
    show "visited ?s - set (t_stack ?s) = (\<Union>c\<in>set (t_comps ?s). set (cm_members c))"
      using loopD(2)[OF l] fin by (simp add: comps_ok_def Un_commute)
  next
    fix k y assume k: "k < length (t_comps ?s)" and y: "y \<in> set (cm_members (t_comps ?s ! k))"
    have *: "t_of ?s y = k \<and> (\<forall>w. (y, w) \<in> E \<longrightarrow> w \<in> visited ?s - set (t_stack ?s) \<and> t_of ?s w \<le> k)"
    proof (cases "k < ?n")
      case True
      then have yk: "y \<in> set (cm_members (t_comps s ! k))" using y by (simp add: nth_append)
      then have yd: "y \<in> visited s - set (t_stack s)"
        using loopD(2)[OF l] True unfolding comps_ok_def by (metis UN_I nth_mem)
      note e = comp_edges[OF loopD(2)[OF l] True yk]
      have "w \<in> visited ?s - set (t_stack ?s) \<and> t_of ?s w \<le> k" if "(y, w) \<in> E" for w
        using e(2,3)[OF that] old_of fin by simp
      then show ?thesis using old_of[OF yd] e(1) by simp
    next
      case False
      then have kn: "k = ?n" using k by simp
      then have yn: "y \<in> insert v (set nw)" using y by simp
      have "w \<in> visited s - set old \<and> t_of ?s w \<le> ?n" if e: "(y, w) \<in> E" for w
      proof -
        have w: "w \<in> visited s - set old" using popped_edges[OF l low yn e] by blast
        have "t_of s w \<le> ?n" if "w \<in> visited s - set (t_stack s)"
          using done_comp[OF loopD(2)[OF l] that] by simp
        then show ?thesis using w fin by auto
      qed
      then show ?thesis using yn kn by auto
    qed
    show "t_of ?s y = k" using * by blast
    fix w assume "(y, w) \<in> E"
    then show "w \<in> visited ?s - set (t_stack ?s)" "t_of ?s w \<le> k" using * by blast+
  qed
  have 3: "gray_ok G ?s"
    unfolding gray_ok_def
  proof (intro conjI ballI impI)
    show "G \<subseteq> set (t_stack ?s)" using loopD(6)[OF l] by simp
  next
    fix h x assume "h \<in> G" "x \<in> set (t_stack ?s)" "idx ?s h \<le> idx ?s x"
    then show "(h, x) \<in> E\<^sup>*" using loopD(3)[OF l] st(2) by (auto simp: gray_ok_def)
  next
    fix x assume "x \<in> set (t_stack ?s)"
    then show "\<exists>h\<in>G. idx ?s h \<le> idx ?s x \<and> (x, h) \<in> E\<^sup>*" using old_reaches_gray[OF l] by simp
  next
    fix x assume x: "x \<in> visited ?s - G"
    show "set (adj x) \<subseteq> visited ?s"
      using loopD(3)[OF l] loopD(12)[OF l] x by (cases "x = v") (auto simp: gray_ok_def)
  qed
  show ?thesis using 1 2 3 loopD(4)[OF l] by (simp add: tinv_def)
qed

subsection \<open>The loop over the successors\<close>

lemma grows_lower: "grows {v} s (lower v l s)"
  by (simp add: grows_def)

lemma loop_lower:
  assumes l: "loop_inv G v old ps nw s" and w: "w \<in> visited s"
    and low: "w \<in> set old \<Longrightarrow> i \<le> idx s w" and wit: "i < t_low s v \<Longrightarrow> \<exists>u\<in>set old. idx s u = i \<and> (v, u) \<in> E\<^sup>*"
  shows "loop_inv G v old (ps @ [w]) nw (lower v i s)"
proof -
  have "min (t_low s v) i = idx s v \<or> (\<exists>u\<in>set old. idx s u = min (t_low s v) i \<and> (v, u) \<in> E\<^sup>*)"
    using wit loopD(10)[OF l] by (cases "i < t_low s v") (auto simp: min_def)
  moreover have "min (t_low s v) i \<le> idx s v" using loopD(9)[OF l] by simp
  moreover have "\<forall>x\<in>set nw. \<forall>y\<in>set old. (x, y) \<in> E \<longrightarrow> min (t_low s v) i \<le> idx s y"
    using loopD(11)[OF l] by (meson min.coboundedI1)
  moreover have "\<forall>p\<in>set (ps @ [w]). p \<in> visited s \<and> (p \<in> set old \<longrightarrow> min (t_low s v) i \<le> idx s p)"
    using loopD(12,13)[OF l] w low by (auto intro: min.coboundedI1 min.coboundedI2)
  ultimately show ?thesis
    using l unfolding loop_inv_def lower_tinv lower_simps fun_upd_same by blast
qed

lemma loop_same:
  assumes l: "loop_inv G v old ps nw s" and w: "w \<in> visited s" "w \<notin> set old"
  shows "loop_inv G v old (ps @ [w]) nw s"
  using l w unfolding loop_inv_def by auto

lemma below_v:
  assumes l: "loop_inv G v old ps nw s" and u: "u \<in> set (t_stack s)" "idx s u < idx s v"
  shows "u \<in> set old"
  using stack_sorted[OF loopD(1)[OF l] loopD(8)[OF l]] u loopD(8)[OF l] by (auto dest: less_asym)

lemma call_pre_succ:
  assumes l: "loop_inv G v old ps nw s" and w: "w \<in> set (adj v)" "w \<notin> visited s" and c: "card (set names - visited s) \<le> n"
  shows "call_pre n (insert v G) w s"
proof -
  have "(v, w) \<in> E" using w(1) by (simp add: E_def)
  then have "\<forall>g\<in>insert v G. (g, w) \<in> E\<^sup>*" using loopD(7)[OF l] by (auto intro: rtrancl_into_rtrancl)
  then show ?thesis using l w c adj_names by (auto simp: call_pre_def loop_inv_def)
qed

lemma loop_called:
  assumes l: "loop_inv G v old ps nw s" and w: "w \<in> set (adj v)" and wn: "w \<notin> visited s" and post: "call_post (insert v G) w s s'"
  shows "\<exists>nw'. loop_inv G v old (ps @ [w]) nw' (lower v (t_low s' w) s') \<and> grows {v} s (lower v (t_low s' w) s')"
proof -
  obtain new where new: "t_stack s' = new @ t_stack s" "set new \<inter> visited s = {}"
      "\<forall>x\<in>set new. \<forall>y\<in>set (t_stack s). (x, y) \<in> E \<longrightarrow> t_low s' w \<le> idx s y"
      "t_next s \<le> t_low s' w \<and> new = [] \<or> (\<exists>y\<in>set (t_stack s). idx s y = t_low s' w \<and> (w, y) \<in> E\<^sup>*)"
    and ti: "tinv (insert v G) s'" and g: "grows {} s s'" and wv: "w \<in> visited s'"
    using post unfolding call_post_def by blast
  note st = loopD(1,8)[OF l]
  have vis: "set (t_stack s) \<subseteq> visited s" using st(1) by (simp add: stack_ok_def)
  then have vv: "v \<in> visited s" and ov: "set old \<subseteq> visited s" using st(2) by auto
  have same: "\<And>x. x \<in> visited s \<Longrightarrow> idx s' x = idx s x" "t_low s' v = t_low s v" "visited s \<subseteq> visited s'"
    using g vv by (auto simp: grows_def)
  have vw: "(v, w) \<in> E" using w by (simp add: E_def)
  let ?m = "min (t_low s v) (t_low s' w)"
  have wit: "?m = idx s v \<or> (\<exists>u\<in>set old. idx s u = ?m \<and> (v, u) \<in> E\<^sup>*)"
  proof (cases "t_low s' w < t_low s v")
    case True
    have lt: "t_low s v \<le> idx s v" "idx s v < t_next s" using loopD(9)[OF l] st(1) vv by (auto simp: stack_ok_def)
    with True new(4) obtain y where y: "y \<in> set (t_stack s)" "idx s y = t_low s' w" "(w, y) \<in> E\<^sup>*" by auto
    moreover have "y \<in> set old" using below_v[OF l y(1)] y(2) True lt(1) by simp
    moreover have "(v, y) \<in> E\<^sup>*" using vw y(3) by (rule converse_rtrancl_into_rtrancl)
    ultimately show ?thesis using True by auto
  next
    case False
    then show ?thesis using loopD(10)[OF l] by (simp add: min_def)
  qed
  have edges: "?m \<le> idx s y" if "x \<in> set (new @ nw)" "y \<in> set old" "(x, y) \<in> E" for x y
  proof (cases "x \<in> set new")
    case True
    with new(3) that st(2) have "t_low s' w \<le> idx s y" by auto
    then show ?thesis by simp
  next
    case False
    with that have "t_low s v \<le> idx s y" using loopD(11)[OF l] by auto
    then show ?thesis by simp
  qed
  have ps: "p \<in> visited s' \<and> (p \<in> set old \<longrightarrow> ?m \<le> idx s' p)" if p: "p \<in> set (ps @ [w])" for p
  proof (cases "p \<in> set ps")
    case True
    then show ?thesis using loopD(12,13)[OF l] same by (metis min.coboundedI1 subsetD)
  next
    case False
    then have "p = w" using p by simp
    moreover have "w \<notin> set old" using wn ov by blast
    ultimately show ?thesis using wv by simp
  qed
  have "loop_inv G v old (ps @ [w]) (new @ nw) (lower v (t_low s' w) s')"
    unfolding loop_inv_def lower_tinv lower_simps fun_upd_same same(2)
  proof (intro conjI)
    show "?m \<le> idx s' v" using loopD(9)[OF l] same(1)[OF vv] by simp
    show "?m = idx s' v \<or> (\<exists>u\<in>set old. idx s' u = ?m \<and> (v, u) \<in> E\<^sup>*)" using wit same(1) vv ov by (metis subsetD)
    show "\<forall>x\<in>set (new @ nw). \<forall>y\<in>set old. (x, y) \<in> E \<longrightarrow> ?m \<le> idx s' y" using edges same(1) ov by (metis subsetD)
    show "\<forall>p\<in>set (ps @ [w]). p \<in> visited s' \<and> (p \<in> set old \<longrightarrow> ?m \<le> idx s' p)" using ps by blast
    show "\<forall>g\<in>G. (g, v) \<in> E\<^sup>*" using loopD(7)[OF l] by blast
    show "t_stack s' = (new @ nw) @ v # old" using new(1) st(2) by simp
  qed (use ti loopD(5,6)[OF l] in simp_all)
  moreover have "grows {v} s (lower v (t_low s' w) s')"
    using grows_trans[OF grows_mono[OF g] grows_lower, of v] by simp
  ultimately show ?thesis by blast
qed

lemma strong_each_Some:
  "t_index s w = Some i \<Longrightarrow> strong_each names adj self n v (w # ws) s =
     strong_each names adj self n v ws (if t_on s w then lower v i s else s)"
  by simp

lemma strong_each_None:
  "t_index s w = None \<Longrightarrow> strong names adj self n w s = Some s' \<Longrightarrow> strong_each names adj self n v (w # ws) s =
     strong_each names adj self n v ws (lower v (t_low s' w) s')"
  by simp

lemma card_unvisited: "grows V s s' \<Longrightarrow> card (set names - visited s') \<le> card (set names - visited s)"
  by (rule card_mono) (auto simp: grows_def)

lemma each_ok:
  assumes IH: "\<And>G w s. call_pre n G w s \<Longrightarrow> \<exists>s'. strong names adj self n w s = Some s' \<and> call_post G w s s'"
    and l: "loop_inv G v old ps nw s" and ws: "adj v = ps @ ws" and c: "card (set names - visited s) \<le> n"
  shows "\<exists>s' nw'. strong_each names adj self n v ws s = Some s' \<and> loop_inv G v old (adj v) nw' s' \<and> grows {v} s s'"
  using l ws c
proof (induction ws arbitrary: ps nw s)
  case Nil
  then show ?case using grows_refl by auto
next
  case (Cons w ws)
  note l = Cons.prems(1)
  have w: "w \<in> set (adj v)" using Cons.prems(2) by simp
  obtain s1 nw1 where s1: "strong_each names adj self n v (w # ws) s = strong_each names adj self n v ws s1"
    "loop_inv G v old (ps @ [w]) nw1 s1" "grows {v} s s1"
  proof (cases "t_index s w")
    case None
    then have wn: "w \<notin> visited s" by (auto simp: visited_def)
    obtain s' where s': "strong names adj self n w s = Some s'" "call_post (insert v G) w s s'"
      using IH[OF call_pre_succ[OF l w wn Cons.prems(3)]] by blast
    from loop_called[OF l w wn s'(2)] strong_each_None[OF None s'(1)] that show ?thesis by blast
  next
    case (Some i)
    then have wv: "w \<in> visited s" and i: "i = idx s w" by (auto simp: visited_def idx_def)
    have on: "t_on s w \<longleftrightarrow> w \<in> set (t_stack s)" using loopD(1)[OF l] by (simp add: stack_ok_def)
    show ?thesis
    proof (cases "t_on s w")
      case True
      have "\<exists>u\<in>set old. idx s u = i \<and> (v, u) \<in> E\<^sup>*" if "i < t_low s v"
      proof -
        have "w \<in> set old" using below_v[OF l] True on i that loopD(9)[OF l] by simp
        then show ?thesis using i w by (auto simp: E_def)
      qed
      with loop_lower[OF l wv, of i] i True have "loop_inv G v old (ps @ [w]) nw (lower v i s)" by simp
      with that strong_each_Some[OF Some] True grows_lower show ?thesis by simp
    next
      case False
      then have "w \<notin> set old" using on loopD(8)[OF l] by auto
      from loop_same[OF l wv this] that strong_each_Some[OF Some] False grows_refl show ?thesis by simp
    qed
  qed
  have "card (set names - visited s1) \<le> n" using card_unvisited[OF s1(3)] Cons.prems(3) by simp
  from Cons.IH[OF s1(2) _ this] Cons.prems(2) obtain s' nw' where
    "strong_each names adj self n v ws s1 = Some s'" "loop_inv G v old (adj v) nw' s'" "grows {v} s1 s'" by auto
  with s1 grows_trans show ?case by metis
qed

lemma strong_ok: "call_pre n G v s \<Longrightarrow> \<exists>s'. strong names adj self n v s = Some s' \<and> call_post G v s s'"
proof (induction n arbitrary: G v s)
  case 0
  then have "v \<in> set names - visited s" "card (set names - visited s) = 0" by (auto simp: call_pre_def)
  then show ?case by auto
next
  case (Suc n)
  note pre = Suc.prems
  have v: "v \<in> set names - visited s" "card (set names - visited s) \<le> Suc n" "tinv G s" using pre by (auto simp: call_pre_def)
  have c: "card (set names - visited (enter v s)) \<le> n"
  proof -
    have "set names - visited (enter v s) = (set names - visited s) - {v}" by auto
    then show ?thesis using v(1,2) by simp
  qed
  obtain s1 nw where s1: "strong_each names adj self n v (adj v) (enter v s) = Some s1"
      and l: "loop_inv G v (t_stack s) (adj v) nw s1" and g1: "grows {v} (enter v s) s1"
    using each_ok[OF Suc.IH enter_loop[OF pre] _ c, of "adj v"] by auto
  note st = loopD(1,8)[OF l]
  have vv: "v \<in> visited s1" and vs: "set (t_stack s) \<subseteq> visited s"
    using st v(3) by (auto simp: stack_ok_def tinv_def)
  have g: "grows {} s s1"
  proof -
    have ne: "x \<noteq> v" if "x \<in> visited s" for x using that v(1) by blast
    have "t_next s \<le> idx s1 x" if "x \<in> visited s1 - visited s" for x
      using g1 that by (cases "x = v") (auto simp: grows_def dest: Suc_leD)
    then show ?thesis using g1 ne by (auto simp: grows_def dest: Suc_leD)
  qed
  have idx_v: "idx s1 v = t_next s" using g1 by (simp add: grows_def)
  have same: "\<And>x. x \<in> visited s \<Longrightarrow> idx s1 x = idx s x" using g by (simp add: grows_def)
  define s' where "s' = (if t_low s1 v \<noteq> idx s1 v then s1 else popped v (t_stack s) (nw @ [v]) s1)"
  have run: "strong names adj self (Suc n) v s = Some s'" using s1 leave_eq[OF st] by (simp add: s'_def)
  have "call_post G v s s'"
  proof (cases "t_low s1 v = idx s1 v")
    case True
    then have s': "s' = popped v (t_stack s) (nw @ [v]) s1" by (simp add: s'_def)
    have "grows {} s s'" using g by (simp add: grows_def s')
    then show ?thesis
      unfolding call_post_def using leave_pops[OF l True] vv True idx_v by (simp add: s')
  next
    case False
    then have s': "s' = s1" by (simp add: s'_def)
    obtain w where w: "w \<in> set (t_stack s)" "idx s1 w = t_low s1 v" "(v, w) \<in> E\<^sup>*" using leave_stays(2)[OF l False] by blast
    have edges: "t_low s1 v \<le> idx s y" if x: "x \<in> set (nw @ [v])" and y: "y \<in> set (t_stack s)" and e: "(x, y) \<in> E" for x y
    proof -
      have "t_low s1 v \<le> idx s1 y" using loopD(11)[OF l, of x y] loopD(13)[OF l, of y] x y e by (auto simp: E_def)
      then show ?thesis using same y vs by auto
    qed
    have fresh: "set (nw @ [v]) \<inter> visited s = {}"
    proof -
      have "t_next s \<le> idx s1 x" if "x \<in> set (nw @ [v])" for x
        using stack_sorted[OF st] that idx_v by (auto intro: less_imp_le)
      moreover have "idx s1 x < t_next s" if "x \<in> visited s" for x
        using same[OF that] that v(3) by (simp add: tinv_def stack_ok_def)
      ultimately show ?thesis by (meson disjoint_iff leD)
    qed
    show ?thesis
      unfolding call_post_def s'
    proof (intro conjI exI[of _ "nw @ [v]"])
      show "t_next s \<le> t_low s1 v \<and> nw @ [v] = [] \<or> (\<exists>w\<in>set (t_stack s). idx s w = t_low s1 v \<and> (v, w) \<in> E\<^sup>*)"
        using w same[of w] vs by (metis subsetD)
      show "\<forall>x\<in>set (nw @ [v]). \<forall>w\<in>set (t_stack s). (x, w) \<in> E \<longrightarrow> t_low s1 v \<le> idx s w" using edges by blast
    qed (use leave_stays(1)[OF l False] g vv fresh st(2) in simp_all)
  qed
  with run show ?case by blast
qed

subsection \<open>The whole search\<close>

lemma tarjan_init_inv: "tinv {} tarjan_init"
  by (simp add: tinv_def tarjan_init_def stack_ok_def comps_ok_def gray_ok_def visited_def)

lemma empty_stack: "tinv {} s \<Longrightarrow> t_stack s = []"
proof -
  assume "tinv {} s"
  then have "\<forall>x\<in>set (t_stack s). False" by (simp add: tinv_def gray_ok_def)
  then show ?thesis by (cases "t_stack s") auto
qed

lemma strong_all_ok:
  assumes "tinv {} s" "set ns \<subseteq> set names"
  shows "\<exists>s'. strong_all names adj self ns s = Some s' \<and> tinv {} s' \<and> visited s \<union> set ns \<subseteq> visited s'"
  using assms
proof (induction ns arbitrary: s)
  case Nil
  then show ?case by simp
next
  case (Cons n ns)
  show ?case
  proof (cases "t_index s n")
    case None
    have "card (set names - visited s) \<le> length names" by (metis card_length card_mono Diff_subset List.finite_set le_trans)
    moreover have "n \<notin> visited s" using None by (auto simp: visited_def)
    ultimately have "call_pre (length names) {} n s" using Cons.prems by (simp add: call_pre_def)
    then obtain s1 where s1: "strong names adj self (length names) n s = Some s1" "call_post {} n s s1"
      using strong_ok by blast
    then have "tinv {} s1" "visited s \<union> {n} \<subseteq> visited s1" by (auto simp: call_post_def grows_def)
    with Cons.IH[of s1] Cons.prems None s1(1) show ?thesis by auto
  next
    case (Some i)
    then have "n \<in> visited s" by (auto simp: visited_def)
    with Cons.IH[of s] Cons.prems Some show ?thesis by auto
  qed
qed

lemma comp_of_unique:
  assumes "comps_ok s" "j < length (t_comps s)" "k < length (t_comps s)"
    "x \<in> set (cm_members (t_comps s ! j))" "x \<in> set (cm_members (t_comps s ! k))"
  shows "j = k"
  using comp_edges(1)[OF assms(1,2,4)] comp_edges(1)[OF assms(1,3,5)] by simp

lemma comps_distinct:
  assumes "comps_ok s"
  shows "distinct (concat (map cm_members (t_comps s)))"
proof (rule distinct_concat)
  have ok: "\<And>k. k < length (t_comps s) \<Longrightarrow> comp_ok (t_comps s ! k)" using assms by (simp add: comps_ok_def)
  have ne: "cm_members (t_comps s ! j) \<noteq> cm_members (t_comps s ! k)" if "j < length (t_comps s)" "k < length (t_comps s)" "j \<noteq> k" for j k
    using comp_of_unique[OF assms that(1,2)] ok[OF that(1)] that(3) unfolding comp_ok_def by (metis list.set_intros(1) neq_Nil_conv)
  then show "distinct (map cm_members (t_comps s))" by (simp add: distinct_conv_nth)
  show "\<And>ys. ys \<in> set (map cm_members (t_comps s)) \<Longrightarrow> distinct ys" using assms by (auto simp: comps_ok_def comp_ok_def)
  fix ys zs assume yz: "ys \<in> set (map cm_members (t_comps s))" "zs \<in> set (map cm_members (t_comps s))" "ys \<noteq> zs"
  then obtain j k where "j < length (t_comps s)" "k < length (t_comps s)" "ys = cm_members (t_comps s ! j)" "zs = cm_members (t_comps s ! k)"
    by (metis (no_types, lifting) in_set_conv_nth length_map nth_map)
  with yz(3) comp_of_unique[OF assms] show "set ys \<inter> set zs = {}" by (metis disjoint_iff)
qed

theorem tarjan_result:
  "\<exists>s. strong_all names adj self names tarjan_init = Some s \<and> comps_ok s \<and> t_stack s = [] \<and> visited s = set names"
  using strong_all_ok[OF tarjan_init_inv, of names] empty_stack by (auto simp: tinv_def)

end

subsection \<open>The graph of a plan\<close>

lemma declared_from_ok: "distinct names \<Longrightarrow> distinct (declared_from xs names) \<and> set (declared_from xs names) = set xs \<union> set names"
  by (induction xs arbitrary: names) auto

lemma declared_ok [simp]: "distinct (declared xs)" "set (declared xs) = set xs"
  using declared_from_ok[of "[]" xs] by (simp_all add: declared_def)

lemma adj_loop_iff:
  "w \<in> set (adj_loop names es adj v) \<longleftrightarrow>
     w \<in> set (adj v) \<or> v \<in> set names \<and> w \<in> set names \<and> (\<exists>e\<in>set es. be_from e = v \<and> be_to e = w)"
  by (induction es arbitrary: adj) auto

interpretation plan_graph: digraph "declared xs" "adj_loop (declared xs) betas (\<lambda>_. [])" "self_fed (declared xs) betas" for xs betas
  by unfold_locales (simp_all add: adj_loop_iff)

lemma plan_graph_E: "(v, w) \<in> plan_graph.E xs betas \<longleftrightarrow> v \<in> set xs \<and> w \<in> set xs \<and> (\<exists>e\<in>set betas. be_from e = v \<and> be_to e = w)"
  by (simp add: plan_graph.E_def adj_loop_iff)

end
