(* ===== verification/Condense.thy ===== *)
theory Condense
  imports Tarjan Schedule
begin

section \<open>Condensing a plan: internal/system\_g/plan, condense and levels\<close>

text \<open>
  Compose runs a plan's exchanges in the order of the condensation of its dependency graph: Tarjan's
  algorithm finds the strongly connected components, Kahn's orders them, and levels groups the ones
  that may run side by side. Go ranges over the adjacency map in an unspecified order, which is the
  argument \<open>ord\<close>. Kahn's loop carries fuel, one unit for each component.
\<close>

subsection \<open>Kahn over the condensation\<close>

fun feed_tos :: "(string \<Rightarrow> nat) \<Rightarrow> string \<Rightarrow> string list \<Rightarrow> (nat \<Rightarrow> nat list) \<times> (nat \<Rightarrow> int) \<Rightarrow> (nat \<Rightarrow> nat list) \<times> (nat \<Rightarrow> int)" where
  "feed_tos cof from [] s = s"
| "feed_tos cof from (to # tos) (after, waiting) = (let a = cof from; b = cof to in
     feed_tos cof from tos
       (if a \<noteq> b \<and> b \<notin> set (after a) then (after(a := after a @ [b]), waiting(b := waiting b + 1)) else (after, waiting)))"

fun feeds :: "(string \<Rightarrow> string list) \<Rightarrow> (string \<Rightarrow> nat) \<Rightarrow> string list \<Rightarrow> (nat \<Rightarrow> nat list) \<times> (nat \<Rightarrow> int) \<Rightarrow> (nat \<Rightarrow> nat list) \<times> (nat \<Rightarrow> int)" where
  "feeds adj cof [] s = s"
| "feeds adj cof (from # fs) s = feeds adj cof fs (feed_tos cof from (adj from) s)"

definition condense :: "string list \<Rightarrow> string list \<Rightarrow> BetaEdge list \<Rightarrow> AlphaEdge list \<Rightarrow> component list option" where
  "condense ord exchanges betas alphas = (let
     betas' = betas @ alpha_betas alphas;
     names = declared exchanges;
     adj = adj_loop names betas' (\<lambda>_. []) in
     case strong_all names adj (self_fed names betas') names tarjan_init of
       None \<Rightarrow> None
     | Some s \<Rightarrow> (let
         comps = t_comps s;
         (after, waiting) = feeds adj (t_of s) ord (\<lambda>_. [], \<lambda>_. 0);
         first = (\<lambda>c. int (pos_of names (hd (cm_members (comps ! c)))));
         ready = SortStableFunc (\<lambda>a b. first a - first b) (filter (\<lambda>c. waiting c = 0) [0..<length comps]) in
         map_option (map (\<lambda>c. comps ! c)) (kahn (length comps) after waiting ready [])))"

subsection \<open>Who feeds whom\<close>

text \<open>The lists of fed components have no repetition, and a component waits for each that feeds it.\<close>

definition feed_ok :: "(nat \<Rightarrow> nat list) \<times> (nat \<Rightarrow> int) \<Rightarrow> bool" where
  "feed_ok fw \<longleftrightarrow> (\<forall>a. distinct (fst fw a)) \<and>
     (\<forall>b. finite {a. b \<in> set (fst fw a)} \<and> snd fw b = int (card {a. b \<in> set (fst fw a)}))"

lemma feed_ok_add:
  assumes "feed_ok (after, waiting)" "b \<notin> set (after a)"
  shows "feed_ok (after(a := after a @ [b]), waiting(b := waiting b + 1))"
proof -
  have f: "finite {a'. c \<in> set (after a')}" "waiting c = int (card {a'. c \<in> set (after a')})" "distinct (after c)" for c
    using assms(1) by (simp_all add: feed_ok_def)
  have e: "{a'. c \<in> set ((after(a := after a @ [b])) a')} = (if c = b then insert a {a'. c \<in> set (after a')} else {a'. c \<in> set (after a')})" for c
    using assms(2) by auto
  show ?thesis unfolding feed_ok_def fst_conv snd_conv e using f assms(2) by simp
qed

lemma feed_tos_ok:
  "feed_ok fw \<Longrightarrow> feed_ok (feed_tos cof from tos fw) \<and>
     (\<forall>a. set (fst (feed_tos cof from tos fw) a) = set (fst fw a) \<union> (if a = cof from then cof ` set tos - {a} else {}))"
proof (induction tos arbitrary: fw)
  case Nil
  then show ?case by simp
next
  case (Cons t tos)
  obtain after waiting where fw: "fw = (after, waiting)" by fastforce
  let ?n = "cof from \<noteq> cof t \<and> cof t \<notin> set (after (cof from))"
  define fw' where "fw' = (if ?n then (after(cof from := after (cof from) @ [cof t]), waiting(cof t := waiting (cof t) + 1)) else (after, waiting))"
  have step: "feed_tos cof from (t # tos) fw = feed_tos cof from tos fw'" by (simp add: fw fw'_def Let_def)
  have ok: "feed_ok fw'" using Cons.prems feed_ok_add unfolding fw fw'_def by simp
  have "set (fst fw' a) = set (fst fw a) \<union> (if a = cof from then {cof t} - {a} else {})" for a
    by (auto simp: fw fw'_def)
  with Cons.IH[OF ok] show ?case unfolding step by auto
qed

lemma feeds_ok:
  "feed_ok fw \<Longrightarrow> feed_ok (feeds adj cof fs fw) \<and>
     (\<forall>a b. b \<in> set (fst (feeds adj cof fs fw) a) \<longleftrightarrow>
        b \<in> set (fst fw a) \<or> a \<noteq> b \<and> (\<exists>u\<in>set fs. \<exists>v\<in>set (adj u). cof u = a \<and> cof v = b))"
proof (induction fs arbitrary: fw)
  case Nil
  then show ?case by simp
next
  case (Cons f fs)
  note t = feed_tos_ok[OF Cons.prems, of cof f "adj f"]
  from Cons.IH[OF t[THEN conjunct1]] t[THEN conjunct2] show ?case by auto
qed

subsection \<open>Kahn's order of the components\<close>

context digraph
begin

lemma feeds_components:
  assumes c: "comps_ok s" and st: "t_stack s = []" "visited s = set names" and ord: "fst ` E \<subseteq> set ord" "set ord \<subseteq> set names"
    and f: "feeds adj (t_of s) ord (\<lambda>_. [], \<lambda>_. 0) = (after, waiting)"
  shows "feed_ok (after, waiting)"
    "b \<in> set (after a) \<longleftrightarrow> a \<noteq> b \<and> (\<exists>u v. (u, v) \<in> E \<and> t_of s u = a \<and> t_of s v = b)"
    "b \<in> set (after a) \<Longrightarrow> b < a \<and> a < length (t_comps s)"
proof -
  have "feed_ok (\<lambda>_. [], \<lambda>_. 0)" by (simp add: feed_ok_def)
  note ok = feeds_ok[OF this, of adj "t_of s" ord, unfolded f]
  show "feed_ok (after, waiting)" using ok by simp
  show iff: "b \<in> set (after a) \<longleftrightarrow> a \<noteq> b \<and> (\<exists>u v. (u, v) \<in> E \<and> t_of s u = a \<and> t_of s v = b)" for a b
    using ok ord(1) by (fastforce simp: E_def)
  assume "b \<in> set (after a)"
  then obtain u v where uv: "a \<noteq> b" "(u, v) \<in> E" "t_of s u = a" "t_of s v = b" using iff by blast
  then have "u \<in> set names" using ord by force
  then have "u \<in> visited s - set (t_stack s)" using st by simp
  note u = done_comp[OF c this]
  from comp_edges(3)[OF c u uv(2)] u(1) uv show "b < a \<and> a < length (t_comps s)" by auto
qed

lemma components_kahn:
  assumes ok: "feed_ok (after, waiting)" and lt: "\<And>a b. b \<in> set (after a) \<Longrightarrow> b < a \<and> a < n"
    and ready: "distinct ready" "set ready = {c. c < n \<and> waiting c = 0}"
  shows "\<exists>v. kahn n after waiting ready [] = Some v \<and> distinct v \<and> set v = {..<n} \<and>
    (\<forall>i<length v. \<forall>a. v ! i \<in> set (after a) \<longrightarrow> a \<in> set (take i v))"
proof -
  let ?deps = "\<lambda>m. filter (\<lambda>a. m \<in> set (after a)) [0..<n]"
  have dist: "distinct (after a)" and wait: "waiting b = int (card {a. b \<in> set (after a)})" for a b
    using ok by (simp_all add: feed_ok_def)
  have deps: "set (?deps m) = {a. m \<in> set (after a)}" for m using lt by auto
  have cnt: "distinct xs \<Longrightarrow> count_list xs (x::nat) = (if x \<in> set xs then 1 else 0)" for xs x
    by (induction xs) auto
  have g: "kahn_deps [0..<n] ?deps after"
  proof unfold_locales
    show "\<And>m. m \<notin> set [0..<n] \<Longrightarrow> ?deps m = []" using lt by (fastforce simp: filter_empty_conv)
    show "count_list (after x) m = count_list (?deps m) x" for x m
      unfolding cnt[OF dist] using cnt[of "?deps m" x] lt[of m x] by auto
  qed auto
  have len: "waiting m = int (length (?deps m))" for m
    unfolding wait using distinct_card[of "?deps m"] deps[of m] by simp
  have r: "set ready = {m \<in> set [0..<n]. ?deps m = []}" unfolding ready(2) len by auto
  from kahn_deps.kahn_total[OF g ready(1) r len] obtain v deg' where
    v: "kahn n after waiting ready [] = Some v" "kahn_deps.progress_inv [0..<n] ?deps v [] deg'" "kahn_deps.topological ?deps v" by auto
  have e: "kahn_deps.edges ?deps = {(a, b). b \<in> set (after a)}"
    unfolding kahn_deps.edges_def[OF g] deps by auto
  have "acyclic (kahn_deps.edges ?deps)"
  proof -
    have "(kahn_deps.edges ?deps)\<inverse> \<subseteq> less_than" unfolding e using lt by auto
    then show ?thesis by (metis acyclic_converse acyclic_subset wf_acyclic wf_less_than)
  qed
  from kahn_deps.progress_end[OF g v(2) this] have sv: "set v = {..<n}" by (simp only: set_upt lessThan_atLeast0)
  have dv: "distinct v" using v(2) by (simp add: kahn_deps.progress_inv_def[OF g])
  have "a \<in> set (take i v)" if "i < length v" "v ! i \<in> set (after a)" for i a
    using v(3) that deps[of "v ! i"] unfolding kahn_deps.topological_def[OF g] by blast
  with v(1) dv sv show ?thesis by blast
qed

end

subsection \<open>What condensing gives\<close>

text \<open>A plan's dependencies: what a \<open>\<beta>\<close> edge carries a value along, or an \<open>\<alpha>\<close> edge orders.\<close>

definition depends :: "string list \<Rightarrow> BetaEdge list \<Rightarrow> AlphaEdge list \<Rightarrow> (string \<times> string) set" where
  "depends xs betas alphas = {(u, v). u \<in> set xs \<and> v \<in> set xs \<and>
     ((\<exists>e\<in>set betas. be_from e = u \<and> be_to e = v) \<or> (\<exists>a\<in>set alphas. ae_from a = u \<and> ae_to a = v))}"

lemma alpha_betas_iff:
  "(\<exists>e\<in>set (betas @ alpha_betas alphas). be_from e = u \<and> be_to e = v) \<longleftrightarrow>
     (\<exists>e\<in>set betas. be_from e = u \<and> be_to e = v) \<or> (\<exists>a\<in>set alphas. ae_from a = u \<and> ae_to a = v)"
  by (simp add: alpha_betas_def bex_Un)

lemma plan_graph_depends: "plan_graph.E xs (betas @ alpha_betas alphas) = depends xs betas alphas"
  unfolding depends_def using plan_graph_E[of _ _ xs "betas @ alpha_betas alphas"] alpha_betas_iff by auto

lemma self_fed_iff: "self_fed (declared xs) (betas @ alpha_betas alphas) v \<longleftrightarrow> (v, v) \<in> depends xs betas alphas"
  using alpha_betas_iff[of betas alphas v v] unfolding self_fed_def list_ex_iff depends_def by auto

lemma on_cycle_iff:
  assumes "distinct ms" "v \<in> set ms" "set ms = {w. (v, w) \<in> R\<^sup>* \<and> (w, v) \<in> R\<^sup>*}"
  shows "(v, v) \<in> R\<^sup>+ \<longleftrightarrow> 1 < length ms \<or> (v, v) \<in> R"
proof
  assume "(v, v) \<in> R\<^sup>+"
  then obtain w where w: "(v, w) \<in> R" "(w, v) \<in> R\<^sup>*" by (meson tranclD)
  show "1 < length ms \<or> (v, v) \<in> R"
  proof (cases "w = v")
    case False
    have "w \<in> set ms" using w assms(3) by auto
    then have "{v, w} \<subseteq> set ms" using assms(2) by simp
    then have "card {v, w} \<le> length ms" using assms(1) by (metis List.finite_set card_mono distinct_card)
    then show ?thesis using False by simp
  qed (use w in simp)
next
  assume "1 < length ms \<or> (v, v) \<in> R"
  then show "(v, v) \<in> R\<^sup>+"
  proof
    assume "1 < length ms"
    then have "set ms \<noteq> {v}" using assms(1) by (metis card.empty card.insert distinct_card empty_iff finite.emptyI less_irrefl One_nat_def)
    then obtain w where "w \<in> set ms" "w \<noteq> v" using assms(2) by blast
    then have "(v, w) \<in> R\<^sup>*" "(w, v) \<in> R\<^sup>*" "w \<noteq> v" using assms(3) by auto
    then show ?thesis by (metis rtrancl_eq_or_trancl trancl_trans)
  qed auto
qed

lemma condense_components:
  assumes ord: "fst ` depends xs betas alphas \<subseteq> set ord" "set ord \<subseteq> set xs"
  shows "\<exists>s v. condense ord xs betas alphas = Some (map (\<lambda>c. t_comps s ! c) v) \<and>
    plan_graph.comps_ok xs (betas @ alpha_betas alphas) s \<and> t_stack s = [] \<and> visited s = set xs \<and>
    distinct v \<and> set v = {..<length (t_comps s)} \<and>
    (\<forall>i<length v. \<forall>u w. (u, w) \<in> depends xs betas alphas \<longrightarrow> t_of s w = v ! i \<longrightarrow> t_of s u \<noteq> v ! i \<longrightarrow> t_of s u \<in> set (take i v))"
proof -
  let ?b = "betas @ alpha_betas alphas" and ?names = "declared xs"
  let ?adj = "adj_loop ?names ?b (\<lambda>_. [])"
  obtain s where s: "strong_all ?names ?adj (self_fed ?names ?b) ?names tarjan_init = Some s"
    "plan_graph.comps_ok xs ?b s" "t_stack s = []" "visited s = set xs"
    using plan_graph.tarjan_result[of xs ?b] by auto
  obtain after waiting where f: "feeds ?adj (t_of s) ord (\<lambda>_. [], \<lambda>_. 0) = (after, waiting)" by fastforce
  have vs: "visited s = set ?names" using s(4) by simp
  have o: "fst ` plan_graph.E xs ?b \<subseteq> set ord" "set ord \<subseteq> set ?names" using ord plan_graph_depends by simp_all
  note fc = plan_graph.feeds_components[OF s(2,3) vs o f]
  let ?first = "\<lambda>c. int (pos_of ?names (hd (cm_members (t_comps s ! c))))"
  define ready where "ready = SortStableFunc (\<lambda>a b. ?first a - ?first b) (filter (\<lambda>c. waiting c = 0) [0..<length (t_comps s)])"
  have ready: "distinct ready" "set ready = {c. c < length (t_comps s) \<and> waiting c = 0}"
    by (auto simp: ready_def)
  obtain v where v: "kahn (length (t_comps s)) after waiting ready [] = Some v" "distinct v" "set v = {..<length (t_comps s)}"
    "\<forall>i<length v. \<forall>a. v ! i \<in> set (after a) \<longrightarrow> a \<in> set (take i v)"
    using plan_graph.components_kahn[OF fc(1,3) ready] by blast
  have run: "condense ord xs betas alphas = Some (map (\<lambda>c. t_comps s ! c) v)"
    using s(1) f v(1) unfolding ready_def by (simp add: condense_def Let_def)
  have "t_of s u \<in> set (take i v)"
    if "i < length v" "(u, w) \<in> depends xs betas alphas" "t_of s w = v ! i" "t_of s u \<noteq> v ! i" for i u w
  proof -
    have "v ! i \<in> set (after (t_of s u))" using that fc(2) plan_graph_depends by metis
    then show ?thesis using v(4) that(1) by blast
  qed
  then show ?thesis using run s(2,3,4) v(2,3) by blast
qed

lemma comp_scc:
  assumes ok: "plan_graph.comp_ok xs (betas @ alpha_betas alphas) c" and x: "x \<in> set (cm_members c)"
  shows "set (cm_members c) = {w. (x, w) \<in> (depends xs betas alphas)\<^sup>* \<and> (w, x) \<in> (depends xs betas alphas)\<^sup>*} \<and>
    (cm_cyclic c \<longleftrightarrow> (x, x) \<in> (depends xs betas alphas)\<^sup>+)"
proof -
  let ?R = "depends xs betas alphas"
  note o = ok[unfolded plan_graph.comp_ok_def plan_graph_depends self_fed_iff]
  have e: "set (cm_members c) = {w. (x, w) \<in> ?R\<^sup>* \<and> (w, x) \<in> ?R\<^sup>*}" using o x by blast
  have d: "distinct (cm_members c)" using o by blast
  have one: "y = x" if "y \<in> set (cm_members c)" "\<not> 1 < length (cm_members c)" for y
    using that x by (cases "cm_members c") auto
  have "cm_cyclic c \<longleftrightarrow> 1 < length (cm_members c) \<or> (x, x) \<in> ?R" using o x one by blast
  then show ?thesis using e on_cycle_iff[OF d x e] by blast
qed

lemma condense_nonempty:
  assumes "fst ` depends xs betas alphas \<subseteq> set ord" "set ord \<subseteq> set xs" "condense ord xs betas alphas = Some comps"
  shows "\<forall>c\<in>set comps. cm_members c \<noteq> []"
proof -
  obtain s v where s: "comps = map (\<lambda>c. t_comps s ! c) v" "plan_graph.comps_ok xs (betas @ alpha_betas alphas) s"
    "set v = {..<length (t_comps s)}"
    using condense_components[OF assms(1,2)] assms(3) by auto
  then show ?thesis by (auto simp: plan_graph.comps_ok_def plan_graph.comp_ok_def)
qed

lemma condense_spec:
  assumes "fst ` depends xs betas alphas \<subseteq> set ord" "set ord \<subseteq> set xs"
  shows "\<exists>comps. condense ord xs betas alphas = Some comps \<and>
    distinct (concat (map cm_members comps)) \<and> set (concat (map cm_members comps)) = set xs \<and>
    (\<forall>c\<in>set comps. \<forall>v\<in>set (cm_members c).
       set (cm_members c) = {w. (v, w) \<in> (depends xs betas alphas)\<^sup>* \<and> (w, v) \<in> (depends xs betas alphas)\<^sup>*} \<and>
       (cm_cyclic c \<longleftrightarrow> (v, v) \<in> (depends xs betas alphas)\<^sup>+)) \<and>
    (\<forall>i<length comps. \<forall>j<length comps. \<forall>v\<in>set (cm_members (comps ! i)). \<forall>w\<in>set (cm_members (comps ! j)).
       (v, w) \<in> depends xs betas alphas \<longrightarrow> i \<le> j) \<and>
    (\<forall>c\<in>set comps. sorted_wrt (\<lambda>a b. pos_of (declared xs) a \<le> pos_of (declared xs) b) (cm_members c))"
proof -
  let ?R = "depends xs betas alphas" and ?b = "betas @ alpha_betas alphas"
  obtain s v where s: "condense ord xs betas alphas = Some (map (\<lambda>c. t_comps s ! c) v)"
    "plan_graph.comps_ok xs ?b s" "t_stack s = []" "visited s = set xs" and v: "distinct v" "set v = {..<length (t_comps s)}"
    and top: "\<forall>i<length v. \<forall>u w. (u, w) \<in> ?R \<longrightarrow> t_of s w = v ! i \<longrightarrow> t_of s u \<noteq> v ! i \<longrightarrow> t_of s u \<in> set (take i v)"
    using condense_components[OF assms] by blast
  let ?out = "map (\<lambda>c. t_comps s ! c) v"
  note perm = map_nth_perm[OF v]
  note cc = concat_perm[OF perm, of cm_members]
  have fin: "visited s - set (t_stack s) = set (concat (map cm_members (t_comps s)))"
    using s(2) by (simp add: plan_graph.comps_ok_def)
  have ok: "plan_graph.comp_ok xs ?b c" if "c \<in> set ?out" for c
    using s(2) that mset_eq_setD[OF perm] by (simp add: plan_graph.comps_ok_def)
  have order: "i \<le> j" if i: "i < length ?out" and j: "j < length ?out" and x: "x \<in> set (cm_members (?out ! i))"
    and y: "y \<in> set (cm_members (?out ! j))" and xy: "(x, y) \<in> ?R" for i j x y
  proof (rule ccontr)
    assume ij: "\<not> i \<le> j"
    have vi: "v ! i < length (t_comps s)" "v ! j < length (t_comps s)"
      using i j v(2) nth_mem[of i v] nth_mem[of j v] by auto
    have of: "t_of s x = v ! i" "t_of s y = v ! j"
      using plan_graph.comp_edges(1)[OF s(2) vi(1), of x] plan_graph.comp_edges(1)[OF s(2) vi(2), of y] x y i j by simp_all
    have "v ! i \<noteq> v ! j" using v(1) i j ij by (simp add: nth_eq_iff_index_eq)
    then have "v ! i \<in> set (take j v)" using top[rule_format, of j x y] xy of j by simp
    then obtain k where "k < j" "v ! k = v ! i" using j by (auto simp: in_set_conv_nth)
    then show False using v(1) i j ij by (simp add: nth_eq_iff_index_eq)
  qed
  have d: "distinct (concat (map cm_members ?out))" unfolding cc(1) by (rule plan_graph.comps_distinct[OF s(2)])
  have cover: "set (concat (map cm_members ?out)) = set xs" unfolding cc(2) fin[symmetric] using s(3,4) by simp
  have srt: "\<forall>c\<in>set ?out. sorted_wrt (\<lambda>a b. pos_of (declared xs) a \<le> pos_of (declared xs) b) (cm_members c)"
    using ok by (simp add: plan_graph.comp_ok_def)
  have scc: "\<forall>c\<in>set ?out. \<forall>x\<in>set (cm_members c). set (cm_members c) = {w. (x, w) \<in> ?R\<^sup>* \<and> (w, x) \<in> ?R\<^sup>*} \<and>
      (cm_cyclic c \<longleftrightarrow> (x, x) \<in> ?R\<^sup>+)" using comp_scc[OF ok] by blast
  have ordering: "\<forall>i<length ?out. \<forall>j<length ?out. \<forall>x\<in>set (cm_members (?out ! i)). \<forall>y\<in>set (cm_members (?out ! j)). (x, y) \<in> ?R \<longrightarrow> i \<le> j"
    using order by blast
  show ?thesis by (rule exI[of _ ?out], intro conjI s(1) d cover scc ordering srt)
qed

text \<open>C28: condensing is correct whatever order Go visits the adjacency map in. It always returns, with
  no panic; its components partition the exchanges; two exchanges are in one component exactly when
  each depends, through others, on the other, and a component is marked cyclic exactly when its
  members depend on themselves; a component follows every other it depends on; and its members keep
  their order of declaration.\<close>

theorem condense_correct:
  assumes "fst ` depends xs betas alphas \<subseteq> set ord" "set ord \<subseteq> set xs"
  shows "\<exists>comps. condense ord xs betas alphas = Some comps \<and>
    distinct (concat (map cm_members comps)) \<and> set (concat (map cm_members comps)) = set xs \<and>
    (\<forall>c\<in>set comps. \<forall>v\<in>set (cm_members c).
       set (cm_members c) = {w. (v, w) \<in> (depends xs betas alphas)\<^sup>* \<and> (w, v) \<in> (depends xs betas alphas)\<^sup>*} \<and>
       (cm_cyclic c \<longleftrightarrow> (v, v) \<in> (depends xs betas alphas)\<^sup>+)) \<and>
    (\<forall>i<length comps. \<forall>j<length comps. \<forall>v\<in>set (cm_members (comps ! i)). \<forall>w\<in>set (cm_members (comps ! j)).
       (v, w) \<in> depends xs betas alphas \<longrightarrow> i \<le> j) \<and>
    (\<forall>c\<in>set comps. sorted_wrt (\<lambda>a b. pos_of (declared xs) a \<le> pos_of (declared xs) b) (cm_members c))"
  by (rule condense_spec[OF assms])

definition loop_edges :: "BetaEdge list" where
  "loop_edges = map (\<lambda>(a, b). \<lparr>be_from = a, be_to = b, be_src = ''x'', be_tgt = ''x''\<rparr>)
     [(''a'', ''d''), (''a'', ''c''), (''c'', ''b''), (''b'', ''c'')]"

theorem condense_correct_witness:
  "\<exists>comps. condense [''b'', ''a'', ''c''] [''a'', ''b'', ''c'', ''d''] loop_edges [] = Some comps \<and>
     (\<forall>c\<in>set comps. ''b'' \<in> set (cm_members c) \<longrightarrow> ''c'' \<in> set (cm_members c) \<and> cm_cyclic c)"
proof -
  let ?R = "depends [''a'', ''b'', ''c'', ''d''] loop_edges []"
  have R: "?R = {(''a'', ''d''), (''a'', ''c''), (''c'', ''b''), (''b'', ''c'')}"
    by (auto simp: depends_def loop_edges_def)
  have "fst ` ?R \<subseteq> set [''b'', ''a'', ''c'']" "set [''b'', ''a'', ''c''] \<subseteq> set [''a'', ''b'', ''c'', ''d'']"
    unfolding R by auto
  from condense_correct[OF this] obtain comps where
    c: "condense [''b'', ''a'', ''c''] [''a'', ''b'', ''c'', ''d''] loop_edges [] = Some comps"
    "\<forall>c\<in>set comps. \<forall>v\<in>set (cm_members c). set (cm_members c) = {w. (v, w) \<in> ?R\<^sup>* \<and> (w, v) \<in> ?R\<^sup>*} \<and> (cm_cyclic c \<longleftrightarrow> (v, v) \<in> ?R\<^sup>+)"
    by blast
  have bc: "(''b'', ''c'') \<in> ?R" "(''c'', ''b'') \<in> ?R" unfolding R by auto
  then have "(''b'', ''c'') \<in> ?R\<^sup>*" "(''c'', ''b'') \<in> ?R\<^sup>*" "(''b'', ''b'') \<in> ?R\<^sup>+" by (blast, blast, meson trancl.simps)
  with c show ?thesis by blast
qed

end
