(* ===== verification/Levels.thy ===== *)
theory Levels
  imports Condense
begin

section \<open>Levels of a plan: internal/system\_g/plan, levels and Order\<close>

text \<open>
  Compose runs the components of one level side by side. A component's level is one past the deepest
  component it depends on; a dependency on a component that is no stage, the root that already ran,
  is met. The maps \<open>of\<close>, \<open>staged\<close>, \<open>deps\<close> and \<open>level\<close> of the code are functions where a missing key
  reads as the zero value, and \<open>of\<close>, whose keys are asked for, is a map.
\<close>

fun comp_index_from :: "nat \<Rightarrow> component list \<Rightarrow> (string \<rightharpoonup> nat) \<Rightarrow> string \<rightharpoonup> nat" where
  "comp_index_from i [] m = m"
| "comp_index_from i (c # cs) m = comp_index_from (Suc i) cs (\<lambda>x. if x \<in> set (cm_members c) then Some i else m x)"

definition comp_index :: "component list \<Rightarrow> string \<rightharpoonup> nat" where
  "comp_index comps = comp_index_from 0 comps Map.empty"

definition stage_index :: "component list \<Rightarrow> component \<Rightarrow> nat" where
  "stage_index comps c = (case comp_index comps (hd (cm_members c)) of None \<Rightarrow> 0 | Some i \<Rightarrow> i)"

definition level_edge :: "(string \<rightharpoonup> nat) \<Rightarrow> (nat \<Rightarrow> bool) \<Rightarrow> string \<times> string \<Rightarrow> (nat \<Rightarrow> nat list) \<Rightarrow> nat \<Rightarrow> nat list" where
  "level_edge cof staged e deps = (case (cof (fst e), cof (snd e)) of
     (Some a, Some b) \<Rightarrow> if a \<noteq> b \<and> staged a \<and> a \<notin> set (deps b) then deps(b := deps b @ [a]) else deps
   | _ \<Rightarrow> deps)"

definition level_deps :: "(string \<rightharpoonup> nat) \<Rightarrow> (nat \<Rightarrow> bool) \<Rightarrow> BetaEdge list \<Rightarrow> AlphaEdge list \<Rightarrow> nat \<Rightarrow> nat list" where
  "level_deps cof staged betas alphas = fold (level_edge cof staged)
     (map (\<lambda>e. (be_from e, be_to e)) betas @ map (\<lambda>a. (ae_from a, ae_to a)) alphas) (\<lambda>_. [])"

definition place :: "nat \<Rightarrow> 'a \<Rightarrow> 'a list list \<Rightarrow> 'a list list" where
  "place l c out = (let out' = out @ replicate (Suc l - length out) [] in out'[l := out' ! l @ [c]])"

fun level_loop :: "(nat \<Rightarrow> nat list) \<Rightarrow> (component \<Rightarrow> nat) \<Rightarrow> component list \<Rightarrow> (nat \<Rightarrow> nat) \<Rightarrow> component list list \<Rightarrow> component list list" where
  "level_loop deps ix [] level out = out"
| "level_loop deps ix (c # cs) level out = (let
     i = ix c;
     l = fold (\<lambda>d l. max l (level d + 1)) (deps i) 0 in
     level_loop deps ix cs (level(i := l)) (place l c out))"

definition levels :: "BetaEdge list \<Rightarrow> AlphaEdge list \<Rightarrow> component list \<Rightarrow> component list \<Rightarrow> component list list" where
  "levels betas alphas comps stages = (let
     staged = (\<lambda>a. a \<in> stage_index comps ` set stages);
     deps = level_deps (comp_index comps) staged betas alphas in
     level_loop deps (stage_index comps) stages (\<lambda>_. 0) [])"

definition Order :: "string list \<Rightarrow> string list \<Rightarrow> BetaEdge list \<Rightarrow> string list option" where
  "Order ord exchanges betas = map_option (\<lambda>comps. concat (map cm_members comps)) (condense ord exchanges betas [])"

subsection \<open>Placing\<close>

lemma place_concat: "mset (concat (place l c out)) = add_mset c (mset (concat out))"
proof -
  let ?o = "out @ replicate (Suc l - length out) []"
  have l: "l < length ?o" by simp
  have e: "concat ?o = concat out" by simp
  have 1: "mset (concat (place l c out)) = mset (concat (take l ?o)) + mset (?o ! l) + {#c#} + mset (concat (drop (Suc l) ?o))"
    using l unfolding place_def Let_def by (simp only: upd_conv_take_nth_drop concat_append concat.simps mset_append mset.simps add.assoc)
  have "mset (concat ?o) = mset (concat (take l ?o @ ?o ! l # drop (Suc l) ?o))"
    using id_take_nth_drop[OF l] by (simp only:)
  then have 2: "mset (concat ?o) = mset (concat (take l ?o)) + mset (?o ! l) + mset (concat (drop (Suc l) ?o))"
    by (simp only: concat_append concat.simps mset_append add.assoc)
  show ?thesis unfolding 1 e[symmetric] 2 by simp
qed

lemma place_length: "length (place l c out) = max (length out) (Suc l)"
  by (simp add: place_def Let_def max_def)

lemma place_nth:
  assumes "k < length (place l c out)"
  shows "place l c out ! k = (if k < length out then out ! k else []) @ (if k = l then [c] else [])"
proof -
  have "k < max (length out) (Suc l)" using assms by (simp add: place_length)
  then show ?thesis by (auto simp: place_def Let_def nth_append nth_list_update)
qed

lemma fold_max_ge: "d \<in> set ds \<Longrightarrow> f d < fold (\<lambda>d l. max l (f d + 1)) ds (l :: nat)"
  and fold_max_init: "l \<le> fold (\<lambda>d l. max l (f d + 1)) ds (l :: nat)"
proof -
  have init: "l \<le> fold (\<lambda>d l. max l (f d + 1)) ds l" for ds and l :: nat
  proof (induction ds arbitrary: l)
    case (Cons x xs)
    from Cons[of "max l (f x + 1)"] show ?case by simp
  qed simp
  then show "l \<le> fold (\<lambda>d l. max l (f d + 1)) ds l" .
  show "d \<in> set ds \<Longrightarrow> f d < fold (\<lambda>d l. max l (f d + 1)) ds l"
  proof (induction ds arbitrary: l)
    case (Cons x xs)
    show ?case
    proof (cases "d = x")
      case True
      then show ?thesis using init[of "max l (f x + 1)" xs] by simp
    qed (use Cons in simp)
  qed simp
qed

lemma fold_max_cases: "fold (\<lambda>d l. max l (f d + 1)) ds (l :: nat) = l \<or> (\<exists>d\<in>set ds. fold (\<lambda>d l. max l (f d + 1)) ds l = f d + 1)"
proof (induction ds arbitrary: l)
  case (Cons x xs)
  from Cons[of "max l (f x + 1)"] show ?case by (auto simp: max_def split: if_splits)
qed simp

subsection \<open>The loop\<close>

definition level_inv :: "(nat \<Rightarrow> nat list) \<Rightarrow> (component \<Rightarrow> nat) \<Rightarrow> component list \<Rightarrow> (nat \<Rightarrow> nat) \<Rightarrow> component list list \<Rightarrow> bool" where
  "level_inv deps ix ps level out \<longleftrightarrow> mset (concat out) = mset ps \<and> [] \<notin> set out \<and>
     (\<forall>l<length out. \<forall>c\<in>set (out ! l). level (ix c) = l) \<and> (\<forall>c\<in>set ps. \<forall>d\<in>set (deps (ix c)). level d < level (ix c))"

lemma level_inv_step:
  assumes i: "level_inv deps ix ps level out" and new: "ix c \<notin> ix ` set ps"
    and dep: "set (deps (ix c)) \<subseteq> ix ` set ps" "\<forall>p\<in>set ps. set (deps (ix p)) \<subseteq> ix ` set ps"
    and l: "l = fold (\<lambda>d l. max l (level d + 1)) (deps (ix c)) 0"
  shows "level_inv deps ix (ps @ [c]) (level(ix c := l)) (place l c out)"
proof -
  have m: "mset (concat out) = mset ps" and ne: "[] \<notin> set out" using i by (simp_all add: level_inv_def)
  then have sc: "set (concat out) = set ps" by (metis mset_eq_setD)
  have at: "level (ix p) < length out \<and> p \<in> set (out ! level (ix p))" if "p \<in> set ps" for p
  proof -
    from that sc obtain xs where "xs \<in> set out" "p \<in> set xs" by auto
    then obtain k where "k < length out" "p \<in> set (out ! k)" by (metis in_set_conv_nth)
    then show ?thesis using i by (auto simp: level_inv_def)
  qed
  have "l \<le> length out"
  proof (cases "l = 0")
    case False
    then obtain d where d: "d \<in> set (deps (ix c))" "l = level d + 1" using fold_max_cases[of level "deps (ix c)" 0] l by auto
    then obtain p where "p \<in> set ps" "d = ix p" using dep(1) by auto
    then show ?thesis using at d(2) by fastforce
  qed simp
  then have len: "k < length out \<or> k = l" if "k < length (place l c out)" for k using that by (auto simp: place_length max_def less_Suc_eq split: if_splits)
  show ?thesis
    unfolding level_inv_def
  proof (intro conjI allI impI ballI)
    show "mset (concat (place l c out)) = mset (ps @ [c])" by (simp add: place_concat m)
    show "[] \<notin> set (place l c out)"
      using len ne by (auto simp: in_set_conv_nth place_nth)
  next
    fix k p assume k: "k < length (place l c out)" and p: "p \<in> set (place l c out ! k)"
    show "(level(ix c := l)) (ix p) = k"
    proof (cases "k < length out \<and> p \<in> set (out ! k)")
      case True
      then have "p \<in> set ps" using sc by (metis UN_I nth_mem set_concat)
      then have "ix p \<noteq> ix c" using new by (metis image_eqI)
      then show ?thesis using True i by (simp add: level_inv_def)
    next
      case False
      then have "p = c \<and> k = l" using p place_nth[OF k] by (auto split: if_splits)
      then show ?thesis by simp
    qed
  next
    fix p d assume p: "p \<in> set (ps @ [c])" and d: "d \<in> set (deps (ix p))"
    have old: "d \<noteq> ix c" using d p dep new by auto
    show "(level(ix c := l)) d < (level(ix c := l)) (ix p)"
    proof (cases "p \<in> set ps")
      case True
      then have "ix p \<noteq> ix c" using new by (metis image_eqI)
      then show ?thesis using True d old i by (simp add: level_inv_def)
    next
      case False
      then have "p = c" using p by simp
      then show ?thesis using d old fold_max_ge[of d "deps (ix c)" level 0] l by simp
    qed
  qed
qed

lemma level_loop_ok:
  assumes "level_inv deps ix ps level out" "distinct (map ix (ps @ cs))" "\<forall>p\<in>set ps. set (deps (ix p)) \<subseteq> ix ` set ps"
    "\<And>k. k < length cs \<Longrightarrow> set (deps (ix (cs ! k))) \<subseteq> ix ` set (ps @ take k cs)"
  shows "\<exists>level'. level_inv deps ix (ps @ cs) level' (level_loop deps ix cs level out)"
  using assms
proof (induction cs arbitrary: ps level out)
  case Nil
  then show ?case by auto
next
  case (Cons c cs)
  define l where "l = fold (\<lambda>d l. max l (level d + 1)) (deps (ix c)) 0"
  have dc: "set (deps (ix c)) \<subseteq> ix ` set ps" using Cons.prems(4)[of 0] by simp
  have new: "ix c \<notin> ix ` set ps" using Cons.prems(2) by auto
  have "level_inv deps ix (ps @ [c]) (level(ix c := l)) (place l c out)"
    by (rule level_inv_step[OF Cons.prems(1) new dc Cons.prems(3) l_def])
  moreover have "distinct (map ix ((ps @ [c]) @ cs))" using Cons.prems(2) by simp
  moreover have "\<forall>p\<in>set (ps @ [c]). set (deps (ix p)) \<subseteq> ix ` set (ps @ [c])" using Cons.prems(3) dc by auto
  moreover have "set (deps (ix (cs ! k))) \<subseteq> ix ` set ((ps @ [c]) @ take k cs)" if "k < length cs" for k
    using Cons.prems(4)[of "Suc k"] that by simp
  ultimately obtain level' where "level_inv deps ix ((ps @ [c]) @ cs) level' (level_loop deps ix cs (level(ix c := l)) (place l c out))"
    using Cons.IH by blast
  then show ?case by (auto simp: l_def Let_def)
qed

subsection \<open>The indices of components\<close>

lemma comp_index_from_None: "x \<notin> set (concat (map cm_members cs)) \<Longrightarrow> comp_index_from i cs m x = m x"
  by (induction cs arbitrary: i m) auto

lemma comp_index_from_Some:
  "distinct (concat (map cm_members cs)) \<Longrightarrow> k < length cs \<Longrightarrow> x \<in> set (cm_members (cs ! k)) \<Longrightarrow>
     comp_index_from i cs m x = Some (i + k)"
proof (induction cs arbitrary: i m k)
  case (Cons c cs)
  show ?case
  proof (cases k)
    case 0
    then have "x \<in> set (cm_members c)" using Cons.prems by simp
    moreover from this have "x \<notin> set (concat (map cm_members cs))" using Cons.prems(1) by auto
    ultimately show ?thesis using 0 by (simp add: comp_index_from_None)
  next
    case (Suc j)
    then show ?thesis using Cons.IH[of j "Suc i"] Cons.prems by simp
  qed
qed simp

lemma comp_index_iff:
  assumes "distinct (concat (map cm_members comps))"
  shows "comp_index comps x = Some k \<longleftrightarrow> k < length comps \<and> x \<in> set (cm_members (comps ! k))"
proof
  assume s: "comp_index comps x = Some k"
  then have "x \<in> set (concat (map cm_members comps))" using comp_index_from_None[of x comps 0 Map.empty] by (auto simp: comp_index_def)
  then obtain c where "c \<in> set comps" "x \<in> set (cm_members c)" by auto
  then obtain j where j: "j < length comps" "x \<in> set (cm_members (comps ! j))" by (metis in_set_conv_nth)
  then show "k < length comps \<and> x \<in> set (cm_members (comps ! k))"
    using comp_index_from_Some[OF assms j, of 0 Map.empty] s by (simp add: comp_index_def)
qed (use comp_index_from_Some[OF assms, of k x 0 Map.empty] in \<open>simp add: comp_index_def\<close>)

lemma stage_index_nth:
  assumes "distinct (concat (map cm_members comps))" "\<forall>c\<in>set comps. cm_members c \<noteq> []" "k < length comps"
  shows "stage_index comps (comps ! k) = k"
proof -
  have "hd (cm_members (comps ! k)) \<in> set (cm_members (comps ! k))" using assms(2,3) by simp
  then have "comp_index comps (hd (cm_members (comps ! k))) = Some k" using comp_index_iff[OF assms(1)] assms(3) by blast
  then show ?thesis by (simp add: stage_index_def)
qed

lemma level_edges_iff:
  "a \<in> set (fold (level_edge cof staged) es deps b) \<longleftrightarrow>
     a \<in> set (deps b) \<or> a \<noteq> b \<and> staged a \<and> (\<exists>(u, v)\<in>set es. cof u = Some a \<and> cof v = Some b)"
proof (induction es arbitrary: deps)
  case (Cons e es)
  obtain u v where e: "e = (u, v)" by fastforce
  have "a \<in> set (level_edge cof staged e deps b) \<longleftrightarrow> a \<in> set (deps b) \<or> a \<noteq> b \<and> staged a \<and> cof u = Some a \<and> cof v = Some b"
    by (auto simp: level_edge_def e split: option.split)
  with Cons[of "level_edge cof staged e deps"] show ?case by (auto simp: e)
qed simp

lemma level_deps_iff:
  "a \<in> set (level_deps cof staged betas alphas b) \<longleftrightarrow> a \<noteq> b \<and> staged a \<and>
     (\<exists>u v. ((\<exists>e\<in>set betas. be_from e = u \<and> be_to e = v) \<or> (\<exists>e\<in>set alphas. ae_from e = u \<and> ae_to e = v)) \<and>
        cof u = Some a \<and> cof v = Some b)"
proof -
  have "(\<exists>(u, v)\<in>set (map (\<lambda>e. (be_from e, be_to e)) betas @ map (\<lambda>a. (ae_from a, ae_to a)) alphas). P u v) \<longleftrightarrow>
      (\<exists>u v. ((\<exists>e\<in>set betas. be_from e = u \<and> be_to e = v) \<or> (\<exists>e\<in>set alphas. ae_from e = u \<and> ae_to e = v)) \<and> P u v)" for P
    by (simp add: bex_Un) blast
  then show ?thesis unfolding level_deps_def level_edges_iff by simp
qed

subsection \<open>What levels gives\<close>

lemma levels_inv:
  assumes d: "distinct (concat (map cm_members comps))" and ne: "\<forall>c\<in>set comps. cm_members c \<noteq> []"
    and cover: "set (concat (map cm_members comps)) = set xs"
    and top: "\<forall>i<length comps. \<forall>j<length comps. \<forall>v\<in>set (cm_members (comps ! i)). \<forall>w\<in>set (cm_members (comps ! j)).
       (v, w) \<in> depends xs betas alphas \<longrightarrow> i \<le> j"
  shows "\<exists>level. level_inv (level_deps (comp_index comps) (\<lambda>a. a \<in> stage_index comps ` set (drop k comps)) betas alphas)
    (stage_index comps) (drop k comps) level (levels betas alphas comps (drop k comps))"
proof -
  let ?ix = "stage_index comps" and ?st = "\<lambda>a. a \<in> stage_index comps ` set (drop k comps)"
  let ?deps = "level_deps (comp_index comps) ?st betas alphas"
  have ix: "?ix (comps ! i) = i" if "i < length comps" for i using stage_index_nth[OF d ne that] .
  have mix: "map ?ix (drop k comps) = [k..<length comps]"
    by (rule nth_equalityI) (auto simp: ix)
  have lt: "a < b \<and> k \<le> a" if ab: "a \<in> set (?deps b)" for a b
  proof -
    from ab obtain u v where uv: "a \<noteq> b" "a \<in> ?ix ` set (drop k comps)" "comp_index comps u = Some a" "comp_index comps v = Some b"
      "(\<exists>e\<in>set betas. be_from e = u \<and> be_to e = v) \<or> (\<exists>e\<in>set alphas. ae_from e = u \<and> ae_to e = v)"
      unfolding level_deps_iff by blast
    then have m: "a < length comps" "u \<in> set (cm_members (comps ! a))" "b < length comps" "v \<in> set (cm_members (comps ! b))"
      using comp_index_iff[OF d] by auto
    then have "u \<in> set xs" "v \<in> set xs" using cover by (auto simp: set_concat)
    then have "(u, v) \<in> depends xs betas alphas" using uv(5) by (simp add: depends_def)
    then have "a \<le> b" using top m by blast
    moreover have "a \<in> set [k..<length comps]" using uv(2) mix by (metis list.set_map)
    ultimately show ?thesis using uv(1) by simp
  qed
  have "level_inv ?deps ?ix [] (\<lambda>_. 0) []" by (simp add: level_inv_def)
  moreover have "distinct (map ?ix ([] @ drop k comps))" using mix by simp
  moreover have "set (?deps (?ix (drop k comps ! j))) \<subseteq> ?ix ` set ([] @ take j (drop k comps))" if "j < length (drop k comps)" for j
  proof -
    have kj: "k + j < length comps" "drop k comps ! j = comps ! (k + j)" using that by auto
    have "map ?ix (take j (drop k comps)) = [k..<k + j]" using mix kj(1) by (simp flip: take_map)
    then have "?ix ` set (take j (drop k comps)) = {k..<k + j}" by (metis list.set_map set_upt)
    then show ?thesis using lt ix[OF kj(1)] kj(2) by auto
  qed
  ultimately show ?thesis unfolding levels_def Let_def
    using level_loop_ok[of ?deps ?ix "[]" "\<lambda>_. 0" "[]" "drop k comps"] by simp
qed

text \<open>What runs side by side is independent: levels places every stage exactly once and leaves no level
  empty; and where a member of one stage depends on a member of another, the stage depended on stands in
  a strictly earlier level.\<close>

lemma levels_spec:
  assumes ord: "fst ` depends xs betas alphas \<subseteq> set ord" "set ord \<subseteq> set xs"
    and c: "condense ord xs betas alphas = Some comps"
  shows "mset (concat (levels betas alphas comps (drop k comps))) = mset (drop k comps) \<and>
    [] \<notin> set (levels betas alphas comps (drop k comps)) \<and>
    (\<forall>i<length (levels betas alphas comps (drop k comps)). \<forall>j<length (levels betas alphas comps (drop k comps)).
       \<forall>a\<in>set (levels betas alphas comps (drop k comps) ! i). \<forall>b\<in>set (levels betas alphas comps (drop k comps) ! j).
       \<forall>u\<in>set (cm_members a). \<forall>v\<in>set (cm_members b). (u, v) \<in> depends xs betas alphas \<longrightarrow> a = b \<or> i < j)"
proof -
  let ?ls = "levels betas alphas comps (drop k comps)" and ?ix = "stage_index comps"
  let ?deps = "level_deps (comp_index comps) (\<lambda>a. a \<in> ?ix ` set (drop k comps)) betas alphas"
  from condense_spec[OF ord] c have d: "distinct (concat (map cm_members comps))"
    and cover: "set (concat (map cm_members comps)) = set xs"
    and top: "\<forall>i<length comps. \<forall>j<length comps. \<forall>v\<in>set (cm_members (comps ! i)). \<forall>w\<in>set (cm_members (comps ! j)).
      (v, w) \<in> depends xs betas alphas \<longrightarrow> i \<le> j" by auto
  from condense_nonempty[OF ord c] have ne: "\<forall>c\<in>set comps. cm_members c \<noteq> []" .
  obtain level where i: "level_inv ?deps ?ix (drop k comps) level ?ls" using levels_inv[OF d ne cover top] by blast
  have "a = b \<or> l < m" if l: "l < length ?ls" "m < length ?ls" and ab: "a \<in> set (?ls ! l)" "b \<in> set (?ls ! m)"
    and uv: "u \<in> set (cm_members a)" "v \<in> set (cm_members b)" "(u, v) \<in> depends xs betas alphas" for l m a b u v
  proof (cases "a = b")
    case False
    have "set (concat ?ls) = set (drop k comps)" using i by (metis level_inv_def mset_eq_setD)
    then have st: "a \<in> set (drop k comps)" "b \<in> set (drop k comps)" using l ab by (metis UN_I nth_mem set_concat)+
    obtain p q where p: "p < length comps" "a = comps ! p" and q: "q < length comps" "b = comps ! q"
      using st by (metis in_set_conv_nth in_set_dropD)
    have ix: "?ix a = p" "?ix b = q" using stage_index_nth[OF d ne] p q by simp_all
    have "comp_index comps u = Some p" "comp_index comps v = Some q" using comp_index_iff[OF d] p q uv by simp_all
    moreover have "p \<noteq> q" using False p q by blast
    moreover have "p \<in> ?ix ` set (drop k comps)" using st(1) ix(1) by (metis image_eqI)
    ultimately have "p \<in> set (?deps q)" unfolding level_deps_iff using uv(3) unfolding depends_def by blast
    then have "level (?ix a) < level (?ix b)" using i st(2) ix unfolding level_inv_def by metis
    then show ?thesis using i l ab unfolding level_inv_def by metis
  qed simp
  then show ?thesis using i unfolding level_inv_def by blast
qed

definition loop_comps :: "component list" where
  "loop_comps = [\<lparr>cm_members = [''a''], cm_cyclic = False\<rparr>, \<lparr>cm_members = [''d''], cm_cyclic = False\<rparr>,
     \<lparr>cm_members = [''b'', ''c''], cm_cyclic = True\<rparr>]"

lemma loop_levels:
  "condense [''b'', ''a'', ''c''] [''a'', ''b'', ''c'', ''d''] loop_edges [] = Some loop_comps \<and>
   mset (concat (levels loop_edges [] loop_comps (drop 0 loop_comps))) = mset (drop 0 loop_comps) \<and>
   map (map cm_members) (levels loop_edges [] loop_comps (drop 0 loop_comps)) = [[[''a'']], [[''d''], [''b'', ''c'']]]"
proof -
  let ?R = "depends [''a'', ''b'', ''c'', ''d''] loop_edges []"
  have o: "fst ` ?R \<subseteq> set [''b'', ''a'', ''c'']" "set [''b'', ''a'', ''c''] \<subseteq> set [''a'', ''b'', ''c'', ''d'']"
    by (auto simp: depends_def loop_edges_def)
  have c: "condense [''b'', ''a'', ''c''] [''a'', ''b'', ''c'', ''d''] loop_edges [] = Some loop_comps" by code_simp
  have l: "map (map cm_members) (levels loop_edges [] loop_comps (drop 0 loop_comps)) = [[[''a'']], [[''d''], [''b'', ''c'']]]"
    by code_simp
  from levels_spec[OF o c, of 0] have m: "mset (concat (levels loop_edges [] loop_comps (drop 0 loop_comps))) = mset (drop 0 loop_comps)"
    by (elim conjE)
  show ?thesis by (intro conjI c m l)
qed

text \<open>Ties are not broken by declaration: c and d become ready together and c is declared first, yet d
  is run first, because its edge is.\<close>

definition fan_edges :: "BetaEdge list" where
  "fan_edges = map (\<lambda>b. \<lparr>be_from = ''a'', be_to = b, be_src = ''x'', be_tgt = ''x''\<rparr>) [''d'', ''c'']"

lemma ties_by_edge_order: "Order [''a''] [''a'', ''b'', ''c'', ''d''] fan_edges = Some [''a'', ''b'', ''d'', ''c'']"
  by code_simp

end
