(* ===== verification/Plan_Core.thy ===== *)
theory Plan_Core
  imports Bind_Join Levels Termination_Policy
begin

section \<open>Plans and branches: internal/system\_g/plan, types, compose and branch\<close>

text \<open>
  A plan is exchanges, the edges between them and its constant inputs. An exchange's factory gives, for
  its bound inputs, an operator: the records it yields in order (None for one that is no document) and
  the error its stream ends with. A flatten turns a join tuple into a row, drops it, or fails; a record
  that is no document is dropped by every later stage, so it counts as dropped. Encoders and egress
  belong to the terminal and are left out of the record.
\<close>

type_synonym flatten = "tuple \<Rightarrow> drow option result"

type_synonym inbound = "drow \<Rightarrow> drow option result"

record ExchangeSpec =
  x_name :: string
  x_in :: "string list"
  x_out :: "string list"
  x_make :: inner
  x_flatten :: "flatten option"
  x_inbound :: "inbound option"

record Plan =
  p_exchanges :: "ExchangeSpec list"
  p_betas :: "BetaEdge list"
  p_alphas :: "AlphaEdge list"
  p_inputs :: drow
  p_terminations :: "string \<rightharpoonup> TerminationSpec"

definition flattenOf :: "ExchangeSpec \<Rightarrow> flatten" where
  "flattenOf x = (case x_flatten x of Some f \<Rightarrow> f | None \<Rightarrow> (\<lambda>t. Inr (Some (tupleFlatten t))))"

subsection \<open>Validation\<close>

fun betaSrc :: "BetaEdge list \<Rightarrow> string \<Rightarrow> string \<Rightarrow> string option" where
  "betaSrc [] to attr = None"
| "betaSrc (e # es) to attr = (if be_to e = to \<and> be_tgt e = attr then Some (be_src e) else betaSrc es to attr)"

fun alphaInto :: "AlphaEdge list \<Rightarrow> string \<Rightarrow> Alpha option" where
  "alphaInto [] to = None"
| "alphaInto (a # as) to = (case ae_alpha a of
     Some al \<Rightarrow> if ae_to a = to \<and> al_delay al > 0 then Some al else alphaInto as to
   | None \<Rightarrow> alphaInto as to)"

definition satisfied_input :: "Plan \<Rightarrow> string \<Rightarrow> string \<Rightarrow> bool" where
  "satisfied_input p name attr \<longleftrightarrow> betaSrc (p_betas p) name attr \<noteq> None \<or>
     (case p_inputs p attr of Some v \<Rightarrow> \<not> emptyValue v | None \<Rightarrow> False)"

definition missing_inputs :: "Plan \<Rightarrow> string list" where
  "missing_inputs p = concat (map (\<lambda>x. map (\<lambda>attr. x_name x @ ''.'' @ attr)
     (filter (\<lambda>attr. \<not> satisfied_input p (x_name x) attr) (x_in x))) (p_exchanges p))"

definition Validate_plan :: "Plan \<Rightarrow> err option" where
  "Validate_plan p = (if missing_inputs p = [] then None
     else Some (ErrOther (''plan: unsatisfied required inputs: '' @ strings_Join '', '' (missing_inputs p))))"

subsection \<open>A stage\<close>

text \<open>The bindings of a stage: each input from every edge that feeds it, or by name from the row.\<close>

definition attr_bindings :: "BetaEdge list \<Rightarrow> string \<Rightarrow> string \<Rightarrow> binding list" where
  "attr_bindings betas name attr = (let es = filter (\<lambda>e. be_to e = name \<and> be_tgt e = attr) betas in
     if es = [] then [\<lparr>b_src = attr, b_tgt = attr\<rparr>] else map (\<lambda>e. \<lparr>b_src = be_src e, b_tgt = attr\<rparr>) es)"

definition stage_bindings :: "BetaEdge list \<Rightarrow> ExchangeSpec \<Rightarrow> binding list" where
  "stage_bindings betas x = concat (map (attr_bindings betas (x_name x)) (x_in x))"

fun flatten_all :: "flatten \<Rightarrow> tuple list \<Rightarrow> drow list \<times> err option" where
  "flatten_all f [] = ([], None)"
| "flatten_all f (t # ts) = (case f t of
     Inl e \<Rightarrow> ([], Some e)
   | Inr None \<Rightarrow> flatten_all f ts
   | Inr (Some r) \<Rightarrow> (case flatten_all f ts of (rs, e) \<Rightarrow> (r # rs, e)))"

text \<open>What a stage that is no cycle does with one upstream row: bind, run, flatten.\<close>

definition stage_row :: "BetaEdge list \<Rightarrow> ExchangeSpec \<Rightarrow> drow \<Rightarrow> drow list \<times> err option" where
  "stage_row betas x row = (case row_unit (x_make x) (x_inbound x) (stage_bindings betas x) row of
     (ts, e) \<Rightarrow> (case flatten_all (flattenOf x) ts of
        (rs, Some fe) \<Rightarrow> (rs, Some fe)
      | (rs, None) \<Rightarrow> (rs, e)))"

subsection \<open>Branches and gates\<close>

definition ControlKey :: "string \<Rightarrow> string" where
  "ControlKey branch = CHR 0x00 # ''arm:'' @ branch"

definition skippedKey :: string where
  "skippedKey = CHR 0x00 # ''skipped''"

definition NewBranchSpec :: "string \<Rightarrow> string list \<Rightarrow> (drow \<Rightarrow> string result) \<Rightarrow> ExchangeSpec" where
  "NewBranchSpec name ins pick = \<lparr>x_name = name, x_in = ins, x_out = [ControlKey name],
     x_make = (\<lambda>bound. case pick bound of
        Inl e \<Rightarrow> ([], Some e)
      | Inr arm \<Rightarrow> ([Some (Map.empty(ControlKey name \<mapsto> JStr arm))], None)),
     x_flatten = None, x_inbound = None\<rparr>"

record gate =
  g_control :: string
  g_arm :: string

definition gate_of :: "AlphaEdge \<Rightarrow> gate option" where
  "gate_of a = (case ae_alpha a of
     None \<Rightarrow> None
   | Some al \<Rightarrow> if al_on al = [] then None else Some \<lparr>g_control = ControlKey (ae_from a), g_arm = al_on al\<rparr>)"

fun gates_loop :: "AlphaEdge list \<Rightarrow> (string \<Rightarrow> gate list) \<times> BetaEdge list \<Rightarrow> (string \<Rightarrow> gate list) \<times> BetaEdge list" where
  "gates_loop [] gb = gb"
| "gates_loop (a # as) (gates, betas) = (case gate_of a of
     None \<Rightarrow> gates_loop as (gates, betas)
   | Some g \<Rightarrow> gates_loop as
       (if g \<in> set (gates (ae_to a)) then gates else gates(ae_to a := gates (ae_to a) @ [g]),
        betas @ [\<lparr>be_from = ae_from a, be_to = ae_to a, be_src = g_control g, be_tgt = g_control g\<rparr>]))"

fun gated_In :: "gate list \<Rightarrow> string list \<Rightarrow> string list" where
  "gated_In [] ins = ins"
| "gated_In (g # gs) ins = gated_In gs (if g_control g \<in> set ins then ins else ins @ [g_control g])"

definition fires :: "gate \<Rightarrow> drow \<Rightarrow> bool" where
  "fires g bound = (case bound (g_control g) of Some (JStr arm) \<Rightarrow> arm \<noteq> [] \<and> arm = g_arm g | _ \<Rightarrow> False)"

definition gated_Make :: "gate list \<Rightarrow> inner \<Rightarrow> inner" where
  "gated_Make gs mk bound =
     (if \<not> list_ex (\<lambda>g. fires g bound) gs then ([Some (Map.empty(skippedKey \<mapsto> JBool True))], None)
      else mk (\<lambda>k. if list_ex (\<lambda>g. g_control g = k) gs then None else bound k))"

definition gatedFlatten :: "flatten \<Rightarrow> flatten" where
  "gatedFlatten f t = (case snd t of
     Some out \<Rightarrow> if out skippedKey = Some (JBool True) then Inr (Some (fst t)) else f t
   | None \<Rightarrow> f t)"

definition gatedSpec :: "gate list \<Rightarrow> ExchangeSpec \<Rightarrow> ExchangeSpec" where
  "gatedSpec gs x = x\<lparr>x_in := gated_In gs (x_in x), x_make := gated_Make gs (x_make x),
     x_flatten := Some (gatedFlatten (flattenOf x))\<rparr>"

definition controlled :: "Plan \<Rightarrow> Plan" where
  "controlled p = (case gates_loop (p_alphas p) (\<lambda>_. [], []) of (gates, betas) \<Rightarrow>
     if betas = [] then p
     else p\<lparr>p_exchanges := map (\<lambda>x. if gates (x_name x) = [] then x else gatedSpec (gates (x_name x)) x) (p_exchanges p),
            p_betas := p_betas p @ betas\<rparr>)"

subsection \<open>What the gates of a plan are\<close>

lemma gates_loop_gates:
  "g \<in> set (fst (gates_loop as (gates, betas)) n) \<longleftrightarrow> g \<in> set (gates n) \<or> (\<exists>a\<in>set as. ae_to a = n \<and> gate_of a = Some g)"
proof (induction as arbitrary: gates betas)
  case (Cons a as)
  then show ?case by (cases "gate_of a") auto
qed simp

definition control_edge :: "AlphaEdge \<Rightarrow> BetaEdge option" where
  "control_edge a = map_option (\<lambda>g. \<lparr>be_from = ae_from a, be_to = ae_to a, be_src = g_control g, be_tgt = g_control g\<rparr>) (gate_of a)"

lemma gates_loop_betas: "snd (gates_loop as (gates, betas)) = betas @ List.map_filter control_edge as"
proof (induction as arbitrary: gates betas)
  case (Cons a as)
  then show ?case by (cases "gate_of a") (simp_all add: control_edge_def List.map_filter_simps)
qed (simp add: List.map_filter_simps)

lemma gate_of_Some: "gate_of a = Some g \<Longrightarrow> g_control g = ControlKey (ae_from a) \<and> g_arm g \<noteq> []"
  by (auto simp: gate_of_def split: option.splits if_splits)

lemma gated_In_split: "\<exists>cs. gated_In gs ins = ins @ cs \<and> set cs \<subseteq> g_control ` set gs \<and> g_control ` set gs \<subseteq> set (ins @ cs)"
proof (induction gs arbitrary: ins)
  case Nil
  then show ?case by simp
next
  case (Cons g gs)
  define ins' where "ins' = (if g_control g \<in> set ins then ins else ins @ [g_control g])"
  obtain cs where cs: "gated_In gs ins' = ins' @ cs" "set cs \<subseteq> g_control ` set gs" "g_control ` set gs \<subseteq> set (ins' @ cs)"
    using Cons[of ins'] by blast
  show ?case
    by (rule exI[of _ "if g_control g \<in> set ins then cs else g_control g # cs"]) (use cs in \<open>auto simp: ins'_def\<close>)
qed

subsection \<open>Binding a gated node\<close>

lemma sources_append: "sources (as @ bs) t = sources as t @ sources bs t"
  by (simp add: sources_def)

lemma sources_none: "(\<And>b. b \<in> set bs \<Longrightarrow> b_tgt b \<noteq> t) \<Longrightarrow> sources bs t = []"
  by (simp add: sources_def filter_empty_conv)

lemma sources_map: "sources (map (\<lambda>e. \<lparr>b_src = f e, b_tgt = c\<rparr>) es) c = map f es"
  by (simp add: sources_def comp_def)

lemma attr_bindings_tgt: "b \<in> set (attr_bindings betas n attr) \<Longrightarrow> b_tgt b = attr"
  by (auto simp: attr_bindings_def Let_def split: if_splits)

lemma bind_get: "bind_loop row bs Map.empty t = chosen row (sources bs t)"
  by (simp add: bind_loop_get)

lemma chosen_same: "ss \<noteq> [] \<Longrightarrow> set ss \<subseteq> {c} \<Longrightarrow> chosen row ss = Some (row_get row c)"
proof (induction ss)
  case (Cons a ss)
  then show ?case by (cases ss) (auto simp: chosen_def split: option.split)
qed simp

text \<open>Control edges feed only control attributes, which no request reads.\<close>

definition gated_ok :: "BetaEdge list \<Rightarrow> BetaEdge list \<Rightarrow> gate list \<Rightarrow> ExchangeSpec \<Rightarrow> bool" where
  "gated_ok betas controls gs x \<longleftrightarrow> set (x_in x) \<inter> g_control ` set gs = {} \<and>
     (\<forall>e\<in>set betas. be_to e = x_name x \<longrightarrow> be_tgt e \<notin> g_control ` set gs) \<and>
     (\<forall>e\<in>set controls. be_src e = be_tgt e \<and> (be_to e = x_name x \<longrightarrow> be_tgt e \<in> g_control ` set gs)) \<and>
     (\<forall>g\<in>set gs. \<exists>e\<in>set controls. be_to e = x_name x \<and> be_tgt e = g_control g)"

lemma gated_okD:
  assumes "gated_ok betas controls gs x"
  shows "set (x_in x) \<inter> g_control ` set gs = {}"
    "e \<in> set betas \<Longrightarrow> be_to e = x_name x \<Longrightarrow> be_tgt e \<notin> g_control ` set gs"
    "e \<in> set controls \<Longrightarrow> be_src e = be_tgt e"
    "e \<in> set controls \<Longrightarrow> be_to e = x_name x \<Longrightarrow> be_tgt e \<in> g_control ` set gs"
    "g \<in> set gs \<Longrightarrow> \<exists>e\<in>set controls. be_to e = x_name x \<and> be_tgt e = g_control g"
  using assms unfolding gated_ok_def by blast+

lemma own_bindings:
  assumes ok: "gated_ok betas controls gs x" and a: "attr \<in> set (x_in x)"
  shows "attr_bindings (betas @ controls) (x_name x) attr = attr_bindings betas (x_name x) attr"
proof -
  have "filter (\<lambda>e. be_to e = x_name x \<and> be_tgt e = attr) controls = []" using gated_okD(1,4)[OF ok] a by (force simp: filter_empty_conv)
  then show ?thesis by (simp add: attr_bindings_def)
qed

lemma control_bindings:
  assumes ok: "gated_ok betas controls gs x" and c: "c \<in> g_control ` set gs"
  shows "sources (attr_bindings (betas @ controls) (x_name x) c) c \<noteq> [] \<and> set (sources (attr_bindings (betas @ controls) (x_name x) c) c) \<subseteq> {c}"
proof -
  let ?es = "filter (\<lambda>e. be_to e = x_name x \<and> be_tgt e = c) (betas @ controls)"
  have "?es \<noteq> []" using c gated_okD(5)[OF ok] by (fastforce simp: filter_empty_conv)
  moreover have "be_src e = c" if "e \<in> set ?es" for e using that gated_okD(2,3)[OF ok] c by auto
  moreover have "sources (attr_bindings (betas @ controls) (x_name x) c) c = map be_src ?es"
    using \<open>?es \<noteq> []\<close> by (simp only: attr_bindings_def Let_def if_False sources_map)
  ultimately show ?thesis by auto
qed

lemma gated_bindings:
  assumes ok: "gated_ok betas controls gs x"
  shows "\<exists>cs. stage_bindings (betas @ controls) (gatedSpec gs x) =
     stage_bindings betas x @ concat (map (attr_bindings (betas @ controls) (x_name x)) cs) \<and> set cs = g_control ` set gs"
proof -
  obtain cs where cs: "gated_In gs (x_in x) = x_in x @ cs" "set cs \<subseteq> g_control ` set gs" "g_control ` set gs \<subseteq> set (x_in x @ cs)"
    using gated_In_split by blast
  have "set cs = g_control ` set gs" using cs(2,3) gated_okD(1)[OF ok] by auto
  moreover have "concat (map (attr_bindings (betas @ controls) (x_name x)) (x_in x)) = stage_bindings betas x"
    unfolding stage_bindings_def using own_bindings[OF ok] by (metis (no_types, lifting) map_cong)
  ultimately show ?thesis using cs(1) by (intro exI[of _ cs]) (simp add: stage_bindings_def gatedSpec_def)
qed

lemma stage_sources_control:
  assumes ok: "gated_ok betas controls gs x" and c: "c \<in> g_control ` set gs"
  shows "sources (stage_bindings betas x) c = []"
  by (rule sources_none) (use gated_okD(1)[OF ok] c attr_bindings_tgt in \<open>fastforce simp: stage_bindings_def\<close>)

lemma bound_control:
  assumes ok: "gated_ok betas controls gs x" and c: "c \<in> g_control ` set gs"
  shows "bind_loop row (stage_bindings (betas @ controls) (gatedSpec gs x)) Map.empty c = Some (row_get row c)"
proof -
  obtain cs where cs: "stage_bindings (betas @ controls) (gatedSpec gs x) =
     stage_bindings betas x @ concat (map (attr_bindings (betas @ controls) (x_name x)) cs)" "set cs = g_control ` set gs"
    using gated_bindings[OF ok] by blast
  have all: "set (sources (concat (map (attr_bindings (betas @ controls) (x_name x)) ds)) c) \<subseteq> {c} \<and>
      (c \<in> set ds \<longrightarrow> sources (concat (map (attr_bindings (betas @ controls) (x_name x)) ds)) c \<noteq> [])" if "set ds \<subseteq> g_control ` set gs" for ds
    using that
  proof (induction ds)
    case (Cons d ds)
    have "sources (attr_bindings (betas @ controls) (x_name x) d) c = []" if "d \<noteq> c"
      by (rule sources_none) (use that attr_bindings_tgt in blast)
    with Cons control_bindings[OF ok c] show ?case by (cases "d = c") (simp_all add: sources_append)
  qed (simp add: sources_def)
  then have "chosen row (sources (concat (map (attr_bindings (betas @ controls) (x_name x)) cs)) c) = Some (row_get row c)"
    using cs(2) c by (intro chosen_same) auto
  then show ?thesis unfolding bind_get cs(1) sources_append using stage_sources_control[OF ok c] by simp
qed

lemma bound_inputs_only:
  assumes ok: "gated_ok betas controls gs x"
  shows "(\<lambda>k. if list_ex (\<lambda>g. g_control g = k) gs then None
      else bind_loop row (stage_bindings (betas @ controls) (gatedSpec gs x)) Map.empty k) = bind_loop row (stage_bindings betas x) Map.empty"
proof
  fix k
  obtain cs where cs: "stage_bindings (betas @ controls) (gatedSpec gs x) =
     stage_bindings betas x @ concat (map (attr_bindings (betas @ controls) (x_name x)) cs)" "set cs = g_control ` set gs"
    using gated_bindings[OF ok] by blast
  show "(if list_ex (\<lambda>g. g_control g = k) gs then None
      else bind_loop row (stage_bindings (betas @ controls) (gatedSpec gs x)) Map.empty k) = bind_loop row (stage_bindings betas x) Map.empty k"
  proof (cases "k \<in> g_control ` set gs")
    case True
    then have "list_ex (\<lambda>g. g_control g = k) gs" by (auto simp: list_ex_iff)
    then show ?thesis using stage_sources_control[OF ok True] by (simp add: bind_get chosen_def)
  next
    case False
    then have n: "\<not> list_ex (\<lambda>g. g_control g = k) gs" by (auto simp: list_ex_iff)
    have "sources (concat (map (attr_bindings (betas @ controls) (x_name x)) cs)) k = []"
      by (rule sources_none) (use False cs(2) attr_bindings_tgt in fastforce)
    then show ?thesis using n by (simp add: bind_get cs(1) sources_append)
  qed
qed

subsection \<open>Running a gated node\<close>

lemma flatten_all_cong: "(\<And>t. t \<in> set ts \<Longrightarrow> f t = g t) \<Longrightarrow> flatten_all f ts = flatten_all g ts"
  by (induction ts) (auto split: sum.split option.split)

definition unmarked :: "inner \<Rightarrow> bool" where
  "unmarked mk \<longleftrightarrow> (\<forall>bound out. Some out \<in> set (fst (mk bound)) \<longrightarrow> out skippedKey \<noteq> Some (JBool True))"

lemma row_Run_unmarked:
  assumes "unmarked mk" "(r, Some out) \<in> set (fst (row_Run mk row bound))"
  shows "out skippedKey \<noteq> Some (JBool True)"
proof -
  have "out \<in> set (documents (fst (mk bound)))"
    using assms(2) by (auto simp: row_Run_def Let_def split: prod.splits option.splits if_splits)
  then show ?thesis using assms(1) by (auto simp: unmarked_def set_documents)
qed

lemma gated_stage:
  assumes ok: "gated_ok betas controls gs x" and no: "x_inbound x = None" and um: "unmarked (x_make x)"
  shows "stage_row (betas @ controls) (gatedSpec gs x) row =
    (if \<exists>g\<in>set gs. g_arm g \<noteq> [] \<and> row (g_control g) = Some (JStr (g_arm g)) then stage_row betas x row else ([row], None))"
proof -
  let ?x = "gatedSpec gs x"
  define bound where "bound = bind_loop row (stage_bindings (betas @ controls) ?x) Map.empty"
  have fires: "fires g bound \<longleftrightarrow> g_arm g \<noteq> [] \<and> row (g_control g) = Some (JStr (g_arm g))" if "g \<in> set gs" for g
    using bound_control[OF ok, of "g_control g" row] that
    by (auto simp: bound_def fires_def row_get_def split: option.splits json.splits)
  have ex: "list_ex (\<lambda>g. fires g bound) gs \<longleftrightarrow> (\<exists>g\<in>set gs. g_arm g \<noteq> [] \<and> row (g_control g) = Some (JStr (g_arm g)))"
    using fires by (auto simp: list_ex_iff)
  have unit: "row_unit (x_make ?x) (x_inbound ?x) (stage_bindings (betas @ controls) ?x) row = row_Run (gated_Make gs (x_make x)) row bound"
    using no by (simp add: row_unit_def bound_inputs_def bound_def gatedSpec_def)
  have fl: "flattenOf ?x = gatedFlatten (flattenOf x)" by (simp add: flattenOf_def gatedSpec_def)
  show ?thesis
  proof (cases "list_ex (\<lambda>g. fires g bound) gs")
    case False
    then have "row_Run (gated_Make gs (x_make x)) row bound = ([(row, Some (Map.empty(skippedKey \<mapsto> JBool True)))], None)"
      by (simp add: row_Run_def gated_Make_def Let_def)
    then show ?thesis unfolding ex[symmetric] using False unit fl by (simp add: stage_row_def gatedFlatten_def)
  next
    case True
    have mk: "gated_Make gs (x_make x) bound = x_make x (bind_loop row (stage_bindings betas x) Map.empty)"
      using True bound_inputs_only[OF ok, of row] by (simp add: gated_Make_def bound_def)
    then have run: "row_Run (gated_Make gs (x_make x)) row bound = row_Run (x_make x) row (bind_loop row (stage_bindings betas x) Map.empty)"
      by (simp add: row_Run_def)
    have "flatten_all (gatedFlatten (flattenOf x)) (fst (row_Run (x_make x) row b)) = flatten_all (flattenOf x) (fst (row_Run (x_make x) row b))" for b
    proof (rule flatten_all_cong)
      fix t assume "t \<in> set (fst (row_Run (x_make x) row b))"
      moreover obtain r ou where t: "t = (r, ou)" by (cases t)
      ultimately have "out skippedKey \<noteq> Some (JBool True)" if "ou = Some out" for out
        using row_Run_unmarked[OF um] that by blast
      then show "gatedFlatten (flattenOf x) t = flattenOf x t" by (simp add: t gatedFlatten_def split: option.split)
    qed
    then have fa: "flatten_all (gatedFlatten (flattenOf x)) (fst (row_Run (x_make x) row b)) = flatten_all (flattenOf x) (fst (row_Run (x_make x) row b))" for b .
    obtain ts e where r: "row_Run (x_make x) row (bind_loop row (stage_bindings betas x) Map.empty) = (ts, e)" by fastforce
    have "stage_row (betas @ controls) ?x row = (case flatten_all (flattenOf x) ts of (rs, Some fe) \<Rightarrow> (rs, Some fe) | (rs, None) \<Rightarrow> (rs, e))"
      using fa[of "bind_loop row (stage_bindings betas x) Map.empty"] unfolding stage_row_def unit fl run r by simp
    moreover have "stage_row betas x row = (case flatten_all (flattenOf x) ts of (rs, Some fe) \<Rightarrow> (rs, Some fe) | (rs, None) \<Rightarrow> (rs, e))"
      using r no by (simp add: stage_row_def row_unit_def bound_inputs_def)
    ultimately show ?thesis unfolding ex[symmetric] using True by simp
  qed
qed

subsection \<open>What a controlled plan does\<close>

definition plan_gates :: "Plan \<Rightarrow> string \<Rightarrow> gate set" where
  "plan_gates p n = {g. \<exists>a\<in>set (p_alphas p). ae_to a = n \<and> gate_of a = Some g}"

text \<open>Control attributes are the plan's own: no declared input and no declared edge names one.\<close>

definition no_control :: "Plan \<Rightarrow> bool" where
  "no_control p \<longleftrightarrow> (\<forall>b. (\<forall>x\<in>set (p_exchanges p). ControlKey b \<notin> set (x_in x)) \<and> (\<forall>e\<in>set (p_betas p). be_tgt e \<noteq> ControlKey b))"

lemma controlled_gated_ok:
  assumes "no_control p" "x \<in> set (p_exchanges p)"
    and g: "gates_loop (p_alphas p) (\<lambda>_. [], []) = (gates, betas)"
  shows "gated_ok (p_betas p) betas (gates (x_name x)) x"
proof -
  have gs: "set (gates n) = plan_gates p n" for n
    using gates_loop_gates[of _ "p_alphas p" "\<lambda>_. []" "[]" n] g by (auto simp: plan_gates_def)
  have bs: "set betas = {e. \<exists>a\<in>set (p_alphas p). control_edge a = Some e}"
    using gates_loop_betas[of "p_alphas p" "\<lambda>_. []" "[]"] g by (auto simp: set_map_filter)
  have ctl: "\<exists>b. c = ControlKey b" if "c \<in> g_control ` set (gates n)" for c n
    using that gate_of_Some by (fastforce simp: gs plan_gates_def)
  have edge: "be_src e = be_tgt e \<and> (be_to e = n \<longrightarrow> be_tgt e \<in> g_control ` set (gates n))" if "e \<in> set betas" for e n
  proof -
    from that bs obtain a g where "a \<in> set (p_alphas p)" "gate_of a = Some g"
      "e = \<lparr>be_from = ae_from a, be_to = ae_to a, be_src = g_control g, be_tgt = g_control g\<rparr>" by (auto simp: control_edge_def)
    then show ?thesis by (auto simp: gs plan_gates_def)
  qed
  have feed: "\<exists>e\<in>set betas. be_to e = n \<and> be_tgt e = g_control h" if "h \<in> set (gates n)" for h n
  proof -
    from that gs obtain a where a: "a \<in> set (p_alphas p)" "ae_to a = n" "gate_of a = Some h" by (auto simp: plan_gates_def)
    then have "\<lparr>be_from = ae_from a, be_to = ae_to a, be_src = g_control h, be_tgt = g_control h\<rparr> \<in> set betas"
      using bs by (auto simp: control_edge_def)
    then show ?thesis using a(2) by force
  qed
  have nc: "ControlKey b \<notin> set (x_in x)" "\<And>e. e \<in> set (p_betas p) \<Longrightarrow> be_tgt e \<noteq> ControlKey b" for b
    using assms(1,2) by (simp_all add: no_control_def)
  have "c \<notin> set (x_in x)" if "c \<in> g_control ` set (gates n)" for c n using ctl[OF that] nc(1) by metis
  then have "set (x_in x) \<inter> g_control ` set (gates (x_name x)) = {}" by (metis disjoint_iff)
  moreover have "\<forall>e\<in>set (p_betas p). be_to e = x_name x \<longrightarrow> be_tgt e \<notin> g_control ` set (gates (x_name x))"
    using ctl nc(2) by metis
  ultimately show ?thesis unfolding gated_ok_def using edge feed by blast
qed

text \<open>Branches. In the plan Compose really runs, an exchange that arms of branches lead to runs on a
  row exactly where one of those branches recorded the arm that leads to it, and does then what it
  would do without gates; on any other row it makes no request and the row passes through untouched.\<close>

theorem gates_select_rows:
  assumes "no_control p" "x \<in> set (p_exchanges p)" "x_inbound x = None" "unmarked (x_make x)" "plan_gates p (x_name x) \<noteq> {}"
  shows "\<exists>x'\<in>set (p_exchanges (controlled p)). x_name x' = x_name x \<and>
    (\<forall>row. stage_row (p_betas (controlled p)) x' row =
       (if \<exists>g\<in>plan_gates p (x_name x). row (g_control g) = Some (JStr (g_arm g)) then stage_row (p_betas p) x row else ([row], None)))"
proof -
  obtain gates betas where g: "gates_loop (p_alphas p) (\<lambda>_. [], []) = (gates, betas)" by fastforce
  have gs: "set (gates (x_name x)) = plan_gates p (x_name x)"
    using gates_loop_gates[of _ "p_alphas p" "\<lambda>_. []" "[]" "x_name x"] g by (auto simp: plan_gates_def)
  note ok = controlled_gated_ok[OF assms(1,2) g]
  have ne: "gates (x_name x) \<noteq> []" using gs assms(5) by auto
  then have "betas \<noteq> []" using gated_okD(5)[OF ok, of "hd (gates (x_name x))"] by (metis empty_iff list.set(1) list.set_sel(1))
  then have c: "p_exchanges (controlled p) = map (\<lambda>x. if gates (x_name x) = [] then x else gatedSpec (gates (x_name x)) x) (p_exchanges p)"
    "p_betas (controlled p) = p_betas p @ betas" using g by (simp_all add: controlled_def)
  have arm: "g_arm h \<noteq> []" if "h \<in> plan_gates p (x_name x)" for h using that gate_of_Some by (auto simp: plan_gates_def)
  have "gatedSpec (gates (x_name x)) x \<in> set (p_exchanges (controlled p))" using c(1) assms(2) ne by force
  moreover have "x_name (gatedSpec (gates (x_name x)) x) = x_name x" by (simp add: gatedSpec_def)
  moreover have "stage_row (p_betas (controlled p)) (gatedSpec (gates (x_name x)) x) row =
       (if \<exists>g\<in>plan_gates p (x_name x). row (g_control g) = Some (JStr (g_arm g)) then stage_row (p_betas p) x row else ([row], None))" for row
    unfolding c(2) gated_stage[OF ok assms(3,4)] gs using arm by auto
  ultimately show ?thesis by blast
qed

text \<open>A branch records its choice on the row and changes nothing else.\<close>

lemma branch_stage:
  "stage_row betas (NewBranchSpec name ins pick) row =
     (case pick (bind_loop row (stage_bindings betas (NewBranchSpec name ins pick)) Map.empty) of
        Inl e \<Rightarrow> ([], Some e)
      | Inr arm \<Rightarrow> ([row(ControlKey name \<mapsto> JStr arm)], None))"
proof -
  have "mergeMaps row (Map.empty(k \<mapsto> v)) = row(k \<mapsto> v)" for k v by (auto simp: mergeMaps_def)
  then show ?thesis
    by (simp add: stage_row_def row_unit_def bound_inputs_def row_Run_def NewBranchSpec_def flattenOf_def tupleFlatten_def Let_def split: sum.split)
qed

text \<open>The inbound transform runs before the gates are looked at, so where it fails, the row fails on a
  dead arm too.\<close>

lemma inbound_runs_on_dead_arm:
  assumes "x_inbound x = Some t" "\<And>bound. t bound = Inl e"
  shows "stage_row betas (gatedSpec gs x) row = ([], Some e)"
  using assms by (simp add: stage_row_def row_unit_def bound_inputs_def applyInbound_def gatedSpec_def Let_def)

definition tag_exchange :: ExchangeSpec where
  "tag_exchange = \<lparr>x_name = ''n'', x_in = [''id''], x_out = [''tag''],
     x_make = (\<lambda>bound. ([Some (Map.empty(''tag'' \<mapsto> row_get bound ''id''))], None)), x_flatten = None, x_inbound = None\<rparr>"

definition tag_plan :: Plan where
  "tag_plan = \<lparr>p_exchanges = [NewBranchSpec ''b'' [''id''] (\<lambda>_. Inr ''yes''), tag_exchange], p_betas = [],
     p_alphas = [\<lparr>ae_from = ''b'', ae_to = ''n'', ae_alpha = Some \<lparr>al_delay = 0, al_on = ''yes''\<rparr>\<rparr>],
     p_inputs = Map.empty(''id'' \<mapsto> JStr ''i''), p_terminations = Map.empty\<rparr>"

theorem gates_select_rows_witness:
  "\<exists>x'\<in>set (p_exchanges (controlled tag_plan)). x_name x' = ''n'' \<and>
     stage_row (p_betas (controlled tag_plan)) x' (Map.empty(''id'' \<mapsto> JStr ''i'', ControlKey ''b'' \<mapsto> JStr ''no'')) =
       ([Map.empty(''id'' \<mapsto> JStr ''i'', ControlKey ''b'' \<mapsto> JStr ''no'')], None)"
proof -
  have g: "plan_gates tag_plan ''n'' = {\<lparr>g_control = ControlKey ''b'', g_arm = ''yes''\<rparr>}"
    by (auto simp: plan_gates_def tag_plan_def gate_of_def)
  have n: "x_name tag_exchange = ''n''" by (simp add: tag_exchange_def)
  have 1: "no_control tag_plan" by (simp add: no_control_def tag_plan_def tag_exchange_def NewBranchSpec_def ControlKey_def)
  have 2: "tag_exchange \<in> set (p_exchanges tag_plan)" by (simp add: tag_plan_def)
  have 3: "x_inbound tag_exchange = None" by (simp add: tag_exchange_def)
  have 4: "unmarked (x_make tag_exchange)" by (auto simp: unmarked_def tag_exchange_def skippedKey_def)
  have 5: "plan_gates tag_plan (x_name tag_exchange) \<noteq> {}" using g n by simp
  from gates_select_rows[OF 1 2 3 4 5] obtain x' where x': "x' \<in> set (p_exchanges (controlled tag_plan))" "x_name x' = ''n''"
    "\<forall>row. stage_row (p_betas (controlled tag_plan)) x' row =
       (if \<exists>g\<in>plan_gates tag_plan ''n''. row (g_control g) = Some (JStr (g_arm g)) then stage_row (p_betas tag_plan) tag_exchange row else ([row], None))"
    unfolding n by blast
  show ?thesis by (rule bexI[OF _ x'(1)]) (simp add: x'(2,3) g)
qed

subsection \<open>Validation\<close>

lemma betaSrc_iff: "betaSrc es to attr \<noteq> None \<longleftrightarrow> (\<exists>e\<in>set es. be_to e = to \<and> be_tgt e = attr)"
  by (induction es) auto

text \<open>A plan is rejected before it runs exactly where an input has neither an edge nor a constant with
  a value.\<close>

lemma Validate_plan_iff:
  "Validate_plan p = None \<longleftrightarrow> (\<forall>x\<in>set (p_exchanges p). \<forall>attr\<in>set (x_in x).
     (\<exists>e\<in>set (p_betas p). be_to e = x_name x \<and> be_tgt e = attr) \<or> (\<exists>v. p_inputs p attr = Some v \<and> \<not> emptyValue v))"
proof -
  have "satisfied_input p n attr \<longleftrightarrow> (\<exists>e\<in>set (p_betas p). be_to e = n \<and> be_tgt e = attr) \<or> (\<exists>v. p_inputs p attr = Some v \<and> \<not> emptyValue v)" for n attr
    unfolding satisfied_input_def betaSrc_iff by (auto split: option.split)
  then show ?thesis by (auto simp: Validate_plan_def missing_inputs_def filter_empty_conv)
qed

end
