(* ===== verification/Plan_Section.thy ===== *)
theory Plan_Section
  imports Plan_Core
begin

section \<open>Sections: internal/system\_g/plan, section\<close>

text \<open>
  A section runs the stages of one level side by side. For each upstream row every member runs on that
  row, and the rows emitted are all combinations of the members' rows. Running the members is a step
  relation, in which members start in order, each may finish at any time, and taking a slot from the
  run's limiter may fail; what a member yields for the row is a parameter there.
\<close>

subsection \<open>Combining\<close>

fun combine_loop :: "drow list \<Rightarrow> drow list list \<Rightarrow> drow list" where
  "combine_loop acc [] = acc"
| "combine_loop acc (rows # outs) = combine_loop (concat (map (\<lambda>a. map (mergeMaps a) rows) acc)) outs"

definition combine :: "drow \<Rightarrow> drow list list \<Rightarrow> drow list" where
  "combine base outs = combine_loop [base] outs"

subsection \<open>Running the members\<close>

record section_run =
  sr_next :: nat
  sr_running :: "nat list"
  sr_outs :: "nat \<Rightarrow> drow list"
  sr_first :: "err option"
  sr_stopped :: bool

definition section_init :: section_run where
  "section_init = \<lparr>sr_next = 0, sr_running = [], sr_outs = (\<lambda>_. []), sr_first = None, sr_stopped = False\<rparr>"

definition section_fail :: "err \<Rightarrow> section_run \<Rightarrow> section_run" where
  "section_fail e s = (if sr_first s = None then s\<lparr>sr_first := Some e\<rparr> else s)"

definition member_done :: "drow list \<times> err option \<Rightarrow> nat \<Rightarrow> section_run \<Rightarrow> section_run" where
  "member_done r i s = (let s' = s\<lparr>sr_running := remove1 i (sr_running s), sr_outs := (sr_outs s)(i := fst r)\<rparr> in
     case snd r of None \<Rightarrow> s' | Some e \<Rightarrow> section_fail e s')"

inductive section_step :: "(drow list \<times> err option) list \<Rightarrow> section_run \<Rightarrow> section_run \<Rightarrow> bool" for ms where
  start: "\<not> sr_stopped s \<Longrightarrow> sr_next s < length ms \<Longrightarrow> sr_first s = None \<Longrightarrow>
    section_step ms s (s\<lparr>sr_next := Suc (sr_next s), sr_running := sr_running s @ [sr_next s]\<rparr>)"
| no_slot: "\<not> sr_stopped s \<Longrightarrow> sr_next s < length ms \<Longrightarrow> section_step ms s ((section_fail e s)\<lparr>sr_stopped := True\<rparr>)"
| refused: "\<not> sr_stopped s \<Longrightarrow> sr_next s < length ms \<Longrightarrow> sr_first s \<noteq> None \<Longrightarrow> section_step ms s (s\<lparr>sr_stopped := True\<rparr>)"
| finishes: "i \<in> set (sr_running s) \<Longrightarrow> section_step ms s (member_done (ms ! i) i s)"

inductive_cases section_stepE: "section_step ms s s'"

definition section_over :: "(drow list \<times> err option) list \<Rightarrow> section_run \<Rightarrow> bool" where
  "section_over ms s \<longleftrightarrow> sr_running s = [] \<and> (sr_stopped s \<or> sr_next s = length ms)"

text \<open>Every member below next was started and is running or has left its rows; a failure of a member
  that has finished is recorded, and the loop only stops early for one.\<close>

definition section_inv :: "(drow list \<times> err option) list \<Rightarrow> section_run \<Rightarrow> bool" where
  "section_inv ms s \<longleftrightarrow> sr_next s \<le> length ms \<and> distinct (sr_running s) \<and> set (sr_running s) \<subseteq> {..< sr_next s} \<and>
     (\<forall>i. i < sr_next s \<longrightarrow> i \<notin> set (sr_running s) \<longrightarrow> sr_outs s i = fst (ms ! i) \<and> (snd (ms ! i) \<noteq> None \<longrightarrow> sr_first s \<noteq> None)) \<and>
     (sr_stopped s \<longrightarrow> sr_first s \<noteq> None)"

lemma section_fail_simps [simp]:
  "sr_next (section_fail e s) = sr_next s" "sr_running (section_fail e s) = sr_running s" "sr_outs (section_fail e s) = sr_outs s"
  "sr_stopped (section_fail e s) = sr_stopped s" "sr_first (section_fail e s) \<noteq> None"
  "sr_first s = Some x \<Longrightarrow> sr_first (section_fail e s) = Some x"
  by (auto simp: section_fail_def)

lemma member_done_simps [simp]:
  "sr_next (member_done r i s) = sr_next s" "sr_running (member_done r i s) = remove1 i (sr_running s)"
  "sr_outs (member_done r i s) = (sr_outs s)(i := fst r)" "sr_stopped (member_done r i s) = sr_stopped s"
  "sr_first s = Some x \<Longrightarrow> sr_first (member_done r i s) = Some x" "snd r \<noteq> None \<Longrightarrow> sr_first (member_done r i s) \<noteq> None"
  by (auto simp: member_done_def Let_def section_fail_def split: option.split)

lemma section_step_inv:
  assumes i: "section_inv ms s" and "section_step ms s s'"
  shows "section_inv ms s' \<and> (sr_first s \<noteq> None \<longrightarrow> sr_next s' = sr_next s \<and> sr_first s' = sr_first s)"
  using assms(2)
proof cases
  case start
  then show ?thesis using i by (auto simp: section_inv_def less_Suc_eq)
next
  case (no_slot e)
  then show ?thesis using i by (auto simp: section_inv_def)
next
  case refused
  then show ?thesis using i by (auto simp: section_inv_def)
next
  case (finishes k)
  have d: "distinct (sr_running s)" using i by (simp add: section_inv_def)
  then have r: "set (remove1 k (sr_running s)) = set (sr_running s) - {k}" by simp
  have "section_inv ms s'"
    unfolding section_inv_def finishes(1) member_done_simps(1-4) r
  proof (intro conjI allI impI)
    fix j assume j: "j < sr_next s" "j \<notin> set (sr_running s) - {k}"
    show "((sr_outs s)(k := fst (ms ! k))) j = fst (ms ! j)" using i j by (auto simp: section_inv_def)
    assume f: "snd (ms ! j) \<noteq> None"
    show "sr_first (member_done (ms ! k) k s) \<noteq> None"
    proof (cases "j = k")
      case False
      then obtain x where "sr_first s = Some x" using i j f by (auto simp: section_inv_def)
      then show ?thesis by simp
    qed (use f in simp)
  next
    assume "sr_stopped s"
    then obtain x where "sr_first s = Some x" using i by (auto simp: section_inv_def)
    then show "sr_first (member_done (ms ! k) k s) \<noteq> None" by simp
  qed (use i d in \<open>auto simp: section_inv_def distinct_remove1\<close>)
  then show ?thesis using finishes(1) by auto
qed

lemma section_reach_inv: "(section_step ms)\<^sup>*\<^sup>* section_init s \<Longrightarrow> section_inv ms s"
proof (induction rule: rtranclp_induct)
  case base
  show ?case by (simp add: section_inv_def section_init_def)
next
  case (step t u)
  then show ?case using section_step_inv by blast
qed

definition section_left :: "(drow list \<times> err option) list \<Rightarrow> section_run \<Rightarrow> nat" where
  "section_left ms s = (if sr_stopped s then 0 else 1) + 2 * (length ms - sr_next s) + length (sr_running s)"

lemma section_step_shrinks: "section_step ms s s' \<Longrightarrow> section_left ms s' < section_left ms s"
proof (induction rule: section_step.induct)
  case (finishes i s)
  have "length (remove1 i (sr_running s)) < length (sr_running s)" using finishes length_pos_if_in_set[of i "sr_running s"] by (simp add: length_remove1)
  then show ?case by (simp add: section_left_def)
qed (auto simp: section_left_def)

lemma section_wf: "wfP (section_step ms)\<inverse>\<inverse>"
  by (rule wfp_if_convertible_to_nat[where f = "section_left ms"]) (simp add: section_step_shrinks)

lemma section_progress: "section_inv ms s \<Longrightarrow> \<not> section_over ms s \<Longrightarrow> \<exists>s'. section_step ms s s'"
proof -
  assume i: "section_inv ms s" and n: "\<not> section_over ms s"
  show ?thesis
  proof (cases "sr_running s")
    case Nil
    then have "\<not> sr_stopped s" "sr_next s < length ms" using i n by (auto simp: section_over_def section_inv_def)
    then show ?thesis using section_step.no_slot by blast
  next
    case (Cons k ks)
    then show ?thesis using section_step.finishes[of k s ms] by auto
  qed
qed



subsection \<open>Side by side is one after another\<close>

text \<open>The rows a plain stage adds to a row: one for each document, or none.\<close>

definition adds :: "BetaEdge list \<Rightarrow> ExchangeSpec \<Rightarrow> drow \<Rightarrow> drow list" where
  "adds betas x row = (case documents (fst (x_make x (bind_loop row (stage_bindings betas x) Map.empty))) of
     [] \<Rightarrow> [Map.empty] | ds \<Rightarrow> ds)"

definition reads :: "BetaEdge list \<Rightarrow> ExchangeSpec \<Rightarrow> string set" where
  "reads betas x = b_src ` set (stage_bindings betas x)"

fun stage_rows :: "BetaEdge list \<Rightarrow> ExchangeSpec \<Rightarrow> drow list \<Rightarrow> drow list \<times> err option" where
  "stage_rows betas x [] = ([], None)"
| "stage_rows betas x (r # rs) = (case stage_row betas x r of
     (os, Some e) \<Rightarrow> (os, Some e)
   | (os, None) \<Rightarrow> (case stage_rows betas x rs of (ps, e) \<Rightarrow> (os @ ps, e)))"

fun in_sequence :: "BetaEdge list \<Rightarrow> ExchangeSpec list \<Rightarrow> drow list \<Rightarrow> drow list \<times> err option" where
  "in_sequence betas [] rows = (rows, None)"
| "in_sequence betas (x # xs) rows = (case stage_rows betas x rows of
     (rs, Some e) \<Rightarrow> (rs, Some e)
   | (rs, None) \<Rightarrow> in_sequence betas xs rs)"

text \<open>Members that merge their output as it is, that succeed, that do not change what the upstream row
  already says, and of which none reads what an earlier one adds.\<close>

definition plain_at :: "BetaEdge list \<Rightarrow> drow \<Rightarrow> ExchangeSpec \<Rightarrow> bool" where
  "plain_at betas base x \<longleftrightarrow> x_flatten x = None \<and> x_inbound x = None \<and>
     snd (x_make x (bind_loop base (stage_bindings betas x) Map.empty)) = None"

fun independent :: "BetaEdge list \<Rightarrow> drow \<Rightarrow> ExchangeSpec list \<Rightarrow> bool" where
  "independent betas base [] = True"
| "independent betas base (x # xs) = (plain_at betas base x \<and>
     (\<forall>d\<in>set (adds betas x base). (\<forall>k v. base k = Some v \<longrightarrow> d k = None \<or> d k = Some v) \<and>
        (\<forall>y\<in>set xs. \<forall>k\<in>reads betas y. d k = None)) \<and> independent betas base xs)"

lemma bind_loop_reads:
  "(\<And>b. b \<in> set bs \<Longrightarrow> row (b_src b) = row' (b_src b)) \<Longrightarrow> bind_loop row bs m = bind_loop row' bs m"
proof (induction bs arbitrary: m)
  case (Cons b bs)
  have "row_get row (b_src b) = row_get row' (b_src b)" using Cons.prems[of b] by (simp add: row_get_def)
  moreover have "\<And>m. bind_loop row bs m = bind_loop row' bs m" using Cons by simp
  ultimately show ?case by (simp split: option.split)
qed simp

lemma mergeMaps_empty [simp]: "mergeMaps row Map.empty = row"
  by (simp add: mergeMaps_def)

lemma flatten_all_plain: "flatten_all (\<lambda>t. Inr (Some (f t))) ts = (map f ts, None)"
  by (induction ts) simp_all

lemma stage_row_plain:
  assumes p: "plain_at betas base x" and same: "\<And>k. k \<in> reads betas x \<Longrightarrow> row k = base k"
  shows "stage_row betas x row = (map (mergeMaps row) (adds betas x base), None)"
proof -
  have b: "bind_loop row (stage_bindings betas x) Map.empty = bind_loop base (stage_bindings betas x) Map.empty"
    by (rule bind_loop_reads) (use same in \<open>simp add: reads_def\<close>)
  have f: "flattenOf x = (\<lambda>t. Inr (Some (tupleFlatten t)))" and i: "x_inbound x = None"
    and e: "snd (x_make x (bind_loop base (stage_bindings betas x) Map.empty)) = None"
    using p by (simp_all add: plain_at_def flattenOf_def)
  obtain recs where m: "x_make x (bind_loop base (stage_bindings betas x) Map.empty) = (recs, None)" using e by (metis surjective_pairing)
  have u: "row_unit (x_make x) (x_inbound x) (stage_bindings betas x) row =
      (if documents recs = [] then [(row, None)] else map (\<lambda>i. (row, Some i)) (documents recs), None)"
    using i m b by (simp add: row_unit_def bound_inputs_def row_Run_def Let_def)
  show ?thesis
    unfolding stage_row_def u f prod.case flatten_all_plain adds_def m fst_conv
    by (cases "documents recs") (simp_all add: tupleFlatten_def)
qed

lemma stage_rows_plain:
  assumes "\<And>r. r \<in> set rows \<Longrightarrow> stage_row betas x r = (map (mergeMaps r) ds, None)"
  shows "stage_rows betas x rows = (concat (map (\<lambda>r. map (mergeMaps r) ds) rows), None)"
  using assms by (induction rows) simp_all

lemma merge_again:
  assumes "\<And>k v. base k = Some v \<Longrightarrow> a k = Some v"
  shows "mergeMaps a (mergeMaps base d) = mergeMaps a d"
  using assms by (auto simp: mergeMaps_def split: option.splits)

lemma sequence_combine:
  assumes "independent betas base xs"
    and "\<And>a k v. a \<in> set acc \<Longrightarrow> base k = Some v \<Longrightarrow> a k = Some v"
    and "\<And>a y k. a \<in> set acc \<Longrightarrow> y \<in> set xs \<Longrightarrow> k \<in> reads betas y \<Longrightarrow> a k = base k"
  shows "in_sequence betas xs acc = (combine_loop acc (map (\<lambda>x. fst (stage_row betas x base)) xs), None)"
  using assms
proof (induction xs arbitrary: acc)
  case (Cons x xs)
  let ?ds = "adds betas x base" and ?acc = "concat (map (\<lambda>a. map (mergeMaps a) (adds betas x base)) acc)"
  have p: "plain_at betas base x" and i: "independent betas base xs" using Cons.prems(1) by simp_all
  have keep: "d k = None \<or> d k = Some v" if "d \<in> set ?ds" "base k = Some v" for d k v using Cons.prems(1) that by simp
  have apart: "d k = None" if "d \<in> set ?ds" "y \<in> set xs" "k \<in> reads betas y" for d y k using Cons.prems(1) that by simp
  have run: "stage_row betas x a = (map (mergeMaps a) ?ds, None)" if "a \<in> set acc" for a
    by (rule stage_row_plain[OF p Cons.prems(3)[OF that, of x]]) simp_all
  have s: "stage_rows betas x acc = (?acc, None)" by (rule stage_rows_plain[OF run])
  have c: "concat (map (\<lambda>a. map (mergeMaps a) (fst (stage_row betas x base))) acc) = ?acc"
  proof -
    have "fst (stage_row betas x base) = map (mergeMaps base) ?ds" using stage_row_plain[OF p, of base] by simp
    moreover have "mergeMaps a (mergeMaps base d) = mergeMaps a d" if "a \<in> set acc" for a d
      by (rule merge_again) (rule Cons.prems(2)[OF that])
    ultimately show ?thesis by (auto intro!: arg_cong[where f = concat] simp: comp_def)
  qed
  have "in_sequence betas xs ?acc = (combine_loop ?acc (map (\<lambda>x. fst (stage_row betas x base)) xs), None)"
  proof (rule Cons.IH[OF i])
    fix a k v assume "a \<in> set ?acc" "base k = Some v"
    then obtain b d where "a = mergeMaps b d" "b \<in> set acc" "d \<in> set ?ds" by auto
    then show "a k = Some v" using keep[of d k v] Cons.prems(2)[of b k v] \<open>base k = Some v\<close> by (auto simp: mergeMaps_def)
  next
    fix a y k assume "a \<in> set ?acc" "y \<in> set xs" "k \<in> reads betas y"
    then obtain b d where "a = mergeMaps b d" "b \<in> set acc" "d \<in> set ?ds" by auto
    then show "a k = base k" using apart[of d y k] Cons.prems(3)[of b y k] \<open>y \<in> set xs\<close> \<open>k \<in> reads betas y\<close> by (simp add: mergeMaps_def)
  qed
  then show ?case using s c by simp
qed simp

text \<open>Running independent stages side by side emits what running them one after another emits, the
  same rows in the same order, when no stage reads what an earlier one adds and none gives an attribute
  of the upstream row another value.\<close>

theorem section_equals_sequence:
  assumes "independent betas base xs"
  shows "in_sequence betas xs [base] = (combine base (map (\<lambda>x. fst (stage_row betas x base)) xs), None)"
  unfolding combine_def by (rule sequence_combine[OF assms]) auto

definition adder :: "string \<Rightarrow> string \<Rightarrow> string \<Rightarrow> ExchangeSpec" where
  "adder name key val = \<lparr>x_name = name, x_in = [''id''], x_out = [key],
     x_make = (\<lambda>bound. ([Some (Map.empty(key \<mapsto> JStr val))], None)), x_flatten = None, x_inbound = None\<rparr>"

definition upstream_row :: drow where
  "upstream_row = Map.empty(''id'' \<mapsto> JStr ''1'')"

theorem section_equals_sequence_witness:
  "fst (in_sequence [] [adder ''a'' ''x'' ''u'', adder ''b'' ''y'' ''v''] [upstream_row]) =
     [Map.empty(''id'' \<mapsto> JStr ''1'', ''x'' \<mapsto> JStr ''u'', ''y'' \<mapsto> JStr ''v'')]"
proof -
  let ?xs = "[adder ''a'' ''x'' ''u'', adder ''b'' ''y'' ''v'']"
  have "independent [] upstream_row ?xs"
    by (simp add: adder_def plain_at_def adds_def reads_def stage_bindings_def attr_bindings_def upstream_row_def)
  from section_equals_sequence[OF this] have "fst (in_sequence [] ?xs [upstream_row]) = combine upstream_row (map (\<lambda>x. fst (stage_row [] x upstream_row)) ?xs)"
    by simp
  also have "\<dots> = [Map.empty(''id'' \<mapsto> JStr ''1'', ''x'' \<mapsto> JStr ''u'', ''y'' \<mapsto> JStr ''v'')]"
    by (auto simp: combine_def stage_row_def row_unit_def bound_inputs_def row_Run_def adder_def flattenOf_def tupleFlatten_def upstream_row_def mergeMaps_def)
  finally show ?thesis .
qed

text \<open>Where a stage does give an attribute of the row another value, the two differ: a later member's row
  carries the upstream value, and merging it over the earlier member's row undoes the change.\<close>

definition status_row :: drow where
  "status_row = Map.empty(''id'' \<mapsto> JStr ''1'', ''status'' \<mapsto> JStr ''old'')"

lemma section_undoes_overwrite:
  "map (\<lambda>r. r ''status'') (fst (in_sequence [] [adder ''a'' ''status'' ''new'', adder ''b'' ''y'' ''v''] [status_row])) = [Some (JStr ''new'')]"
  "map (\<lambda>r. r ''status'') (combine status_row (map (\<lambda>x. fst (stage_row [] x status_row)) [adder ''a'' ''status'' ''new'', adder ''b'' ''y'' ''v''])) = [Some (JStr ''old'')]"
  by (simp_all add: combine_def stage_row_def row_unit_def bound_inputs_def row_Run_def adder_def flattenOf_def tupleFlatten_def status_row_def mergeMaps_def)

end
