(* ===== verification/Plan_Cycle.thy ===== *)
theory Plan_Cycle
  imports Plan_Core Scc
begin

section \<open>Cycles of a plan: internal/system\_g/plan, cycle\<close>

text \<open>
  A strongly connected component of a plan runs as a fixpoint for each upstream row: its entries, the
  members that values from outside can start, run on the row; each round sends every new record along
  the cycle's edges. Invocations of a round run concurrently, so their records arrive in any order:
  \<open>mix\<close> is the order of a round's records. The key of a record, the JSON text of all it carries, is a
  parameter, and so are the clock and the buffer between the fixpoint and its reader. Of several errors
  joined, the first stands for all. Delays are waits and are left out.
\<close>

definition memberKey :: string where
  "memberKey = CHR 0x00 # ''scc.member''"

definition byName :: "ExchangeSpec list \<Rightarrow> string \<rightharpoonup> ExchangeSpec" where
  "byName xs n = find (\<lambda>x. x_name x = n) (rev xs)"

subsection \<open>Checking a cycle\<close>

definition cycleSpec :: "Plan \<Rightarrow> component \<Rightarrow> TerminationSpec result" where
  "cycleSpec p c = (let specs = List.map_filter (p_terminations p) (cm_members c) in
     if specs = [] then Inl (ErrOther ''plan: cycle has no termination policy'')
     else (case WellFounded (anyOf specs) of
         Some e \<Rightarrow> Inl e
       | None \<Rightarrow> Inr (anyOf specs)))"

record cycleStage =
  cs_members :: "string \<rightharpoonup> ExchangeSpec"
  cs_order :: "string list"
  cs_entries :: "string list"
  cs_edges :: "string \<Rightarrow> string list"
  cs_betas :: "BetaEdge list"
  cs_alphas :: "AlphaEdge list"
  cs_spec :: TerminationSpec

definition innerGate :: "string list \<Rightarrow> AlphaEdge list \<Rightarrow> string \<Rightarrow> string \<Rightarrow> AlphaEdge option" where
  "innerGate inside alphas m attr = find (\<lambda>a. ae_to a = m \<and>
     (case ae_alpha a of None \<Rightarrow> False | Some al \<Rightarrow> al_on al \<noteq> []) \<and> ControlKey (ae_from a) = attr \<and> ae_from a \<in> set inside) alphas"

definition startable :: "string list \<Rightarrow> BetaEdge list \<Rightarrow> AlphaEdge list \<Rightarrow> ExchangeSpec \<Rightarrow> string \<Rightarrow> bool" where
  "startable inside betas alphas x m = list_all (\<lambda>attr. innerGate inside alphas m attr \<noteq> None \<or>
     (let es = filter (\<lambda>e. be_to e = m \<and> be_tgt e = attr) betas in
      \<not> (list_ex (\<lambda>e. be_from e \<in> set inside) es \<and> \<not> list_ex (\<lambda>e. be_from e \<notin> set inside) es))) (x_in x)"

fun cycle_edges :: "string list \<Rightarrow> BetaEdge list \<Rightarrow> (string \<Rightarrow> string list) \<Rightarrow> string \<Rightarrow> string list" where
  "cycle_edges inside [] edges = edges"
| "cycle_edges inside (e # es) edges = cycle_edges inside es
     (if be_from e \<in> set inside \<and> be_to e \<in> set inside \<and> be_to e \<notin> set (edges (be_from e))
      then edges(be_from e := edges (be_from e) @ [be_to e]) else edges)"

definition newCycleStage :: "Plan \<Rightarrow> component \<Rightarrow> TerminationSpec \<Rightarrow> cycleStage result" where
  "newCycleStage p c spec = (let
     ms = cm_members c;
     xs = byName (p_exchanges p);
     entries = filter (\<lambda>m. case xs m of None \<Rightarrow> False | Some x \<Rightarrow> startable ms (p_betas p) (p_alphas p) x m) ms in
     if entries = [] then Inl (ErrOther ''plan: cycle has no entry'')
     else Inr \<lparr>cs_members = xs |` set ms, cs_order = ms, cs_entries = entries,
       cs_edges = cycle_edges ms (p_betas p) (\<lambda>_. []), cs_betas = p_betas p, cs_alphas = p_alphas p, cs_spec = spec\<rparr>)"

fun check_cycles :: "Plan \<Rightarrow> component list \<Rightarrow> err option" where
  "check_cycles p [] = None"
| "check_cycles p (c # cs) = (if \<not> cm_cyclic c then check_cycles p cs
     else (case cycleSpec p c of
         Inl e \<Rightarrow> Some e
       | Inr spec \<Rightarrow> (case newCycleStage p c spec of Inl e \<Rightarrow> Some e | Inr _ \<Rightarrow> check_cycles p cs)))"

text \<open>The outer option is whether condensing returned, which it always does.\<close>

definition CheckCycles :: "string list \<Rightarrow> Plan \<Rightarrow> err option option" where
  "CheckCycles ord p = (let q = controlled p in
     map_option (check_cycles q) (condense ord (map x_name (p_exchanges q)) (p_betas q) (p_alphas q)))"

subsection \<open>Running a cycle\<close>

definition cycle_value :: "cycleStage \<Rightarrow> drow \<Rightarrow> string \<Rightarrow> string \<Rightarrow> string \<Rightarrow> json" where
  "cycle_value st base m attr from = (let es = filter (\<lambda>e. be_to e = m \<and> be_tgt e = attr) (cs_betas st) in
     case find (\<lambda>e. from \<noteq> [] \<and> be_from e = from) es of
       Some e \<Rightarrow> row_get base (be_src e)
     | None \<Rightarrow> (let outside = map be_src (filter (\<lambda>e. be_from e \<notin> set (cs_order st)) es) in
         case find (\<lambda>v. \<not> emptyValue v) (map (row_get base) outside) of
           Some v \<Rightarrow> v
         | None \<Rightarrow> (case outside of src # _ \<Rightarrow> row_get base src | [] \<Rightarrow> row_get base attr)))"

text \<open>A choice made inside the cycle fires the run it caused and no other.\<close>

definition cycle_input :: "cycleStage \<Rightarrow> drow \<Rightarrow> string \<Rightarrow> string \<Rightarrow> string \<Rightarrow> json" where
  "cycle_input st base m attr from = (case innerGate (cs_order st) (cs_alphas st) m attr of
     Some g \<Rightarrow> if from = [] then JStr (case ae_alpha g of Some al \<Rightarrow> al_on al | None \<Rightarrow> [])
       else if from = ae_from g then row_get base attr else JStr []
   | None \<Rightarrow> cycle_value st base m attr from)"

fun invoke_loop :: "flatten \<Rightarrow> string \<Rightarrow> drow \<Rightarrow> drow list \<Rightarrow> drow list result" where
  "invoke_loop flat m base [] = Inr []"
| "invoke_loop flat m base (d # ds) =
     (if d skippedKey = Some (JBool True) then invoke_loop flat m base ds
      else (case flat (base, Some d) of
          Inl e \<Rightarrow> Inl e
        | Inr None \<Rightarrow> invoke_loop flat m base ds
        | Inr (Some merged) \<Rightarrow> rfmap (\<lambda>rs. merged(memberKey \<mapsto> JStr m) # rs) (invoke_loop flat m base ds)))"

definition cycle_bound :: "cycleStage \<Rightarrow> ExchangeSpec \<Rightarrow> drow \<Rightarrow> string \<Rightarrow> string \<Rightarrow> drow" where
  "cycle_bound st x base m from = (\<lambda>k. if k \<in> set (x_in x) then Some (cycle_input st base m k from) else None)"

definition invoke :: "cycleStage \<Rightarrow> string \<Rightarrow> drow \<Rightarrow> string \<Rightarrow> drow list result" where
  "invoke st m base from = (case cs_members st m of
     None \<Rightarrow> Inl (ErrOther ''no such member'')
   | Some x \<Rightarrow> (case (case x_inbound x of None \<Rightarrow> Inr (cycle_bound st x base m from)
         | Some t \<Rightarrow> applyInbound t (cycle_bound st x base m from)) of
       Inl e \<Rightarrow> Inl e
     | Inr bound \<Rightarrow> (case x_make x bound of (recs, e) \<Rightarrow>
         (case invoke_loop (flattenOf x) m base (documents recs) of
            Inl fe \<Rightarrow> Inl fe
          | Inr rs \<Rightarrow> (case e of Some er \<Rightarrow> Inl er | None \<Rightarrow> Inr rs)))))"

definition member_of :: "drow \<Rightarrow> string" where
  "member_of r = (case r memberKey of Some (JStr m) \<Rightarrow> m | _ \<Rightarrow> [])"

definition round_jobs :: "cycleStage \<Rightarrow> drow list \<Rightarrow> (string \<times> drow \<times> string) list" where
  "round_jobs st frontier = concat (map (\<lambda>r. map (\<lambda>to. (to, r, member_of r)) (cs_edges st (member_of r))) frontier)"

definition job_errors :: "drow list result list \<Rightarrow> err list" where
  "job_errors rs = List.map_filter (\<lambda>r. case r of Inl e \<Rightarrow> Some e | Inr _ \<Rightarrow> None) rs"

definition job_records :: "drow list result list \<Rightarrow> drow list" where
  "job_records rs = concat (map (\<lambda>r. case r of Inl _ \<Rightarrow> [] | Inr l \<Rightarrow> l) rs)"

definition Round :: "cycleStage \<Rightarrow> (nat \<Rightarrow> drow list \<Rightarrow> drow list) \<Rightarrow> nat \<Rightarrow> drow list \<Rightarrow> drow list result" where
  "Round st mix it frontier = (let rs = map (\<lambda>(to, r, from). invoke st to r from) (round_jobs st frontier) in
     case job_errors rs of e # _ \<Rightarrow> Inl e | [] \<Rightarrow> Inr (mix it (job_records rs)))"

definition cycle_seeds :: "cycleStage \<Rightarrow> drow \<Rightarrow> drow list result" where
  "cycle_seeds st row = rfmap concat (rmap (\<lambda>m. invoke st m row []) (cs_entries st))"

definition cycle_scc :: "nat \<Rightarrow> cycleStage \<Rightarrow> (drow \<Rightarrow> string) \<Rightarrow> (nat \<Rightarrow> int) \<Rightarrow> int \<Rightarrow> (nat \<Rightarrow> append_result)
    \<Rightarrow> (nat \<Rightarrow> drow list \<Rightarrow> drow list) \<Rightarrow> drow list \<Rightarrow> drow scc_result option" where
  "cycle_scc fuel st key clock began app mix seeds =
     scc_Open fuel (Some (Policy (cs_spec st) began)) clock (Round st mix) key app (seeds, None)"

definition clean :: "drow \<Rightarrow> drow" where
  "clean r = r(memberKey := None)"

text \<open>What the stage emits for one upstream row, and the error it ends with. A row the cycle reaches
  nothing from passes through or is dropped, as the first entry's flatten decides.\<close>

definition cycle_emit :: "cycleStage \<Rightarrow> drow \<Rightarrow> drow scc_result \<Rightarrow> drow list \<times> err option" where
  "cycle_emit st row res = (case res_err res of
     Some e \<Rightarrow> (map clean (res_out res), Some e)
   | None \<Rightarrow> if res_out res \<noteq> [] then (map clean (res_out res), None)
       else (case cs_members st (hd (cs_entries st)) of
           None \<Rightarrow> ([], None)
         | Some x \<Rightarrow> (case flattenOf x (row, None) of
             Inl e \<Rightarrow> ([], Some e) | Inr None \<Rightarrow> ([], None) | Inr (Some r) \<Rightarrow> ([r], None))))"

definition cycle_loop :: "nat \<Rightarrow> cycleStage \<Rightarrow> (drow \<Rightarrow> string) \<Rightarrow> (nat \<Rightarrow> int) \<Rightarrow> int \<Rightarrow> (nat \<Rightarrow> append_result)
    \<Rightarrow> (nat \<Rightarrow> drow list \<Rightarrow> drow list) \<Rightarrow> drow \<Rightarrow> (drow list \<times> err option) option" where
  "cycle_loop fuel st key clock began app mix row = (case cycle_seeds st row of
     Inl e \<Rightarrow> Some ([], Some e)
   | Inr seeds \<Rightarrow> map_option (cycle_emit st row) (cycle_scc fuel st key clock began app mix seeds))"

subsection \<open>A checked cycle ends\<close>

lemma check_cycles_ok:
  "check_cycles p cs = None \<Longrightarrow> c \<in> set cs \<Longrightarrow> cm_cyclic c \<Longrightarrow>
     \<exists>spec st. cycleSpec p c = Inr spec \<and> newCycleStage p c spec = Inr st"
  by (induction cs) (auto split: if_splits sum.splits)

lemma cycleSpec_wf: "cycleSpec p c = Inr spec \<Longrightarrow> WellFounded spec = None"
  by (auto simp: cycleSpec_def Let_def simp del: WellFounded.simps split: if_splits option.splits)

lemma newCycleStage_spec: "newCycleStage p c spec = Inr st \<Longrightarrow> cs_spec st = spec \<and> cs_entries st \<noteq> [] \<and> cs_order st = cm_members c"
  by (auto simp: newCycleStage_def Let_def split: if_splits)

lemma cycle_loop_ends:
  assumes "WellFounded (cs_spec st) = None" "\<forall>t. \<exists>i. \<forall>j\<ge>i. clock j > (t :: int)"
  shows "\<exists>fuel r. cycle_loop fuel st key clock began app mix row = Some r"
proof (cases "cycle_seeds st row")
  case (Inr seeds)
  from scc_ends[OF assms, of began "Round st mix" key app "(seeds, None)"] obtain fuel res where
    "cycle_scc fuel st key clock began app mix seeds = Some res" by (auto simp: cycle_scc_def)
  then have "cycle_loop fuel st key clock began app mix row = Some (cycle_emit st row res)" using Inr by (simp add: cycle_loop_def)
  then show ?thesis by blast
qed (simp add: cycle_loop_def)

text \<open>C31: a plan that passes the check of its cycles cannot run for ever. For every cyclic component of its
  condensation the check has found a well-founded termination and an entry, and the stage built for it
  comes to an end on every upstream row, whatever the exchanges answer, in whatever order a round's
  records arrive, however many there are to derive, as long as the clock goes on.\<close>

theorem checked_cycles_end:
  assumes "CheckCycles ord p = Some None"
    and "condense ord (map x_name (p_exchanges (controlled p))) (p_betas (controlled p)) (p_alphas (controlled p)) = Some comps"
    and "c \<in> set comps" "cm_cyclic c" "\<forall>t. \<exists>i. \<forall>j\<ge>i. clock j > (t :: int)"
  shows "\<exists>spec st. cycleSpec (controlled p) c = Inr spec \<and> newCycleStage (controlled p) c spec = Inr st \<and> cs_entries st \<noteq> [] \<and>
    (\<forall>key began app mix row. \<exists>fuel r. cycle_loop fuel st key clock began app mix row = Some r)"
proof -
  have "check_cycles (controlled p) comps = None" using assms(1,2) by (simp add: CheckCycles_def Let_def)
  from check_cycles_ok[OF this assms(3,4)] obtain spec st where
    s: "cycleSpec (controlled p) c = Inr spec" "newCycleStage (controlled p) c spec = Inr st" by blast
  have st: "cs_spec st = spec" "cs_entries st \<noteq> []" using newCycleStage_spec[OF s(2)] by blast+
  have "WellFounded (cs_spec st) = None" using cycleSpec_wf[OF s(1)] st(1) by simp
  from cycle_loop_ends[OF this assms(5)] s st(2) show ?thesis by blast
qed

subsection \<open>What a cycle reaches\<close>

text \<open>The records of a cycle: what the entries yield, and whatever a member yields on a record of the
  cycle that reaches it along an edge.\<close>

inductive_set cycle_reach :: "cycleStage \<Rightarrow> drow list \<Rightarrow> drow set" for st seeds where
  seed: "r \<in> set seeds \<Longrightarrow> r \<in> cycle_reach st seeds"
| step: "r \<in> cycle_reach st seeds \<Longrightarrow> to \<in> set (cs_edges st (member_of r)) \<Longrightarrow> invoke st to r (member_of r) = Inr l \<Longrightarrow>
    r' \<in> set l \<Longrightarrow> r' \<in> cycle_reach st seeds"

definition children :: "cycleStage \<Rightarrow> drow \<Rightarrow> drow list" where
  "children st r = job_records (map (\<lambda>to. invoke st to r (member_of r)) (cs_edges st (member_of r)))"

lemma children_iff:
  "r' \<in> set (children st r) \<longleftrightarrow> (\<exists>to\<in>set (cs_edges st (member_of r)). \<exists>l. invoke st to r (member_of r) = Inr l \<and> r' \<in> set l)"
proof -
  have "r' \<in> set (case x of Inl _ \<Rightarrow> [] | Inr l \<Rightarrow> l) \<longleftrightarrow> (\<exists>l. x = Inr l \<and> r' \<in> set l)" for x :: "drow list result"
    by (cases x) auto
  then show ?thesis by (simp add: children_def job_records_def)
qed

lemma round_records: "job_records (map (\<lambda>(to, r, from). invoke st to r from) (round_jobs st fr)) = concat (map (children st) fr)"
  by (induction fr) (simp_all add: round_jobs_def children_def job_records_def comp_def)

lemma Round_derives:
  assumes "\<And>it rs. mset (mix it rs) = mset rs"
  shows "derives (Round st mix) (children st)"
proof -
  have "set (mix it rs) = set rs" for it rs by (rule mset_eq_setD[OF assms])
  then show ?thesis by (auto simp: derives_def Round_def Let_def round_records split: list.splits)
qed

lemma cycle_reach_reached: "cycle_reach st seeds = reached (children st) seeds"
proof (rule set_eqI, rule iffI)
  fix r assume "r \<in> cycle_reach st seeds"
  then show "r \<in> reached (children st) seeds"
  proof induction
    case (step r to l r')
    then have "r' \<in> set (children st r)" by (auto simp: children_iff)
    then show ?case using step.IH by (rule reached.child[rotated])
  qed (rule reached.seed)
next
  fix r assume "r \<in> reached (children st) seeds"
  then show "r \<in> cycle_reach st seeds"
    by induction (auto intro: cycle_reach.intros simp: children_iff)
qed

text \<open>C34: a cycle run to its fixpoint emits exactly what the cycle reaches. Where the keys tell the records
  it reaches apart and every round's records arrive, in any order, and the loop stops because a round
  derived nothing new, the records are those reachable from the entries along the cycle's edges, each
  once; and the stage emits them, without the mark of the member, and no error.\<close>

theorem cycle_emits_reachable:
  assumes mix: "\<And>it rs. mset (mix it rs) = mset rs" and seeds: "cycle_seeds st row = Inr seeds"
    and key: "inj_on key (cycle_reach st seeds)"
    and run: "cycle_scc fuel st key clock began app mix seeds = Some res" and fix_: "res_reason res = Fixpoint"
  shows "set (res_out res) = cycle_reach st seeds \<and> distinct (res_out res) \<and>
    (seeds \<noteq> [] \<longrightarrow> cycle_loop fuel st key clock began app mix row = Some (map clean (res_out res), None))"
proof -
  note e = scc_emits_reached[OF Round_derives[OF mix, of st] key[unfolded cycle_reach_reached] run[unfolded cycle_scc_def] fix_]
  have "res_out res \<noteq> []" if "seeds \<noteq> []"
    using that e(1) reached.seed[of "hd seeds" seeds "children st"] by (metis empty_iff hd_in_set list.set(1))
  then have "cycle_loop fuel st key clock began app mix row = Some (map clean (res_out res), None)" if "seeds \<noteq> []"
    using that seeds run e(3) by (simp add: cycle_loop_def cycle_emit_def)
  then show ?thesis using e(1,2) cycle_reach_reached by blast
qed

subsection \<open>A paged listing\<close>

text \<open>An exchange that feeds its own cursor: the first page is asked for with the plan's input.\<close>

definition page_exchange :: ExchangeSpec where
  "page_exchange = \<lparr>x_name = ''page'', x_in = [''cursor''], x_out = [''next''],
     x_make = (\<lambda>bound. if bound ''cursor'' = Some (JStr ''1'') then ([Some (Map.empty(''next'' \<mapsto> JStr ''2''))], None) else ([], None)),
     x_flatten = None, x_inbound = None\<rparr>"

definition page_plan :: Plan where
  "page_plan = \<lparr>p_exchanges = [page_exchange],
     p_betas = [\<lparr>be_from = [], be_to = ''page'', be_src = ''start'', be_tgt = ''cursor''\<rparr>,
                \<lparr>be_from = ''page'', be_to = ''page'', be_src = ''next'', be_tgt = ''cursor''\<rparr>],
     p_alphas = [], p_inputs = Map.empty(''start'' \<mapsto> JStr ''1''), p_terminations = Map.empty(''page'' \<mapsto> rounds 5)\<rparr>"

definition page_comp :: component where
  "page_comp = \<lparr>cm_members = [''page''], cm_cyclic = True\<rparr>"

lemma page_controlled: "controlled page_plan = page_plan"
  by (simp add: controlled_def page_plan_def)

lemma page_condense: "condense [''page''] [''page''] (p_betas page_plan) (p_alphas page_plan) = Some [page_comp]"
  unfolding page_plan_def page_comp_def Plan.simps by code_simp

definition page_stage :: cycleStage where
  "page_stage = \<lparr>cs_members = [''page'' \<mapsto> page_exchange], cs_order = [''page''], cs_entries = [''page''],
     cs_edges = (\<lambda>_. [])(''page'' := [''page'']), cs_betas = p_betas page_plan, cs_alphas = [], cs_spec = anyOf [rounds 5]\<rparr>"

lemma page_checked: "cycleSpec page_plan page_comp = Inr (anyOf [rounds 5])" "newCycleStage page_plan page_comp (anyOf [rounds 5]) = Inr page_stage"
proof -
  show "cycleSpec page_plan page_comp = Inr (anyOf [rounds 5])"
    by (simp add: cycleSpec_def page_plan_def page_comp_def List.map_filter_simps)
  have x: "x_name page_exchange = ''page''" "x_in page_exchange = [''cursor'']" by (simp_all add: page_exchange_def)
  have "byName [page_exchange] |` {''page''} = [''page'' \<mapsto> page_exchange]"
    by (auto simp: byName_def x restrict_map_def)
  then show "newCycleStage page_plan page_comp (anyOf [rounds 5]) = Inr page_stage"
    by (simp add: newCycleStage_def page_plan_def page_comp_def page_stage_def byName_def x startable_def innerGate_def Let_def)
qed

theorem checked_cycles_end_witness:
  "\<exists>st. newCycleStage page_plan page_comp (anyOf [rounds 5]) = Inr st \<and>
     (\<exists>fuel r. cycle_loop fuel st (\<lambda>_. []) int 0 (\<lambda>_. AppendOk) (\<lambda>_ rs. rs) (Map.empty(''start'' \<mapsto> JStr ''1'')) = Some r)"
proof -
  have n: "map x_name (p_exchanges page_plan) = [''page'']" by (simp add: page_plan_def page_exchange_def)
  have c: "condense [''page''] (map x_name (p_exchanges (controlled page_plan))) (p_betas (controlled page_plan)) (p_alphas (controlled page_plan)) = Some [page_comp]"
    unfolding page_controlled n by (rule page_condense)
  have "check_cycles page_plan [page_comp] = None" using page_checked by (simp add: page_comp_def)
  then have k: "CheckCycles [''page''] page_plan = Some None" using c by (simp add: CheckCycles_def Let_def page_controlled)
  have clk: "\<forall>t. \<exists>i. \<forall>j\<ge>i. int j > t"
  proof
    fix t show "\<exists>i. \<forall>j\<ge>i. int j > t" by (rule exI[of _ "nat t + 1"]) auto
  qed
  have "page_comp \<in> set [page_comp]" "cm_cyclic page_comp" by (simp_all add: page_comp_def)
  from checked_cycles_end[OF k c this clk] page_checked(1) show ?thesis unfolding page_controlled by auto
qed

definition page_record :: drow where
  "page_record = Map.empty(''start'' \<mapsto> JStr ''1'', ''next'' \<mapsto> JStr ''2'', memberKey \<mapsto> JStr ''page'')"

lemma page_first: "invoke page_stage ''page'' (Map.empty(''start'' \<mapsto> JStr ''1'')) [] = Inr [page_record]"
  by (auto simp: invoke_def page_stage_def page_plan_def page_exchange_def cycle_bound_def cycle_input_def innerGate_def cycle_value_def
      row_get_def emptyValue_def flattenOf_def tupleFlatten_def mergeMaps_def page_record_def skippedKey_def fun_eq_iff)

lemma page_second: "invoke page_stage ''page'' page_record ''page'' = Inr []"
  by (simp add: invoke_def page_stage_def page_plan_def page_exchange_def cycle_bound_def cycle_input_def innerGate_def cycle_value_def
      row_get_def page_record_def memberKey_def)

theorem cycle_emits_reachable_witness:
  "\<exists>res. cycle_scc 3 page_stage (\<lambda>_. []) int 0 (\<lambda>_. AppendOk) (\<lambda>_ rs. rs) [page_record] = Some res \<and>
     set (res_out res) = {page_record} \<and> cycle_reach page_stage [page_record] = {page_record}"
proof -
  have m: "member_of page_record = ''page''" "cs_edges page_stage ''page'' = [''page'']"
    by (simp_all add: member_of_def page_record_def page_stage_def)
  have seeds: "cycle_seeds page_stage (Map.empty(''start'' \<mapsto> JStr ''1'')) = Inr [page_record]"
    using page_first by (simp add: cycle_seeds_def page_stage_def)
  have r: "cycle_reach page_stage [page_record] = {page_record}"
  proof (rule set_eqI, rule iffI)
    fix x assume "x \<in> cycle_reach page_stage [page_record]"
    then show "x \<in> {page_record}"
    proof induction
      case (step r to l r')
      then show ?case using m page_second by simp
    qed simp
  qed (simp add: cycle_reach.seed)
  let ?res = "\<lparr>res_out = [page_record], res_err = None, res_reason = Fixpoint, res_iterations = 1\<rparr>"
  have rd: "Round page_stage (\<lambda>_ rs. rs) 0 [page_record] = Inr []"
    using m page_second by (simp add: Round_def round_jobs_def job_errors_def job_records_def List.map_filter_simps)
  have run: "cycle_scc 3 page_stage (\<lambda>_. []) int 0 (\<lambda>_. AppendOk) (\<lambda>_ rs. rs) [page_record] = Some ?res"
    using rd by (simp add: cycle_scc_def scc_Open_def numeral_3_eq_3 scc_stops_def page_stage_def[THEN arg_cong[where f = cs_spec]])
  have "inj_on (\<lambda>_. []) (cycle_reach page_stage [page_record])" unfolding r by simp
  from cycle_emits_reachable[OF refl seeds this run] r run show ?thesis by auto
qed

end
