(* ===== verification/Plan_Compose.thy ===== *)
theory Plan_Compose
  imports Plan_Section Plan_Cycle
begin

section \<open>Composing a plan: internal/system\_g/plan, composePipeline\<close>

text \<open>
  Compose checks a plan, condenses it, proves its cycles terminating, decides what seeds the pipeline
  and groups the stages into levels. The result here is the root and the levels of components; None is
  the panic of indexing the first component of an empty plan. Log taps pass records through and are left
  out. What a composed pipeline does on a row is given for stages that are no cycles; of several members
  of a section that fail on a row, the first in order stands for the one whose failure is reported.
\<close>

datatype pipeline_root = Seed drow | Root string

text \<open>The first failing check of the cycles, in the order of the components.\<close>

fun cycle_specs :: "Plan \<Rightarrow> component list \<Rightarrow> err option" where
  "cycle_specs p [] = None"
| "cycle_specs p (c # cs) = (if \<not> cm_cyclic c then cycle_specs p cs
     else (case cycleSpec p c of Inl e \<Rightarrow> Some e | Inr _ \<Rightarrow> cycle_specs p cs))"

definition root_of :: "Plan \<Rightarrow> component list \<Rightarrow> (pipeline_root \<times> component list) option" where
  "root_of p comps = (if dom (p_inputs p) \<noteq> {} then Some (Seed (p_inputs p), comps)
     else (case comps of
         [] \<Rightarrow> None
       | c # cs \<Rightarrow> (case byName (p_exchanges p) (hd (cm_members c)) of
           None \<Rightarrow> None
         | Some x \<Rightarrow> if cm_cyclic c \<or> x_flatten x \<noteq> None then Some (Seed Map.empty, comps)
             else Some (Root (hd (cm_members c)), cs))))"

text \<open>Building the stages: a cycle that nothing outside can start is refused.\<close>

fun build_stages :: "Plan \<Rightarrow> component list \<Rightarrow> err option" where
  "build_stages p [] = None"
| "build_stages p (c # cs) = (if \<not> cm_cyclic c then build_stages p cs
     else (case cycleSpec p c of
         Inl e \<Rightarrow> Some e
       | Inr spec \<Rightarrow> (case newCycleStage p c spec of Inl e \<Rightarrow> Some e | Inr _ \<Rightarrow> build_stages p cs)))"

definition composePipeline :: "string list \<Rightarrow> Plan \<Rightarrow> (pipeline_root \<times> component list list) result option" where
  "composePipeline ord p = (let q = controlled p in
     case Validate_plan q of
       Some e \<Rightarrow> Some (Inl e)
     | None \<Rightarrow> (case condense ord (map x_name (p_exchanges q)) (p_betas q) (p_alphas q) of
         None \<Rightarrow> None
       | Some comps \<Rightarrow> (case cycle_specs q comps of
           Some e \<Rightarrow> Some (Inl e)
         | None \<Rightarrow> (case root_of q comps of
             None \<Rightarrow> None
           | Some (root, stages) \<Rightarrow> (let lss = levels (p_betas q) (p_alphas q) comps stages in
               case build_stages q (concat lss) of
                 Some e \<Rightarrow> Some (Inl e)
               | None \<Rightarrow> Some (Inr (root, lss)))))))"

subsection \<open>Running the levels\<close>

fun section_rows :: "BetaEdge list \<Rightarrow> ExchangeSpec list \<Rightarrow> drow list \<Rightarrow> drow list \<times> err option" where
  "section_rows betas xs [] = ([], None)"
| "section_rows betas xs (base # rows) = (let rs = map (\<lambda>x. stage_row betas x base) xs in
     case find (\<lambda>r. snd r \<noteq> None) rs of
       Some r \<Rightarrow> ([], snd r)
     | None \<Rightarrow> (case section_rows betas xs rows of (os, e) \<Rightarrow> (combine base (map fst rs) @ os, e)))"

definition run_level :: "BetaEdge list \<Rightarrow> ExchangeSpec list \<Rightarrow> drow list \<Rightarrow> drow list \<times> err option" where
  "run_level betas xs rows = (case xs of [x] \<Rightarrow> stage_rows betas x rows | _ \<Rightarrow> section_rows betas xs rows)"

fun run_levels :: "BetaEdge list \<Rightarrow> ExchangeSpec list list \<Rightarrow> drow list \<Rightarrow> drow list \<times> err option" where
  "run_levels betas [] rows = (rows, None)"
| "run_levels betas (xs # lss) rows = (case run_level betas xs rows of
     (rs, Some e) \<Rightarrow> (rs, Some e)
   | (rs, None) \<Rightarrow> run_levels betas lss rs)"

fun levels_ok :: "BetaEdge list \<Rightarrow> ExchangeSpec list list \<Rightarrow> drow list \<Rightarrow> bool" where
  "levels_ok betas [] rows = True"
| "levels_ok betas (xs # lss) rows = ((\<forall>r\<in>set rows. independent betas r xs) \<and> levels_ok betas lss (fst (in_sequence betas xs rows)))"

subsection \<open>The levels run as a sequence\<close>

lemma stage_rows_append:
  "snd (stage_rows betas x rs) = None \<Longrightarrow> stage_rows betas x (rs @ ss) =
     (fst (stage_rows betas x rs) @ fst (stage_rows betas x ss), snd (stage_rows betas x ss))"
  by (induction rs) (auto split: prod.splits option.splits)

lemma in_sequence_append:
  "snd (in_sequence betas xs rs) = None \<Longrightarrow> snd (in_sequence betas xs ss) = None \<Longrightarrow>
     in_sequence betas xs (rs @ ss) = (fst (in_sequence betas xs rs) @ fst (in_sequence betas xs ss), None)"
proof (induction xs arbitrary: rs ss)
  case (Cons x xs)
  obtain rs' ss' where r: "stage_rows betas x rs = (rs', None)" "stage_rows betas x ss = (ss', None)"
    using Cons.prems by (auto split: prod.splits option.splits)
  have "stage_rows betas x (rs @ ss) = (rs' @ ss', None)" using stage_rows_append[of betas x rs ss] r by simp
  then show ?case using Cons r by simp
qed simp

lemma in_sequence_Nil [simp]: "in_sequence betas xs [] = ([], None)"
  by (induction xs) simp_all

lemma section_rows_sequence:
  "(\<forall>r\<in>set rows. independent betas r xs) \<Longrightarrow> section_rows betas xs rows = in_sequence betas xs rows \<and> snd (in_sequence betas xs rows) = None"
proof (induction rows)
  case Nil
  show ?case by simp
next
  case (Cons b rows)
  have i: "independent betas b xs" using Cons.prems by simp
  have ok: "snd (stage_row betas x b) = None" if "x \<in> set xs" for x
  proof -
    have "plain_at betas b x" using i that by (induction xs) auto
    then show ?thesis using stage_row_plain[of betas b x b] by simp
  qed
  have one: "in_sequence betas xs [b] = (combine b (map (\<lambda>x. fst (stage_row betas x b)) xs), None)"
    unfolding combine_def by (rule sequence_combine[OF i]) auto
  have f: "find (\<lambda>r. snd r \<noteq> None) (map (\<lambda>x. stage_row betas x b) xs) = None"
    using ok by (auto simp: find_None_iff)
  have IH: "section_rows betas xs rows = in_sequence betas xs rows" "snd (in_sequence betas xs rows) = None" using Cons by simp_all
  have "in_sequence betas xs ([b] @ rows) = (fst (in_sequence betas xs [b]) @ fst (in_sequence betas xs rows), None)"
    by (rule in_sequence_append) (use one IH(2) in simp_all)
  moreover have "section_rows betas xs (b # rows) = (combine b (map (\<lambda>x. fst (stage_row betas x b)) xs) @ fst (in_sequence betas xs rows), None)"
    using f IH by (cases "in_sequence betas xs rows") (simp add: Let_def comp_def)
  ultimately show ?case using one by simp
qed

lemma run_level_sequence:
  assumes "\<forall>r\<in>set rows. independent betas r xs"
  shows "run_level betas xs rows = in_sequence betas xs rows" "snd (in_sequence betas xs rows) = None"
proof -
  note s = section_rows_sequence[OF assms]
  show "snd (in_sequence betas xs rows) = None" using s by blast
  show "run_level betas xs rows = in_sequence betas xs rows"
  proof (cases "\<exists>x. xs = [x]")
    case True
    then obtain x where "xs = [x]" by blast
    then show ?thesis by (simp add: run_level_def split: prod.split option.split)
  next
    case False
    then have "run_level betas xs rows = section_rows betas xs rows" by (auto simp: run_level_def split: list.split)
    then show ?thesis using s by simp
  qed
qed

lemma in_sequence_concat:
  "snd (in_sequence betas xs rows) = None \<Longrightarrow> in_sequence betas (xs @ ys) rows = in_sequence betas ys (fst (in_sequence betas xs rows))"
  by (induction xs arbitrary: rows) (auto split: prod.splits option.splits)

text \<open>The parallel pipeline means the sequential one. Running a plan level by level, the stages of a
  level side by side on each row, emits the same rows in the same order as running all its stages one
  after another, when on every row that reaches it a level's stages are independent of one another.\<close>

theorem levels_run_as_sequence:
  assumes "levels_ok betas lss rows"
  shows "run_levels betas lss rows = in_sequence betas (concat lss) rows"
  using assms
proof (induction lss arbitrary: rows)
  case (Cons xs lss)
  note l = run_level_sequence[of rows betas xs]
  obtain rs where rs: "in_sequence betas xs rows = (rs, None)" using l(2) Cons.prems by (cases "in_sequence betas xs rows") auto
  have "run_levels betas (xs # lss) rows = run_levels betas lss rs" using l(1) Cons.prems rs by simp
  also have "\<dots> = in_sequence betas (concat lss) rs" using Cons rs by simp
  also have "\<dots> = in_sequence betas (concat (xs # lss)) rows" using in_sequence_concat[of betas xs rows "concat lss"] rs by simp
  finally show ?case .
qed simp

theorem levels_run_as_sequence_witness:
  "run_levels [] [[adder ''a'' ''x'' ''u'', adder ''b'' ''y'' ''v''], [adder ''c'' ''z'' ''w'']] [upstream_row] =
     in_sequence [] [adder ''a'' ''x'' ''u'', adder ''b'' ''y'' ''v'', adder ''c'' ''z'' ''w''] [upstream_row]"
proof -
  have "levels_ok [] [[adder ''a'' ''x'' ''u'', adder ''b'' ''y'' ''v''], [adder ''c'' ''z'' ''w'']] [upstream_row]"
    by (simp add: adder_def plain_at_def adds_def reads_def stage_bindings_def attr_bindings_def upstream_row_def
      stage_row_def row_unit_def bound_inputs_def row_Run_def flattenOf_def tupleFlatten_def mergeMaps_def)
  from levels_run_as_sequence[OF this] show ?thesis by simp
qed

subsection \<open>What a composed plan promises\<close>

definition plan_names :: "Plan \<Rightarrow> string list" where
  "plan_names p = map x_name (p_exchanges p)"

definition plan_depends :: "Plan \<Rightarrow> (string \<times> string) set" where
  "plan_depends p = depends (plan_names p) (p_betas p) (p_alphas p)"

lemma byName_iff: "byName xs n \<noteq> None \<longleftrightarrow> n \<in> x_name ` set xs"
  by (auto simp: byName_def find_None_iff)

lemma controlled_inputs [simp]: "p_inputs (controlled p) = p_inputs p"
  by (simp add: controlled_def split: prod.split)

lemma controlled_names [simp]: "plan_names (controlled p) = plan_names p"
  by (auto simp: controlled_def plan_names_def gatedSpec_def comp_def split: prod.split)

lemma root_of_total:
  assumes "set (concat (map cm_members comps)) = set (plan_names q)" "\<forall>c\<in>set comps. cm_members c \<noteq> []"
    "plan_names q \<noteq> [] \<or> dom (p_inputs q) \<noteq> {}"
  shows "root_of q comps \<noteq> None"
proof (cases "dom (p_inputs q) = {}")
  case True
  then have "comps \<noteq> []" using assms(1,3) by auto
  then obtain c cs where c: "comps = c # cs" by (cases comps) auto
  then have "hd (cm_members c) \<in> set (plan_names q)" using assms(1,2) by auto
  then have "byName (p_exchanges q) (hd (cm_members c)) \<noteq> None" unfolding byName_iff by (auto simp: plan_names_def)
  then show ?thesis using True c by (auto simp: root_of_def)
qed (simp add: root_of_def)

lemma root_of_stages:
  assumes "root_of q comps = Some (root, stages)"
  shows "(\<exists>row. root = Seed row \<and> stages = drop 0 comps) \<or> (\<exists>c n. root = Root n \<and> comps \<noteq> [] \<and> hd comps = c \<and> \<not> cm_cyclic c \<and> n = hd (cm_members c) \<and> stages = drop 1 comps)"
  using assms by (auto simp: root_of_def drop_Suc split: if_splits list.splits option.splits)

lemma build_stages_ok:
  "build_stages p cs = None \<Longrightarrow> c \<in> set cs \<Longrightarrow> cm_cyclic c \<Longrightarrow>
     \<exists>spec st. cycleSpec p c = Inr spec \<and> newCycleStage p c spec = Inr st"
  by (induction cs) (auto split: if_splits sum.splits)

lemma composePipeline_Inr:
  assumes "composePipeline ord p = Some (Inr (root, lss))"
  obtains comps stages where "Validate_plan (controlled p) = None"
    "condense ord (plan_names p) (p_betas (controlled p)) (p_alphas (controlled p)) = Some comps"
    "root_of (controlled p) comps = Some (root, stages)" "lss = levels (p_betas (controlled p)) (p_alphas (controlled p)) comps stages"
    "build_stages (controlled p) (concat lss) = None"
  using assms controlled_names[of p]
  by (auto simp: composePipeline_def Let_def plan_names_def split: option.splits prod.splits)

definition stage_members :: "component list list \<Rightarrow> string list" where
  "stage_members lss = concat (map cm_members (concat lss))"

definition root_members :: "pipeline_root \<Rightarrow> string set" where
  "root_members root = (case root of Seed _ \<Rightarrow> {} | Root n \<Rightarrow> {n})"

lemma distinct_set_singleton: "distinct xs \<Longrightarrow> set xs = {x} \<Longrightarrow> xs = [x]"
  by (cases xs; cases "tl xs") auto

lemma root_first:
  assumes s: "condense ord xs betas alphas = Some comps" and ord: "fst ` depends xs betas alphas \<subseteq> set ord" "set ord \<subseteq> set xs"
    and c: "comps \<noteq> []" "\<not> cm_cyclic (hd comps)"
  shows "cm_members (hd comps) = [hd (cm_members (hd comps))]" "(u, hd (cm_members (hd comps))) \<notin> depends xs betas alphas"
proof -
  let ?R = "depends xs betas alphas" and ?n = "hd (cm_members (hd comps))"
  from condense_spec[OF ord] s have d: "distinct (concat (map cm_members comps))" and cover: "set (concat (map cm_members comps)) = set xs"
    and scc: "\<forall>c\<in>set comps. \<forall>v\<in>set (cm_members c). set (cm_members c) = {w. (v, w) \<in> ?R\<^sup>* \<and> (w, v) \<in> ?R\<^sup>*} \<and> (cm_cyclic c \<longleftrightarrow> (v, v) \<in> ?R\<^sup>+)"
    and top: "\<forall>i<length comps. \<forall>j<length comps. \<forall>v\<in>set (cm_members (comps ! i)). \<forall>w\<in>set (cm_members (comps ! j)). (v, w) \<in> ?R \<longrightarrow> i \<le> j"
    by auto
  have hd: "hd comps \<in> set comps" using c(1) by simp
  have n: "?n \<in> set (cm_members (hd comps))" using condense_nonempty[OF ord s] hd by simp
  then have e: "set (cm_members (hd comps)) = {w. (?n, w) \<in> ?R\<^sup>* \<and> (w, ?n) \<in> ?R\<^sup>*}" "(?n, ?n) \<notin> ?R\<^sup>+" using scc hd c(2) by blast+
  have one: "set (cm_members (hd comps)) = {?n}"
  proof (rule antisym)
    show "set (cm_members (hd comps)) \<subseteq> {?n}" unfolding e(1) using e(2) by (auto dest!: rtranclD intro: trancl_trans)
  qed (use n in simp)
  have dh: "distinct (cm_members (hd comps))" using d hd by (auto simp: distinct_concat_iff)
  show "cm_members (hd comps) = [?n]" by (rule distinct_set_singleton[OF dh one])
  show "(u, ?n) \<notin> ?R"
  proof
    assume u: "(u, ?n) \<in> ?R"
    then have "u \<in> set (concat (map cm_members comps))" unfolding cover by (simp add: depends_def)
    then obtain i where i: "i < length comps" "u \<in> set (cm_members (comps ! i))" by (auto dest!: in_set_conv_nth[THEN iffD1, of _ comps])
    then have "i = 0" using top[rule_format, of i 0 u ?n] u n c(1) by (simp add: hd_conv_nth)
    then have "u = ?n" using i one c(1) by (simp add: hd_conv_nth)
    then show False using u e(2) by blast
  qed
qed

definition composed_ok :: "Plan \<Rightarrow> pipeline_root \<Rightarrow> component list list \<Rightarrow> bool" where
  "composed_ok q root lss \<longleftrightarrow>
     (\<forall>x\<in>set (p_exchanges q). \<forall>attr\<in>set (x_in x).
        (\<exists>e\<in>set (p_betas q). be_to e = x_name x \<and> be_tgt e = attr) \<or> (\<exists>v. p_inputs q attr = Some v \<and> \<not> emptyValue v)) \<and>
     distinct (stage_members lss) \<and> set (stage_members lss) = set (plan_names q) - root_members root \<and> root_members root \<subseteq> set (plan_names q) \<and>
     (\<forall>u. \<forall>n\<in>root_members root. (u, n) \<notin> plan_depends q) \<and>
     (\<forall>c\<in>set (concat lss). cm_cyclic c \<longrightarrow>
        (\<exists>spec st. cycleSpec q c = Inr spec \<and> WellFounded spec = None \<and> newCycleStage q c spec = Inr st \<and> cs_entries st \<noteq> [])) \<and>
     (\<forall>i<length lss. \<forall>j<length lss. \<forall>a\<in>set (lss ! i). \<forall>b\<in>set (lss ! j). \<forall>u\<in>set (cm_members a). \<forall>v\<in>set (cm_members b).
        (u, v) \<in> plan_depends q \<longrightarrow> a = b \<or> i < j)"

lemma root_partition:
  assumes s: "condense ord (plan_names q) (p_betas q) (p_alphas q) = Some comps"
    and ord: "fst ` plan_depends q \<subseteq> set ord" "set ord \<subseteq> set (plan_names q)" and r: "root_of q comps = Some (root, stages)"
  shows "\<exists>k. stages = drop k comps" "distinct (concat (map cm_members stages))"
    "set (concat (map cm_members stages)) = set (plan_names q) - root_members root" "root_members root \<subseteq> set (plan_names q)"
    "\<forall>u. \<forall>n\<in>root_members root. (u, n) \<notin> plan_depends q"
proof -
  note ord' = ord(1)[unfolded plan_depends_def] ord(2)
  from condense_spec[OF ord'] s have d: "distinct (concat (map cm_members comps))"
    and cover: "set (concat (map cm_members comps)) = set (plan_names q)" by auto
  show "\<exists>k. stages = drop k comps" using root_of_stages[OF r] by blast
  have "distinct (concat (map cm_members stages)) \<and> set (concat (map cm_members stages)) = set (plan_names q) - root_members root \<and>
      root_members root \<subseteq> set (plan_names q) \<and> (\<forall>u. \<forall>n\<in>root_members root. (u, n) \<notin> plan_depends q)"
  proof (cases root)
    case (Seed row)
    then have "stages = comps" using root_of_stages[OF r] by simp
    then show ?thesis using Seed d cover by (simp add: root_members_def)
  next
    case (Root n)
    then have c: "comps \<noteq> []" "\<not> cm_cyclic (hd comps)" "n = hd (cm_members (hd comps))" "stages = tl comps"
      using root_of_stages[OF r] by (auto simp: drop_Suc)
    note f = root_first[OF s ord' c(1,2), folded c(3) plan_depends_def]
    have "concat (map cm_members comps) = n # concat (map cm_members stages)"
      using f(1) c(1,4) by (cases comps) auto
    then show ?thesis using d cover f(2) Root by (auto simp: root_members_def)
  qed
  then show "distinct (concat (map cm_members stages))" "set (concat (map cm_members stages)) = set (plan_names q) - root_members root"
    "root_members root \<subseteq> set (plan_names q)" "\<forall>u. \<forall>n\<in>root_members root. (u, n) \<notin> plan_depends q" by blast+
qed

lemma composed_ok_stages:
  assumes s: "condense ord (plan_names q) (p_betas q) (p_alphas q) = Some comps"
    and ord: "fst ` plan_depends q \<subseteq> set ord" "set ord \<subseteq> set (plan_names q)" and r: "root_of q comps = Some (root, stages)"
    and v: "Validate_plan q = None" and lss: "lss = levels (p_betas q) (p_alphas q) comps stages" and b: "build_stages q (concat lss) = None"
  shows "composed_ok q root lss"
proof -
  note part = root_partition[OF s ord r]
  from part(1) obtain k where k: "stages = drop k comps" by blast
  note l = levels_spec[OF ord(1)[unfolded plan_depends_def] ord(2) s, of k, folded k, folded lss]
  have m: "mset (concat lss) = mset stages" using l by blast
  have cyc: "\<exists>spec st. cycleSpec q c = Inr spec \<and> WellFounded spec = None \<and> newCycleStage q c spec = Inr st \<and> cs_entries st \<noteq> []"
    if "c \<in> set (concat lss)" "cm_cyclic c" for c
    using build_stages_ok[OF b that] cycleSpec_wf newCycleStage_spec by blast
  show ?thesis
    unfolding composed_ok_def stage_members_def
    using v[unfolded Validate_plan_iff] concat_perm[OF m, of cm_members] part(2-5) cyc l[folded plan_depends_def] by simp
qed

text \<open>C29: composing a plan either refuses it or gives a pipeline that can run. It never panics where the plan
  has an exchange or an input. In the pipeline every input of every exchange is fed by an edge or by a
  constant that is not empty; every exchange is the root or a member of exactly one stage; nothing feeds
  the root; every cycle has a well-founded termination and an entry; and a stage stands in a strictly
  later level than every other stage it depends on, so that the stages run side by side are independent.\<close>

theorem composed_plan_sound:
  assumes "fst ` plan_depends (controlled p) \<subseteq> set ord" "set ord \<subseteq> set (plan_names p)"
  shows "(p_exchanges p \<noteq> [] \<or> dom (p_inputs p) \<noteq> {} \<longrightarrow> composePipeline ord p \<noteq> None) \<and>
    (\<forall>root lss. composePipeline ord p = Some (Inr (root, lss)) \<longrightarrow> composed_ok (controlled p) root lss)"
proof (intro conjI impI allI)
  let ?q = "controlled p"
  have ord: "fst ` plan_depends ?q \<subseteq> set ord" "set ord \<subseteq> set (plan_names ?q)" using assms by simp_all
  note ord' = ord(1)[unfolded plan_depends_def] ord(2)
  assume ne: "p_exchanges p \<noteq> [] \<or> dom (p_inputs p) \<noteq> {}"
  from condense_spec[OF ord'] obtain comps where
    c: "condense ord (plan_names ?q) (p_betas ?q) (p_alphas ?q) = Some comps" "set (concat (map cm_members comps)) = set (plan_names ?q)" by blast
  have "plan_names ?q \<noteq> [] \<or> dom (p_inputs ?q) \<noteq> {}" using ne by (simp add: plan_names_def[of p])
  from root_of_total[OF c(2) condense_nonempty[OF ord' c(1)] this] show "composePipeline ord p \<noteq> None"
    using c(1)[unfolded plan_names_def] by (auto simp: composePipeline_def Let_def split: option.split)
next
  let ?q = "controlled p"
  fix root lss assume "composePipeline ord p = Some (Inr (root, lss))"
  then obtain comps stages where s: "Validate_plan ?q = None" "condense ord (plan_names ?q) (p_betas ?q) (p_alphas ?q) = Some comps"
    "root_of ?q comps = Some (root, stages)" "lss = levels (p_betas ?q) (p_alphas ?q) comps stages" "build_stages ?q (concat lss) = None"
    by (metis composePipeline_Inr controlled_names)
  show "composed_ok ?q root lss" by (rule composed_ok_stages[OF s(2) _ _ s(3) s(1) s(4,5)]) (use assms in simp_all)
qed

lemma page_composed: "composePipeline [''page''] page_plan = Some (Inr (Seed (p_inputs page_plan), [[page_comp]]))"
proof -
  have n: "map x_name (p_exchanges page_plan) = [''page'']" by (simp add: page_plan_def page_exchange_def)
  have v: "Validate_plan page_plan = None" by (simp add: Validate_plan_iff page_plan_def page_exchange_def)
  have r: "root_of page_plan [page_comp] = Some (Seed (p_inputs page_plan), [page_comp])" by (simp add: root_of_def page_plan_def)
  have l: "levels (p_betas page_plan) (p_alphas page_plan) [page_comp] [page_comp] = [[page_comp]]"
    unfolding page_plan_def page_comp_def Plan.simps by code_simp
  have c: "cycle_specs page_plan [page_comp] = None" "build_stages page_plan [page_comp] = None"
    using page_checked by (simp_all add: page_comp_def)
  show ?thesis
    unfolding composePipeline_def Let_def page_controlled n page_condense
    by (simp add: v r l c del: cycle_specs.simps build_stages.simps)
qed

theorem composed_plan_sound_witness:
  "composePipeline [''page''] page_plan = Some (Inr (Seed (p_inputs page_plan), [[page_comp]])) \<and>
   composed_ok page_plan (Seed (p_inputs page_plan)) [[page_comp]]"
proof -
  have n: "plan_names page_plan = [''page'']" by (simp add: plan_names_def page_plan_def page_exchange_def)
  have o: "fst ` plan_depends (controlled page_plan) \<subseteq> set [''page'']" "set [''page''] \<subseteq> set (plan_names page_plan)"
    by (auto simp: plan_depends_def depends_def n)
  from composed_plan_sound[OF o] page_composed show ?thesis unfolding page_controlled by blast
qed

text \<open>Without an exchange and without an input there is no first component to index.\<close>

lemma empty_plan_panics:
  "composePipeline [] \<lparr>p_exchanges = [], p_betas = [], p_alphas = [], p_inputs = Map.empty, p_terminations = Map.empty\<rparr> = None"
proof -
  have "condense [] [] [] [] = Some []" by code_simp
  then show ?thesis by (simp add: composePipeline_def controlled_def Validate_plan_def missing_inputs_def root_of_def)
qed

end
