(* ===== verification/Plan_Output.thy ===== *)
theory Plan_Output
  imports Flow_Control "HOL-Library.Sublist"
begin

section \<open>Terminals of a plan: internal/system\_g/plan, output and merge\<close>

text \<open>
  A terminal pulls its upstream's records, shapes each by the egress chain, takes a slot of the run-wide
  result budget and hands the record to its sink. Several terminals of one run share the budget and the
  abort signal. Each terminal carries the records its upstream still has, the error the upstream ends
  with, the record it holds a slot for with whether that slot was the last, and the records its sink
  took; once it has ended, the error it returned. Taking a slot and sinking are separate steps, since
  other terminals run in between. A sink may fail at any time, and once the run is aborted an upstream
  may end early: both are choices of the step relation.
\<close>

type_synonym 'r transform = "'r \<Rightarrow> 'r option result"

fun applyEgress :: "'r transform list \<Rightarrow> 'r \<Rightarrow> 'r option result" where
  "applyEgress [] r = Inr (Some r)"
| "applyEgress (tr # trs) r = (case tr r of
     Inl e \<Rightarrow> Inl e
   | Inr None \<Rightarrow> Inr None
   | Inr (Some r') \<Rightarrow> applyEgress trs r')"

record 'r terminal =
  t_trs :: "'r transform list"
  t_in :: "'r list"
  t_inerr :: "err option"
  t_hold :: "('r \<times> bool) option"
  t_out :: "'r list"
  t_end :: "err option option"

record 'r outputs =
  o_terms :: "'r terminal list"
  o_budget :: "Budget option"
  o_aborted :: bool

text \<open>One turn of the loop up to the sink: the budget afterwards, whether the run is aborted, and the
  terminal.\<close>

definition drain_pull :: "Budget option \<Rightarrow> 'r terminal \<Rightarrow> Budget option \<times> bool \<times> 'r terminal" where
  "drain_pull b t = (case t_in t of
     [] \<Rightarrow> (b, False, t\<lparr>t_end := Some (t_inerr t)\<rparr>)
   | r # rs \<Rightarrow> (let t' = t\<lparr>t_in := rs\<rparr> in
       case applyEgress (t_trs t) r of
         Inl e \<Rightarrow> (b, False, t'\<lparr>t_end := Some (Some e)\<rparr>)
       | Inr None \<Rightarrow> (b, False, t')
       | Inr (Some x) \<Rightarrow> (case b of
           None \<Rightarrow> (None, False, t'\<lparr>t_hold := Some (x, False)\<rparr>)
         | Some bu \<Rightarrow> (case Take bu of (bu', ok, final) \<Rightarrow>
             if \<not> ok then (Some bu', True, t'\<lparr>t_end := Some None\<rparr>)
             else (Some bu', False, t'\<lparr>t_hold := Some (x, final)\<rparr>)))))"

text \<open>The sink's answer to a held record.\<close>

definition drain_sink :: "err option \<Rightarrow> 'r \<times> bool \<Rightarrow> 'r terminal \<Rightarrow> bool \<times> 'r terminal" where
  "drain_sink res h t = (case res of
     Some e \<Rightarrow> (False, t\<lparr>t_hold := None, t_end := Some (Some e)\<rparr>)
   | None \<Rightarrow> (snd h, t\<lparr>t_hold := None, t_out := t_out t @ [fst h], t_end := (if snd h then Some None else None)\<rparr>))"

definition set_term :: "nat \<Rightarrow> 'r terminal \<Rightarrow> bool \<Rightarrow> 'r outputs \<Rightarrow> 'r outputs" where
  "set_term i t a s = s\<lparr>o_terms := (o_terms s)[i := t], o_aborted := o_aborted s \<or> a\<rparr>"

inductive output_step :: "'r outputs \<Rightarrow> 'r outputs \<Rightarrow> bool" where
  pull: "i < length (o_terms s) \<Longrightarrow> t = o_terms s ! i \<Longrightarrow> t_end t = None \<Longrightarrow> t_hold t = None \<Longrightarrow>
    drain_pull (o_budget s) t = (b, a, t') \<Longrightarrow> output_step s ((set_term i t' a s)\<lparr>o_budget := b\<rparr>)"
| sink: "i < length (o_terms s) \<Longrightarrow> t = o_terms s ! i \<Longrightarrow> t_end t = None \<Longrightarrow> t_hold t = Some h \<Longrightarrow>
    drain_sink res h t = (a, t') \<Longrightarrow> output_step s (set_term i t' a s)"
| cancelled: "i < length (o_terms s) \<Longrightarrow> t = o_terms s ! i \<Longrightarrow> t_end t = None \<Longrightarrow> t_hold t = None \<Longrightarrow> o_aborted s \<Longrightarrow>
    output_step s (set_term i (t\<lparr>t_in := [], t_inerr := e\<rparr>) False s)"

inductive_cases output_stepE: "output_step s s'"

definition terminal_fresh :: "'r terminal \<Rightarrow> bool" where
  "terminal_fresh t \<longleftrightarrow> t_hold t = None \<and> t_out t = [] \<and> t_end t = None"

subsection \<open>What one terminal emits\<close>

text \<open>The records the egress chain lets through.\<close>

definition survivors :: "'r transform list \<Rightarrow> 'r list \<Rightarrow> 'r list" where
  "survivors trs rs = List.map_filter (\<lambda>r. case applyEgress trs r of Inr (Some x) \<Rightarrow> Some x | _ \<Rightarrow> None) rs"

lemma survivors_simps [simp]:
  "survivors trs [] = []"
  "survivors trs (r # rs) = (case applyEgress trs r of Inr (Some x) \<Rightarrow> x # survivors trs rs | _ \<Rightarrow> survivors trs rs)"
  by (auto simp: survivors_def List.map_filter_simps split: sum.split option.split)

lemma survivors_append [simp]: "survivors trs (rs @ ss) = survivors trs rs @ survivors trs ss"
  by (induction rs) (auto split: sum.split option.split)

definition held :: "'r terminal \<Rightarrow> 'r list" where
  "held t = (case t_hold t of None \<Rightarrow> [] | Some (r, _) \<Rightarrow> [r])"

text \<open>How a terminal stands to the one it began as: while it runs, it has emitted or holds what the
  egress lets through of the records it has read; an aborted run may have cut off the rest.\<close>

definition term_inv :: "bool \<Rightarrow> 'r terminal \<Rightarrow> 'r terminal \<Rightarrow> bool" where
  "term_inv ab t0 t \<longleftrightarrow> t_trs t = t_trs t0 \<and> (t_end t \<noteq> None \<longrightarrow> t_hold t = None) \<and>
     prefix (t_out t @ held t) (survivors (t_trs t0) (t_in t0)) \<and>
     (\<not> ab \<longrightarrow> t_inerr t = t_inerr t0) \<and>
     (t_end t = None \<longrightarrow> \<not> ab \<longrightarrow> t_out t @ held t @ survivors (t_trs t0) (t_in t) = survivors (t_trs t0) (t_in t0)) \<and>
     (t_end t = None \<longrightarrow> ab \<longrightarrow> prefix (t_out t @ held t @ survivors (t_trs t0) (t_in t)) (survivors (t_trs t0) (t_in t0))) \<and>
     (t_end t = Some None \<longrightarrow> \<not> ab \<longrightarrow> t_out t = survivors (t_trs t0) (t_in t0))"

lemma term_inv_abort: "term_inv ab t0 t \<Longrightarrow> term_inv (ab \<or> a) t0 t"
  by (auto simp: term_inv_def)

lemma term_inv_pull:
  assumes i: "term_inv ab t0 t" and r: "t_end t = None" "t_hold t = None" "drain_pull b t = (b', a, t')"
  shows "term_inv (ab \<or> a) t0 t'"
proof (cases "t_in t")
  case Nil
  then have "t' = t\<lparr>t_end := Some (t_inerr t)\<rparr>" "\<not> a" using r(3) by (auto simp: drain_pull_def)
  then show ?thesis using i r Nil by (auto simp: term_inv_def held_def)
next
  case (Cons x xs)
  have p: "t_trs t = t_trs t0" "prefix (t_out t @ survivors (t_trs t0) (x # xs)) (survivors (t_trs t0) (t_in t0))"
    "\<not> ab \<Longrightarrow> t_out t @ survivors (t_trs t0) (x # xs) = survivors (t_trs t0) (t_in t0)"
    using i r(1,2) Cons by (auto simp: term_inv_def held_def)
  show ?thesis
  proof (cases "applyEgress (t_trs t) x")
    case (Inl e)
    then have "t' = t\<lparr>t_in := xs, t_end := Some (Some e)\<rparr>" "\<not> a" using r(3) Cons by (auto simp: drain_pull_def)
    then show ?thesis using i r by (auto simp: term_inv_def held_def)
  next
    case (Inr q)
    show ?thesis
    proof (cases q)
      case None
      then have "t' = t\<lparr>t_in := xs\<rparr>" "\<not> a" using r(3) Cons Inr by (auto simp: drain_pull_def)
      then show ?thesis using i r Cons Inr None p by (auto simp: term_inv_def held_def)
    next
      case (Some y)
      have pre: "prefix (t_out t) (survivors (t_trs t0) (t_in t0))" "prefix (t_out t @ [y]) (survivors (t_trs t0) (t_in t0))"
        using p Inr Some by (auto simp: prefix_def)
      consider f where "t' = t\<lparr>t_in := xs, t_hold := Some (y, f)\<rparr>" | "t' = t\<lparr>t_in := xs, t_end := Some None\<rparr>" a
        using r(3) Cons Inr Some by (auto simp: drain_pull_def Let_def split: option.splits if_splits prod.splits)
      then show ?thesis
      proof cases
        case 1
        then show ?thesis using i r Cons Inr Some p pre by (auto simp: term_inv_def held_def)
      next
        case 2
        then show ?thesis using i r pre by (auto simp: term_inv_def held_def)
      qed
    qed
  qed
qed

lemma term_inv_sink:
  assumes i: "term_inv ab t0 t" and r: "t_end t = None" "t_hold t = Some h" "drain_sink res h t = (a, t')"
  shows "term_inv (ab \<or> a) t0 t'"
proof -
  have pre: "prefix (t_out t @ [fst h]) (survivors (t_trs t0) (t_in t0))" using i r(2) by (auto simp: term_inv_def held_def split: prod.splits)
  then have pre': "prefix (t_out t) (survivors (t_trs t0) (t_in t0))" by (rule append_prefixD)
  show ?thesis
  proof (cases res)
    case None
    then have "t' = t\<lparr>t_hold := None, t_out := t_out t @ [fst h], t_end := (if a then Some None else None)\<rparr>"
      using r(3) by (auto simp: drain_sink_def)
    then show ?thesis using i r(1,2) pre by (auto simp: term_inv_def held_def split: prod.splits)
  next
    case (Some e)
    then have "t' = t\<lparr>t_hold := None, t_end := Some (Some e)\<rparr>" using r(3) by (auto simp: drain_sink_def)
    then show ?thesis using i r(1,2) pre' by (auto simp: term_inv_def held_def)
  qed
qed

lemma term_inv_cancelled:
  assumes "term_inv True t0 t" "t_end t = None" "t_hold t = None"
  shows "term_inv True t0 (t\<lparr>t_in := [], t_inerr := e\<rparr>)"
  using assms by (auto simp: term_inv_def held_def)

definition terms_inv :: "'r terminal list \<Rightarrow> 'r outputs \<Rightarrow> bool" where
  "terms_inv ts s \<longleftrightarrow> list_all2 (term_inv (o_aborted s)) ts (o_terms s)"

lemma terms_inv_set:
  assumes "terms_inv ts s" "i < length (o_terms s)" "term_inv (o_aborted s \<or> a) (ts ! i) t'"
  shows "terms_inv ts (set_term i t' a s)"
  using assms by (auto intro: term_inv_abort simp: terms_inv_def set_term_def list_all2_conv_all_nth nth_list_update)

lemma terms_inv_step:
  assumes "output_step s s'" and inv: "terms_inv ts s"
  shows "terms_inv ts s'"
  using assms(1)
proof cases
  case (pull i t b a t')
  then have "terms_inv ts (set_term i t' a s)"
    using inv by (intro terms_inv_set term_inv_pull[of _ _ t "o_budget s"]) (auto simp: terms_inv_def list_all2_conv_all_nth)
  then show ?thesis using pull(1) by (simp add: terms_inv_def)
next
  case (sink i t h res a t')
  have "terms_inv ts (set_term i t' a s)"
    by (intro terms_inv_set term_inv_sink[of _ _ t h res]) (use inv sink in \<open>auto simp: terms_inv_def list_all2_conv_all_nth\<close>)
  then show ?thesis using sink(1) by simp
next
  case (cancelled i t e)
  have "term_inv True (ts ! i) t" using inv cancelled by (auto simp: terms_inv_def list_all2_conv_all_nth)
  then have "term_inv (o_aborted s \<or> False) (ts ! i) (t\<lparr>t_in := [], t_inerr := e\<rparr>)"
    using term_inv_cancelled cancelled by auto
  then show ?thesis using cancelled inv terms_inv_set[of ts s i False] by simp
qed

subsection \<open>What all terminals emit\<close>

definition total :: "('r terminal \<Rightarrow> nat) \<Rightarrow> 'r outputs \<Rightarrow> nat" where
  "total f s = sum_list (map f (o_terms s))"

definition slots :: "'r terminal \<Rightarrow> nat" where
  "slots t = length (t_out t) + length (held t)"

definition failed :: "'r terminal \<Rightarrow> nat" where
  "failed t = (case t_end t of Some (Some _) \<Rightarrow> 1 | _ \<Rightarrow> 0)"

definition unread :: "'r terminal \<Rightarrow> nat" where
  "unread t = length (t_in t)"

lemma total_set:
  assumes "i < length (o_terms s)"
  shows "total f (set_term i t' a s) + f (o_terms s ! i) = total f s + f t'"
proof -
  have "f (o_terms s ! i) \<le> total f s" unfolding total_def using assms by (intro member_le_sum_list) simp_all
  then show ?thesis using assms by (simp add: total_def set_term_def map_update sum_list_update)
qed

lemma Take_at: "int c + 1 < 2 ^ 63 \<Longrightarrow> Take \<lparr>b_limit = n, b_count = int c\<rparr> =
    (\<lparr>b_limit = n, b_count = int (Suc c)\<rparr>, int (Suc c) \<le> n, int (Suc c) = n)"
proof -
  assume "int c + 1 < 2 ^ 63"
  then have "wrap64 (int c + 1) = int c + 1" by (intro wrap64_id) linarith+
  then show ?thesis by (simp add: Take_def Let_def add.commute)
qed

text \<open>How a pull moves the count: not at all, or by one for one record read, which is then held where
  the count is within the limit and ends the terminal where it is not.\<close>

lemma drain_pull_cases:
  assumes "drain_pull (Some \<lparr>b_limit = int n, b_count = int c\<rparr>) t = (b, a, t')" "t_end t = None" "t_hold t = None" "c + unread t < 2 ^ 63"
  obtains (same) "b = Some \<lparr>b_limit = int n, b_count = int c\<rparr>" "\<not> a" "slots t' = slots t" "t_hold t' = None" "unread t' \<le> unread t"
    | (granted) x where "b = Some \<lparr>b_limit = int n, b_count = int (Suc c)\<rparr>" "\<not> a" "c < n" "slots t' = Suc (slots t)" "failed t' = 0"
        "t_hold t' = Some (x, Suc c = n)" "Suc (unread t') = unread t"
    | (spent) "b = Some \<lparr>b_limit = int n, b_count = int (Suc c)\<rparr>" a "n \<le> c" "slots t' = slots t" "failed t' = 0" "t_hold t' = None"
        "Suc (unread t') = unread t"
proof (cases "t_in t")
  case Nil
  then show ?thesis using assms(1,3) by (intro same) (auto simp: drain_pull_def slots_def held_def unread_def)
next
  case (Cons r rs)
  then have "c + 1 < 2 ^ 63" using assms(4) by (simp add: unread_def)
  then have "int (c + 1) < int (2 ^ 63)" by (rule of_nat_less_iff[THEN iffD2])
  then have T: "Take \<lparr>b_limit = int n, b_count = int c\<rparr> = (\<lparr>b_limit = int n, b_count = int (Suc c)\<rparr>, Suc c \<le> n, Suc c = n)"
    using Take_at[of c "int n"] by (simp del: of_nat_Suc)
  show ?thesis
  proof (cases "\<exists>x. applyEgress (t_trs t) r = Inr (Some x)")
    case True
    then obtain x where x: "applyEgress (t_trs t) r = Inr (Some x)" by blast
    show ?thesis
    proof (cases "c < n")
      case True
      then have "b = Some \<lparr>b_limit = int n, b_count = int (Suc c)\<rparr>" "\<not> a" "t' = t\<lparr>t_in := rs, t_hold := Some (x, Suc c = n)\<rparr>"
        using assms(1) Cons x T by (auto simp: drain_pull_def Let_def)
      then show ?thesis using True assms(2,3) Cons by (intro granted[of x]) (auto simp: slots_def held_def failed_def unread_def)
    next
      case False
      then have "b = Some \<lparr>b_limit = int n, b_count = int (Suc c)\<rparr>" "a" "t' = t\<lparr>t_in := rs, t_end := Some None\<rparr>"
        using assms(1) Cons x T by (auto simp: drain_pull_def Let_def)
      then show ?thesis using False assms(2,3) Cons by (intro spent) (auto simp: slots_def held_def failed_def unread_def)
    qed
  next
    case False
    then show ?thesis using assms(1,3) Cons
      by (intro same) (auto simp: drain_pull_def Let_def slots_def held_def unread_def split: sum.splits option.splits)
  qed
qed

text \<open>The slots granted so far are those the terminals filled or hold, but for one that each failed
  terminal may have lost; the run is only aborted once all are granted.\<close>

definition budget_inv :: "nat \<Rightarrow> nat \<Rightarrow> 'r outputs \<Rightarrow> bool" where
  "budget_inv n m s \<longleftrightarrow> (\<exists>c. o_budget s = Some \<lparr>b_limit = int n, b_count = int c\<rparr> \<and> c + total unread s \<le> m \<and>
     total slots s \<le> min c n \<and> min c n \<le> total slots s + total failed s \<and> (o_aborted s \<longrightarrow> n \<le> c) \<and>
     (\<forall>t\<in>set (o_terms s). \<forall>r. t_hold t = Some (r, True) \<longrightarrow> n \<le> c))"

lemma set_term_in: "t \<in> set (o_terms (set_term i t' a s)) \<Longrightarrow> t = t' \<or> t \<in> set (o_terms s)"
  using set_update_subset_insert[of "o_terms s" i t'] by (auto simp: set_term_def)

lemma set_term_simps [simp]:
  "o_aborted (set_term i t a s) = (o_aborted s \<or> a)" "o_budget (set_term i t a s) = o_budget s"
  by (simp_all add: set_term_def)

lemma total_budget [simp]: "total f (s\<lparr>o_budget := b\<rparr>) = total f s"
  by (simp add: total_def)

lemma budget_inv_step:
  assumes "output_step s s'" and inv: "budget_inv n m s" and m: "m < 2 ^ 63"
  shows "budget_inv n m s'"
proof -
  obtain c where c: "o_budget s = Some \<lparr>b_limit = int n, b_count = int c\<rparr>" "c + total unread s \<le> m"
    "total slots s \<le> min c n" "min c n \<le> total slots s + total failed s" "o_aborted s \<longrightarrow> n \<le> c"
    "\<forall>t\<in>set (o_terms s). \<forall>r. t_hold t = Some (r, True) \<longrightarrow> n \<le> c" using inv by (auto simp: budget_inv_def)
  from assms(1) show ?thesis
  proof cases
    case (pull i t b a t')
    note T = total_set[OF pull(2), of _ t' a, folded pull(3)]
    have "unread t \<le> total unread s" unfolding total_def using pull(2,3) by (intro member_le_sum_list) simp_all
    then have lt: "c + unread t < 2 ^ 63" using c(2) m by simp
    have f0: "failed t = 0" using pull(4) by (simp add: failed_def)
    note N = T[of unread] T[of slots] T[of failed] f0
    from pull(6)[unfolded c(1)] pull(4,5) lt show ?thesis
    proof (cases rule: drain_pull_cases)
      case same
      show ?thesis unfolding budget_inv_def pull(1)
        by (rule exI[of _ c]) (use same c N in \<open>auto dest!: set_term_in simp del: of_nat_Suc\<close>)
    next
      case (granted x)
      show ?thesis unfolding budget_inv_def pull(1)
        by (rule exI[of _ "Suc c"]) (use granted c N in \<open>auto dest!: set_term_in simp del: of_nat_Suc\<close>)
    next
      case spent
      show ?thesis unfolding budget_inv_def pull(1)
        by (rule exI[of _ "Suc c"]) (use spent c N in \<open>auto dest!: set_term_in simp del: of_nat_Suc\<close>)
    qed
  next
    case (sink i t h res a t')
    note T = total_set[OF sink(2), of _ t' a, folded sink(3)]
    have f0: "failed t = 0" using sink(4) by (simp add: failed_def)
    have "t \<in> set (o_terms s)" using sink(2,3) by simp
    then have h: "snd h \<Longrightarrow> n \<le> c" using c(6) sink(5) by (cases h) auto
    have s: "unread t' = unread t" "t_hold t' = None" "slots t' \<le> slots t" "slots t \<le> slots t' + failed t'" "a \<Longrightarrow> snd h"
      using sink(5,6) by (auto simp: drain_sink_def unread_def slots_def held_def failed_def split: option.splits prod.splits)
    show ?thesis unfolding budget_inv_def sink(1)
      by (rule exI[of _ c]) (use s h c T[of unread] T[of slots] T[of failed] f0 in \<open>auto dest!: set_term_in\<close>)
  next
    case (cancelled i t e)
    let ?t = "t\<lparr>t_in := [], t_inerr := e\<rparr>"
    note T = total_set[OF cancelled(2), of _ ?t False, folded cancelled(3)]
    have s: "unread ?t = 0" "slots ?t = slots t" "failed ?t = failed t" "t_hold ?t = None"
      using cancelled(5) by (simp_all add: unread_def slots_def held_def failed_def)
    show ?thesis unfolding budget_inv_def cancelled(1)
      by (rule exI[of _ c]) (use s c T[of unread] T[of slots] T[of failed] in \<open>auto dest!: set_term_in\<close>)
  qed
qed

definition outputs_init :: "Budget option \<Rightarrow> 'r terminal list \<Rightarrow> 'r outputs" where
  "outputs_init b ts = \<lparr>o_terms = ts, o_budget = b, o_aborted = False\<rparr>"

lemma terms_inv_reach:
  assumes "output_step\<^sup>*\<^sup>* (outputs_init b ts) s" "\<forall>t\<in>set ts. terminal_fresh t"
  shows "terms_inv ts s"
  using assms(1)
proof induction
  case base
  have "term_inv False t t" if "t \<in> set ts" for t using assms(2) that by (auto simp: term_inv_def terminal_fresh_def held_def)
  then show ?case by (simp add: terms_inv_def outputs_init_def list_all2_conv_all_nth)
qed (rule terms_inv_step)

lemma budget_inv_reach:
  assumes r: "output_step\<^sup>*\<^sup>* (outputs_init (WithLimit (int n)) ts) s" and f: "\<forall>t\<in>set ts. terminal_fresh t"
    and n: "0 < n" and m: "sum_list (map unread ts) < 2 ^ 63"
  shows "budget_inv n (sum_list (map unread ts)) s"
  using r
proof induction
  case base
  have z: "sum_list (map g ts) = 0" if "\<And>t. terminal_fresh t \<Longrightarrow> g t = 0" for g :: "'a terminal \<Rightarrow> nat"
    using f that by (simp add: sum_list_eq_0_iff)
  have "sum_list (map slots ts) = 0" "sum_list (map failed ts) = 0"
    by (rule z, simp add: terminal_fresh_def slots_def held_def failed_def)+
  then show ?case using n f by (auto simp: budget_inv_def outputs_init_def WithLimit_def total_def terminal_fresh_def simp del: sum_list_eq_0_iff intro!: exI[of _ 0])
qed (use budget_inv_step m in blast)

lemma sum_list_all2: "list_all2 (\<lambda>a b. f a = g b) xs ys \<Longrightarrow> sum_list (map f xs) = sum_list (map g ys)"
  by (induction rule: list_all2_induct) simp_all

lemma sum_list_le_all2: "list_all2 (\<lambda>a b. f a \<le> (g b :: nat)) xs ys \<Longrightarrow> sum_list (map f xs) \<le> sum_list (map g ys)"
  by (induction rule: list_all2_induct) simp_all

lemma term_inv_slots: "term_inv ab t0 t \<Longrightarrow> slots t \<le> length (survivors (t_trs t0) (t_in t0))"
  using prefix_length_le[of "t_out t @ held t"] by (auto simp: term_inv_def slots_def)

lemma all_ended:
  assumes i: "terms_inv ts s" and e: "\<forall>t\<in>set (o_terms s). t_end t = Some None"
  shows "total slots s = total (length \<circ> t_out) s" "total failed s = 0"
    "\<not> o_aborted s \<Longrightarrow> total slots s = sum_list (map (\<lambda>t. length (survivors (t_trs t) (t_in t))) ts)"
    "total slots s \<le> sum_list (map (\<lambda>t. length (survivors (t_trs t) (t_in t))) ts)"
proof -
  have h: "slots t = length (t_out t)" "failed t = 0" if "t \<in> set (o_terms s)" for t
  proof -
    note mem = that
    obtain k where "term_inv (o_aborted s) (ts ! k) t" using i mem by (auto simp: terms_inv_def list_all2_conv_all_nth in_set_conv_nth)
    then have "t_hold t = None" using e mem by (simp add: term_inv_def)
    then show "slots t = length (t_out t)" "failed t = 0" using e mem by (simp_all add: slots_def held_def failed_def)
  qed
  show "total slots s = total (length \<circ> t_out) s" "total failed s = 0"
    unfolding total_def using h by (auto intro!: arg_cong[where f = sum_list] simp: sum_list_eq_0_iff)
  have "list_all2 (\<lambda>u t. slots u \<le> length (survivors (t_trs t) (t_in t))) (o_terms s) ts"
    using i by (auto intro: term_inv_slots simp: terms_inv_def list_all2_conv_all_nth)
  then show "total slots s \<le> sum_list (map (\<lambda>t. length (survivors (t_trs t) (t_in t))) ts)" unfolding total_def by (rule sum_list_le_all2)
  assume "\<not> o_aborted s"
  then have "list_all2 (\<lambda>u t. slots u = length (survivors (t_trs t) (t_in t))) (o_terms s) ts"
    using i e h(1) unfolding terms_inv_def list_all2_conv_all_nth term_inv_def by auto
  then show "total slots s = sum_list (map (\<lambda>t. length (survivors (t_trs t) (t_in t))) ts)" unfolding total_def by (rule sum_list_all2)
qed

text \<open>C33: a result limit is a cap on the whole run. However many terminals share it and however they
  interleave, together they emit at most the limit; each emits, in order, the first of the records its
  egress lets through; and when every terminal has ended without an error, they have emitted the limit
  or, where there were fewer, everything there was.\<close>

theorem limit_is_global:
  assumes n: "0 < n" and fresh: "\<forall>t\<in>set ts. terminal_fresh t" and m: "sum_list (map unread ts) < 2 ^ 63"
    and r: "output_step\<^sup>*\<^sup>* (outputs_init (WithLimit (int n)) ts) s"
  shows "total (length \<circ> t_out) s \<le> n \<and> length (o_terms s) = length ts \<and>
    (\<forall>i<length ts. prefix (t_out (o_terms s ! i)) (survivors (t_trs (ts ! i)) (t_in (ts ! i)))) \<and>
    ((\<forall>t\<in>set (o_terms s). t_end t = Some None) \<longrightarrow>
       total (length \<circ> t_out) s = min n (sum_list (map (\<lambda>t. length (survivors (t_trs t) (t_in t))) ts)))"
proof -
  note ti = terms_inv_reach[OF r fresh]
  from budget_inv_reach[OF r fresh n m] obtain c where c: "total slots s \<le> min c n" "min c n \<le> total slots s + total failed s" "o_aborted s \<longrightarrow> n \<le> c"
    by (auto simp: budget_inv_def)
  have "total (length \<circ> t_out) s \<le> total slots s" unfolding total_def by (rule sum_list_mono) (simp add: slots_def)
  then have le: "total (length \<circ> t_out) s \<le> n" using c(1) by simp
  have len: "length (o_terms s) = length ts" using ti by (simp add: terms_inv_def list_all2_conv_all_nth)
  have pre: "\<forall>i<length ts. prefix (t_out (o_terms s ! i)) (survivors (t_trs (ts ! i)) (t_in (ts ! i)))"
    using ti by (auto simp: terms_inv_def list_all2_conv_all_nth term_inv_def dest: append_prefixD)
  have "total (length \<circ> t_out) s = min n (sum_list (map (\<lambda>t. length (survivors (t_trs t) (t_in t))) ts))"
    if e: "\<forall>t\<in>set (o_terms s). t_end t = Some None"
  proof (cases "o_aborted s")
    case True
    then show ?thesis using c all_ended[OF ti e] by simp
  next
    case False
    then show ?thesis using c all_ended[OF ti e] by simp
  qed
  then show ?thesis using le len pre by blast
qed

text \<open>Without a limit nothing is ever aborted, and a run without an error emits everything.\<close>

definition unlimited :: "'r outputs \<Rightarrow> bool" where
  "unlimited s \<longleftrightarrow> o_budget s = None \<and> \<not> o_aborted s \<and> (\<forall>t\<in>set (o_terms s). \<forall>r. t_hold t \<noteq> Some (r, True))"

lemma unlimited_step: "output_step s s' \<Longrightarrow> unlimited s \<Longrightarrow> unlimited s'"
proof (induction rule: output_step.induct)
  case (pull i s t b a t')
  then have "b = None \<and> \<not> a \<and> (\<forall>r. t_hold t' \<noteq> Some (r, True))"
    by (auto simp: unlimited_def drain_pull_def Let_def split: list.splits sum.splits option.splits)
  then show ?case using pull by (auto simp: unlimited_def dest!: set_term_in)
next
  case (sink i s t h res a t')
  then have "t \<in> set (o_terms s)" by simp
  then have "\<not> snd h" using sink by (cases h) (auto simp: unlimited_def)
  then have "\<not> a \<and> (\<forall>r. t_hold t' \<noteq> Some (r, True))" using sink(5) by (auto simp: drain_sink_def split: option.splits)
  then show ?case using sink by (auto simp: unlimited_def dest!: set_term_in)
next
  case (cancelled i s t e)
  then show ?case by (simp add: unlimited_def)
qed

lemma unlimited_emits_all:
  assumes fresh: "\<forall>t\<in>set ts. terminal_fresh t" and r: "output_step\<^sup>*\<^sup>* (outputs_init None ts) s"
    and e: "\<forall>t\<in>set (o_terms s). t_end t = Some None"
  shows "list_all2 (\<lambda>t u. t_out u = survivors (t_trs t) (t_in t)) ts (o_terms s)"
proof -
  have "unlimited s" using r
  proof induction
    case base
    then show ?case using fresh by (auto simp: unlimited_def outputs_init_def terminal_fresh_def)
  qed (rule unlimited_step)
  then show ?thesis using terms_inv_reach[OF r fresh] e
    by (auto simp: unlimited_def terms_inv_def term_inv_def list_all2_conv_all_nth)
qed

subsection \<open>Two terminals\<close>

definition plain_terminal :: "'r list \<Rightarrow> 'r terminal" where
  "plain_terminal rs = \<lparr>t_trs = [], t_in = rs, t_inerr = None, t_hold = None, t_out = [], t_end = None\<rparr>"

lemma step_pull: "i < length (o_terms s) \<Longrightarrow> t_end (o_terms s ! i) = None \<Longrightarrow> t_hold (o_terms s ! i) = None \<Longrightarrow>
    output_step s ((set_term i (snd (snd (drain_pull (o_budget s) (o_terms s ! i)))) (fst (snd (drain_pull (o_budget s) (o_terms s ! i)))) s)
      \<lparr>o_budget := fst (drain_pull (o_budget s) (o_terms s ! i))\<rparr>)"
  by (rule output_step.pull[of i s _ ]) auto

lemma step_sink: "i < length (o_terms s) \<Longrightarrow> t_end (o_terms s ! i) = None \<Longrightarrow> t_hold (o_terms s ! i) = Some h \<Longrightarrow>
    output_step s (set_term i (snd (drain_sink res h (o_terms s ! i))) (fst (drain_sink res h (o_terms s ! i))) s)"
  by (rule output_step.sink[of i s _ h res]) auto

text \<open>A run limited to two, with two terminals of one record each: both take a slot; the one that took
  the last emits its record and aborts the run; the other's sink, which asks the run's context before it
  takes a record, may now refuse. One record is emitted of the two granted.\<close>

definition race_start :: "nat outputs" where
  "race_start = outputs_init (WithLimit 2) [plain_terminal [10], plain_terminal [20]]"

definition race_end :: "nat outputs" where
  "race_end = \<lparr>o_terms = [(plain_terminal [])\<lparr>t_end := Some (Some (ErrOther ''context canceled''))\<rparr>,
      (plain_terminal [])\<lparr>t_out := [20], t_end := Some None\<rparr>], o_budget = Some \<lparr>b_limit = 2, b_count = 2\<rparr>, o_aborted = True\<rparr>"

lemmas race_simps = race_start_def race_end_def outputs_init_def plain_terminal_def WithLimit_def drain_pull_def drain_sink_def set_term_def Take_def wrap64_def

lemma race_loses_slot: "output_step\<^sup>*\<^sup>* race_start race_end \<and> total (length \<circ> t_out) race_end = 1 \<and> total unread race_start = 2"
proof -
  define s1 where "s1 = (set_term 0 ((plain_terminal [])\<lparr>t_hold := Some (10 :: nat, False)\<rparr>) False race_start)\<lparr>o_budget := Some \<lparr>b_limit = 2, b_count = 1\<rparr>\<rparr>"
  define s2 where "s2 = (set_term 1 ((plain_terminal [])\<lparr>t_hold := Some (20 :: nat, True)\<rparr>) False s1)\<lparr>o_budget := Some \<lparr>b_limit = 2, b_count = 2\<rparr>\<rparr>"
  define s3 where "s3 = set_term 1 ((plain_terminal [])\<lparr>t_out := [20 :: nat], t_end := Some None\<rparr>) True s2"
  note d = s1_def s2_def s3_def race_simps
  have 1: "output_step race_start s1" using step_pull[of 0 race_start] by (simp add: d)
  have 2: "output_step s1 s2" using step_pull[of 1 s1] by (simp add: d)
  have 3: "output_step s2 s3" using step_sink[of 1 s2 "(20, True)" None] by (simp add: d)
  have 4: "output_step s3 race_end" using step_sink[of 0 s3 "(10, False)" "Some (ErrOther ''context canceled'')"] by (simp add: d)
  from 1 2 3 4 have "output_step\<^sup>*\<^sup>* race_start race_end" by (meson converse_rtranclp_into_rtranclp rtranclp.rtrancl_refl)
  then show ?thesis by (simp add: total_def unread_def race_simps)
qed

theorem limit_is_global_witness: "total (length \<circ> t_out) race_end \<le> 2 \<and> t_out (o_terms race_end ! 1) = [20]"
proof -
  let ?ts = "[plain_terminal [10], plain_terminal [20 :: nat]]"
  have r: "output_step\<^sup>*\<^sup>* (outputs_init (WithLimit (int 2)) ?ts) race_end" using race_loses_slot by (simp add: race_start_def)
  have f: "\<forall>t\<in>set ?ts. terminal_fresh t" by (simp add: terminal_fresh_def plain_terminal_def)
  have m: "sum_list (map unread ?ts) < 2 ^ 63" by (simp add: unread_def plain_terminal_def)
  from limit_is_global[OF _ f m r] show ?thesis by (simp add: race_end_def)
qed

subsection \<open>Merging row streams\<close>

text \<open>MergeRows runs its sources side by side into one buffer. The log is the buffer with the source each
  record came from; a source's end carries its error, and the first error stops the others: what they
  try to append is refused. The reader of the merged stream stays open here.\<close>

record 'r merge_run =
  mg_srcs :: "('r list \<times> err option) list"
  mg_over :: "bool list"
  mg_log :: "(nat \<times> 'r) list"
  mg_first :: "err option"

definition merge_init :: "('r list \<times> err option) list \<Rightarrow> 'r merge_run" where
  "merge_init srcs = \<lparr>mg_srcs = srcs, mg_over = map (\<lambda>_. False) srcs, mg_log = [], mg_first = None\<rparr>"

definition merge_fail :: "err option \<Rightarrow> 'r merge_run \<Rightarrow> 'r merge_run" where
  "merge_fail e m = (if e \<noteq> None \<and> mg_first m = None then m\<lparr>mg_first := e\<rparr> else m)"

inductive merge_step :: "'r merge_run \<Rightarrow> 'r merge_run \<Rightarrow> bool" where
  emit: "i < length (mg_srcs m) \<Longrightarrow> \<not> mg_over m ! i \<Longrightarrow> mg_srcs m ! i = (r # rs, e) \<Longrightarrow> mg_first m = None \<Longrightarrow>
    merge_step m (m\<lparr>mg_srcs := (mg_srcs m)[i := (rs, e)], mg_log := mg_log m @ [(i, r)]\<rparr>)"
| ended: "i < length (mg_srcs m) \<Longrightarrow> \<not> mg_over m ! i \<Longrightarrow> mg_srcs m ! i = ([], e) \<Longrightarrow>
    merge_step m ((merge_fail e m)\<lparr>mg_over := (mg_over m)[i := True]\<rparr>)"
| cut: "i < length (mg_srcs m) \<Longrightarrow> \<not> mg_over m ! i \<Longrightarrow> mg_first m \<noteq> None \<Longrightarrow>
    merge_step m (m\<lparr>mg_over := (mg_over m)[i := True]\<rparr>)"

inductive_cases merge_stepE: "merge_step m m'"

definition from_source :: "nat \<Rightarrow> 'r merge_run \<Rightarrow> 'r list" where
  "from_source i m = map snd (filter (\<lambda>p. fst p = i) (mg_log m))"

definition merge_inv :: "('r list \<times> err option) list \<Rightarrow> 'r merge_run \<Rightarrow> bool" where
  "merge_inv srcs m \<longleftrightarrow> length (mg_srcs m) = length srcs \<and> length (mg_over m) = length srcs \<and>
     (\<forall>i<length srcs. from_source i m @ fst (mg_srcs m ! i) = fst (srcs ! i) \<and> snd (mg_srcs m ! i) = snd (srcs ! i) \<and>
        (mg_over m ! i \<longrightarrow> mg_first m = None \<longrightarrow> mg_srcs m ! i = ([], None))) \<and>
     (mg_first m \<noteq> None \<longrightarrow> mg_first m \<in> snd ` set srcs)"

lemma merge_inv_step: "merge_step m m' \<Longrightarrow> merge_inv srcs m \<Longrightarrow> merge_inv srcs m'"
proof (induction rule: merge_step.induct)
  case (emit i m r rs e)
  have "from_source i m @ r # rs = fst (srcs ! i)" "snd (srcs ! i) = e" using emit by (auto simp: merge_inv_def)
  then show ?case using emit by (auto simp: merge_inv_def from_source_def nth_list_update)
next
  case (ended i m e)
  then have "e = snd (srcs ! i)" "srcs ! i \<in> set srcs" by (auto simp: merge_inv_def)
  then show ?case using ended by (auto simp: merge_inv_def merge_fail_def from_source_def nth_list_update)
next
  case (cut i m)
  then show ?case by (auto simp: merge_inv_def from_source_def nth_list_update)
qed

text \<open>Merging loses and invents nothing: each source's records appear in their order, all of them when
  every source has ended and no error is reported, and a reported error is one of a source's; once one
  is known nothing more is emitted.\<close>

lemma merge_rows_correct:
  assumes "merge_step\<^sup>*\<^sup>* (merge_init srcs) m"
  shows "\<forall>i<length srcs. prefix (from_source i m) (fst (srcs ! i))"
    "(\<forall>i<length srcs. mg_over m ! i) \<Longrightarrow> mg_first m = None \<Longrightarrow> (\<forall>i<length srcs. from_source i m = fst (srcs ! i) \<and> snd (srcs ! i) = None)"
    "mg_first m \<noteq> None \<Longrightarrow> mg_first m \<in> snd ` set srcs"
    "mg_first m \<noteq> None \<Longrightarrow> merge_step m m' \<Longrightarrow> mg_log m' = mg_log m \<and> mg_first m' = mg_first m"
proof -
  have i: "merge_inv srcs m" using assms
    by induction (simp add: merge_inv_def merge_init_def from_source_def, rule merge_inv_step)
  show "\<forall>i<length srcs. prefix (from_source i m) (fst (srcs ! i))" using i unfolding merge_inv_def by (metis prefixI)
  show "\<forall>i<length srcs. from_source i m = fst (srcs ! i) \<and> snd (srcs ! i) = None" if "\<forall>i<length srcs. mg_over m ! i" "mg_first m = None"
    using i that unfolding merge_inv_def by (metis append_Nil2 fst_conv snd_conv)
  show "mg_first m \<in> snd ` set srcs" if "mg_first m \<noteq> None" using i that by (simp add: merge_inv_def)
  show "mg_log m' = mg_log m \<and> mg_first m' = mg_first m" if "mg_first m \<noteq> None" "merge_step m m'"
    using that(2,1) by cases (auto simp: merge_fail_def)
qed

end
