(* ===== verification/Descent.thy ===== *)
theory Descent
  imports Bind_Join Scc Merge
begin

section \<open>Recursive descent: internal/system\_g/descent\<close>

text \<open>
  A list-children exchange that feeds itself runs as a fixpoint. A round lists the children of every row
  of the frontier, each row an independent node of the scheduler, so the order in which children
  arrive is the parameter \<open>mix\<close>; a child's row carries the fields its request was bound with, its own
  fields winning. Rows are told apart by the printed value of one field. Records that are no documents
  are skipped by a round and never derived by one, so the frontier here is of documents.
\<close>

fun descent_bound :: "binding list \<Rightarrow> drow \<Rightarrow> drow \<Rightarrow> drow" where
  "descent_bound [] row bound = bound"
| "descent_bound (b # bs) row bound = descent_bound bs row (bound(b_tgt b \<mapsto> row_get row (b_src b)))"

definition childNode_Run :: "inner \<Rightarrow> drow \<Rightarrow> drow list \<times> err option" where
  "childNode_Run child bound = (case child bound of (recs, e) \<Rightarrow> (map (mergeMaps bound) (documents recs), e))"

definition edgeStep_Round :: "inner \<Rightarrow> binding list \<Rightarrow> (nat \<Rightarrow> drow list \<Rightarrow> drow list) \<Rightarrow> nat \<Rightarrow> drow list \<Rightarrow> drow list result" where
  "edgeStep_Round child bs mix it frontier = (let
     runs = map (\<lambda>row. childNode_Run child (descent_bound bs row Map.empty)) frontier in
     case find (\<lambda>r. snd r \<noteq> None) runs of
       Some r \<Rightarrow> Inl (the (snd r))
     | None \<Rightarrow> Inr (mix it (concat (map fst runs))))"

definition descent_key :: "string \<Rightarrow> drow \<Rightarrow> string" where
  "descent_key keyField row = sprint (row_get row keyField)"

definition NewRecursive :: "nat \<Rightarrow> inner \<Rightarrow> binding list \<Rightarrow> string \<Rightarrow> TerminationPolicy option \<Rightarrow> (nat \<Rightarrow> int) \<Rightarrow> (nat \<Rightarrow> append_result)
    \<Rightarrow> (nat \<Rightarrow> drow list \<Rightarrow> drow list) \<Rightarrow> drow list \<times> err option \<Rightarrow> drow scc_result option" where
  "NewRecursive fuel child bs keyField policy clock app mix seed =
     scc_Open fuel policy clock (edgeStep_Round child bs mix) (descent_key keyField) app seed"

subsection \<open>What a descent reaches\<close>

definition children_of :: "inner \<Rightarrow> binding list \<Rightarrow> drow \<Rightarrow> drow list" where
  "children_of child bs row = fst (childNode_Run child (descent_bound bs row Map.empty))"

lemma edgeStep_derives:
  assumes "\<And>it rs. mset (mix it rs) = mset rs"
  shows "derives (edgeStep_Round child bs mix) (children_of child bs)"
proof -
  have "set (mix it rs) = set rs" for it rs by (rule mset_eq_setD[OF assms])
  then show ?thesis by (auto simp: derives_def edgeStep_Round_def Let_def children_of_def comp_def split: option.splits)
qed

lemma descent_bound_get: "descent_bound bs row bound k =
    (case find (\<lambda>b. b_tgt b = k) (rev bs) of Some b \<Rightarrow> Some (row_get row (b_src b)) | None \<Rightarrow> bound k)"
proof (induction bs arbitrary: bound)
  case (Cons b bs)
  have "find P (xs @ [b]) = (case find P xs of None \<Rightarrow> if P b then Some b else None | Some x \<Rightarrow> Some x)" for P xs
    by (induction xs) auto
  then show ?case by (auto simp: Cons split: option.split)
qed simp

text \<open>A field is carried when the last binding that fills it also reads it, and the listing never
  returns it.\<close>

definition carried :: "inner \<Rightarrow> binding list \<Rightarrow> string \<Rightarrow> bool" where
  "carried child bs f \<longleftrightarrow> map_option b_src (find (\<lambda>b. b_tgt b = f) (rev bs)) = Some f \<and>
     (\<forall>bound. \<forall>d\<in>set (documents (fst (child bound))). d f = None)"

lemma carried_child:
  assumes "carried child bs f" "r' \<in> set (children_of child bs r)"
  shows "r' f = Some (row_get r f)"
proof -
  let ?b = "descent_bound bs r Map.empty"
  from assms(2) obtain d where d: "d \<in> set (documents (fst (child ?b)))" "r' = mergeMaps ?b d"
    by (auto simp: children_of_def childNode_Run_def split: prod.splits)
  have "d f = None" "?b f = Some (row_get r f)" using assms(1) d(1) by (auto simp: carried_def descent_bound_get)
  then show ?thesis using d(2) by (simp add: mergeMaps_def)
qed

lemma carried_reached:
  assumes "carried child bs f" "\<forall>r\<in>set seeds. row_get r f = v" "r \<in> reached (children_of child bs) seeds"
  shows "row_get r f = v"
  using assms(3)
proof induction
  case (child r r')
  then show ?case using carried_child[OF assms(1) child(2)] by (simp add: row_get_def)
qed (use assms(2) in blast)

text \<open>A recursive descent lists the whole tree and carries its constants. Where the key field tells the
  rows apart and the loop stops because a round derived nothing new, it has emitted exactly the seeds
  and all that is reached from them by listing children, each row once and without an error; and a
  field that a binding passes on under its own name and the listing does not return, such as a token,
  has the seeds' value on every row.\<close>

theorem descent_lists_tree:
  assumes mix: "\<And>it rs. mset (mix it rs) = mset rs" and key: "inj_on (descent_key keyField) (reached (children_of child bs) seeds)"
    and run: "NewRecursive fuel child bs keyField policy clock app mix (seeds, None) = Some res" and fp: "res_reason res = Fixpoint"
    and f: "carried child bs f" "\<forall>r\<in>set seeds. row_get r f = v"
  shows "set (res_out res) = reached (children_of child bs) seeds \<and> distinct (res_out res) \<and> res_err res = None \<and>
    (\<forall>r\<in>set (res_out res). row_get r f = v)"
proof -
  note e = scc_emits_reached[OF edgeStep_derives[OF mix] key run[unfolded NewRecursive_def] fp]
  then show ?thesis using carried_reached[OF f] by blast
qed

text \<open>An organisation with one folder.\<close>

definition list_folders :: inner where
  "list_folders bound = (if bound ''parent'' = Some (JStr ''org'') then [Some (Map.empty(''node'' \<mapsto> JStr ''f1''))] else [], None)"

definition folder_bindings :: "binding list" where
  "folder_bindings = [\<lparr>b_src = ''node'', b_tgt = ''parent''\<rparr>, \<lparr>b_src = ''token'', b_tgt = ''token''\<rparr>]"

definition org_row :: drow where
  "org_row = Map.empty(''node'' \<mapsto> JStr ''org'', ''token'' \<mapsto> JStr ''t'')"

definition folder_row :: drow where
  "folder_row = Map.empty(''parent'' \<mapsto> JStr ''org'', ''token'' \<mapsto> JStr ''t'', ''node'' \<mapsto> JStr ''f1'')"

lemma folder_children:
  "children_of list_folders folder_bindings org_row = [folder_row]" "children_of list_folders folder_bindings folder_row = []"
  by (auto simp: children_of_def childNode_Run_def list_folders_def folder_bindings_def org_row_def folder_row_def row_get_def mergeMaps_def fun_eq_iff)

lemma folder_reached: "reached (children_of list_folders folder_bindings) [org_row] = {org_row, folder_row}"
proof (rule set_eqI, rule iffI)
  fix r assume "r \<in> reached (children_of list_folders folder_bindings) [org_row]"
  then show "r \<in> {org_row, folder_row}" by induction (auto simp: folder_children)
next
  fix r assume "r \<in> {org_row, folder_row}"
  moreover have o: "org_row \<in> reached (children_of list_folders folder_bindings) [org_row]" by (rule reached.seed) simp
  moreover have "folder_row \<in> reached (children_of list_folders folder_bindings) [org_row]"
    by (rule reached.child[OF o]) (simp add: folder_children)
  ultimately show "r \<in> reached (children_of list_folders folder_bindings) [org_row]" by auto
qed

lemma folder_rounds:
  "edgeStep_Round list_folders folder_bindings (\<lambda>_ rs. rs) it [org_row] = Inr [folder_row]"
  "edgeStep_Round list_folders folder_bindings (\<lambda>_ rs. rs) it [folder_row] = Inr []"
proof -
  have e: "snd (childNode_Run list_folders b) = None" for b by (simp add: childNode_Run_def list_folders_def)
  show "edgeStep_Round list_folders folder_bindings (\<lambda>_ rs. rs) it [org_row] = Inr [folder_row]"
    "edgeStep_Round list_folders folder_bindings (\<lambda>_ rs. rs) it [folder_row] = Inr []"
    using folder_children by (simp_all add: edgeStep_Round_def e children_of_def)
qed

theorem descent_lists_tree_witness:
  "\<exists>res. NewRecursive 5 list_folders folder_bindings ''node'' None int (\<lambda>_. AppendOk) (\<lambda>_ rs. rs) ([org_row], None) = Some res \<and>
     set (res_out res) = {org_row, folder_row} \<and> (\<forall>r\<in>set (res_out res). row_get r ''token'' = JStr ''t'')"
proof -
  let ?run = "NewRecursive 5 list_folders folder_bindings ''node'' None int (\<lambda>_. AppendOk) (\<lambda>_ rs. rs) ([org_row], None)"
  let ?res = "\<lparr>res_out = [org_row, folder_row], res_err = None, res_reason = Fixpoint, res_iterations = 2\<rparr>"
  have k: "descent_key ''node'' org_row = ''org''" "descent_key ''node'' folder_row = ''f1''"
    by (simp_all add: descent_key_def org_row_def folder_row_def row_get_def)
  have r: "?run = Some ?res"
    by (simp add: NewRecursive_def scc_Open_def k folder_rounds scc_stops_def numeral_eq_Suc)
  have i: "inj_on (descent_key ''node'') (reached (children_of list_folders folder_bindings) [org_row])"
    by (auto simp: folder_reached k)
  have c: "carried list_folders folder_bindings ''token''" by (simp add: carried_def list_folders_def folder_bindings_def)
  have v: "\<forall>r\<in>set [org_row]. row_get r ''token'' = JStr ''t''" by (simp add: org_row_def row_get_def)
  from descent_lists_tree[OF _ i r _ c v] r folder_reached show ?thesis by auto
qed

end
