(* ===== verification/Kind.thy ===== *)
theory Kind
  imports Complex_Main Json
begin

section \<open>Value kinds: internal/kind\<close>

text \<open>
  A value keeps the text it was written as and is compared in the terms of its kind. The reader of
  rationals, big.Rat's SetString, is a parameter of the definitions: what is shown holds for every way
  of reading a decimal. A stream has no text; its reader is left out. The comparisons answer with a sign
  or an error.
\<close>

datatype kind = KString | KInt | KDecimal | KBool | KUnknown | KStream | KObject

datatype Typed = Lex kind string | StreamVal

fun Kind_of :: "Typed \<Rightarrow> kind" where
  "Kind_of (Lex k _) = k"
| "Kind_of StreamVal = KStream"

fun Lexeme :: "Typed \<Rightarrow> bytes" where
  "Lexeme (Lex _ s) = slice_norm (Some s)"
| "Lexeme StreamVal = None"

definition Comparable :: "kind \<Rightarrow> bool" where
  "Comparable k = (k \<noteq> KStream)"

subsection \<open>Reading\<close>

text \<open>big.Int's SetString in base ten: a sign, then digits.\<close>

definition bigint :: "string \<Rightarrow> int option" where
  "bigint s = (case s of
     [] \<Rightarrow> None
   | c # r \<Rightarrow> if c = CHR ''-'' then map_option (\<lambda>n. - int n) (parse_nat r)
       else if c = CHR ''+'' then map_option int (parse_nat r)
       else map_option int (parse_nat s))"

definition ParseBool :: "string \<Rightarrow> bool option" where
  "ParseBool s = (if s \<in> {''1'', ''t'', ''T'', ''TRUE'', ''true'', ''True''} then Some True
     else if s \<in> {''0'', ''f'', ''F'', ''FALSE'', ''false'', ''False''} then Some False else None)"

text \<open>A decoded object: nil where the text is null, otherwise its fields, of which a later one of the same
  name replaces an earlier one. Only the first value of the text is read.\<close>

definition decodeObject :: "string \<Rightarrow> object option result" where
  "decodeObject b = (case parse_json b of
     Some (JObj m, _) \<Rightarrow> Inr (Some m)
   | Some (JNull, _) \<Rightarrow> Inr None
   | _ \<Rightarrow> Inl (ErrOther ''kind: not a JSON object''))"

text \<open>Equality of decoded values, reflect.DeepEqual: maps by their keys and what each holds. Documents are
  brought to the form with one field per name, by name.\<close>

fun put_field :: "string \<times> 'v \<Rightarrow> (string \<times> 'v) list \<Rightarrow> (string \<times> 'v) list" where
  "put_field p [] = [p]"
| "put_field p (q # qs) = (if fst p < fst q then p # q # qs else if fst p = fst q then p # qs else q # put_field p qs)"

definition fields :: "(string \<times> 'v) list \<Rightarrow> (string \<times> 'v) list" where
  "fields m = fold put_field m []"

fun decoded :: "json \<Rightarrow> json" where
  "decoded (JObj m) = JObj (fields (map (\<lambda>(k, v). (k, decoded v)) m))"
| "decoded (JArr xs) = JArr (map decoded xs)"
| "decoded j = j"

definition DeepEqual :: "object option \<Rightarrow> object option \<Rightarrow> bool" where
  "DeepEqual x y = (map_option (\<lambda>m. decoded (JObj m)) x = map_option (\<lambda>m. decoded (JObj m)) y)"

subsection \<open>The operations of a kind\<close>

definition parse_ints :: "string \<Rightarrow> Typed result" where
  "parse_ints s = (case bigint s of None \<Rightarrow> Inl (ErrOther ''kind: not an integer'') | Some _ \<Rightarrow> Inr (Lex KInt s))"

definition parse_decimals :: "(string \<Rightarrow> rat option) \<Rightarrow> string \<Rightarrow> Typed result" where
  "parse_decimals ratOf s = (case ratOf s of None \<Rightarrow> Inl (ErrOther ''kind: not a decimal'') | Some _ \<Rightarrow> Inr (Lex KDecimal s))"

definition parse_bools :: "string \<Rightarrow> Typed result" where
  "parse_bools s = (case ParseBool s of None \<Rightarrow> Inl (ErrOther ''kind: not a bool'') | Some _ \<Rightarrow> Inr (Lex KBool s))"

definition parse_streams :: "string \<Rightarrow> Typed result" where
  "parse_streams s = Inl (ErrOther ''kind: stream has no lexeme; build it from a reader'')"

definition parse_objects :: "string \<Rightarrow> Typed result" where
  "parse_objects s = (case decodeObject s of Inl e \<Rightarrow> Inl e | Inr _ \<Rightarrow> Inr (Lex KObject s))"

text \<open>The interface method, by kind.\<close>

definition kind_Parse :: "(string \<Rightarrow> rat option) \<Rightarrow> kind \<Rightarrow> string \<Rightarrow> Typed result" where
  "kind_Parse ratOf k s = (case k of
     KString \<Rightarrow> Inr (Lex KString s)
   | KInt \<Rightarrow> parse_ints s
   | KDecimal \<Rightarrow> parse_decimals ratOf s
   | KBool \<Rightarrow> parse_bools s
   | KUnknown \<Rightarrow> Inr (Lex KUnknown s)
   | KStream \<Rightarrow> parse_streams s
   | KObject \<Rightarrow> parse_objects s)"

definition compare_ints :: "string \<Rightarrow> string \<Rightarrow> int result" where
  "compare_ints a b = (case bigint a of
     None \<Rightarrow> Inl (ErrOther ''kind: not an integer'')
   | Some x \<Rightarrow> (case bigint b of None \<Rightarrow> Inl (ErrOther ''kind: not an integer'') | Some y \<Rightarrow> Inr (Compare x y)))"

definition compare_decimals :: "(string \<Rightarrow> rat option) \<Rightarrow> string \<Rightarrow> string \<Rightarrow> int result" where
  "compare_decimals ratOf a b = (case ratOf a of
     None \<Rightarrow> Inl (ErrOther ''kind: not a decimal'')
   | Some x \<Rightarrow> (case ratOf b of None \<Rightarrow> Inl (ErrOther ''kind: not a decimal'') | Some y \<Rightarrow> Inr (Compare x y)))"

text \<open>A text that is no bool reads as false here: the error is ignored.\<close>

definition compare_bools :: "string \<Rightarrow> string \<Rightarrow> int result" where
  "compare_bools a b = (let x = (ParseBool a = Some True); y = (ParseBool b = Some True) in
     Inr (if x = y then 0 else if \<not> x then - 1 else 1))"

definition compare_unknown :: "string \<Rightarrow> string \<Rightarrow> int result" where
  "compare_unknown a b = (if a = b then Inr 0 else Inl (ErrOther ''kind: unknown admits no order''))"

definition compare_objects :: "string \<Rightarrow> string \<Rightarrow> int result" where
  "compare_objects a b = rbind (decodeObject a) (\<lambda>x. rbind (decodeObject b) (\<lambda>y.
     if DeepEqual x y then Inr 0 else Inl (ErrOther ''kind: object admits no order; the two documents differ'')))"

definition kind_Compare :: "(string \<Rightarrow> rat option) \<Rightarrow> kind \<Rightarrow> Typed \<Rightarrow> Typed \<Rightarrow> int result" where
  "kind_Compare ratOf k v w = (let a = slice_bytes (Lexeme v); b = slice_bytes (Lexeme w) in case k of
     KString \<Rightarrow> Inr (Compare a b)
   | KInt \<Rightarrow> compare_ints a b
   | KDecimal \<Rightarrow> compare_decimals ratOf a b
   | KBool \<Rightarrow> compare_bools a b
   | KUnknown \<Rightarrow> compare_unknown a b
   | KStream \<Rightarrow> Inl (ErrOther ''kind: stream is not comparable; converge against a digest instead'')
   | KObject \<Rightarrow> compare_objects a b)"

definition kind_Encode :: "kind \<Rightarrow> Typed \<Rightarrow> bytes result" where
  "kind_Encode k v = (if k = KStream then Inl (ErrOther ''kind: stream must be read, not encoded'') else Inr (Lexeme v))"

subsection \<open>Equality of documents is equality of maps\<close>

lemma put_field_keys: "sorted_wrt (<) (map fst m) \<Longrightarrow> sorted_wrt (<) (map fst (put_field p m)) \<and> fst ` set (put_field p m) = insert (fst p) (fst ` set m)"
proof (induction m)
  case (Cons q qs)
  then show ?case by (cases "fst p < fst q"; cases "fst p = fst q") (auto simp: image_iff not_less)
qed simp

lemma put_field_get: "sorted_wrt (<) (map fst m) \<Longrightarrow> map_of (put_field p m) = (map_of m)(fst p \<mapsto> snd p)"
proof (induction m)
  case (Cons q qs)
  then show ?case by (cases p; cases q) auto
qed (cases p, simp)

lemma fields_snoc: "sorted_wrt (<) (map fst acc) \<Longrightarrow> sorted_wrt (<) (map fst (fold put_field m acc)) \<and> map_of (fold put_field m acc) = map_of acc ++ map_of (rev m)"
proof (induction m arbitrary: acc)
  case (Cons p m)
  note k = put_field_keys[OF Cons.prems, of p]
  have "map_of (fold put_field m (put_field p acc)) = map_of (put_field p acc) ++ map_of (rev m)" using Cons.IH k by blast
  then show ?case using Cons.IH[of "put_field p acc"] k put_field_get[OF Cons.prems, of p] by (cases p) (auto simp: fun_eq_iff map_add_def split: option.split)
qed simp

lemma fields_props: "sorted_wrt (<) (map fst (fields m))" "map_of (fields m) = map_of (rev m)"
  using fields_snoc[of "[]" m] by (simp_all add: fields_def)

lemma sorted_assoc_unique:
  assumes "sorted_wrt (<) (map fst xs)" "sorted_wrt (<) (map fst ys)" "map_of xs = map_of ys"
  shows "xs = (ys :: (string \<times> 'v) list)"
proof -
  have s: "sorted (map fst xs)" "distinct (map fst xs)" "sorted (map fst ys)" "distinct (map fst ys)"
    using assms(1,2) by (simp_all add: strict_sorted_iff)
  have "fst ` set xs = fst ` set ys" using assms(3) by (metis dom_map_of_conv_image_fst)
  then have "map fst xs = map fst ys" using s by (intro sorted_distinct_set_unique) simp_all
  then show ?thesis using assms(3) s(2) by (metis map_of_eqI map_of_inject_set map_fst_zip map_of_zip_inject zip_map_fst_snd length_map)
qed

lemma fields_eq_iff: "fields m = fields m' \<longleftrightarrow> map_of (rev m) = map_of (rev m')"
  using sorted_assoc_unique[OF fields_props(1) fields_props(1), of m m'] fields_props(2)[of m] fields_props(2)[of m'] by metis

subsection \<open>The laws of comparison\<close>

lemma Compare_flip: "Compare b (a :: 'a :: linorder) = - Compare a b"
  by (auto simp: Compare_def)

lemma Compare_iff [simp]: "Compare a (b :: 'a :: linorder) = 0 \<longleftrightarrow> a = b" "Compare a b \<le> 0 \<longleftrightarrow> a \<le> b" "Compare a a = 0"
  by (auto simp: Compare_def)

text \<open>A kind whose texts mean values of a linear order, and one whose texts can only be equal.\<close>

locale ordered_kind =
  fixes valid :: "string \<Rightarrow> bool" and cmp :: "string \<Rightarrow> string \<Rightarrow> int result" and meaning :: "string \<Rightarrow> 'a :: linorder"
  assumes cmp_meaning: "valid a \<Longrightarrow> valid b \<Longrightarrow> cmp a b = Inr (Compare (meaning a) (meaning b))"
begin

lemma self: "valid a \<Longrightarrow> cmp a a = Inr 0"
  by (simp add: cmp_meaning)

lemma signs: "valid a \<Longrightarrow> valid b \<Longrightarrow> \<exists>n. cmp a b = Inr n \<and> cmp b a = Inr (- n)"
  using Compare_flip[of "meaning b" "meaning a"] by (simp add: cmp_meaning)

lemma chain: "valid a \<Longrightarrow> valid b \<Longrightarrow> valid c \<Longrightarrow> cmp a b = Inr m \<Longrightarrow> cmp b c = Inr n \<Longrightarrow> m \<le> 0 \<Longrightarrow> n \<le> 0 \<Longrightarrow>
    \<exists>k\<le>0. cmp a c = Inr k \<and> (k = 0 \<longleftrightarrow> m = 0 \<and> n = 0)"
  by (auto simp: cmp_meaning)

end

locale equality_kind =
  fixes valid :: "string \<Rightarrow> bool" and cmp :: "string \<Rightarrow> string \<Rightarrow> int result" and meaning :: "string \<Rightarrow> 'a"
  assumes cmp_equal: "valid a \<Longrightarrow> valid b \<Longrightarrow> meaning a = meaning b \<Longrightarrow> cmp a b = Inr 0"
    and cmp_differ: "valid a \<Longrightarrow> valid b \<Longrightarrow> meaning a \<noteq> meaning b \<Longrightarrow> \<exists>e. cmp a b = Inl e"
begin

lemma equal_iff: "valid a \<Longrightarrow> valid b \<Longrightarrow> cmp a b = Inr n \<longleftrightarrow> n = 0 \<and> meaning a = meaning b"
  using cmp_equal[of a b] cmp_differ[of a b] by (cases "meaning a = meaning b") auto

lemma equal_sym: "valid a \<Longrightarrow> valid b \<Longrightarrow> cmp a b = Inr 0 \<longleftrightarrow> cmp b a = Inr 0"
  using equal_iff[of a b 0] equal_iff[of b a 0] by auto

lemma equal_trans: "valid a \<Longrightarrow> valid b \<Longrightarrow> valid c \<Longrightarrow> cmp a b = Inr 0 \<Longrightarrow> cmp b c = Inr 0 \<Longrightarrow> cmp a c = Inr 0"
  using equal_iff[of a b 0] equal_iff[of b c 0] equal_iff[of a c 0] by auto

end

definition kind_cmp :: "(string \<Rightarrow> rat option) \<Rightarrow> kind \<Rightarrow> string \<Rightarrow> string \<Rightarrow> int result" where
  "kind_cmp R k a b = kind_Compare R k (Lex k a) (Lex k b)"

definition kind_valid :: "(string \<Rightarrow> rat option) \<Rightarrow> kind \<Rightarrow> string \<Rightarrow> bool" where
  "kind_valid R k a \<longleftrightarrow> kind_Parse R k a = Inr (Lex k a)"

lemma slice_bytes_norm [simp]: "slice_bytes (slice_norm (Some s)) = s"
  by (simp add: slice_norm_def slice_len_def split: if_split)

lemmas parse_defs = kind_Parse_def parse_ints_def parse_decimals_def parse_bools_def parse_streams_def parse_objects_def

lemmas kind_simps = kind_cmp_def kind_valid_def kind_Compare_def parse_defs

interpretation string_kind: ordered_kind "kind_valid R KString" "kind_cmp R KString" id
  by unfold_locales (simp add: kind_simps)

interpretation int_kind: ordered_kind "kind_valid R KInt" "kind_cmp R KInt" "\<lambda>s. the (bigint s)"
  by unfold_locales (auto simp: kind_simps compare_ints_def split: option.splits)

interpretation decimal_kind: ordered_kind "kind_valid R KDecimal" "kind_cmp R KDecimal" "\<lambda>s. the (R s)"
  by unfold_locales (auto simp: kind_simps compare_decimals_def split: option.splits)

interpretation bool_kind: ordered_kind "kind_valid R KBool" "kind_cmp R KBool" "\<lambda>s. ParseBool s = Some True"
  by unfold_locales (auto simp: kind_simps compare_bools_def Compare_def Let_def)

interpretation unknown_kind: equality_kind "kind_valid R KUnknown" "kind_cmp R KUnknown" id
  by unfold_locales (simp_all add: kind_simps compare_unknown_def)

interpretation object_kind: equality_kind "kind_valid R KObject" "kind_cmp R KObject"
    "\<lambda>s. map_sum id (map_option (\<lambda>m. decoded (JObj m))) (decodeObject s)"
  by unfold_locales (auto simp: kind_simps compare_objects_def DeepEqual_def split: sum.splits)

definition ordered :: "kind \<Rightarrow> bool" where
  "ordered k \<longleftrightarrow> k \<in> {KString, KInt, KDecimal, KBool}"

lemma Parse_Inr: "kind_Parse R k s = Inr v \<Longrightarrow> v = Lex k s \<and> kind_valid R k s \<and> k \<noteq> KStream"
  by (cases k) (auto simp: kind_valid_def parse_defs split: option.splits sum.splits)

lemma ordered_laws:
  assumes "ordered k" "kind_valid R k a" "kind_valid R k b" "kind_valid R k c"
  shows "\<exists>n. kind_cmp R k a b = Inr n \<and> kind_cmp R k b a = Inr (- n)" "kind_cmp R k a a = Inr 0"
    "kind_cmp R k a b = Inr m \<Longrightarrow> kind_cmp R k b c = Inr n \<Longrightarrow> m \<le> 0 \<Longrightarrow> n \<le> 0 \<Longrightarrow> \<exists>l\<le>0. kind_cmp R k a c = Inr l \<and> (l = 0 \<longleftrightarrow> m = 0 \<and> n = 0)"
proof -
  consider "k = KString" | "k = KInt" | "k = KDecimal" | "k = KBool" using assms(1) by (auto simp: ordered_def)
  note by_kind = this
  show "\<exists>n. kind_cmp R k a b = Inr n \<and> kind_cmp R k b a = Inr (- n)"
    using by_kind by cases (use assms string_kind.signs int_kind.signs decimal_kind.signs bool_kind.signs in blast)+
  show "kind_cmp R k a a = Inr 0"
    using by_kind by cases (use assms string_kind.self int_kind.self decimal_kind.self bool_kind.self in blast)+
  show "\<exists>l\<le>0. kind_cmp R k a c = Inr l \<and> (l = 0 \<longleftrightarrow> m = 0 \<and> n = 0)"
    if "kind_cmp R k a b = Inr m" "kind_cmp R k b c = Inr n" "m \<le> 0" "n \<le> 0"
    using by_kind assms(2-4) that string_kind.chain[of R a b c m n] int_kind.chain[of R a b c m n] decimal_kind.chain[of R a b c m n]
      bool_kind.chain[of R a b c m n] by cases simp_all
qed

lemma equality_laws:
  assumes "k \<in> {KUnknown, KObject}" "kind_valid R k a" "kind_valid R k b" "kind_valid R k c"
  shows "kind_cmp R k a b = Inr n \<Longrightarrow> n = 0" "kind_cmp R k a a = Inr 0" "kind_cmp R k a b = Inr 0 \<longleftrightarrow> kind_cmp R k b a = Inr 0"
    "kind_cmp R k a b = Inr 0 \<Longrightarrow> kind_cmp R k b c = Inr 0 \<Longrightarrow> kind_cmp R k a c = Inr 0"
proof -
  consider "k = KUnknown" | "k = KObject" using assms(1) by auto
  note by_kind = this
  show "n = 0" if "kind_cmp R k a b = Inr n"
    using by_kind assms(2,3) that unknown_kind.equal_iff[of R a b n] object_kind.equal_iff[of R a b n] by cases simp_all
  show "kind_cmp R k a a = Inr 0"
    using by_kind assms(2) unknown_kind.cmp_equal[of R a a] object_kind.cmp_equal[of R a a] by cases simp_all
  show "kind_cmp R k a b = Inr 0 \<longleftrightarrow> kind_cmp R k b a = Inr 0"
    using by_kind assms(2,3) unknown_kind.equal_sym[of R a b] object_kind.equal_sym[of R a b] by cases simp_all
  show "kind_cmp R k a c = Inr 0" if "kind_cmp R k a b = Inr 0" "kind_cmp R k b c = Inr 0"
    using by_kind assms(2-4) that unknown_kind.equal_trans[of R a b c] object_kind.equal_trans[of R a b c] by cases simp_all
qed


definition no_rat :: "string \<Rightarrow> rat option" where
  "no_rat s = None"


subsection \<open>Integers and objects\<close>

lemma parse_nat_sign: "parse_nat (fmt_nat n) = Some n \<Longrightarrow> fmt_nat n = c # r \<Longrightarrow> c \<noteq> CHR ''-'' \<and> c \<noteq> CHR ''+''"
  using fmt_nat_digits[of n] by (auto simp: is_digit_def)

text \<open>Integers of any width compare exactly.\<close>

lemma int_compare_exact: "kind_Compare R KInt (Lex KInt (fmt_int i)) (Lex KInt (fmt_int j)) = Inr (Compare i j)"
proof -
  have b: "bigint (fmt_int i) = Some i" for i
  proof (cases "fmt_nat (nat i)")
    case (Cons c r)
    then show ?thesis using parse_nat_sign[of "nat i" c r] parse_nat_fmt_nat[of "nat i"] by (auto simp: bigint_def fmt_int_def)
  qed simp
  show ?thesis by (simp add: kind_Compare_def compare_ints_def b)
qed

text \<open>The order of fields does not matter.\<close>

lemma objects_reordered: "map_of (rev m) = map_of (rev m') \<Longrightarrow> DeepEqual (Some m) (Some m')"
proof -
  assume "map_of (rev m) = map_of (rev m')"
  then have "map_of (rev (map (\<lambda>(k, v). (k, decoded v)) m)) = map_of (rev (map (\<lambda>(k, v). (k, decoded v)) m'))"
    by (simp add: rev_map map_of_map)
  then show ?thesis by (simp add: DeepEqual_def fields_eq_iff)
qed

text \<open>The spelling of a number does, and so does null against the empty object; text after the first
  value is not looked at.\<close>

definition quoted_field :: "string \<Rightarrow> string" where
  "quoted_field n = ''{'' @ [CHR 0x22] @ ''a'' @ [CHR 0x22] @ '':'' @ n @ ''}''"

lemma number_spelling_differs:
  "kind_Compare R KObject (Lex KObject (quoted_field ''1'')) (Lex KObject (quoted_field ''1.0'')) =
     Inl (ErrOther ''kind: object admits no order; the two documents differ'')"
proof -
  have "compare_objects (quoted_field ''1'') (quoted_field ''1.0'') = Inl (ErrOther ''kind: object admits no order; the two documents differ'')"
    by code_simp
  then show ?thesis by (simp add: kind_Compare_def)
qed

lemma object_trailing_text: "decodeObject ''{} and more'' = Inr (Some [])"
  by code_simp

end
