(* ===== verification/Dispatch.thy ===== *)
theory Dispatch
  imports Facade
begin

section \<open>Routing effects to providers: internal/effect/dispatch\<close>

text \<open>
  A key's address is what follows the collection name. The routes are a map of address prefixes; Go
  visits a map in any order, so the routes are an association list and what is shown holds for every
  order of it.
\<close>

definition longer :: "string \<Rightarrow> string \<Rightarrow> string \<Rightarrow> string" where
  "longer addr p best = (if HasPrefix addr p \<and> length p > length best then p else best)"

definition best_prefix :: "string \<Rightarrow> (string, 't) gomap \<Rightarrow> string" where
  "best_prefix addr routes = fold (longer addr) (gm_keys routes) []"

definition forKey :: "(string, 't) gomap \<Rightarrow> LedgerKey \<Rightarrow> 't result" where
  "forKey routes k = (case Cut (CHR ''/'') k of
     (_, _, False) \<Rightarrow> Inl (ErrOther ''dispatch: key has no address after the collection name'')
   | (_, addr, True) \<Rightarrow> (let best = best_prefix addr routes in
       if best = [] then Inl (ErrOther ''dispatch: no provider registered'')
       else (case gm_get routes best of Some e \<Rightarrow> Inr e | None \<Rightarrow> Inl (ErrOther ''dispatch: no provider registered''))))"

definition router :: "(string, 'w Effector) gomap \<Rightarrow> 'w Effector" where
  "router routes = \<lparr>
     Effect = (\<lambda>w exchange k inp. case forKey routes k of Inl e \<Rightarrow> (w, Inl e) | Inr p \<Rightarrow> Effect p w exchange k inp),
     Read = (\<lambda>w exchange k inp. case forKey routes k of Inl e \<Rightarrow> Inl e | Inr p \<Rightarrow> Read p w exchange k inp)\<rparr>"

subsection \<open>The longest prefix wins\<close>

lemma best_prefix_fold:
  assumes "HasPrefix addr best0"
  shows "HasPrefix addr (fold (longer addr) ps best0) \<and> (fold (longer addr) ps best0 = best0 \<or> fold (longer addr) ps best0 \<in> set ps) \<and>
    length best0 \<le> length (fold (longer addr) ps best0) \<and> (\<forall>p\<in>set ps. HasPrefix addr p \<longrightarrow> length p \<le> length (fold (longer addr) ps best0))"
  using assms
proof (induction ps arbitrary: best0)
  case (Cons p ps)
  let ?b = "longer addr p best0"
  have b: "HasPrefix addr ?b" "?b = best0 \<or> ?b = p" "length best0 \<le> length ?b" "HasPrefix addr p \<longrightarrow> length p \<le> length ?b"
    using Cons.prems by (auto simp: longer_def)
  from Cons.IH[OF b(1)] b show ?case by (auto intro: le_trans)
qed simp

lemma prefix_same_length: "HasPrefix s p \<Longrightarrow> HasPrefix s q \<Longrightarrow> length p = length q \<Longrightarrow> p = q"
  by (auto simp: HasPrefix_iff)

lemma best_prefix_iff:
  "best_prefix addr routes = b \<and> b \<noteq> [] \<longleftrightarrow>
     b \<noteq> [] \<and> b \<in> set (gm_keys routes) \<and> HasPrefix addr b \<and> (\<forall>p\<in>set (gm_keys routes). HasPrefix addr p \<longrightarrow> length p \<le> length b)"
proof -
  have n: "HasPrefix addr []" by (simp add: HasPrefix_iff)
  note f = best_prefix_fold[OF n, of "gm_keys routes", folded best_prefix_def]
  show ?thesis
  proof
    assume "best_prefix addr routes = b \<and> b \<noteq> []"
    then show "b \<noteq> [] \<and> b \<in> set (gm_keys routes) \<and> HasPrefix addr b \<and> (\<forall>p\<in>set (gm_keys routes). HasPrefix addr p \<longrightarrow> length p \<le> length b)"
      using f by blast
  next
    assume b: "b \<noteq> [] \<and> b \<in> set (gm_keys routes) \<and> HasPrefix addr b \<and> (\<forall>p\<in>set (gm_keys routes). HasPrefix addr p \<longrightarrow> length p \<le> length b)"
    then have le: "length b \<le> length (best_prefix addr routes)" using f by blast
    then have "best_prefix addr routes \<noteq> []" using b by auto
    then have "length (best_prefix addr routes) \<le> length b" using f b by blast
    with le have "best_prefix addr routes = b" using prefix_same_length[of addr _ b] f b by (simp only: le_antisym)
    then show "best_prefix addr routes = b \<and> b \<noteq> []" using b by blast
  qed
qed

text \<open>A key goes to the provider of its most specific prefix. Routing answers with a provider exactly
  where the key has an address and a registered, non-empty prefix of it is at least as long as every
  other registered prefix of it; that prefix is then the only such one and the provider is what it is
  registered with, whatever order the map of routes is visited in.\<close>

theorem dispatch_most_specific:
  assumes "gm_wf routes"
  shows "forKey routes k = Inr e \<longleftrightarrow> (\<exists>c addr p. k = c @ CHR ''/'' # addr \<and> CHR ''/'' \<notin> set c \<and> p \<noteq> [] \<and> (p, e) \<in> set routes \<and> HasPrefix addr p \<and>
    (\<forall>(q, _)\<in>set routes. HasPrefix addr q \<longrightarrow> length q \<le> length p))"
proof -
  obtain c addr found where cut: "Cut (CHR ''/'') k = (c, addr, found)" by (metis prod_cases3)
  have keys: "(\<forall>(q, _)\<in>set routes. P q) \<longleftrightarrow> (\<forall>q\<in>set (gm_keys routes). P q)" for P by auto
  show ?thesis
  proof (cases found)
    case True
    then have k: "k = c @ CHR ''/'' # addr" "CHR ''/'' \<notin> set c" using Cut_correct[of "CHR ''/''" k] cut by auto
    have same: "c' = c \<and> addr' = addr" if "k = c' @ CHR ''/'' # addr'" "CHR ''/'' \<notin> set c'" for c' addr'
      using Cut_found[OF that(2), of addr'] cut that(1) by simp
    have "forKey routes k = Inr e \<longleftrightarrow> (\<exists>p. best_prefix addr routes = p \<and> p \<noteq> [] \<and> gm_get routes p = Some e)"
      using cut True by (auto simp: forKey_def Let_def split: option.splits)
    also have "\<dots> \<longleftrightarrow> (\<exists>p. p \<noteq> [] \<and> (p, e) \<in> set routes \<and> HasPrefix addr p \<and> (\<forall>(q, _)\<in>set routes. HasPrefix addr q \<longrightarrow> length q \<le> length p))"
    proof (rule ex_cong1)
      fix p
      have "p \<in> set (gm_keys routes)" if "(p, e) \<in> set routes" using that by force
      then show "(best_prefix addr routes = p \<and> p \<noteq> [] \<and> gm_get routes p = Some e) =
          (p \<noteq> [] \<and> (p, e) \<in> set routes \<and> HasPrefix addr p \<and> (\<forall>(q, _)\<in>set routes. HasPrefix addr q \<longrightarrow> length q \<le> length p))"
        unfolding keys gm_get_Some_iff[OF assms] using best_prefix_iff[of addr routes p] by blast
    qed
    finally have f: "forKey routes k = Inr e \<longleftrightarrow> (\<exists>p. p \<noteq> [] \<and> (p, e) \<in> set routes \<and> HasPrefix addr p \<and>
        (\<forall>(q, _)\<in>set routes. HasPrefix addr q \<longrightarrow> length q \<le> length p))" .
    show ?thesis
    proof
      assume "forKey routes k = Inr e"
      then obtain p where p: "p \<noteq> []" "(p, e) \<in> set routes" "HasPrefix addr p"
        "\<forall>(q, _)\<in>set routes. HasPrefix addr q \<longrightarrow> length q \<le> length p" unfolding f by (elim exE conjE)
      show "\<exists>c addr p. k = c @ CHR ''/'' # addr \<and> CHR ''/'' \<notin> set c \<and> p \<noteq> [] \<and> (p, e) \<in> set routes \<and> HasPrefix addr p \<and>
          (\<forall>(q, _)\<in>set routes. HasPrefix addr q \<longrightarrow> length q \<le> length p)"
        by (rule exI[of _ c], rule exI[of _ addr], rule exI[of _ p]) (intro conjI k p)
    next
      assume "\<exists>c addr p. k = c @ CHR ''/'' # addr \<and> CHR ''/'' \<notin> set c \<and> p \<noteq> [] \<and> (p, e) \<in> set routes \<and> HasPrefix addr p \<and>
          (\<forall>(q, _)\<in>set routes. HasPrefix addr q \<longrightarrow> length q \<le> length p)"
      then obtain c' addr' p where p: "k = c' @ CHR ''/'' # addr'" "CHR ''/'' \<notin> set c'" "p \<noteq> []" "(p, e) \<in> set routes"
        "HasPrefix addr' p" "\<forall>(q, _)\<in>set routes. HasPrefix addr' q \<longrightarrow> length q \<le> length p" by (elim exE conjE)
      have "addr' = addr" using same[OF p(1,2)] by simp
      then show "forKey routes k = Inr e" unfolding f using p(3-6) by (intro exI[of _ p]) simp
    qed
  next
    case False
    then have "CHR ''/'' \<notin> set k" using Cut_correct[of "CHR ''/''" k] cut by auto
    then show ?thesis using cut False by (auto simp: forKey_def)
  qed
qed

theorem dispatch_most_specific_witness:
  "forKey [(''aws'', 1), (''aws.ec2'', 2)] ''prod/aws.ec2.vpcs'' = Inr (2 :: nat) \<and> forKey [(''aws.ec2'', 2), (''aws'', 1)] ''prod/aws.ec2.vpcs'' = Inr (2 :: nat)"
proof -
  let ?k = "''prod/aws.ec2.vpcs''"
  have k: "?k = ''prod'' @ CHR ''/'' # ''aws.ec2.vpcs''" by simp
  have "forKey rs ?k = Inr 2" if "gm_wf rs" "set rs = {(''aws'', 1), (''aws.ec2'', 2 :: nat)}" for rs
    unfolding dispatch_most_specific[OF that(1)]
    by (intro exI[of _ "''prod''"] exI[of _ "''aws.ec2.vpcs''"] exI[of _ "''aws.ec2''"]) (simp add: that(2) HasPrefix_def)
  from this[of "[(''aws'', 1), (''aws.ec2'', 2)]"] this[of "[(''aws.ec2'', 2), (''aws'', 1)]"] show ?thesis by auto
qed

text \<open>A route registered for every address, the empty prefix, is never taken.\<close>

lemma empty_prefix_unused: "forKey [([], e)] ''prod/aws.ec2.vpcs'' = Inl (ErrOther ''dispatch: no provider registered'')"
  by (simp add: forKey_def best_prefix_def longer_def)

text \<open>Effects and reads of a key are those of its provider; a key without one changes nothing.\<close>

lemma router_forwards:
  "forKey routes k = Inr p \<Longrightarrow> Effect (router routes) w x k inp = Effect p w x k inp \<and> Read (router routes) w x k inp = Read p w x k inp"
  "forKey routes k = Inl e \<Longrightarrow> Effect (router routes) w x k inp = (w, Inl e) \<and> Read (router routes) w x k inp = Inl e"
  by (simp_all add: router_def)

end
