(* ===== verification/Lru.thy ===== *)
theory Lru
  imports Omni_Prelude
begin

section \<open>The cost-weighted cache: pkg/cache\<close>

text \<open>
  A cache under a budget of total cost that evicts the least recently used. The list's front is the most
  recently used; the map holds each key's list element, here the entry itself, as a key is in the list
  at most once. Costs and the budget are 64-bit integers that wrap around, instants are integers, and
  their difference saturates as time.Sub does. What the budget is when none is configured depends on
  the machine's memory and is an argument. Removing the back of an empty list would panic: None.
\<close>

record ('k, 'v) entry =
  e_key :: 'k
  e_value :: 'v
  e_cost :: int
  e_stored :: int

record Config =
  c_MaxEntries :: int
  c_TTL :: int

record ('k, 'v) lru =
  l_cfg :: Config
  l_budget :: int
  l_cost :: int
  l_order :: "('k, 'v) entry list"
  l_items :: "'k \<rightharpoonup> ('k, 'v) entry"

definition NewLru :: "Config \<Rightarrow> int \<Rightarrow> ('k, 'v) lru" where
  "NewLru cfg budget = \<lparr>l_cfg = cfg, l_budget = budget, l_cost = 0, l_order = [], l_items = Map.empty\<rparr>"

definition time_Sub :: "int \<Rightarrow> int \<Rightarrow> int" where
  "time_Sub a b = max (- (2 ^ 63)) (min (2 ^ 63 - 1) (a - b))"

definition lru_remove :: "('k, 'v) entry \<Rightarrow> ('k, 'v) lru \<Rightarrow> ('k, 'v) lru" where
  "lru_remove e c = c\<lparr>l_order := remove1 e (l_order c), l_items := (l_items c)(e_key e := None), l_cost := wrap64 (l_cost c - e_cost e)\<rparr>"

definition lru_Get :: "int \<Rightarrow> 'k \<Rightarrow> ('k, 'v) lru \<Rightarrow> ('k, 'v) lru \<times> 'v option" where
  "lru_Get now k c = (case l_items c k of
     None \<Rightarrow> (c, None)
   | Some e \<Rightarrow> if c_TTL (l_cfg c) > 0 \<and> time_Sub now (e_stored e) > c_TTL (l_cfg c) then (lru_remove e c, None)
       else (c\<lparr>l_order := e # remove1 e (l_order c)\<rparr>, Some (e_value e)))"

definition over_budget :: "('k, 'v) lru \<Rightarrow> bool" where
  "over_budget c \<longleftrightarrow> l_cost c > l_budget c \<or> (c_MaxEntries (l_cfg c) > 0 \<and> int (length (l_order c)) > c_MaxEntries (l_cfg c))"

function lru_evict :: "('k, 'v) lru \<Rightarrow> ('k, 'v) lru option" where
  "lru_evict c = (if \<not> over_budget c then Some c
     else if l_order c = [] then None
     else lru_evict (lru_remove (last (l_order c)) c))"
  by pat_completeness auto
termination
  by (relation "measure (\<lambda>c. length (l_order c))") (auto simp: lru_remove_def length_remove1)

declare lru_evict.simps [simp del]

definition lru_Put :: "int \<Rightarrow> 'k \<Rightarrow> 'v \<Rightarrow> int \<Rightarrow> ('k, 'v) lru \<Rightarrow> ('k, 'v) lru option" where
  "lru_Put now k v cost0 c = (let
     cost = (if cost0 < 0 then 0 else cost0);
     c1 = (case l_items c k of Some e \<Rightarrow> lru_remove e c | None \<Rightarrow> c);
     e = \<lparr>e_key = k, e_value = v, e_cost = cost, e_stored = now\<rparr> in
     if cost > l_budget c then Some c1
     else lru_evict (c1\<lparr>l_order := e # l_order c1, l_items := (l_items c1)(k \<mapsto> e), l_cost := wrap64 (l_cost c1 + cost)\<rparr>))"

definition lru_Len :: "('k, 'v) lru \<Rightarrow> nat" where
  "lru_Len c = length (l_order c)"

definition lru_Cost :: "('k, 'v) lru \<Rightarrow> int" where
  "lru_Cost c = l_cost c"

subsection \<open>The invariant\<close>

definition costs :: "('k, 'v) entry list \<Rightarrow> int" where
  "costs es = sum_list (map e_cost es)"

definition fits :: "('k, 'v) lru \<Rightarrow> ('k, 'v) entry list \<Rightarrow> bool" where
  "fits c es \<longleftrightarrow> costs es \<le> l_budget c \<and> (c_MaxEntries (l_cfg c) > 0 \<longrightarrow> int (length es) \<le> c_MaxEntries (l_cfg c))"

text \<open>The list and the map agree, and the cost is that of the entries.\<close>

definition linked :: "('k, 'v) lru \<Rightarrow> bool" where
  "linked c \<longleftrightarrow> distinct (map e_key (l_order c)) \<and> l_items c = (\<lambda>k. find (\<lambda>e. e_key e = k) (l_order c)) \<and>
     (\<forall>e\<in>set (l_order c). 0 \<le> e_cost e) \<and> l_cost c = costs (l_order c)"

definition lru_inv :: "('k, 'v) lru \<Rightarrow> bool" where
  "lru_inv c \<longleftrightarrow> linked c \<and> 0 \<le> l_budget c \<and> l_budget c < 2 ^ 62 \<and> fits c (l_order c)"

lemma costs_simps [simp]: "costs [] = 0" "costs (e # es) = e_cost e + costs es" "costs (es @ fs) = costs es + costs fs"
  by (simp_all add: costs_def)

lemma costs_ge_0: "\<forall>e\<in>set es. 0 \<le> e_cost e \<Longrightarrow> 0 \<le> costs es"
  by (induction es) auto

lemma costs_remove1: "e \<in> set es \<Longrightarrow> costs (remove1 e es) = costs es - e_cost e"
  by (induction es) auto

lemma find_key_iff: "distinct (map e_key es) \<Longrightarrow> find (\<lambda>e. e_key e = k) es = Some e \<longleftrightarrow> e \<in> set es \<and> e_key e = k"
  by (induction es) (auto simp: image_iff)

lemma find_remove1:
  assumes "distinct (map e_key es)" "e \<in> set es"
  shows "find (\<lambda>x. e_key x = k) (remove1 e es) = (if k = e_key e then None else find (\<lambda>x. e_key x = k) es)"
  using assms by (induction es) (auto simp: find_None_iff image_iff)

lemma distinct_remove1_keys: "distinct (map e_key es) \<Longrightarrow> distinct (map e_key (remove1 e es))"
  by (induction es) (auto dest: set_remove1_subset[THEN subsetD])

lemma linked_remove:
  assumes "linked c" "e \<in> set (l_order c)" "costs (l_order c) < 2 ^ 63"
  shows "linked (lru_remove e c)" "l_order (lru_remove e c) = remove1 e (l_order c)"
    "l_cfg (lru_remove e c) = l_cfg c" "l_budget (lru_remove e c) = l_budget c"
proof -
  have nn: "\<forall>x\<in>set (remove1 e (l_order c)). 0 \<le> e_cost x" using assms(1) by (auto simp: linked_def dest: set_remove1_subset[THEN subsetD])
  have "costs (remove1 e (l_order c)) = l_cost c - e_cost e" using assms(1,2) by (simp add: linked_def costs_remove1)
  moreover have "0 \<le> e_cost e" "l_cost c < 2 ^ 63" using assms by (simp_all add: linked_def)
  ultimately have w: "wrap64 (l_cost c - e_cost e) = costs (remove1 e (l_order c))" using costs_ge_0[OF nn] by simp
  show "linked (lru_remove e c)"
    using assms(1,2) nn w by (auto simp: linked_def lru_remove_def distinct_remove1_keys find_remove1)
qed (simp_all add: lru_remove_def)

subsection \<open>Eviction keeps the longest prefix that fits\<close>

lemma remove1_last: "distinct xs \<Longrightarrow> xs \<noteq> [] \<Longrightarrow> remove1 (last xs) xs = butlast xs"
proof (induction xs rule: rev_induct)
  case (snoc x xs)
  then show ?case by (simp add: remove1_append)
qed simp

lemma linked_distinct: "linked c \<Longrightarrow> distinct (l_order c)"
  by (simp add: linked_def distinct_map)

lemma evict_spec:
  assumes "linked c" "costs (l_order c) < 2 ^ 63" "0 \<le> l_budget c"
  shows "\<exists>c' j. lru_evict c = Some c' \<and> linked c' \<and> l_order c' = take j (l_order c) \<and> j \<le> length (l_order c) \<and>
    l_cfg c' = l_cfg c \<and> l_budget c' = l_budget c \<and> fits c (l_order c') \<and> (\<forall>i>j. i \<le> length (l_order c) \<longrightarrow> \<not> fits c (take i (l_order c)))"
  using assms
proof (induction c rule: lru_evict.induct)
  case (1 c)
  have fit: "fits c (l_order c) \<longleftrightarrow> \<not> over_budget c" using 1(2) by (auto simp: fits_def over_budget_def linked_def)
  show ?case
  proof (cases "over_budget c")
    case False
    then show ?thesis using 1(2) fit by (intro exI[of _ c] exI[of _ "length (l_order c)"]) (simp add: lru_evict.simps)
  next
    case True
    have ne: "l_order c \<noteq> []" using True 1(2,4) by (auto simp: over_budget_def linked_def)
    let ?d = "lru_remove (last (l_order c)) c"
    note l = linked_remove[OF 1(2) last_in_set[OF ne] 1(3)]
    have ord: "l_order ?d = butlast (l_order c)" using l(2) remove1_last[OF linked_distinct[OF 1(2)] ne] by simp
    have "costs (l_order c) = costs (butlast (l_order c)) + e_cost (last (l_order c))"
      using costs_simps(3)[of "butlast (l_order c)" "[last (l_order c)]"] append_butlast_last_id[OF ne] by simp
    moreover have "0 \<le> e_cost (last (l_order c))" using 1(2) ne by (simp add: linked_def)
    ultimately have "costs (l_order ?d) < 2 ^ 63" using 1(3) ord by simp
    from 1(1)[OF _ ne l(1) this] True l(4) 1(4) obtain c' j where
      c': "lru_evict ?d = Some c'" "linked c'" "l_order c' = take j (l_order ?d)" "j \<le> length (l_order ?d)" "l_cfg c' = l_cfg ?d" "l_budget c' = l_budget ?d"
        "fits ?d (l_order c')" "\<forall>i>j. i \<le> length (l_order ?d) \<longrightarrow> \<not> fits ?d (take i (l_order ?d))" by auto
    have f: "fits ?d es = fits c es" for es using l(3,4) by (simp add: fits_def)
    have t: "take i (l_order ?d) = take i (l_order c)" if "i < length (l_order c)" for i using that ord by (simp add: take_butlast)
    have j: "j < length (l_order c)" using c'(4) ord ne by (simp add: less_eq_Suc_le) (metis Suc_pred length_greater_0_conv not_less_eq_eq)
    have "\<not> fits c (take i (l_order c))" if "i > j" "i \<le> length (l_order c)" for i
    proof (cases "i = length (l_order c)")
      case True
      then show ?thesis using fit \<open>over_budget c\<close> by simp
    next
      case False
      then have "i < length (l_order c)" using that by simp
      then show ?thesis using c'(8) that(1) t[of i] f ord by auto
    qed
    moreover have "lru_evict c = Some c'" using True ne c'(1) by (simp add: lru_evict.simps[of c])
    ultimately show ?thesis using c' l(3,4) f t[OF j] j by (intro exI[of _ c'] exI[of _ j]) auto
  qed
qed

subsection \<open>Putting and getting\<close>

definition others :: "'k \<Rightarrow> ('k, 'v) lru \<Rightarrow> ('k, 'v) entry list" where
  "others k c = filter (\<lambda>e. e_key e \<noteq> k) (l_order c)"

definition expired :: "int \<Rightarrow> ('k, 'v) lru \<Rightarrow> ('k, 'v) entry \<Rightarrow> bool" where
  "expired now c e \<longleftrightarrow> c_TTL (l_cfg c) > 0 \<and> time_Sub now (e_stored e) > c_TTL (l_cfg c)"

lemma remove1_others: "distinct (map e_key es) \<Longrightarrow> e \<in> set es \<Longrightarrow> remove1 e es = filter (\<lambda>x. e_key x \<noteq> e_key e) es"
  by (induction es) (auto simp: filter_id_conv image_iff intro!: filter_True[symmetric])

lemma costs_filter: "\<forall>e\<in>set es. 0 \<le> e_cost e \<Longrightarrow> costs (filter P es) \<le> costs es"
  by (induction es) auto

lemma linked_items: "linked c \<Longrightarrow> l_items c k = Some e \<longleftrightarrow> e \<in> set (l_order c) \<and> e_key e = k"
  by (simp add: linked_def find_key_iff)

lemma linked_absent: "linked c \<Longrightarrow> l_items c k = None \<longleftrightarrow> (\<forall>e\<in>set (l_order c). e_key e \<noteq> k)"
  by (auto simp: linked_def find_None_iff)

lemma inv_small: "lru_inv c \<Longrightarrow> costs (l_order c) < 2 ^ 63"
  by (simp add: lru_inv_def fits_def)

text \<open>Taking a key out, as both operations begin.\<close>

definition without :: "'k \<Rightarrow> ('k, 'v) lru \<Rightarrow> ('k, 'v) lru" where
  "without k c = (case l_items c k of Some e \<Rightarrow> lru_remove e c | None \<Rightarrow> c)"

lemma without_spec:
  assumes "lru_inv c"
  shows "lru_inv (without k c)" "l_order (without k c) = others k c" "l_cfg (without k c) = l_cfg c" "l_budget (without k c) = l_budget c"
    "l_items (without k c) k = None"
proof -
  have l: "linked c" using assms by (simp add: lru_inv_def)
  have p: "linked (without k c) \<and> l_order (without k c) = others k c \<and> l_cfg (without k c) = l_cfg c \<and> l_budget (without k c) = l_budget c"
  proof (cases "l_items c k")
    case None
    then have "others k c = l_order c" using linked_absent[OF l, of k] by (simp add: others_def)
    then show ?thesis using l None by (simp add: without_def)
  next
    case (Some e)
    then have e: "e \<in> set (l_order c)" "e_key e = k" using linked_items[OF l] by simp_all
    have "l_order (lru_remove e c) = others k c" using remove1_others[OF _ e(1)] l e(2) by (simp add: lru_remove_def others_def linked_def)
    then show ?thesis using linked_remove[OF l e(1) inv_small[OF assms]] Some by (simp add: without_def)
  qed
  then show "l_order (without k c) = others k c" "l_cfg (without k c) = l_cfg c" "l_budget (without k c) = l_budget c" by blast+
  have "costs (others k c) \<le> costs (l_order c)" using l costs_filter[of "l_order c" "\<lambda>e. e_key e \<noteq> k"] by (simp add: linked_def others_def)
  moreover have "length (others k c) \<le> length (l_order c)" by (simp add: others_def)
  ultimately show "lru_inv (without k c)" using p assms by (auto simp: lru_inv_def fits_def)
  show "l_items (without k c) k = None" using p linked_absent by (fastforce simp: others_def)
qed

lemma get_spec:
  assumes "lru_inv c"
  shows "lru_inv (fst (lru_Get now k c))"
    "snd (lru_Get now k c) = (case l_items c k of Some e \<Rightarrow> if expired now c e then None else Some (e_value e) | None \<Rightarrow> None)"
    "l_order (fst (lru_Get now k c)) = (case l_items c k of Some e \<Rightarrow> if expired now c e then others k c else e # others k c | None \<Rightarrow> l_order c)"
proof -
  have l: "linked c" using assms by (simp add: lru_inv_def)
  have "lru_inv (fst (lru_Get now k c)) \<and> snd (lru_Get now k c) = (case l_items c k of Some e \<Rightarrow> if expired now c e then None else Some (e_value e) | None \<Rightarrow> None) \<and>
      l_order (fst (lru_Get now k c)) = (case l_items c k of Some e \<Rightarrow> if expired now c e then others k c else e # others k c | None \<Rightarrow> l_order c)"
  proof (cases "l_items c k")
    case None
    then show ?thesis using assms by (simp add: lru_Get_def)
  next
    case (Some e)
    then have e: "e \<in> set (l_order c)" "e_key e = k" using linked_items[OF l] by simp_all
    have d: "distinct (map e_key (l_order c))" using l by (simp add: linked_def)
    note r = remove1_others[OF d e(1), unfolded e(2), folded others_def]
    have mv: "linked (c\<lparr>l_order := e # others k c\<rparr>) \<and> costs (e # others k c) = costs (l_order c) \<and> length (e # others k c) = length (l_order c)"
    proof (intro conjI)
      show c: "costs (e # others k c) = costs (l_order c)" using costs_remove1[OF e(1)] r by simp
      have "distinct (map e_key (e # others k c))" using d e(2) by (auto simp: others_def distinct_map_filter)
      moreover have "find (\<lambda>x. e_key x = k') (e # others k c) = find (\<lambda>x. e_key x = k') (l_order c)" for k'
        using find_remove1[OF d e(1), of k'] find_key_iff[OF d, of k e] e r by auto
      moreover have "\<forall>x\<in>set (e # others k c). 0 \<le> e_cost x" using l e(1) by (auto simp: linked_def others_def)
      ultimately show "linked (c\<lparr>l_order := e # others k c\<rparr>)" using l c by (simp add: linked_def)
      show "length (e # others k c) = length (l_order c)" using length_remove1[of e "l_order c"] e(1) r length_pos_if_in_set[OF e(1)] by simp
    qed
    have rm: "lru_remove e c = without k c" using Some by (simp add: without_def)
    show ?thesis using Some r mv without_spec[OF assms, of k] assms rm by (auto simp: lru_Get_def expired_def lru_inv_def fits_def)
  qed
  then show "lru_inv (fst (lru_Get now k c))"
    "snd (lru_Get now k c) = (case l_items c k of Some e \<Rightarrow> if expired now c e then None else Some (e_value e) | None \<Rightarrow> None)"
    "l_order (fst (lru_Get now k c)) = (case l_items c k of Some e \<Rightarrow> if expired now c e then others k c else e # others k c | None \<Rightarrow> l_order c)"
    by blast+
qed

definition lru_entry :: "int \<Rightarrow> 'k \<Rightarrow> 'v \<Rightarrow> int \<Rightarrow> ('k, 'v) entry" where
  "lru_entry now k v cost = \<lparr>e_key = k, e_value = v, e_cost = max 0 cost, e_stored = now\<rparr>"

lemma lru_Put_alt: "lru_Put now k v cost c = (if max 0 cost > l_budget c then Some (without k c)
    else lru_evict ((without k c)\<lparr>l_order := lru_entry now k v cost # l_order (without k c),
      l_items := (l_items (without k c))(k \<mapsto> lru_entry now k v cost), l_cost := wrap64 (l_cost (without k c) + max 0 cost)\<rparr>))"
  by (simp add: lru_Put_def without_def lru_entry_def Let_def max_def split: option.split)

lemma put_linked:
  assumes i: "lru_inv c" and le: "max 0 cost \<le> l_budget c"
  shows "linked ((without k c)\<lparr>l_order := lru_entry now k v cost # others k c, l_items := (l_items (without k c))(k \<mapsto> lru_entry now k v cost),
      l_cost := wrap64 (l_cost (without k c) + max 0 cost)\<rparr>)" "costs (lru_entry now k v cost # others k c) < 2 ^ 63"
proof -
  note w = without_spec[OF i, of k]
  have l: "linked (without k c)" "0 \<le> costs (others k c)" "costs (others k c) \<le> l_budget c" "l_budget c < 2 ^ 62"
    using w i costs_ge_0[of "others k c"] by (auto simp: lru_inv_def linked_def fits_def)
  then show s: "costs (lru_entry now k v cost # others k c) < 2 ^ 63" using le by (simp add: lru_entry_def)
  have "wrap64 (l_cost (without k c) + max 0 cost) = costs (lru_entry now k v cost # others k c)"
    using l le w(2) s by (simp add: linked_def lru_entry_def)
  moreover have "k \<notin> e_key ` set (others k c)" by (auto simp: others_def)
  ultimately show "linked ((without k c)\<lparr>l_order := lru_entry now k v cost # others k c, l_items := (l_items (without k c))(k \<mapsto> lru_entry now k v cost),
      l_cost := wrap64 (l_cost (without k c) + max 0 cost)\<rparr>)"
    using l(1) w(2) by (auto simp: linked_def fun_eq_iff lru_entry_def)
qed

lemma put_spec:
  assumes i: "lru_inv c"
  shows "\<exists>c'. lru_Put now k v cost c = Some c' \<and> lru_inv c' \<and>
    (if max 0 cost > l_budget c then l_order c' = others k c \<and> snd (lru_Get t k c') = None
     else (\<exists>j\<ge>1. l_order c' = take j (lru_entry now k v cost # others k c) \<and> fits c (l_order c') \<and>
         (\<forall>i>j. i \<le> Suc (length (others k c)) \<longrightarrow> \<not> fits c (take i (lru_entry now k v cost # others k c)))) \<and>
       snd (lru_Get t k c') = (if expired t c (lru_entry now k v cost) then None else Some v))"
proof (cases "max 0 cost > l_budget c")
  case True
  note w = without_spec[OF i, of k]
  then have "snd (lru_Get t k (without k c)) = None" using get_spec(2)[OF w(1), of t k] by simp
  then show ?thesis using True w by (simp add: lru_Put_alt)
next
  case False
  let ?e = "lru_entry now k v cost" and ?es = "lru_entry now k v cost # others k c"
  let ?c = "(without k c)\<lparr>l_order := ?es, l_items := (l_items (without k c))(k \<mapsto> ?e), l_cost := wrap64 (l_cost (without k c) + max 0 cost)\<rparr>"
  note w = without_spec[OF i, of k]
  have le: "max 0 cost \<le> l_budget c" using False by linarith
  note p = put_linked[OF i le, where k = k and now = now and v = v]
  have b: "0 \<le> l_budget ?c" using i w(4) by (simp add: lru_inv_def)
  from evict_spec[OF p(1) _ b] p(2) obtain c' j where c': "lru_evict ?c = Some c'" "linked c'" "l_order c' = take j ?es" "j \<le> length ?es"
    "l_cfg c' = l_cfg c" "l_budget c' = l_budget c" "fits ?c (l_order c')" "\<forall>i>j. i \<le> length ?es \<longrightarrow> \<not> fits ?c (take i ?es)"
    using w(3,4) by auto
  have f: "fits ?c xs = fits c xs" for xs using w(3,4) by (simp add: fits_def)
  have "fits c (take 1 ?es)" using le by (simp add: fits_def lru_entry_def)
  then have j: "1 \<le> j" using c'(8) f by (metis One_nat_def le_add1 length_Cons not_less_eq_eq not_le plus_1_eq_Suc)
  have "fits c (l_order c')" using c'(7) f by simp
  then have "fits c' (l_order c')" using c'(5,6) by (simp add: fits_def)
  then have inv: "lru_inv c'" using c'(2,6) i by (simp add: lru_inv_def)
  have "?e \<in> set (l_order c')" using c'(3) j by (cases j) auto
  then have it: "l_items c' k = Some ?e" using linked_items[OF c'(2), of k ?e] by (simp add: lru_entry_def)
  have "snd (lru_Get t k c') = (if expired t c ?e then None else Some v)"
    using get_spec(2)[OF inv, of t k] it c'(5) by (simp add: expired_def lru_entry_def)
  moreover have "lru_Put now k v cost c = Some c'" using False c'(1) w(2) by (simp add: lru_Put_alt)
  ultimately show ?thesis using False c'(3,7,8) f j inv by (intro exI[of _ c']) auto
qed


definition page_cache :: "(string, nat) lru" where
  "page_cache = NewLru \<lparr>c_MaxEntries = 2, c_TTL = 10\<rparr> 100"

lemma NewLru_inv: "0 \<le> b \<Longrightarrow> b < 2 ^ 62 \<Longrightarrow> lru_inv (NewLru cfg b)"
  by (simp add: lru_inv_def NewLru_def linked_def fits_def)


subsection \<open>Every history stays within the limits\<close>

inductive lru_step :: "('k, 'v) lru \<Rightarrow> ('k, 'v) lru \<Rightarrow> bool" where
  get: "lru_step c (fst (lru_Get now k c))"
| put: "lru_Put now k v cost c = Some c' \<Longrightarrow> lru_step c c'"

lemma get_keeps: "l_budget (fst (lru_Get now k c)) = l_budget c" "l_cfg (fst (lru_Get now k c)) = l_cfg c"
  by (simp_all add: lru_Get_def lru_remove_def split: option.split)

lemma lru_bounded:
  assumes "lru_step\<^sup>*\<^sup>* (NewLru cfg b) c" "0 \<le> b" "b < 2 ^ 62"
  shows "lru_inv c \<and> l_budget c = b \<and> l_cfg c = cfg \<and> lru_Put now k v cost c \<noteq> None"
proof -
  have "lru_inv c \<and> l_budget c = b \<and> l_cfg c = cfg" using assms(1)
  proof induction
    case base
    then show ?case using assms NewLru_inv by (simp add: NewLru_def)
  next
    case (step c d)
    from step(2) show ?case
    proof cases
      case (get now k)
      then show ?thesis using step(3) get_spec(1) get_keeps by metis
    next
      case (put now k v cost)
      have "l_budget d = l_budget c \<and> l_cfg d = l_cfg c"
      proof (cases "max 0 cost > l_budget c")
        case True
        then show ?thesis using put without_spec(3,4) step(3) by (auto simp: lru_Put_alt)
      next
        case False
        then have le: "max 0 cost \<le> l_budget c" by linarith
        show ?thesis using put False without_spec[of c k] step(3)
            evict_spec[OF put_linked(1)[OF _ le, where k = k and now = now and v = v]] put_linked(2)[OF _ le, where k = k and now = now and v = v]
          by (auto simp: lru_Put_alt lru_inv_def)
      qed
      then show ?thesis using put put_spec[of c now k v cost] step(3) by force
    qed
  qed
  then show ?thesis using put_spec[of c now k v cost] by force
qed

text \<open>Beyond that the 64-bit total can wrap around: two entries of half the range fit a budget of the
  largest integer, their total reads as negative, and nothing is evicted.\<close>

lemma lru_total_wraps:
  "\<exists>c. lru_Put 0 ''a'' () (2 ^ 62) (NewLru \<lparr>c_MaxEntries = 0, c_TTL = 0\<rparr> (2 ^ 63 - 1)) = Some c \<and>
    (\<exists>d. lru_Put 0 ''b'' () (2 ^ 62) c = Some d \<and> lru_Cost d = - (2 ^ 63) \<and> costs (l_order d) = 2 ^ 63 \<and> costs (l_order d) > l_budget d)"
  by (simp add: lru_Put_def NewLru_def lru_evict.simps over_budget_def wrap64_def lru_Cost_def Let_def)

end
