(* ===== verification/Pg_Date.thy ===== *)
theory Pg_Date
  imports Omni_Prelude "HOL-Library.Signed_Division"
begin

section \<open>Dates and timestamps: pkg/sqlfn, pg\_datetime\<close>

text \<open>
  The calendar of PostgreSQL as pkg/sqlfn ports it: Julian days in wrapping 32-bit arithmetic, the time
  of day and timestamps in 64-bit microseconds from 2000. Go's division truncates, \<open>sdiv\<close>; unsigned
  32-bit values are kept modulo \<open>2 ^ 32\<close>. What a named zone
  adds to a timestamp, Go's time package, is a parameter.
\<close>

definition wrap32 :: "int \<Rightarrow> int" where
  "wrap32 x = (x + 2 ^ 31) mod 2 ^ 32 - 2 ^ 31"

definition u32 :: "int \<Rightarrow> int" where
  "u32 x = x mod 2 ^ 32"

definition pgUsecsPerDay :: int where "pgUsecsPerDay = 86400000000"

definition pgUsecsPerHour :: int where "pgUsecsPerHour = 3600000000"

definition pgUsecsPerMinute :: int where "pgUsecsPerMinute = 60000000"

definition pgUsecsPerSec :: int where "pgUsecsPerSec = 1000000"

definition pgPostgresEpochJDate :: int where "pgPostgresEpochJDate = 2451545"

definition pgMinTimestamp :: int where "pgMinTimestamp = - 211813488000000000"

definition pgEndTimestamp :: int where "pgEndTimestamp = 9223371331200000000"

definition pgIsValidJulian :: "int \<Rightarrow> int \<Rightarrow> int \<Rightarrow> bool" where
  "pgIsValidJulian y m d \<longleftrightarrow> (y > - 4713 \<or> (y = - 4713 \<and> m \<ge> 11)) \<and> (y < 5874898 \<or> (y = 5874898 \<and> m < 6))"

definition pgIsValidTimestamp :: "int \<Rightarrow> bool" where
  "pgIsValidTimestamp t \<longleftrightarrow> pgMinTimestamp \<le> t \<and> t < pgEndTimestamp"

definition pgDateEndJulian :: int where "pgDateEndJulian = 2147483494"

definition pgIsValidDate :: "int \<Rightarrow> bool" where
  "pgIsValidDate d \<longleftrightarrow> 0 - pgPostgresEpochJDate \<le> d \<and> d < pgDateEndJulian - pgPostgresEpochJDate"

definition pgIsLeap :: "int \<Rightarrow> int" where
  "pgIsLeap y = (if y smod 4 = 0 \<and> (y smod 100 \<noteq> 0 \<or> y smod 400 = 0) then 1 else 0)"

definition pgDayTab :: "int list list" where
  "pgDayTab = [[31, 28, 31, 30, 31, 30, 31, 31, 30, 31, 30, 31, 0], [31, 29, 31, 30, 31, 30, 31, 31, 30, 31, 30, 31, 0]]"

definition date2j :: "int \<Rightarrow> int \<Rightarrow> int \<Rightarrow> int" where
  "date2j y0 m0 d = (let
     m = (if m0 > 2 then wrap32 (m0 + 1) else wrap32 (m0 + 13));
     y = (if m0 > 2 then wrap32 (y0 + 4800) else wrap32 (y0 + 4799));
     century = y sdiv 100;
     julian = wrap32 (wrap32 (y * 365) - 32167);
     julian = wrap32 (julian + wrap32 (wrap32 (y sdiv 4 - century) + century sdiv 4)) in
     wrap32 (julian + wrap32 (wrap32 (7834 * m) sdiv 256 + d)))"

definition j2date :: "int \<Rightarrow> int \<times> int \<times> int" where
  "j2date jd = (let
     julian = u32 (u32 jd + 32044);
     quad = julian div 146097;
     extra = u32 (u32 (u32 (julian - u32 (quad * 146097)) * 4) + 3);
     julian = u32 (julian + u32 (u32 (60 + u32 (quad * 3)) + extra div 146097));
     quad = julian div 1461;
     julian = u32 (julian - u32 (quad * 1461));
     y = wrap32 (u32 (julian * 4) div 1461);
     julian = (if y \<noteq> 0 then u32 (u32 (julian + 305) mod 365 + 123) else u32 (u32 (julian + 306) mod 366 + 123));
     y = wrap32 (y + wrap32 (u32 (quad * 4)));
     year = wrap32 (y - 4800);
     quad = u32 (julian * 2141) div 65536;
     day = wrap32 (u32 (julian - u32 (7834 * quad) div 256));
     month = wrap32 (u32 (u32 (quad + 10) mod 12 + 1)) in
     (year, month, day))"

definition j2day :: "int \<Rightarrow> int" where
  "j2day date0 = (let date = wrap32 (date0 + 1) smod 7 in if date < 0 then date + 7 else date)"

definition dt2time :: "int \<Rightarrow> int \<times> int \<times> int \<times> int" where
  "dt2time jd = (let
     hour = wrap32 (jd sdiv pgUsecsPerHour);
     t = wrap64 (jd - wrap64 (hour * pgUsecsPerHour));
     mi = wrap32 (t sdiv pgUsecsPerMinute);
     t = wrap64 (t - wrap64 (mi * pgUsecsPerMinute));
     sec = wrap32 (t sdiv pgUsecsPerSec);
     fsec = wrap64 (t - wrap64 (sec * pgUsecsPerSec)) in
     (hour, mi, sec, fsec))"

definition time2t :: "int \<Rightarrow> int \<Rightarrow> int \<Rightarrow> int \<Rightarrow> int" where
  "time2t hour mi sec fsec = wrap64 (wrap64 (wrap64 (wrap64 (wrap64 (wrap64 (hour * 60) + mi) * 60) + sec) * pgUsecsPerSec) + fsec)"

record pgTm =
  tm_sec :: int
  tm_min :: int
  tm_hour :: int
  tm_mday :: int
  tm_mon :: int
  tm_year :: int
  tm_wday :: int
  tm_yday :: int
  tm_isdst :: int
  tm_gmtoff :: int
  tm_zone :: string

text \<open>The zone is None where none is asked for; its wall clock, Go's time package, is the argument.\<close>

definition timestamp2tm :: "int \<Rightarrow> (int \<Rightarrow> pgTm) option \<Rightarrow> (pgTm \<times> int \<times> int \<times> string) option" where
  "timestamp2tm dt z = (let
     date = dt sdiv pgUsecsPerDay;
     t0 = (if date \<noteq> 0 then wrap64 (dt - wrap64 (date * pgUsecsPerDay)) else dt);
     t = (if t0 < 0 then wrap64 (t0 + pgUsecsPerDay) else t0);
     date = (if t0 < 0 then wrap64 (date - 1) else date);
     date = wrap64 (date + pgPostgresEpochJDate) in
     if date < 0 \<or> date > 2 ^ 31 - 1 then None
     else (case j2date (wrap32 date) of (year, mon, mday) \<Rightarrow> (case dt2time t of (hour, mi, sec, fsec) \<Rightarrow> (let
       tm = \<lparr>tm_sec = sec, tm_min = mi, tm_hour = hour, tm_mday = mday, tm_mon = mon, tm_year = year,
             tm_wday = 0, tm_yday = 0, tm_isdst = 0, tm_gmtoff = 0, tm_zone = []\<rparr> in
       (case z of None \<Rightarrow> Some (tm\<lparr>tm_isdst := - 1\<rparr>, fsec, 0, [])
        | Some localTime \<Rightarrow> (let
            utime = wrap64 (wrap64 (dt - fsec) sdiv pgUsecsPerSec + 946684800);
            lt = localTime utime;
            tm = tm\<lparr>tm_year := tm_year lt, tm_mon := tm_mon lt, tm_mday := tm_mday lt, tm_hour := tm_hour lt, tm_min := tm_min lt,
                    tm_sec := tm_sec lt, tm_isdst := tm_isdst lt, tm_gmtoff := tm_gmtoff lt, tm_zone := tm_zone lt\<rparr> in
            Some (tm, fsec, wrap32 (wrap64 (- tm_gmtoff tm)), tm_zone tm)))))))"

text \<open>The offset is None where no zone is given.\<close>

definition tm2timestamp :: "pgTm \<Rightarrow> int \<Rightarrow> int option \<Rightarrow> int option" where
  "tm2timestamp tm fsec tz = (if \<not> pgIsValidJulian (tm_year tm) (tm_mon tm) (tm_mday tm) then None
     else (let
       date = wrap64 (date2j (tm_year tm) (tm_mon tm) (tm_mday tm) - pgPostgresEpochJDate);
       t = time2t (tm_hour tm) (tm_min tm) (tm_sec tm) fsec;
       result = wrap64 (wrap64 (date * pgUsecsPerDay) + t) in
       if wrap64 (result - t) sdiv pgUsecsPerDay \<noteq> date then None
       else if (result < 0 \<and> date > 0) \<or> (result > 0 \<and> date < - 1) then None
       else (let result = (case tz of None \<Rightarrow> result | Some z \<Rightarrow> wrap64 (result - wrap64 (wrap32 (- z) * pgUsecsPerSec))) in
         if pgIsValidTimestamp result then Some result else None)))"

subsection \<open>Machine arithmetic within range\<close>

lemma wrap32_id [simp]: "- (2 ^ 31) \<le> x \<Longrightarrow> x < 2 ^ 31 \<Longrightarrow> wrap32 x = x"
  by (simp add: wrap32_def)

lemma u32_id [simp]: "0 \<le> x \<Longrightarrow> x < 2 ^ 32 \<Longrightarrow> u32 x = x"
  by (simp add: u32_def)

lemma sdiv_pos: "0 \<le> a \<Longrightarrow> 0 < b \<Longrightarrow> a sdiv b = a div (b :: int)"
  by (cases "a = 0") (simp_all add: signed_divide_int_def)

lemma smod_zero: "y smod n = 0 \<longleftrightarrow> n dvd (y :: int)"
  by (cases "y = 0") (auto simp: signed_modulo_int_def mod_eq_0_iff_dvd sgn_eq_0_iff)

subsection \<open>Julian days\<close>

text \<open>Years that begin in March: the days before year Y of that reckoning, and the day within it.\<close>

definition before_year :: "int \<Rightarrow> int" where
  "before_year Y = 365 * Y + Y div 4 - Y div 100 + Y div 400"

definition march_year :: "int \<Rightarrow> int \<Rightarrow> int" where
  "march_year y m = (if m > 2 then y + 4800 else y + 4799)"

definition march_month :: "int \<Rightarrow> int" where
  "march_month m = (if m > 2 then m + 1 else m + 13)"

definition march_day :: "int \<Rightarrow> int \<Rightarrow> int" where
  "march_day m d = 7834 * march_month m div 256 + d - 123"

definition leap :: "int \<Rightarrow> bool" where
  "leap y \<longleftrightarrow> 4 dvd y \<and> (\<not> 100 dvd y \<or> 400 dvd y)"

definition month_days :: "int \<Rightarrow> int \<Rightarrow> int" where
  "month_days y m = (if m = 2 then (if leap y then 29 else 28) else if m \<in> {4, 6, 9, 11} then 30 else 31)"

definition calendar :: "int \<Rightarrow> int \<Rightarrow> int \<Rightarrow> bool" where
  "calendar y m d \<longleftrightarrow> 1 \<le> m \<and> m \<le> 12 \<and> 1 \<le> d \<and> d \<le> month_days y m"

lemma pgIsLeap_leap: "pgIsLeap y = (if leap y then 1 else 0)"
  by (simp add: pgIsLeap_def leap_def smod_zero)

lemma month_cases: "1 \<le> m \<Longrightarrow> m \<le> 12 \<Longrightarrow> m \<in> {1, 2, 3, 4, 5, 6, 7, 8, 9, 10, 11, 12 :: int}"
  unfolding insert_iff empty_iff by presburger

lemma div_bounds: "0 < n \<Longrightarrow> n * (Y div n) \<le> Y" "0 < n \<Longrightarrow> Y \<le> n * (Y div n) + (n - 1)" for n Y :: int
  using pos_mod_bound[of n Y] pos_mod_sign[of n Y] mult_div_mod_eq[of n Y] by linarith+

lemma pgDayTab_days: "1 \<le> m \<Longrightarrow> m \<le> 12 \<Longrightarrow> pgDayTab ! nat (pgIsLeap y) ! nat (m - 1) = month_days y m"
proof -
  assume "1 \<le> m" "m \<le> 12"
  then have "m \<in> {1, 2, 3, 4, 5, 6, 7, 8, 9, 10, 11, 12}" by (rule month_cases)
  then show ?thesis by (elim insertE) (simp_all add: pgDayTab_def pgIsLeap_leap month_days_def)
qed

lemma before_year_bounds:
  assumes "0 \<le> Y" "Y \<le> 5879698"
  shows "0 \<le> before_year Y" "before_year Y \<le> 2147515597" "Y \<le> 5879697 \<Longrightarrow> before_year Y \<le> 2147515232"
proof -
  note d = div_bounds[of 4 Y] div_bounds[of 100 Y] div_bounds[of 400 Y]
  show "0 \<le> before_year Y" "before_year Y \<le> 2147515597" "Y \<le> 5879697 \<Longrightarrow> before_year Y \<le> 2147515232"
    unfolding before_year_def using d assms by simp_all
qed

lemma march_day_range:
  assumes "1 \<le> m" "m \<le> 12" "1 \<le> d" "d \<le> 31"
  shows "0 \<le> march_day m d" "march_day m d \<le> 367" "m < 6 \<Longrightarrow> m > 2 \<Longrightarrow> march_day m d \<le> 91"
proof -
  have "m \<in> {1, 2, 3, 4, 5, 6, 7, 8, 9, 10, 11, 12}" using assms(1,2) by (rule month_cases)
  then show "0 \<le> march_day m d" "march_day m d \<le> 367" "m < 6 \<Longrightarrow> m > 2 \<Longrightarrow> march_day m d \<le> 91"
    using assms(3,4) by (auto simp: march_day_def march_month_def)
qed

lemma date2j_eq:
  assumes v: "pgIsValidJulian y m d" and m: "1 \<le> m" "m \<le> 12" and d: "1 \<le> d" "d \<le> 31"
  shows "date2j y m d = before_year (march_year y m) + march_day m d - 32044"
    "before_year (march_year y m) + march_day m d - 32044 < 2 ^ 31" "86 \<le> march_year y m" "march_year y m \<le> 5879698"
proof -
  let ?Y = "march_year y m" and ?M = "march_month m"
  show Y: "86 \<le> ?Y" "?Y \<le> 5879698" using v m by (auto simp: march_year_def pgIsValidJulian_def)
  have Y': "?Y = 5879698 \<Longrightarrow> m > 2 \<and> m < 6" "?Y \<noteq> 5879698 \<Longrightarrow> ?Y \<le> 5879697" using v Y(2) by (auto simp: march_year_def pgIsValidJulian_def split: if_splits)
  have M: "4 \<le> ?M" "?M \<le> 15" using m by (auto simp: march_month_def)
  have dd: "7834 * ?M div 256 + d = march_day m d + 123" by (simp add: march_day_def)
  note r = march_day_range[OF m d]
  have pos: "0 \<le> ?Y" using Y by simp
  note b = before_year_bounds[OF pos Y(2)]
  have up: "before_year ?Y + march_day m d \<le> 2147515690"
  proof (cases "?Y = 5879698")
    case True
    then show ?thesis using b(2) r(3) Y'(1) by linarith
  next
    case False
    then show ?thesis using b(3) Y'(2) r(2) by linarith
  qed
  then show "before_year ?Y + march_day m d - 32044 < 2 ^ 31" by simp
  have c: "?Y div 100 div 4 = ?Y div 400" by (simp add: zdiv_zmult2_eq[symmetric])
  have parts: "0 \<le> ?Y div 4" "?Y div 4 \<le> 5879698" "0 \<le> ?Y div 100" "?Y div 100 \<le> 5879698" "0 \<le> ?Y div 400" "?Y div 400 \<le> 5879698"
    using pos Y(2) div_bounds[of 4 ?Y] div_bounds[of 100 ?Y] div_bounds[of 400 ?Y] by simp_all
  have yr: "(if m > 2 then wrap32 (y + 4800) else wrap32 (y + 4799)) = ?Y" "(if m > 2 then wrap32 (m + 1) else wrap32 (m + 13)) = ?M"
    using Y m by (auto simp: march_year_def march_month_def)
  have s1: "?Y sdiv 100 = ?Y div 100" "?Y sdiv 4 = ?Y div 4" "(?Y div 100) sdiv 4 = ?Y div 400" "7834 * ?M sdiv 256 = 7834 * ?M div 256"
    using pos parts M c by (simp_all add: sdiv_pos)
  have w1: "wrap32 (?Y * 365) = ?Y * 365" "wrap32 (?Y * 365 - 32167) = ?Y * 365 - 32167" "wrap32 (7834 * ?M) = 7834 * ?M"
    using Y M by simp_all
  have w2: "wrap32 (?Y div 4 - ?Y div 100) = ?Y div 4 - ?Y div 100" "wrap32 (?Y div 4 - ?Y div 100 + ?Y div 400) = ?Y div 4 - ?Y div 100 + ?Y div 400"
    using parts by simp_all
  have w3: "wrap32 (?Y * 365 - 32167 + (?Y div 4 - ?Y div 100 + ?Y div 400)) = before_year ?Y - 32167"
    using b(1,2) by (simp add: before_year_def)
  have w4: "wrap32 (7834 * ?M div 256 + d) = march_day m d + 123" using dd r(1,2) by simp
  have w5: "wrap32 (before_year ?Y - 32167 + (march_day m d + 123)) = before_year ?Y + march_day m d - 32044"
    using b(1) r(1) up by simp
  show "date2j y m d = before_year ?Y + march_day m d - 32044"
    unfolding date2j_def Let_def yr s1 w1 w2 w3 w4 w5 by (rule refl)
qed

subsection \<open>From a Julian day back\<close>

lemma div_eqI: "q * b \<le> a \<Longrightarrow> a < (q + 1) * b \<Longrightarrow> 0 < b \<Longrightarrow> a div b = q" for a b q :: int
  by (rule int_div_pos_eq[of a b q "a - q * b"]) (simp_all add: algebra_simps)

text \<open>A day of a March year, and the last only of one that ends with a leap day.\<close>

definition in_year :: "int \<Rightarrow> int \<Rightarrow> bool" where
  "in_year Y D \<longleftrightarrow> 0 \<le> D \<and> D \<le> 365 \<and> (D = 365 \<longrightarrow> leap (Y + 1))"

lemma era:
  assumes "in_year Y D"
  shows "(before_year Y + D) div 146097 = Y div 400"
    "(4 * (before_year Y + D - 146097 * (Y div 400)) + 3) div 146097 = Y div 100 - 4 * (Y div 400)"
proof -
  define q c t where "q = Y div 400" and "c = Y div 100 - 4 * (Y div 400)" and "t = Y mod 100"
  have "Y div 100 div 4 = q" by (simp add: q_def zdiv_zmult2_eq[symmetric])
  then have c: "0 \<le> c" "c \<le> 3" using div_bounds[of 4 "Y div 100"] by (simp_all add: c_def q_def)
  have t: "0 \<le> t" "t \<le> 99" by (simp_all add: t_def)
  have Y: "Y = 400 * q + 100 * c + t" using mult_div_mod_eq[of 100 Y] by (simp add: q_def c_def t_def)
  have Y4: "Y div 4 = 100 * q + 25 * c + t div 4" unfolding Y by simp
  have n: "before_year Y + D = 146097 * q + (36524 * c + 365 * t + t div 4 + D)"
  proof -
    have "Y div 100 = 4 * q + c" "Y div 400 = q" by (simp_all add: c_def q_def)
    then show ?thesis unfolding before_year_def using Y4 Y by linarith
  qed
  have D: "0 \<le> D" "D \<le> 365" using assms by (simp_all add: in_year_def)
  have last: "365 * t + t div 4 + D \<le> 36523 \<or> c = 3 \<and> 365 * t + t div 4 + D \<le> 36524"
  proof (cases "t = 99")
    case False
    then have "t \<le> 98" using t by simp
    then show ?thesis using D div_bounds(1)[of 4 t] by simp
  next
    case True
    have "D \<le> 364 \<or> c = 3"
    proof (rule ccontr)
      assume "\<not> (D \<le> 364 \<or> c = 3)"
      then have "leap (Y + 1)" "c \<le> 2" using assms D c by (auto simp: in_year_def)
      moreover have "Y + 1 = 100 * (4 * q + (c + 1))" using Y True by simp
      ultimately have "400 dvd 100 * (4 * q + (c + 1))" by (simp add: leap_def)
      then have "4 dvd c + 1" by presburger
      then show False using c(1) \<open>c \<le> 2\<close> by presburger
    qed
    then show ?thesis using True D by auto
  qed
  let ?m = "365 * t + t div 4 + D"
  have m0: "0 \<le> ?m" using t D by (simp add: pos_imp_zdiv_nonneg_iff)
  show "(before_year Y + D) div 146097 = Y div 400"
    unfolding n q_def[symmetric] by (rule div_eqI) (use c m0 last in auto)
  have "(4 * (36524 * c + ?m) + 3) div 146097 = c"
    by (rule div_eqI) (use c m0 last in auto)
  then show "(4 * (before_year Y + D - 146097 * (Y div 400)) + 3) div 146097 = Y div 100 - 4 * (Y div 400)"
    unfolding n c_def[symmetric] by (simp add: q_def add.assoc)
qed

text \<open>The year of the calendar and the day of the March year, from the days of the Julian count.\<close>

lemma year_in_quad:
  assumes "in_year Y D"
  defines "J \<equiv> 365 * Y + Y div 4 + D + 60"
  defines "y \<equiv> (J - J div 1461 * 1461) * 4 div 1461"
  shows "y + J div 1461 * 4 = (if D \<ge> 306 then Y + 1 else Y)" "0 \<le> y" "y \<le> 3"
    "(if y \<noteq> 0 then (J - J div 1461 * 1461 + 305) mod 365 else (J - J div 1461 * 1461 + 306) mod 366) = D"
proof -
  define p s where "p = Y div 4" and "s = Y mod 4"
  have s: "s \<in> {0, 1, 2, 3}" unfolding s_def by (simp, presburger)
  have Y: "Y = 4 * p + s" by (simp add: p_def s_def)
  have J: "J = 1461 * p + (365 * s + D + 60)" unfolding J_def p_def[symmetric] using Y by simp
  have D: "0 \<le> D" "D \<le> 365" and last: "D \<le> 364 \<or> s = 3"
  proof -
    show D: "0 \<le> D" "D \<le> 365" using assms(1) by (simp_all add: in_year_def)
    have "s = 3" if "D = 365"
    proof -
      have "4 dvd Y + 1" using assms(1) that by (simp add: in_year_def leap_def)
      moreover have "0 \<le> s" "s \<le> 3" using s by auto
      ultimately show ?thesis using Y by presburger
    qed
    then show "D \<le> 364 \<or> s = 3" using D by linarith
  qed
  have res: "J div 1461 = (if s = 3 \<and> D \<ge> 306 then p + 1 else p)"
    unfolding J by (rule div_eqI) (use s D in auto)
  have j3: "J - J div 1461 * 1461 = (if s = 3 \<and> D \<ge> 306 then D - 306 else 365 * s + D + 60)"
    unfolding res by (simp add: J)
  have yv: "y = (if D \<ge> 306 then (if s = 3 then 0 else s + 1) else s)"
    unfolding y_def j3 by (rule div_eqI) (use s D last in auto)
  show "y + J div 1461 * 4 = (if D \<ge> 306 then Y + 1 else Y)" "0 \<le> y" "y \<le> 3"
    unfolding yv res using Y s by auto
  have m: "(D + 365 * k) mod 365 = D" if "D \<le> 364" for k using that D by simp
  have "(if y \<noteq> 0 then (J - J div 1461 * 1461 + 305) mod 365 else (J - J div 1461 * 1461 + 306) mod 366) =
      (if y \<noteq> 0 then (D + 365 * (s + 1)) mod 365 else if s = 3 then D mod 366 else (D + 366) mod 366)"
    unfolding j3 yv using s by (auto simp: algebra_simps)
  also have "\<dots> = D" using m[of "s + 1"] D last s unfolding yv by auto
  finally show "(if y \<noteq> 0 then (J - J div 1461 * 1461 + 305) mod 365 else (J - J div 1461 * 1461 + 306) mod 366) = D" .
qed

lemma leap_shift: "leap (y + 4800) = leap y"
proof -
  have "n dvd y + 4800 \<longleftrightarrow> n dvd y" if "n dvd 4800" for n using that by (rule dvd_add_left_iff)
  from this[of 4] this[of 100] this[of 400] show ?thesis by (simp add: leap_def)
qed

lemma month_of_day:
  assumes "1 \<le> m" "m \<le> 12" "1 \<le> d" "d \<le> month_days y m"
  shows "(march_day m d + 123) * 2141 div 65536 = march_month m" "march_day m d + 123 - 7834 * march_month m div 256 = d"
    "(march_month m + 10) mod 12 + 1 = m" "march_day m d \<ge> 306 \<longleftrightarrow> m \<le> 2" "in_year (march_year y m) (march_day m d)"
proof -
  have m: "m \<in> {1, 2, 3, 4, 5, 6, 7, 8, 9, 10, 11, 12}" using assms(1,2) by (rule month_cases)
  show "(march_day m d + 123) * 2141 div 65536 = march_month m"
    by (rule div_eqI) (use m assms(3,4) in \<open>auto simp: march_day_def march_month_def month_days_def split: if_splits\<close>)
  show "march_day m d + 123 - 7834 * march_month m div 256 = d" by (simp add: march_day_def)
  show "(march_month m + 10) mod 12 + 1 = m" using m by (auto simp: march_month_def)
  show "march_day m d \<ge> 306 \<longleftrightarrow> m \<le> 2"
    using m assms(3,4) by (auto simp: march_day_def march_month_def month_days_def split: if_splits)
  note e = leap_shift[of y]
  show "in_year (march_year y m) (march_day m d)"
    using m assms(3,4) e by (auto simp: in_year_def march_day_def march_month_def march_year_def month_days_def add.assoc split: if_splits)
qed

lemma quad_day: "0 \<le> r \<Longrightarrow> r \<le> 1460 \<Longrightarrow> u32 r = r" "0 \<le> r \<Longrightarrow> r \<le> 1460 \<Longrightarrow> u32 (r * 4) = r * 4"
  "0 \<le> r \<Longrightarrow> r \<le> 1460 \<Longrightarrow> u32 (r + 305) = r + 305" "0 \<le> r \<Longrightarrow> r \<le> 1460 \<Longrightarrow> u32 (r + 306) = r + 306"
  by simp_all

text \<open>Breaking down a day of a March year, free of the machine's width.\<close>

lemma j2date_eq:
  assumes Y: "86 \<le> Y" "Y \<le> 5879698" and D: "in_year Y D" and J: "before_year Y + D - 32044 < 2 ^ 31"
  shows "j2date (before_year Y + D - 32044) =
    ((if D \<ge> 306 then Y + 1 else Y) - 4800, ((D + 123) * 2141 div 65536 + 10) mod 12 + 1, D + 123 - 7834 * ((D + 123) * 2141 div 65536) div 256)"
proof -
  let ?N = "before_year Y + D" and ?q = "Y div 400" and ?c = "Y div 100 - 4 * (Y div 400)"
  let ?J = "365 * Y + Y div 4 + D + 60"
  let ?r = "?J - ?J div 1461 * 1461"
  note e = era[OF D] and yq = year_in_quad[OF D]
  have d: "0 \<le> D" "D \<le> 365" using D by (simp_all add: in_year_def)
  have q: "0 \<le> ?q" "?q \<le> 14700" "0 \<le> ?c" "?c \<le> 3" using Y div_bounds[of 400 Y] div_bounds[of 4 "Y div 100"]
    by (simp_all add: pos_imp_zdiv_nonneg_iff) (simp_all add: zdiv_zmult2_eq[of 4 Y 100, symmetric] zdiv_zmult2_eq[of 100 Y 4, simplified])
  have n: "0 \<le> ?N - 146097 * ?q" "?N - 146097 * ?q < 146097"
    using e(1) div_bounds[of 146097 ?N] by simp_all
  have N: "0 \<le> ?N" "?N < 2 ^ 31 + 32044" using J d before_year_bounds(1)[of Y] Y by simp_all
  have Jv: "?N + (60 + ?q * 3 + ?c) = ?J" unfolding before_year_def by simp
  have Jr: "0 \<le> ?J" "?J < 2 ^ 31 + 80000" using N q unfolding Jv[symmetric] by simp_all
  have r: "0 \<le> ?r" "?r \<le> 1460" using div_bounds[of 1461 ?J] by simp_all
  have Jq: "0 \<le> ?J div 1461" "?J div 1461 * 4 \<le> 5880000" using Jr div_bounds[of 1461 ?J] by simp_all
  define y Q where "y = ?r * 4 div 1461" and "Q = (D + 123) * 2141 div 65536"
  have y: "0 \<le> y" "y \<le> 3" "y + ?J div 1461 * 4 = (if D \<ge> 306 then Y + 1 else Y)"
    and Dv: "(if y \<noteq> 0 then (?r + 305) mod 365 else (?r + 306) mod 366) = D" unfolding y_def by (rule yq)+
  have Q: "0 \<le> Q" "Q \<le> 16" "7834 * Q div 256 \<le> 490" "0 \<le> 7834 * Q div 256"
    using d div_bounds[of 65536 "(D + 123) * 2141"] div_bounds[of 256 "7834 * Q"] by (simp_all add: Q_def pos_imp_zdiv_nonneg_iff)
  have Qd: "7834 * Q div 256 \<le> D + 123"
    using d div_bounds[of 65536 "(D + 123) * 2141"] div_bounds[of 256 "7834 * Q"] Q(1,2) by (simp add: Q_def)
  have a1: "u32 (u32 (?N - 32044) + 32044) = ?N" using N by (simp add: u32_def mod_add_left_eq)
  have a2: "?N div 146097 = ?q" by (rule e(1))
  have a3: "u32 (?q * 146097) = ?q * 146097" using q by simp
  have a4: "u32 (?N - ?q * 146097) = ?N - ?q * 146097" using n by (simp add: mult.commute)
  have a5: "u32 ((?N - ?q * 146097) * 4) = (?N - ?q * 146097) * 4" using n by (simp add: mult.commute)
  have a6: "u32 ((?N - ?q * 146097) * 4 + 3) = (?N - ?q * 146097) * 4 + 3" using n by (simp add: mult.commute)
  have a7: "((?N - ?q * 146097) * 4 + 3) div 146097 = ?c" using e(2) by (simp add: mult.commute)
  have a8: "u32 (?q * 3) = ?q * 3" "u32 (60 + ?q * 3) = 60 + ?q * 3" "u32 (60 + ?q * 3 + ?c) = 60 + ?q * 3 + ?c" using q by simp_all
  have a9: "u32 (?N + (60 + ?q * 3 + ?c)) = ?J" unfolding Jv using Jr by simp
  have b1: "u32 (?J div 1461 * 1461) = ?J div 1461 * 1461" using Jr Jq div_bounds[of 1461 ?J] by simp
  have b2: "u32 ?r = ?r" "u32 (?r * 4) = ?r * 4" "u32 (?r + 305) = ?r + 305" "u32 (?r + 306) = ?r + 306"
    by (rule quad_day[OF r])+
  have b3: "wrap32 (?r * 4 div 1461) = y" using y(1,2) by (simp add: y_def)
  have b4: "(if y \<noteq> 0 then u32 ((?r + 305) mod 365 + 123) else u32 ((?r + 306) mod 366 + 123)) = D + 123"
    using Dv d by (auto split: if_splits)
  have b5: "u32 (?J div 1461 * 4) = ?J div 1461 * 4" "wrap32 (?J div 1461 * 4) = ?J div 1461 * 4"
    "wrap32 (y + ?J div 1461 * 4) = y + ?J div 1461 * 4" "wrap32 (y + ?J div 1461 * 4 - 4800) = y + ?J div 1461 * 4 - 4800"
    using Jq y(1,2) by simp_all
  have b6: "u32 ((D + 123) * 2141) div 65536 = Q" using d by (simp add: Q_def)
  have b7: "u32 (7834 * Q) = 7834 * Q" "u32 (D + 123 - 7834 * Q div 256) = D + 123 - 7834 * Q div 256"
    "wrap32 (D + 123 - 7834 * Q div 256) = D + 123 - 7834 * Q div 256" using Q Qd d by simp_all
  have b8: "u32 (Q + 10) = Q + 10" using Q by simp
  have b9: "0 \<le> (Q + 10) mod 12" "(Q + 10) mod 12 < 12" by simp_all
  have b10: "u32 ((Q + 10) mod 12 + 1) = (Q + 10) mod 12 + 1" "wrap32 ((Q + 10) mod 12 + 1) = (Q + 10) mod 12 + 1" using b9 by simp_all
  show ?thesis
    unfolding j2date_def Let_def a1 a2 a3 a4 a5 a6 a7 a8 a9 b1 b2 b3 b4 b5 b6 b7 b8 b10 y(3)[symmetric] Q_def[symmetric] by (rule refl)
qed

lemma date_round:
  assumes "pgIsValidJulian y m d" "calendar y m d"
  shows "j2date (date2j y m d) = (y, m, d)"
proof -
  have c: "1 \<le> m" "m \<le> 12" "1 \<le> d" "d \<le> month_days y m" using assms(2) by (simp_all add: calendar_def)
  have d31: "d \<le> 31" using c(4) by (simp add: month_days_def split: if_splits)
  note j = date2j_eq[OF assms(1) c(1,2,3) d31] and v = month_of_day[OF c]
  show ?thesis
    unfolding j(1) j2date_eq[OF j(3,4) v(5) j(2)] v(1-4) by (simp add: march_year_def)
qed

text \<open>Every day belongs to one March year, and every day of it to one month.\<close>

lemma div_succ: "1 < n \<Longrightarrow> (Y + 1) div n = Y div n + (if n dvd Y + 1 then 1 else 0)" for n Y :: int
proof (cases "n dvd Y + 1")
  case True
  assume n: "1 < n"
  obtain k where k: "Y + 1 = n * k" using True by (rule dvdE)
  have "Y div n = k - 1" by (rule div_eqI) (use k n in \<open>auto simp: algebra_simps\<close>)
  then show ?thesis using k n by simp
next
  case False
  assume n: "1 < n"
  define q where "q = (Y + 1) div n"
  define r where "r = (Y + 1) mod n"
  have "0 < r" "r < n" unfolding r_def using False n pos_mod_sign[of n "Y + 1"] by (auto simp: dvd_eq_mod_eq_0 order.strict_iff_order[of 0])
  moreover have "Y = n * q + r - 1" using mult_div_mod_eq[of n "Y + 1"] by (simp add: q_def r_def)
  ultimately have "Y div n = q" by (intro div_eqI) (simp_all add: algebra_simps)
  then show ?thesis using False by (simp add: q_def)
qed

lemma before_year_Suc: "before_year (Y + 1) = before_year Y + (if leap (Y + 1) then 366 else 365)"
proof -
  have sum: "365 * (Y + 1) + (a + (if p then 1 else 0)) - (b + (if q then 1 else 0)) + (c + (if r then 1 else 0)) =
    365 * Y + a - b + c + (if p \<and> (\<not> q \<or> r) then 366 else 365)" if "r \<Longrightarrow> q" "q \<Longrightarrow> p" for a b c :: int and p q r
    using that by auto
  have "400 dvd Y + 1 \<Longrightarrow> 100 dvd Y + 1" "100 dvd Y + 1 \<Longrightarrow> 4 dvd Y + 1" by (auto elim: dvd_trans[rotated])
  moreover have "(Y + 1) div 4 = Y div 4 + (if 4 dvd Y + 1 then 1 else 0)" "(Y + 1) div 100 = Y div 100 + (if 100 dvd Y + 1 then 1 else 0)"
    "(Y + 1) div 400 = Y div 400 + (if 400 dvd Y + 1 then 1 else 0)" by (rule div_succ, simp)+
  ultimately show ?thesis unfolding before_year_def leap_def by (simp only: sum)
qed

lemma day_in_year:
  fixes N :: int
  assumes "0 \<le> N"
  obtains Y D where "0 \<le> Y" "in_year Y D" "N = before_year Y + D"
proof -
  have "\<exists>Y D. 0 \<le> Y \<and> in_year Y D \<and> N = before_year Y + D" using assms
  proof (induction N rule: int_ge_induct)
    case base
    show ?case by (rule exI[of _ 0], rule exI[of _ 0]) (simp add: in_year_def before_year_def)
  next
    case (step N)
    then obtain Y D where YD: "0 \<le> Y" "in_year Y D" "N = before_year Y + D" by blast
    show ?case
    proof (cases "in_year Y (D + 1)")
      case True
      then show ?thesis using YD by (intro exI[of _ Y] exI[of _ "D + 1"]) simp
    next
      case False
      then have "D = (if leap (Y + 1) then 365 else 364)" using YD(2) by (auto simp: in_year_def)
      then show ?thesis using YD by (intro exI[of _ "Y + 1"] exI[of _ 0]) (simp add: before_year_Suc in_year_def)
    qed
  qed
  then show ?thesis using that by blast
qed

lemmas month_defs = calendar_def month_days_def march_day_def march_month_def

lemma month_in_year:
  assumes "in_year Y D"
  obtains y m d where "calendar y m d" "march_year y m = Y" "march_day m d = D"
proof -
  have D: "0 \<le> D" "D \<le> 365" and l: "D \<le> 364 \<or> leap (Y + 1)" using assms by (auto simp: in_year_def)
  have e: "leap (Y - 4799) = leap (Y + 1)" using leap_shift[of "Y - 4799"] by (simp add: add.commute)
  have g: thesis if "calendar (if m > 2 then Y - 4800 else Y - 4799) m (D - b)" "march_day m (D - b) = D" for m b
    by (rule \<open>\<And>y m d. calendar y m d \<Longrightarrow> march_year y m = Y \<Longrightarrow> march_day m d = D \<Longrightarrow> thesis\<close>[OF that(1) _ that(2)]) (simp add: march_year_def)
  consider "D < 31" | "31 \<le> D" "D < 61" | "61 \<le> D" "D < 92" | "92 \<le> D" "D < 122" | "122 \<le> D" "D < 153" | "153 \<le> D" "D < 184"
    | "184 \<le> D" "D < 214" | "214 \<le> D" "D < 245" | "245 \<le> D" "D < 275" | "275 \<le> D" "D < 306" | "306 \<le> D" "D < 337" | "337 \<le> D"
    by linarith
  then show thesis
  proof cases
    case 1 show ?thesis by (rule g[of 3 "- 1"]) (use 1 D in \<open>auto simp: month_defs\<close>)
  next
    case 2 show ?thesis by (rule g[of 4 30]) (use 2 D in \<open>auto simp: month_defs\<close>)
  next
    case 3 show ?thesis by (rule g[of 5 60]) (use 3 D in \<open>auto simp: month_defs\<close>)
  next
    case 4 show ?thesis by (rule g[of 6 91]) (use 4 D in \<open>auto simp: month_defs\<close>)
  next
    case 5 show ?thesis by (rule g[of 7 121]) (use 5 D in \<open>auto simp: month_defs\<close>)
  next
    case 6 show ?thesis by (rule g[of 8 152]) (use 6 D in \<open>auto simp: month_defs\<close>)
  next
    case 7 show ?thesis by (rule g[of 9 183]) (use 7 D in \<open>auto simp: month_defs\<close>)
  next
    case 8 show ?thesis by (rule g[of 10 213]) (use 8 D in \<open>auto simp: month_defs\<close>)
  next
    case 9 show ?thesis by (rule g[of 11 244]) (use 9 D in \<open>auto simp: month_defs\<close>)
  next
    case 10 show ?thesis by (rule g[of 12 274]) (use 10 D in \<open>auto simp: month_defs\<close>)
  next
    case 11 show ?thesis by (rule g[of 1 305]) (use 11 D in \<open>auto simp: month_defs\<close>)
  next
    case 12 show ?thesis by (rule g[of 2 336]) (use 12 D l e in \<open>auto simp: month_defs\<close>)
  qed
qed

lemma jdate_calendar:
  assumes "0 \<le> jd" "jd < pgDateEndJulian"
  obtains y m d where "calendar y m d" "pgIsValidJulian y m d" "date2j y m d = jd"
proof -
  have N: "0 \<le> jd + 32044" "32044 \<le> jd + 32044" "jd + 32044 < 2147515538" using assms by (simp_all add: pgDateEndJulian_def)
  obtain Y D where Y: "0 \<le> Y" "in_year Y D" "jd + 32044 = before_year Y + D" by (rule day_in_year[OF N(1)])
  obtain y m d where c: "calendar y m d" "march_year y m = Y" "march_day m d = D" by (rule month_in_year[OF Y(2)])
  have D: "0 \<le> D" "D \<le> 365" using Y(2) by (simp_all add: in_year_def)
  have lo: "Y \<le> 86 \<Longrightarrow> before_year Y \<le> 31411" "Y \<le> 87 \<Longrightarrow> before_year Y \<le> 31776" and hi: "5879698 \<le> Y \<Longrightarrow> 2147515538 \<le> before_year Y"
    unfolding before_year_def using div_bounds[of 4 Y] div_bounds[of 100 Y] div_bounds[of 400 Y] Y(1) by simp_all
  have Yb: "87 \<le> Y" "Y \<le> 5879697" and D87: "Y = 87 \<Longrightarrow> 268 \<le> D" using lo hi Y(3) N D by linarith+
  have m: "1 \<le> m" "m \<le> 12" "1 \<le> d" "d \<le> 31" using c(1) by (auto simp: calendar_def month_days_def split: if_splits)
  have m11: "11 \<le> m" if "268 \<le> D" "2 < m"
  proof -
    have "m \<in> {1, 2, 3, 4, 5, 6, 7, 8, 9, 10, 11, 12}" using m(1,2) by (rule month_cases)
    then show ?thesis using that c(3) m(4) by (auto simp: march_day_def march_month_def)
  qed
  have v: "pgIsValidJulian y m d"
    using Yb D87 m11 c(2) m by (auto simp: march_year_def pgIsValidJulian_def split: if_splits)
  show thesis
    by (rule that[OF c(1) v]) (simp add: date2j_eq[OF v m] c(2,3) Y(3)[symmetric])
qed

lemma jdate_round:
  assumes "0 \<le> jd" "jd < pgDateEndJulian"
  shows "\<exists>y m d. j2date jd = (y, m, d) \<and> pgIsValidJulian y m d \<and> calendar y m d \<and> date2j y m d = jd"
proof -
  obtain y m d where "calendar y m d" "pgIsValidJulian y m d" "date2j y m d = jd" by (rule jdate_calendar[OF assms])
  then show ?thesis using date_round[of y m d] by auto
qed

text \<open>C38: Julian days and calendar dates correspond one to one, the machine's wrapping included. Every date of the
  calendar in Postgres's range, from November 4714 BC into 5874898, has a Julian day that breaks down to that very date,
  leap days and the days of the first weeks with a negative Julian day included; and every Julian day a date may have
  breaks down to a date of the calendar that has that Julian day.\<close>

theorem julian_days_are_dates:
  assumes "pgIsValidJulian y m d" "calendar y m d" and "0 \<le> jd" "jd < pgDateEndJulian"
  shows "j2date (date2j y m d) = (y, m, d) \<and>
    (\<exists>y' m' d'. j2date jd = (y', m', d') \<and> pgIsValidJulian y' m' d' \<and> calendar y' m' d' \<and> date2j y' m' d' = jd)"
  using date_round[OF assms(1,2)] jdate_round[OF assms(3,4)] by blast

theorem julian_days_are_dates_witness:
  "j2date (date2j 2000 2 29) = (2000, 2, 29) \<and>
    (\<exists>y' m' d'. j2date 0 = (y', m', d') \<and> pgIsValidJulian y' m' d' \<and> calendar y' m' d' \<and> date2j y' m' d' = 0)"
  by (rule julian_days_are_dates) (simp_all add: pgIsValidJulian_def calendar_def month_days_def leap_def pgDateEndJulian_def)

end
