(* ===== verification/Pg_Timestamp.thy ===== *)
theory Pg_Timestamp
  imports Pg_Date
begin

section \<open>Timestamps: pkg/sqlfn, pg\_datetime\<close>

text \<open>
  Timestamps broken down into a date and a time of day and put together again, over the Julian days of
  the previous theory.
\<close>

subsection \<open>Times of day and timestamps\<close>

lemma sdiv_mult_self: "0 < n \<Longrightarrow> k * n sdiv n = (k :: int)"
proof (cases "0 \<le> k")
  case True
  then show "0 < n \<Longrightarrow> k * n sdiv n = k" by (simp add: sdiv_pos)
next
  case False
  moreover have "(- (k * n)) div n = - k" if "0 < n" using that nonzero_mult_div_cancel_right[of n "- k"] by simp
  ultimately show "0 < n \<Longrightarrow> k * n sdiv n = k" by (simp add: signed_divide_int_def sgn_mult abs_mult)
qed

lemma floor_cases:
  fixes A q x r U :: int
  assumes "A = q \<and> x = r \<or> A = q + 1 \<and> x = r - U \<and> 0 < r" "0 \<le> r" "r < U"
  shows "(if x < 0 then x + U else x) = r" "(if x < 0 then A - 1 else A) = q" "- U < x" "x < U"
  using assms by auto

lemma trunc_floor:
  fixes a U :: int
  assumes "0 < U"
  shows "(if a - a sdiv U * U < 0 then a - a sdiv U * U + U else a - a sdiv U * U) = a mod U"
    "(if a - a sdiv U * U < 0 then a sdiv U - 1 else a sdiv U) = a div U"
    "- U < a - a sdiv U * U" "a - a sdiv U * U < U"
proof -
  consider "0 \<le> a" | "a < 0" "U dvd a" | "a < 0" "\<not> U dvd a" by linarith
  then have "a sdiv U = a div U \<and> a - a sdiv U * U = a mod U \<or> a sdiv U = a div U + 1 \<and> a - a sdiv U * U = a mod U - U \<and> 0 < a mod U"
  proof cases
    case 1
    then show ?thesis using assms by (simp add: sdiv_pos minus_div_mult_eq_mod)
  next
    case 2
    then obtain k where k: "a = U * k" by (elim dvdE)
    then have "a sdiv U = k" using sdiv_mult_self[OF assms, of k] by (simp add: mult.commute)
    then show ?thesis using k assms by simp
  next
    case 3
    have "a sdiv U = - ((- a) div U)" using 3 assms by (simp add: signed_divide_int_def sgn_if)
    moreover have "(- a) div U = - (a div U) - 1" using 3(2) assms unfolding dvd_eq_mod_eq_0 by (subst zdiv_zminus1_eq_if) simp_all
    ultimately have q: "a sdiv U = a div U + 1" by simp
    have "0 < a mod U" using 3(2) assms pos_mod_sign[of U a] by (auto simp: dvd_eq_mod_eq_0 order.strict_iff_order[of 0])
    moreover have "a - (a div U + 1) * U = a mod U - U" using minus_div_mult_eq_mod[of a U] by (simp add: distrib_right)
    ultimately show ?thesis unfolding q by blast
  qed
  moreover have "0 \<le> a mod U" "a mod U < U" using assms by simp_all
  ultimately show "(if a - a sdiv U * U < 0 then a - a sdiv U * U + U else a - a sdiv U * U) = a mod U"
    "(if a - a sdiv U * U < 0 then a sdiv U - 1 else a sdiv U) = a div U" "- U < a - a sdiv U * U" "a - a sdiv U * U < U"
    by (rule floor_cases)+
qed

lemma time_round:
  assumes "0 \<le> t" "t < pgUsecsPerDay"
  shows "\<exists>h mi s f. dt2time t = (h, mi, s, f) \<and> 0 \<le> h \<and> h < 24 \<and> 0 \<le> mi \<and> mi < 60 \<and> 0 \<le> s \<and> s < 60 \<and> 0 \<le> f \<and> f < pgUsecsPerSec \<and>
    time2t h mi s f = t"
proof -
  define h t1 where "h = t div 3600000000" and "t1 = t - h * 3600000000"
  define mi t2 where "mi = t1 div 60000000" and "t2 = t1 - mi * 60000000"
  define s f where "s = t2 div 1000000" and "f = t2 - s * 1000000"
  have t: "0 \<le> t" "t < 86400000000" using assms by (simp_all add: pgUsecsPerDay_def)
  have h: "0 \<le> h" "h < 24" "0 \<le> t1" "t1 < 3600000000" using t div_bounds[of 3600000000 t] by (simp_all add: h_def t1_def)
  have mi: "0 \<le> mi" "mi < 60" "0 \<le> t2" "t2 < 60000000" using h div_bounds[of 60000000 t1] by (simp_all add: mi_def t2_def)
  have s: "0 \<le> s" "s < 60" "0 \<le> f" "f < 1000000" using mi div_bounds[of 1000000 t2] by (simp_all add: s_def f_def)
  have sd: "t sdiv 3600000000 = h" "t1 sdiv 60000000 = mi" "t2 sdiv 1000000 = s" using t h mi by (simp_all add: sdiv_pos h_def mi_def s_def)
  have w: "wrap32 h = h" "wrap64 (h * 3600000000) = h * 3600000000" "wrap64 (t - h * 3600000000) = t1"
    "wrap32 mi = mi" "wrap64 (mi * 60000000) = mi * 60000000" "wrap64 (t1 - mi * 60000000) = t2"
    "wrap32 s = s" "wrap64 (s * 1000000) = s * 1000000" "wrap64 (t2 - s * 1000000) = f"
    using t h mi s by (simp_all flip: t1_def t2_def f_def)
  have a: "dt2time t = (h, mi, s, f)"
    unfolding dt2time_def Let_def pgUsecsPerHour_def pgUsecsPerMinute_def pgUsecsPerSec_def sd w by (rule refl)
  have sum: "((h * 60 + mi) * 60 + s) * 1000000 + f = t" by (simp add: f_def t2_def t1_def algebra_simps)
  have "time2t h mi s f = ((h * 60 + mi) * 60 + s) * 1000000 + f"
    using h mi s by (simp add: time2t_def pgUsecsPerSec_def)
  then show ?thesis using a sum h mi s by (auto simp: pgUsecsPerSec_def)
qed

lemma timestamp2tm_round:
  assumes "pgIsValidTimestamp t"
  shows "\<exists>tm f. timestamp2tm t None = Some (tm, f, 0, []) \<and> tm2timestamp tm f None = Some t \<and>
    calendar (tm_year tm) (tm_mon tm) (tm_mday tm) \<and> 0 \<le> tm_hour tm \<and> tm_hour tm < 24 \<and> 0 \<le> tm_min tm \<and> tm_min tm < 60 \<and>
    0 \<le> tm_sec tm \<and> tm_sec tm < 60 \<and> 0 \<le> f \<and> f < pgUsecsPerSec"
proof -
  define q r where "q = t div pgUsecsPerDay" and "r = t mod pgUsecsPerDay"
  have U: "0 < pgUsecsPerDay" by (simp add: pgUsecsPerDay_def)
  have r: "0 \<le> r" "r < pgUsecsPerDay" using U by (simp_all add: r_def)
  have t: "t = q * pgUsecsPerDay + r" by (simp add: q_def r_def)
  have tb: "- 211813488000000000 \<le> t" "t < 9223371331200000000"
    using assms by (simp_all add: pgIsValidTimestamp_def pgMinTimestamp_def pgEndTimestamp_def)
  have q: "- 2451545 \<le> q" "q < 106751983" using t tb r unfolding pgUsecsPerDay_def by linarith+
  let ?s = "t sdiv pgUsecsPerDay"
  note tf = trunc_floor[OF U, of t]
  have sb: "- 2451545 \<le> ?s" "?s \<le> 106751984" using tf(2) q unfolding q_def by (auto split: if_splits)
  have w1: "wrap64 (?s * pgUsecsPerDay) = ?s * pgUsecsPerDay" "wrap64 (t - ?s * pgUsecsPerDay) = t - ?s * pgUsecsPerDay"
    "wrap64 (t - ?s * pgUsecsPerDay + pgUsecsPerDay) = t - ?s * pgUsecsPerDay + pgUsecsPerDay" "wrap64 (?s - 1) = ?s - 1"
    using sb tf(3,4) by (simp_all add: pgUsecsPerDay_def)
  have t0: "(if ?s \<noteq> 0 then wrap64 (t - wrap64 (?s * pgUsecsPerDay)) else t) = t - ?s * pgUsecsPerDay" using w1 by simp
  have w2: "wrap64 (q + pgPostgresEpochJDate) = q + pgPostgresEpochJDate" "wrap32 (q + pgPostgresEpochJDate) = q + pgPostgresEpochJDate"
    "\<not> (q + pgPostgresEpochJDate < 0 \<or> q + pgPostgresEpochJDate > 2 ^ 31 - 1)"
    using q by (simp_all add: pgPostgresEpochJDate_def)
  have jb: "0 \<le> q + pgPostgresEpochJDate" "q + pgPostgresEpochJDate < pgDateEndJulian"
    using q by (simp_all add: pgPostgresEpochJDate_def pgDateEndJulian_def)
  obtain y m d where j: "j2date (q + pgPostgresEpochJDate) = (y, m, d)" "pgIsValidJulian y m d" "calendar y m d"
    "date2j y m d = q + pgPostgresEpochJDate" using jdate_round[OF jb] by auto
  obtain h mi s f where tt: "dt2time r = (h, mi, s, f)" and tr: "0 \<le> h" "h < 24" "0 \<le> mi" "mi < 60" "0 \<le> s" "s < 60" "0 \<le> f" "f < pgUsecsPerSec"
    "time2t h mi s f = r" using time_round[OF r] by auto
  let ?tm = "\<lparr>tm_sec = s, tm_min = mi, tm_hour = h, tm_mday = d, tm_mon = m, tm_year = y,
             tm_wday = 0, tm_yday = 0, tm_isdst = - 1, tm_gmtoff = 0, tm_zone = []\<rparr>"
  have a: "timestamp2tm t None = Some (?tm, f, 0, [])"
    unfolding timestamp2tm_def Let_def t0 unfolding w1 tf(1,2) q_def[symmetric] r_def[symmetric] w2(1,2) j(1) tt using w2(3) by simp
  have w3: "wrap64 (q + pgPostgresEpochJDate - pgPostgresEpochJDate) = q" "wrap64 (q * pgUsecsPerDay) = q * pgUsecsPerDay"
    "wrap64 (q * pgUsecsPerDay + r) = t" "wrap64 (t - r) = q * pgUsecsPerDay"
    using q tb t r by (simp_all add: pgPostgresEpochJDate_def pgUsecsPerDay_def)
  have w4: "q * pgUsecsPerDay sdiv pgUsecsPerDay = q" by (simp add: sdiv_mult_self U less_imp_neq[symmetric] pgUsecsPerDay_def)
  have w5: "\<not> (t < 0 \<and> q > 0 \<or> t > 0 \<and> q < - 1)" using t r by (auto simp: pgUsecsPerDay_def)
  have "tm2timestamp ?tm f None = Some t"
    unfolding tm2timestamp_def Let_def using assms j(2) w3 w4 w5 by (simp add: j(4) tr(9))
  then show ?thesis using a j(3) tr by auto
qed

text \<open>C39: Every timestamp in range breaks down to a date of the calendar and a time of day, hours below 24, minutes and
  seconds below 60, and the fraction in microseconds; put together again they are that timestamp, before 2000 and before
  the year 1 included, where Go's truncating division leaves negative remainders.\<close>

theorem timestamp_breakdown_roundtrip:
  assumes "pgIsValidTimestamp t"
  shows "\<exists>tm f. timestamp2tm t None = Some (tm, f, 0, []) \<and> tm2timestamp tm f None = Some t \<and>
    calendar (tm_year tm) (tm_mon tm) (tm_mday tm) \<and> 0 \<le> tm_hour tm \<and> tm_hour tm < 24 \<and> 0 \<le> tm_min tm \<and> tm_min tm < 60 \<and>
    0 \<le> tm_sec tm \<and> tm_sec tm < 60 \<and> 0 \<le> f \<and> f < pgUsecsPerSec"
  by (rule timestamp2tm_round[OF assms])

theorem timestamp_breakdown_roundtrip_witness:
  "\<exists>tm f. timestamp2tm (- 1) None = Some (tm, f, 0, []) \<and> tm2timestamp tm f None = Some (- 1) \<and>
    calendar (tm_year tm) (tm_mon tm) (tm_mday tm) \<and> 0 \<le> tm_hour tm \<and> tm_hour tm < 24 \<and> 0 \<le> tm_min tm \<and> tm_min tm < 60 \<and>
    0 \<le> tm_sec tm \<and> tm_sec tm < 60 \<and> 0 \<le> f \<and> f < pgUsecsPerSec"
  by (rule timestamp_breakdown_roundtrip) (simp add: pgIsValidTimestamp_def pgMinTimestamp_def pgEndTimestamp_def)

end
