(* ===== verification/Pg_Numeric.thy ===== *)
theory Pg_Numeric
  imports Omni_Prelude Complex_Main
begin

section \<open>Numerics: pkg/sqlfn, pg\_numeric\<close>

text \<open>
  PostgreSQL's numeric as pkg/sqlfn ports it: base-10000 digits, most significant first, with the weight of
  the first. Digits are int32 in the source and below 10000, so a digit, a carry or a difference of digits
  stays far inside the range; they are integers here, as are weights and scales. The value of a numeric is
  a rational, and the main result is that comparison, addition and subtraction are exact on it.
\<close>

datatype num_sign = numPos | numNeg | numNaN | numPInf | numNInf

record pgNumeric =
  n_digits :: "int list"
  n_weight :: int
  n_sign :: num_sign
  n_dscale :: int

abbreviation nbase :: int where "nbase \<equiv> 10000"

definition isSpecial :: "pgNumeric \<Rightarrow> bool" where
  "isSpecial n \<longleftrightarrow> n_sign n \<in> {numNaN, numPInf, numNInf}"

definition strip_lead :: "int list \<Rightarrow> int \<Rightarrow> int list \<times> int" where
  "strip_lead d w = (dropWhile (\<lambda>x. x = 0) d, w - int (length (takeWhile (\<lambda>x. x = 0) d)))"

definition strip :: "pgNumeric \<Rightarrow> pgNumeric" where
  "strip n = (case strip_lead (n_digits n) (n_weight n) of (d, w) \<Rightarrow>
     (let d = rev (dropWhile (\<lambda>x. x = 0) (rev d)) in
       if d = [] then n\<lparr>n_digits := [], n_sign := numPos, n_weight := 0\<rparr> else n\<lparr>n_digits := d, n_weight := w\<rparr>))"

definition makeResult :: "pgNumeric \<Rightarrow> err + pgNumeric" where
  "makeResult n0 = (if isSpecial n0 then Inr \<lparr>n_digits = [], n_weight = 0, n_sign = n_sign n0, n_dscale = 0\<rparr>
     else (let n = strip n0 in
       if n_weight n > 32767 \<or> n_weight n < - 32768 \<or> n_dscale n > 0x3FFF \<or> n_dscale n < 0 then Inl (ErrOther ''value overflows numeric format'')
       else Inr n))"

subsection \<open>Comparison\<close>

text \<open>A number's digits above the other's weight: None where one of them decides.\<close>

fun cmp_lead :: "int list \<Rightarrow> int \<Rightarrow> int \<Rightarrow> (int list \<times> int) option" where
  "cmp_lead [] w v = Some ([], w)"
| "cmp_lead (d # ds) w v = (if w > v then if d \<noteq> 0 then None else cmp_lead ds (w - 1) v else Some (d # ds, w))"

text \<open>The digits of equal weight: the answer, or what is left of both.\<close>

fun cmp_common :: "int list \<Rightarrow> int list \<Rightarrow> int + int list \<times> int list" where
  "cmp_common (x # xs) (y # ys) = (if x - y > 0 then Inl 1 else if x - y < 0 then Inl (- 1) else cmp_common xs ys)"
| "cmp_common xs ys = Inr (xs, ys)"

definition cmpAbsCommon :: "int list \<Rightarrow> int \<Rightarrow> int list \<Rightarrow> int \<Rightarrow> int" where
  "cmpAbsCommon d1 w1 d2 w2 = (case cmp_lead d1 w1 w2 of None \<Rightarrow> 1
   | Some (e1, v1) \<Rightarrow> (case cmp_lead d2 w2 v1 of None \<Rightarrow> - 1
     | Some (e2, v2) \<Rightarrow> (case (if v1 = v2 then cmp_common e1 e2 else Inr (e1, e2)) of
         Inl c \<Rightarrow> c
       | Inr (r1, r2) \<Rightarrow> if list_ex (\<lambda>x. x \<noteq> 0) r1 then 1 else if list_ex (\<lambda>x. x \<noteq> 0) r2 then - 1 else 0)))"

definition cmpAbs :: "pgNumeric \<Rightarrow> pgNumeric \<Rightarrow> int" where
  "cmpAbs a b = cmpAbsCommon (n_digits a) (n_weight a) (n_digits b) (n_weight b)"

definition cmpVar :: "pgNumeric \<Rightarrow> pgNumeric \<Rightarrow> int" where
  "cmpVar a b =
    (if n_digits a = [] then (if n_digits b = [] then 0 else if n_sign b = numNeg then 1 else - 1)
     else if n_digits b = [] then (if n_sign a = numPos then 1 else - 1)
     else if n_sign a = numPos then (if n_sign b = numNeg then 1 else cmpAbs a b)
     else if n_sign b = numPos then - 1
     else cmpAbs b a)"

subsection \<open>Addition and subtraction\<close>

definition digit_at :: "int list \<Rightarrow> int \<Rightarrow> int" where
  "digit_at d i = (if 0 \<le> i \<and> i < int (length d) then d ! nat i else 0)"

text \<open>The loops from the last position down, the positions left as the first argument; the digits so far, and the carry.\<close>

fun add_loop :: "nat \<Rightarrow> int list \<Rightarrow> int list \<Rightarrow> int \<Rightarrow> int \<Rightarrow> int \<Rightarrow> int list \<Rightarrow> int list \<times> int" where
  "add_loop 0 a b i1 i2 carry res = (res, carry)"
| "add_loop (Suc i) a b i1 i2 carry res = (let c = carry + digit_at a (i1 - 1) + digit_at b (i2 - 1) in
     if c \<ge> nbase then add_loop i a b (i1 - 1) (i2 - 1) 1 ((c - nbase) # res)
     else add_loop i a b (i1 - 1) (i2 - 1) 0 (c # res))"

fun sub_loop :: "nat \<Rightarrow> int list \<Rightarrow> int list \<Rightarrow> int \<Rightarrow> int \<Rightarrow> int \<Rightarrow> int list \<Rightarrow> int list \<times> int" where
  "sub_loop 0 a b i1 i2 borrow res = (res, borrow)"
| "sub_loop (Suc i) a b i1 i2 borrow res = (let c = borrow + digit_at a (i1 - 1) - digit_at b (i2 - 1) in
     if c < 0 then sub_loop i a b (i1 - 1) (i2 - 1) (- 1) ((c + nbase) # res)
     else sub_loop i a b (i1 - 1) (i2 - 1) 0 (c # res))"

definition res_rscale :: "pgNumeric \<Rightarrow> pgNumeric \<Rightarrow> int" where
  "res_rscale a b = max (int (length (n_digits a)) - n_weight a - 1) (int (length (n_digits b)) - n_weight b - 1)"

definition addAbs :: "pgNumeric \<Rightarrow> pgNumeric \<Rightarrow> pgNumeric" where
  "addAbs a b = (let
     resWeight = max (n_weight a) (n_weight b) + 1;
     resRscale = res_rscale a b;
     resN = resRscale + resWeight + 1;
     resN = (if resN \<le> 0 then 1 else resN);
     (res, carry) = add_loop (nat resN) (n_digits a) (n_digits b) (resRscale + n_weight a + 1) (resRscale + n_weight b + 1) 0 [] in
     strip \<lparr>n_digits = res, n_weight = resWeight, n_sign = numPos, n_dscale = max (n_dscale a) (n_dscale b)\<rparr>)"

definition subAbs :: "pgNumeric \<Rightarrow> pgNumeric \<Rightarrow> pgNumeric" where
  "subAbs a b = (let
     resWeight = n_weight a;
     resRscale = res_rscale a b;
     resN = resRscale + resWeight + 1;
     resN = (if resN \<le> 0 then 1 else resN);
     (res, borrow) = sub_loop (nat resN) (n_digits a) (n_digits b) (resRscale + n_weight a + 1) (resRscale + n_weight b + 1) 0 [] in
     strip \<lparr>n_digits = res, n_weight = resWeight, n_sign = numPos, n_dscale = max (n_dscale a) (n_dscale b)\<rparr>)"

definition addSigned :: "pgNumeric \<Rightarrow> pgNumeric \<Rightarrow> num_sign \<Rightarrow> pgNumeric" where
  "addSigned a b bsign = (let zero = \<lparr>n_digits = [], n_weight = 0, n_sign = numPos, n_dscale = max (n_dscale a) (n_dscale b)\<rparr> in
     if n_sign a = numPos then
       (if bsign = numPos then (addAbs a b)\<lparr>n_sign := numPos\<rparr>
        else if cmpAbs a b = 0 then zero
        else if cmpAbs a b = 1 then (subAbs a b)\<lparr>n_sign := numPos\<rparr>
        else (subAbs b a)\<lparr>n_sign := numNeg\<rparr>)
     else if bsign = numPos then
       (if cmpAbs a b = 0 then zero
        else if cmpAbs a b = 1 then (subAbs a b)\<lparr>n_sign := numNeg\<rparr>
        else (subAbs b a)\<lparr>n_sign := numPos\<rparr>)
     else (addAbs a b)\<lparr>n_sign := numNeg\<rparr>)"

definition addVar :: "pgNumeric \<Rightarrow> pgNumeric \<Rightarrow> pgNumeric" where
  "addVar a b = addSigned a b (n_sign b)"

definition subVar :: "pgNumeric \<Rightarrow> pgNumeric \<Rightarrow> pgNumeric" where
  "subVar a b = addSigned a b (if n_sign b = numNeg then numPos else numNeg)"

subsection \<open>The value of a numeric\<close>

text \<open>The place value of a weight.\<close>

definition pw :: "int \<Rightarrow> rat" where
  "pw w = 10000 powi w"

lemma pw_pos [simp]: "0 < pw w" "0 \<le> pw w" "pw w \<noteq> 0"
  by (simp_all add: pw_def)

lemma pw_Suc: "pw (w + 1) = 10000 * pw w"
  unfolding pw_def by (subst power_int_add) simp_all

lemma pw_mono: "w \<le> v \<Longrightarrow> pw w \<le> pw v"
  unfolding pw_def by (rule power_int_increasing) simp_all

fun nval :: "int list \<Rightarrow> int \<Rightarrow> rat" where
  "nval [] w = 0"
| "nval (d # ds) w = of_int d * pw w + nval ds (w - 1)"

definition digits_ok :: "int list \<Rightarrow> bool" where
  "digits_ok ds \<longleftrightarrow> list_all (\<lambda>d. 0 \<le> d \<and> d < nbase) ds"

definition num_abs :: "pgNumeric \<Rightarrow> rat" where
  "num_abs n = nval (n_digits n) (n_weight n)"

definition num_value :: "pgNumeric \<Rightarrow> rat" where
  "num_value n = (if n_sign n = numNeg then - num_abs n else num_abs n)"

text \<open>A finite numeric as every operation leaves it: no leading and no trailing zero, and zero is positive with weight 0.\<close>

definition num_ok :: "pgNumeric \<Rightarrow> bool" where
  "num_ok n \<longleftrightarrow> digits_ok (n_digits n) \<and> n_sign n \<in> {numPos, numNeg} \<and>
     (if n_digits n = [] then n_sign n = numPos \<and> n_weight n = 0 else hd (n_digits n) \<noteq> 0 \<and> last (n_digits n) \<noteq> 0)"

lemma nval_nonneg: "digits_ok ds \<Longrightarrow> 0 \<le> nval ds w"
  by (induction ds w rule: nval.induct) (auto simp: digits_ok_def)

lemma nval_less: "digits_ok ds \<Longrightarrow> nval ds w < pw (w + 1)"
proof (induction ds w rule: nval.induct)
  case (2 d ds w)
  have "nval ds (w - 1) < pw w" using 2 by (simp add: digits_ok_def)
  moreover have "of_int d * pw w \<le> (9999 :: rat) * pw w"
  proof (rule mult_right_mono)
    have "d \<le> 9999" using 2(2) by (simp add: digits_ok_def)
    then show "(of_int d :: rat) \<le> 9999" using of_int_le_iff[of d 9999, where ?'a = rat] by simp
  qed simp
  ultimately show ?case unfolding nval.simps pw_Suc by linarith
qed simp

lemma nval_append: "nval (a @ b) w = nval a w + nval b (w - int (length a))"
  by (induction a w rule: nval.induct) (simp_all add: algebra_simps)

lemma nval_zeros: "list_all (\<lambda>d. d = 0) ds \<Longrightarrow> nval ds w = 0"
  by (induction ds w rule: nval.induct) auto

lemma nval_pos: "digits_ok ds \<Longrightarrow> list_ex (\<lambda>d. d \<noteq> 0) ds \<Longrightarrow> 0 < nval ds w"
proof (induction ds w rule: nval.induct)
  case (2 d ds w)
  have ok: "0 \<le> d" "digits_ok ds" using 2(2) by (simp_all add: digits_ok_def)
  show ?case
  proof (cases "d = 0")
    case True
    then show ?thesis using 2 ok by simp
  next
    case False
    then have "0 < of_int d * pw w" using ok(1) by simp
    then show ?thesis using nval_nonneg[OF ok(2), of "w - 1"] by simp
  qed
qed simp

lemma nval_lead: "digits_ok ds \<Longrightarrow> ds \<noteq> [] \<Longrightarrow> hd ds \<noteq> 0 \<Longrightarrow> pw w \<le> nval ds w"
proof (cases ds)
  case (Cons d es)
  assume "digits_ok ds" "hd ds \<noteq> 0"
  then have "1 \<le> d" "digits_ok es" using Cons by (auto simp: digits_ok_def)
  then have "1 * pw w \<le> of_int d * pw w" by (intro mult_right_mono) simp_all
  then show ?thesis using nval_nonneg[OF \<open>digits_ok es\<close>, of "w - 1"] unfolding Cons nval.simps by linarith
qed simp

subsection \<open>Stripping\<close>

lemma strip_lead_value: "strip_lead d w = (e, v) \<Longrightarrow> nval e v = nval d w"
  by (induction d arbitrary: w e v) (auto simp: strip_lead_def algebra_simps)

lemma drop_trailing: "nval (rev (dropWhile (\<lambda>x. x = 0) (rev d))) w = nval d w"
proof (induction d rule: rev_induct)
  case (snoc x xs)
  then show ?case by (simp add: nval_append)
qed simp

lemma drop_trailing_props:
  "rev (dropWhile (\<lambda>x. x = 0) (rev d)) \<noteq> [] \<Longrightarrow> last (rev (dropWhile (\<lambda>x. x = 0) (rev d))) \<noteq> (0 :: int)"
  "rev (dropWhile (\<lambda>x. x = 0) (rev d)) \<noteq> [] \<Longrightarrow> hd (rev (dropWhile (\<lambda>x. x = 0) (rev d))) = hd d"
  "digits_ok d \<Longrightarrow> digits_ok (rev (dropWhile (\<lambda>x. x = 0) (rev d)))"
proof -
  show "rev (dropWhile (\<lambda>x. x = 0) (rev d)) \<noteq> [] \<Longrightarrow> last (rev (dropWhile (\<lambda>x. x = 0) (rev d))) \<noteq> (0 :: int)"
    using hd_dropWhile[of "\<lambda>x. x = 0" "rev d"] by (simp add: last_rev del: dropWhile_eq_Nil_conv)
  show "rev (dropWhile (\<lambda>x. x = 0) (rev d)) \<noteq> [] \<Longrightarrow> hd (rev (dropWhile (\<lambda>x. x = 0) (rev d))) = hd d"
    by (induction d rule: rev_induct) (auto simp: hd_append)
  show "digits_ok d \<Longrightarrow> digits_ok (rev (dropWhile (\<lambda>x. x = 0) (rev d)))"
    by (auto simp: digits_ok_def list_all_iff dest: set_dropWhileD)
qed

lemma strip_signed:
  assumes "digits_ok (n_digits n)" "n_sign n \<in> {numPos, numNeg}"
  shows "num_ok (strip n)" "num_abs (strip n) = num_abs n" "n_digits (strip n) \<noteq> [] \<Longrightarrow> n_sign (strip n) = n_sign n"
    "n_digits (strip n) = [] \<Longrightarrow> n_sign (strip n) = numPos" "n_dscale (strip n) = n_dscale n"
    "n_digits (strip n) \<noteq> [] \<Longrightarrow> int (length (n_digits (strip n))) - n_weight (strip n) \<le> int (length (n_digits n)) - n_weight n"
proof -
  obtain d w where dw: "strip_lead (n_digits n) (n_weight n) = (d, w)" by (cases "strip_lead (n_digits n) (n_weight n)")
  let ?e = "rev (dropWhile (\<lambda>x. x = 0) (rev d))"
  have v: "nval ?e w = num_abs n" using strip_lead_value[OF dw] by (simp add: drop_trailing num_abs_def)
  have d: "d = dropWhile (\<lambda>x. x = 0) (n_digits n)" and w: "w = n_weight n - int (length (takeWhile (\<lambda>x. x = 0) (n_digits n)))"
    using dw by (simp_all add: strip_lead_def)
  have hd0: "d \<noteq> [] \<Longrightarrow> hd d \<noteq> 0" unfolding d by (rule hd_dropWhile)
  have ok: "digits_ok ?e" using assms(1) unfolding d by (intro drop_trailing_props(3)) (auto simp: digits_ok_def list_all_iff dest: set_dropWhileD)
  have ends: "hd ?e \<noteq> 0" "last ?e \<noteq> 0" if "?e \<noteq> []"
  proof -
    have "d \<noteq> []" using that by auto
    then show "hd ?e \<noteq> 0" "last ?e \<noteq> 0" using drop_trailing_props(1,2)[OF that] hd0 by simp_all
  qed
  have "length (takeWhile (\<lambda>x. x = 0) (n_digits n)) + length d = length (n_digits n)"
    unfolding d by (metis length_append takeWhile_dropWhile_id)
  moreover have "length ?e \<le> length d" using length_dropWhile_le[of "\<lambda>x. x = 0" "rev d"] by simp
  ultimately have len: "int (length ?e) - w \<le> int (length (n_digits n)) - n_weight n" unfolding w by linarith
  have st: "strip n = (if ?e = [] then n\<lparr>n_digits := [], n_sign := numPos, n_weight := 0\<rparr> else n\<lparr>n_digits := ?e, n_weight := w\<rparr>)"
    using dw by (simp add: strip_def Let_def)
  show "num_ok (strip n)" "num_abs (strip n) = num_abs n" "n_digits (strip n) \<noteq> [] \<Longrightarrow> n_sign (strip n) = n_sign n"
    "n_digits (strip n) = [] \<Longrightarrow> n_sign (strip n) = numPos" "n_dscale (strip n) = n_dscale n"
    "n_digits (strip n) \<noteq> [] \<Longrightarrow> int (length (n_digits (strip n))) - n_weight (strip n) \<le> int (length (n_digits n)) - n_weight n"
    using v ok ends len assms(2) unfolding st
    by (cases "?e = []"; simp add: num_ok_def num_abs_def digits_ok_def del: dropWhile_eq_Nil_conv rev_is_Nil_conv length_rev)+
qed

lemma strip_props:
  assumes "digits_ok (n_digits n)" "n_sign n = numPos"
  shows "num_ok (strip n)" "num_abs (strip n) = num_abs n" "n_sign (strip n) = numPos" "n_dscale (strip n) = n_dscale n"
  using strip_signed[of n] assms by (cases "n_digits (strip n) = []"; simp)+

subsection \<open>Comparison is exact\<close>

lemma cmp_lead_None: "digits_ok ds \<Longrightarrow> cmp_lead ds w v = None \<Longrightarrow> pw (v + 1) \<le> nval ds w"
proof (induction ds w v rule: cmp_lead.induct)
  case (2 d ds w v)
  have wv: "w > v" using 2(3) by (auto split: if_splits)
  show ?case
  proof (cases "d = 0")
    case True
    then show ?thesis using 2 wv by (simp add: digits_ok_def)
  next
    case False
    have "pw (v + 1) \<le> pw w" using wv by (intro pw_mono) simp
    also have "\<dots> \<le> nval (d # ds) w" using nval_lead[OF 2(2)] False by simp
    finally show ?thesis .
  qed
qed simp

lemma cmp_lead_Some: "cmp_lead ds w v = Some (es, u) \<Longrightarrow> nval es u = nval ds w \<and> (es = [] \<or> u \<le> v) \<and> (digits_ok ds \<longrightarrow> digits_ok es) \<and> (w \<le> v \<longrightarrow> u = w) \<and> (w > v \<longrightarrow> u \<ge> v)"
  by (induction ds w v rule: cmp_lead.induct) (auto simp: digits_ok_def split: if_splits)

lemma cmp_common_value:
  assumes "digits_ok xs" "digits_ok ys"
  shows "case cmp_common xs ys of Inl c \<Rightarrow> (c = 1 \<and> nval xs w > nval ys w \<or> c = - 1 \<and> nval xs w < nval ys w)
    | Inr (r, t) \<Rightarrow> \<exists>u. nval xs w - nval ys w = nval r u - nval t u \<and> digits_ok r \<and> digits_ok t \<and> (r = [] \<or> t = [])"
  using assms
proof (induction xs ys arbitrary: w rule: cmp_common.induct)
  case (1 x xs y ys)
  have ok: "digits_ok xs" "digits_ok ys" "0 \<le> x" "0 \<le> y" using 1(2,3) by (simp_all add: digits_ok_def)
  have gap: "nval (a # as) w < nval (b # bs) w" if "a < b" "digits_ok as" "digits_ok bs" for a b as bs
  proof -
    have "nval as (w - 1) < pw w" using nval_less[OF that(2), of "w - 1"] by simp
    moreover have "0 \<le> nval bs (w - 1)" by (rule nval_nonneg[OF that(3)])
    moreover have "(of_int a + 1) * pw w \<le> of_int b * pw w"
    proof (rule mult_right_mono)
      have "(of_int (a + 1) :: rat) \<le> of_int b" using that(1) by (subst of_int_le_iff) simp
      then show "(of_int a + 1 :: rat) \<le> of_int b" by simp
    qed simp
    ultimately show ?thesis by (simp add: distrib_right)
  qed
  consider "x > y" | "x < y" | "x = y" by linarith
  then show ?case
  proof cases
    case 3
    then have "x - y = 0" by simp
    then show ?thesis using 1(1)[OF _ _ ok(1,2), of "w - 1"] 3 by (simp split: sum.splits prod.splits)
  qed (use gap[of y x ys xs] gap[of x y xs ys] ok in auto)
qed auto

lemma rest_decides:
  assumes "digits_ok r" "digits_ok t" "r = [] \<or> t = []"
  shows "(if list_ex (\<lambda>x. x \<noteq> 0) r then 1 else if list_ex (\<lambda>x. x \<noteq> 0) t then - 1 else 0) =
    (if nval r u - nval t u > 0 then 1 else if nval r u - nval t u < 0 then - 1 else (0 :: int))"
proof -
  have z: "nval l u = 0" if "\<not> list_ex (\<lambda>x. x \<noteq> 0) l" for l using that nval_zeros[of l u] by (simp add: list_all_iff list_ex_iff)
  show ?thesis using nval_pos[OF assms(1), of u] nval_pos[OF assms(2), of u] z[of r] z[of t] assms(3) by (cases "r = []") auto
qed

lemma cmpAbsCommon_value:
  assumes "digits_ok d1" "digits_ok d2"
  shows "cmpAbsCommon d1 w1 d2 w2 = (if nval d1 w1 > nval d2 w2 then 1 else if nval d1 w1 < nval d2 w2 then - 1 else 0)"
proof (cases "cmp_lead d1 w1 w2")
  case None
  then show ?thesis using cmp_lead_None[OF assms(1) None] nval_less[OF assms(2), of w2] by (simp add: cmpAbsCommon_def)
next
  case (Some p)
  then obtain e1 v1 where p: "cmp_lead d1 w1 w2 = Some (e1, v1)" by (cases p) simp
  note l1 = cmp_lead_Some[OF p]
  show ?thesis
  proof (cases "cmp_lead d2 w2 v1")
    case None
    have "nval e1 v1 < pw (v1 + 1)" using l1 assms(1) by (intro nval_less) simp
    then show ?thesis using p l1 None cmp_lead_None[OF assms(2) None] by (simp add: cmpAbsCommon_def)
  next
    case (Some q)
    then obtain e2 v2 where q: "cmp_lead d2 w2 v1 = Some (e2, v2)" by (cases q) simp
    note l2 = cmp_lead_Some[OF q]
    have ok: "digits_ok e1" "digits_ok e2" using l1 l2 assms by simp_all
    have eq: "nval d1 w1 = nval e1 v1" "nval d2 w2 = nval e2 v2" using l1 l2 by simp_all
    show ?thesis
    proof (cases "v1 = v2")
      case True
      show ?thesis
      proof (cases "cmp_common e1 e2")
        case (Inl c)
        then show ?thesis using p q eq True cmp_common_value[OF ok, of v1] by (auto simp: cmpAbsCommon_def)
      next
        case (Inr rt)
        obtain r t where rt: "rt = (r, t)" by (cases rt)
        obtain u where "nval e1 v1 - nval e2 v1 = nval r u - nval t u" "digits_ok r" "digits_ok t" "r = [] \<or> t = []"
          using cmp_common_value[OF ok, of v1] Inr rt by auto
        then show ?thesis using p q eq True Inr rt rest_decides[of r t u] by (simp add: cmpAbsCommon_def)
      qed
    next
      case False
      then have one: "e1 = [] \<or> e2 = []" using l1 l2 by linarith
      then have "nval e1 v1 - nval e2 v2 = nval e1 (if e1 = [] then v2 else v1) - nval e2 (if e1 = [] then v2 else v1)" by auto
      then show ?thesis using p q eq False ok one rest_decides[of e1 e2 "if e1 = [] then v2 else v1"] by (simp add: cmpAbsCommon_def)
    qed
  qed
qed

subsection \<open>Addition and subtraction are exact\<close>

lemma digit_at_ok: "digits_ok d \<Longrightarrow> 0 \<le> digit_at d i \<and> digit_at d i < nbase"
  by (auto simp: digits_ok_def list_all_iff digit_at_def)

definition aligned :: "int list \<Rightarrow> int \<Rightarrow> nat \<Rightarrow> int list" where
  "aligned d k n = map (\<lambda>i. digit_at d (int i + k)) [0..<n]"

lemma aligned_Suc [simp]: "aligned d k 0 = []" "aligned d k (Suc n) = aligned d k n @ [digit_at d (int n + k)]" "length (aligned d k n) = n"
  by (simp_all add: aligned_def)

text \<open>Digits set out on positions that reach past both ends keep their value.\<close>

lemma aligned_value:
  assumes "d = [] \<or> k \<le> 0 \<and> int (length d) \<le> int n + k" "k = w - W"
  shows "nval (aligned d k n) W = nval d w"
proof (cases "d = []")
  case True
  then have "list_all (\<lambda>x. x = 0) (aligned d k n)" by (auto simp: aligned_def list_all_iff digit_at_def)
  then show ?thesis using True nval_zeros by simp
next
  case False
  let ?z = "replicate (nat (- k)) (0 :: int)" and ?t = "replicate (n - nat (- k) - length d) (0 :: int)"
  have len: "length d + nat (- k) \<le> n" and k: "k \<le> 0" using assms(1) False by linarith+
  have "aligned d k n = ?z @ d @ ?t"
  proof (rule nth_equalityI)
    show "length (aligned d k n) = length (?z @ d @ ?t)" using len by simp
    fix i assume i: "i < length (aligned d k n)"
    have "nat (int i + k) = i - nat (- k)" using k by linarith
    then show "aligned d k n ! i = (?z @ d @ ?t) ! i"
      using i k len by (auto simp: aligned_def digit_at_def nth_append) (rule nth_replicate, linarith)
  qed
  then show ?thesis using k assms(2) by (simp add: nval_append nval_zeros list_all_iff)
qed

lemma add_loop_value:
  assumes "digits_ok a" "digits_ok b"
  shows "c \<in> {0, 1} \<Longrightarrow> add_loop n a b (int n + k1) (int n + k2) c res = (res', c') \<Longrightarrow>
    \<exists>ds. res' = ds @ res \<and> length ds = n \<and> digits_ok ds \<and> c' \<in> {0, 1} \<and>
      nval ds W + of_int c' * pw (W + 1) = nval (aligned a k1 n) W + nval (aligned b k2 n) W + of_int c * pw (W - int n + 1)"
proof (induction n arbitrary: c res)
  case 0
  then show ?case by (auto simp: digits_ok_def)
next
  case (Suc n)
  let ?da = "digit_at a (int n + k1)" and ?db = "digit_at b (int n + k2)"
  define s where "s = c + ?da + ?db"
  define c1 where "c1 = (if s \<ge> nbase then 1 else 0 :: int)"
  have x: "0 \<le> s - c1 * nbase" "s - c1 * nbase < nbase" "c1 \<in> {0, 1}"
    using digit_at_ok[OF assms(1), of "int n + k1"] digit_at_ok[OF assms(2), of "int n + k2"] Suc.prems(1) by (auto simp: s_def c1_def)
  have i: "int (Suc n) + k1 - 1 = int n + k1" "int (Suc n) + k2 - 1 = int n + k2" by simp_all
  have "add_loop n a b (int n + k1) (int n + k2) c1 ((s - c1 * nbase) # res) = (res', c')"
    using Suc.prems(2) unfolding add_loop.simps i s_def c1_def by (simp add: Let_def split: if_splits)
  from Suc.IH[OF x(3) this] obtain ds where ds: "res' = ds @ (s - c1 * nbase) # res" "length ds = n" "digits_ok ds" "c' \<in> {0, 1}"
    "nval ds W + of_int c' * pw (W + 1) = nval (aligned a k1 n) W + nval (aligned b k2 n) W + of_int c1 * pw (W - int n + 1)" by blast
  let ?p = "pw (W - int n)"
  have p: "pw (W - int n + 1) = 10000 * ?p" by (rule pw_Suc)
  have w: "W - int (Suc n) + 1 = W - int n" by simp
  have "of_int (s - c1 * nbase) * ?p = of_int c * ?p + of_int ?da * ?p + of_int ?db * ?p - of_int c1 * (10000 * ?p)"
    by (simp add: s_def algebra_simps)
  then have "nval (ds @ [s - c1 * nbase]) W + of_int c' * pw (W + 1) =
      nval (aligned a k1 (Suc n)) W + nval (aligned b k2 (Suc n)) W + of_int c * pw (W - int (Suc n) + 1)"
    using ds(2,5) unfolding w p by (simp add: nval_append)
  moreover have "digits_ok (ds @ [s - c1 * nbase])" using ds(3) x by (simp add: digits_ok_def)
  ultimately show ?case using ds(1,2,4) by (intro exI[of _ "ds @ [s - c1 * nbase]"]) simp
qed

lemma sub_loop_value:
  assumes "digits_ok a" "digits_ok b"
  shows "c \<in> {0, - 1} \<Longrightarrow> sub_loop n a b (int n + k1) (int n + k2) c res = (res', c') \<Longrightarrow>
    \<exists>ds. res' = ds @ res \<and> length ds = n \<and> digits_ok ds \<and> c' \<in> {0, - 1} \<and>
      nval ds W + of_int c' * pw (W + 1) = nval (aligned a k1 n) W - nval (aligned b k2 n) W + of_int c * pw (W - int n + 1)"
proof (induction n arbitrary: c res)
  case 0
  then show ?case by (auto simp: digits_ok_def)
next
  case (Suc n)
  let ?da = "digit_at a (int n + k1)" and ?db = "digit_at b (int n + k2)"
  define s where "s = c + ?da - ?db"
  define c1 where "c1 = (if s < 0 then - 1 else 0 :: int)"
  have x: "0 \<le> s - c1 * nbase" "s - c1 * nbase < nbase" "c1 \<in> {0, - 1}"
    using digit_at_ok[OF assms(1), of "int n + k1"] digit_at_ok[OF assms(2), of "int n + k2"] Suc.prems(1) by (auto simp: s_def c1_def)
  have i: "int (Suc n) + k1 - 1 = int n + k1" "int (Suc n) + k2 - 1 = int n + k2" by simp_all
  have "sub_loop n a b (int n + k1) (int n + k2) c1 ((s - c1 * nbase) # res) = (res', c')"
    using Suc.prems(2) unfolding sub_loop.simps i s_def c1_def by (simp add: Let_def split: if_splits)
  from Suc.IH[OF x(3) this] obtain ds where ds: "res' = ds @ (s - c1 * nbase) # res" "length ds = n" "digits_ok ds" "c' \<in> {0, - 1}"
    "nval ds W + of_int c' * pw (W + 1) = nval (aligned a k1 n) W - nval (aligned b k2 n) W + of_int c1 * pw (W - int n + 1)" by blast
  let ?p = "pw (W - int n)"
  have p: "pw (W - int n + 1) = 10000 * ?p" by (rule pw_Suc)
  have w: "W - int (Suc n) + 1 = W - int n" by simp
  have "of_int (s - c1 * nbase) * ?p = of_int c * ?p + of_int ?da * ?p - of_int ?db * ?p - of_int c1 * (10000 * ?p)"
    by (simp add: s_def algebra_simps)
  then have "nval (ds @ [s - c1 * nbase]) W + of_int c' * pw (W + 1) =
      nval (aligned a k1 (Suc n)) W - nval (aligned b k2 (Suc n)) W + of_int c * pw (W - int (Suc n) + 1)"
    using ds(2,5) unfolding w p by (simp add: nval_append)
  moreover have "digits_ok (ds @ [s - c1 * nbase])" using ds(3) x by (simp add: digits_ok_def)
  ultimately show ?case using ds(1,2,4) by (intro exI[of _ "ds @ [s - c1 * nbase]"]) simp
qed

lemma addAbs_props:
  assumes "num_ok a" "num_ok b"
  shows "num_ok (addAbs a b)" "num_abs (addAbs a b) = num_abs a + num_abs b" "n_dscale (addAbs a b) = max (n_dscale a) (n_dscale b)"
    "n_sign (addAbs a b) = numPos"
proof -
  define W R where "W = max (n_weight a) (n_weight b) + 1" and "R = res_rscale a b"
  define N where "N = nat (R + W + 1)"
  have ok: "digits_ok (n_digits a)" "digits_ok (n_digits b)" using assms by (simp_all add: num_ok_def)
  have N: "\<not> R + W + 1 \<le> 0" "int N = R + W + 1" unfolding N_def R_def W_def res_rscale_def by linarith+
  obtain res c where lp: "add_loop N (n_digits a) (n_digits b) (R + n_weight a + 1) (R + n_weight b + 1) 0 [] = (res, c)"
    by (cases "add_loop N (n_digits a) (n_digits b) (R + n_weight a + 1) (R + n_weight b + 1) 0 []")
  have i: "R + n_weight a + 1 = int N + (n_weight a - W)" "R + n_weight b + 1 = int N + (n_weight b - W)" using N(2) by simp_all
  obtain ds where ds: "res = ds" "digits_ok ds" "c \<in> {0, 1}"
    "nval ds W + of_int c * pw (W + 1) = nval (aligned (n_digits a) (n_weight a - W) N) W + nval (aligned (n_digits b) (n_weight b - W) N) W"
    using add_loop_value[OF ok, of 0 N "n_weight a - W" "n_weight b - W" "[]" res c W] lp[unfolded i] by auto
  have "nval (aligned (n_digits a) (n_weight a - W) N) W = num_abs a"
    unfolding num_abs_def by (rule aligned_value) (use N(2) in \<open>auto simp: W_def R_def res_rscale_def\<close>)
  moreover have "nval (aligned (n_digits b) (n_weight b - W) N) W = num_abs b"
    unfolding num_abs_def by (rule aligned_value) (use N(2) in \<open>auto simp: W_def R_def res_rscale_def\<close>)
  ultimately have sum: "nval ds W + of_int c * pw (W + 1) = num_abs a + num_abs b" using ds(4) by simp
  have "num_abs a < pw W" "num_abs b < pw W"
  proof -
    have "pw (n_weight a + 1) \<le> pw W" "pw (n_weight b + 1) \<le> pw W" by (rule pw_mono; simp add: W_def)+
    then show "num_abs a < pw W" "num_abs b < pw W"
      using nval_less[OF ok(1), of "n_weight a"] nval_less[OF ok(2), of "n_weight b"] unfolding num_abs_def by linarith+
  qed
  then have "\<not> pw (W + 1) \<le> num_abs a + num_abs b" using pw_Suc[of W] pw_pos(1)[of W] by linarith
  then have "c = 0" using sum ds(3) nval_nonneg[OF ds(2), of W] by auto
  then have v: "nval ds W = num_abs a + num_abs b" using sum by simp
  let ?r = "\<lparr>n_digits = ds, n_weight = W, n_sign = numPos, n_dscale = max (n_dscale a) (n_dscale b)\<rparr>"
  have "addAbs a b = strip ?r"
    using lp N(1) ds(1) by (simp add: addAbs_def Let_def W_def[symmetric] R_def[symmetric] N_def[symmetric])
  moreover have "num_abs ?r = num_abs a + num_abs b" using v by (simp add: num_abs_def)
  ultimately show "num_ok (addAbs a b)" "num_abs (addAbs a b) = num_abs a + num_abs b" "n_dscale (addAbs a b) = max (n_dscale a) (n_dscale b)"
    "n_sign (addAbs a b) = numPos"
    using strip_props[of ?r] ds(2) by simp_all
qed

lemma subAbs_props:
  assumes "num_ok a" "num_ok b" "num_abs b < num_abs a"
  shows "num_ok (subAbs a b)" "num_abs (subAbs a b) = num_abs a - num_abs b" "n_dscale (subAbs a b) = max (n_dscale a) (n_dscale b)"
    "n_sign (subAbs a b) = numPos" "n_digits (subAbs a b) \<noteq> []"
proof -
  define W R where "W = n_weight a" and "R = res_rscale a b"
  define N where "N = nat (R + W + 1)"
  have ok: "digits_ok (n_digits a)" "digits_ok (n_digits b)" using assms by (simp_all add: num_ok_def)
  have ne: "n_digits a \<noteq> []"
    using assms(3) nval_nonneg[OF ok(2), of "n_weight b"] by (auto simp: num_abs_def)
  have wb: "n_weight b \<le> W" if "n_digits b \<noteq> []"
  proof (rule ccontr)
    assume "\<not> n_weight b \<le> W"
    then have "pw (W + 1) \<le> pw (n_weight b)" by (intro pw_mono) simp
    also have "\<dots> \<le> num_abs b" unfolding num_abs_def using assms(2) that by (intro nval_lead) (simp_all add: num_ok_def)
    finally show False using assms(3) nval_less[OF ok(1), of W] unfolding num_abs_def W_def by linarith
  qed
  have "1 \<le> int (length (n_digits a))" using ne by (cases "n_digits a") simp_all
  then have N: "\<not> R + W + 1 \<le> 0" "int N = R + W + 1" unfolding N_def R_def W_def res_rscale_def by linarith+
  obtain res c where lp: "sub_loop N (n_digits a) (n_digits b) (R + n_weight a + 1) (R + n_weight b + 1) 0 [] = (res, c)"
    by (cases "sub_loop N (n_digits a) (n_digits b) (R + n_weight a + 1) (R + n_weight b + 1) 0 []")
  have i: "R + n_weight a + 1 = int N + (n_weight a - W)" "R + n_weight b + 1 = int N + (n_weight b - W)" using N(2) by simp_all
  obtain ds where ds: "res = ds" "digits_ok ds" "c \<in> {0, - 1}"
    "nval ds W + of_int c * pw (W + 1) = nval (aligned (n_digits a) (n_weight a - W) N) W - nval (aligned (n_digits b) (n_weight b - W) N) W"
    using sub_loop_value[OF ok, of 0 N "n_weight a - W" "n_weight b - W" "[]" res c W] lp[unfolded i] by auto
  have "nval (aligned (n_digits a) (n_weight a - W) N) W = num_abs a"
    unfolding num_abs_def by (rule aligned_value) (use N(2) in \<open>auto simp: W_def R_def res_rscale_def\<close>)
  moreover have "nval (aligned (n_digits b) (n_weight b - W) N) W = num_abs b"
    unfolding num_abs_def by (rule aligned_value) (use N(2) wb in \<open>auto simp: R_def res_rscale_def\<close>)
  ultimately have sum: "nval ds W + of_int c * pw (W + 1) = num_abs a - num_abs b" using ds(4) by simp
  have "c = 0" using sum ds(3) assms(3) nval_less[OF ds(2), of W] by auto
  then have v: "nval ds W = num_abs a - num_abs b" using sum by simp
  let ?r = "\<lparr>n_digits = ds, n_weight = W, n_sign = numPos, n_dscale = max (n_dscale a) (n_dscale b)\<rparr>"
  have "subAbs a b = strip ?r"
    using lp N(1) ds(1) by (simp add: subAbs_def Let_def W_def[symmetric] R_def[symmetric] N_def[symmetric])
  moreover have "num_abs ?r = num_abs a - num_abs b" using v by (simp add: num_abs_def)
  ultimately show r: "num_ok (subAbs a b)" "num_abs (subAbs a b) = num_abs a - num_abs b" "n_dscale (subAbs a b) = max (n_dscale a) (n_dscale b)"
    "n_sign (subAbs a b) = numPos"
    using strip_props[of ?r] ds(2) by simp_all
  show "n_digits (subAbs a b) \<noteq> []" using r(2) assms(3) by (auto simp: num_abs_def)
qed

lemma cmpAbs_value:
  "num_ok a \<Longrightarrow> num_ok b \<Longrightarrow> cmpAbs a b = (if num_abs a > num_abs b then 1 else if num_abs a < num_abs b then - 1 else 0)"
  by (simp add: cmpAbs_def num_abs_def num_ok_def cmpAbsCommon_value)

lemma num_abs_nonneg: "num_ok a \<Longrightarrow> 0 \<le> num_abs a"
  by (simp add: num_abs_def num_ok_def nval_nonneg)

lemma num_abs_pos: "num_ok a \<Longrightarrow> n_digits a \<noteq> [] \<Longrightarrow> 0 < num_abs a"
proof -
  assume "num_ok a" "n_digits a \<noteq> []"
  then have "pw (n_weight a) \<le> num_abs a" unfolding num_abs_def by (intro nval_lead) (simp_all add: num_ok_def)
  then show ?thesis using pw_pos(1)[of "n_weight a"] by linarith
qed

lemma neg_nonzero: "num_ok a \<Longrightarrow> n_sign a \<noteq> numPos \<Longrightarrow> n_sign a = numNeg \<and> n_digits a \<noteq> []"
  by (auto simp: num_ok_def split: if_splits)

lemma signed_ok:
  assumes "num_ok r" "s \<in> {numPos, numNeg}" "s = numNeg \<Longrightarrow> 0 < num_abs r"
  shows "num_ok (r\<lparr>n_sign := s\<rparr>)" "num_value (r\<lparr>n_sign := s\<rparr>) = (if s = numNeg then - num_abs r else num_abs r)"
proof -
  have "n_digits r \<noteq> []" if "s = numNeg" using assms(3)[OF that] by (auto simp: num_abs_def)
  then show "num_ok (r\<lparr>n_sign := s\<rparr>)" "num_value (r\<lparr>n_sign := s\<rparr>) = (if s = numNeg then - num_abs r else num_abs r)"
    using assms(1,2) by (auto simp: num_ok_def num_value_def num_abs_def)
qed

lemma addSigned_props:
  assumes "num_ok a" "num_ok b" "s \<in> {numPos, numNeg}"
  shows "num_ok (addSigned a b s) \<and> num_value (addSigned a b s) = num_value a + (if s = numNeg then - num_abs b else num_abs b) \<and>
    n_dscale (addSigned a b s) = max (n_dscale a) (n_dscale b)"
proof -
  note add = addAbs_props[OF assms(1,2)] and c = cmpAbs_value[OF assms(1,2)] and nn = num_abs_nonneg[OF assms(1)] num_abs_nonneg[OF assms(2)]
  let ?z = "\<lparr>n_digits = [], n_weight = 0, n_sign = numPos, n_dscale = max (n_dscale a) (n_dscale b)\<rparr>"
  have z: "num_ok ?z" "num_value ?z = 0" by (simp_all add: num_ok_def num_value_def num_abs_def digits_ok_def)
  have sg: "n_sign a = numPos \<or> n_sign a = numNeg \<and> 0 < num_abs a" using assms(1) neg_nonzero[OF assms(1)] num_abs_pos[OF assms(1)] by blast
  consider "num_abs a = num_abs b" | "num_abs b < num_abs a" | "num_abs a < num_abs b" by linarith
  then show ?thesis
  proof cases
    case 1
    then show ?thesis
      using sg assms(3) z add c nn signed_ok[OF add(1), of numPos] signed_ok[OF add(1), of numNeg]
      by (auto simp: addSigned_def Let_def num_value_def)
  next
    case 2
    note sub = subAbs_props[OF assms(1,2) 2]
    show ?thesis
      using 2 sg assms(3) add c nn sub signed_ok[OF add(1), of numPos] signed_ok[OF add(1), of numNeg] signed_ok[OF sub(1), of numPos] signed_ok[OF sub(1), of numNeg]
      by (auto simp: addSigned_def Let_def num_value_def)
  next
    case 3
    note sub = subAbs_props[OF assms(2,1) 3]
    show ?thesis
      using 3 sg assms(3) add c nn sub signed_ok[OF add(1), of numPos] signed_ok[OF add(1), of numNeg] signed_ok[OF sub(1), of numPos] signed_ok[OF sub(1), of numNeg]
      by (auto simp: addSigned_def Let_def num_value_def max.commute)
  qed
qed

lemma cmpVar_value:
  assumes "num_ok a" "num_ok b"
  shows "cmpVar a b = (if num_value a > num_value b then 1 else if num_value a < num_value b then - 1 else 0)"
proof -
  note c = cmpAbs_value[OF assms] cmpAbs_value[OF assms(2,1)]
  have e: "n_digits x = [] \<Longrightarrow> num_value x = 0" for x by (simp add: num_value_def num_abs_def)
  have p: "n_digits x \<noteq> [] \<Longrightarrow> num_ok x \<Longrightarrow> (if n_sign x = numNeg then num_value x < 0 else num_value x > 0)" for x
    using num_abs_pos[of x] by (simp add: num_value_def)
  have s: "n_sign x \<noteq> numPos \<Longrightarrow> num_ok x \<Longrightarrow> n_sign x = numNeg" for x using neg_nonzero by blast
  show ?thesis
  proof (cases "n_digits a = [] \<or> n_digits b = []")
    case True
    then show ?thesis using e[of a] e[of b] p[of a] p[of b] assms s[of a] s[of b] by (auto simp: cmpVar_def split: if_splits)
  next
    case False
    then show ?thesis using p[of a] p[of b] assms s[of a] s[of b] c by (auto simp: cmpVar_def num_value_def split: if_splits)
  qed
qed

text \<open>C8: Comparison, addition and subtraction of finite numerics are exact, whatever the digits, weights and signs: the
  comparison answers the order of the values, the sum and the difference have the value of the sum and the difference,
  are again without leading or trailing zero digits and never a negative zero, and display as many decimals as the
  operand that displays more.\<close>

theorem numeric_arithmetic_exact:
  assumes "num_ok a" "num_ok b"
  shows "cmpVar a b = (if num_value a > num_value b then 1 else if num_value a < num_value b then - 1 else 0) \<and>
    num_ok (addVar a b) \<and> num_value (addVar a b) = num_value a + num_value b \<and>
    num_ok (subVar a b) \<and> num_value (subVar a b) = num_value a - num_value b \<and>
    n_dscale (addVar a b) = max (n_dscale a) (n_dscale b) \<and> n_dscale (subVar a b) = max (n_dscale a) (n_dscale b)"
proof -
  have s: "n_sign b \<in> {numPos, numNeg}" using assms(2) by (simp add: num_ok_def)
  show ?thesis
    using cmpVar_value[OF assms] addSigned_props[OF assms s] addSigned_props[OF assms, of "if n_sign b = numNeg then numPos else numNeg"]
    by (auto simp: addVar_def subVar_def num_value_def)
qed

theorem numeric_arithmetic_exact_witness:
  "let a = \<lparr>n_digits = [1], n_weight = 0, n_sign = numPos, n_dscale = 0\<rparr>; b = \<lparr>n_digits = [9999, 5000], n_weight = - 1, n_sign = numNeg, n_dscale = 5\<rparr> in
    cmpVar a b = (if num_value a > num_value b then 1 else if num_value a < num_value b then - 1 else 0) \<and>
    num_ok (addVar a b) \<and> num_value (addVar a b) = num_value a + num_value b \<and>
    num_ok (subVar a b) \<and> num_value (subVar a b) = num_value a - num_value b \<and>
    n_dscale (addVar a b) = max (n_dscale a) (n_dscale b) \<and> n_dscale (subVar a b) = max (n_dscale a) (n_dscale b)"
  unfolding Let_def by (rule numeric_arithmetic_exact) (simp_all add: num_ok_def digits_ok_def)

subsection \<open>Rounding and the 64-bit integers\<close>

definition roundPowers :: "int list" where
  "roundPowers = [0, 1000, 100, 10]"

text \<open>Carrying into the digits before position j, the one in front a spare; what is left of j.\<close>

fun round_carry :: "nat \<Rightarrow> int list \<Rightarrow> int \<Rightarrow> int list \<times> nat" where
  "round_carry j ds carry = (if carry = 0 then (ds, j) else (case j of 0 \<Rightarrow> (ds, 0)
     | Suc i \<Rightarrow> (let c = carry + ds ! i in if c \<ge> nbase then round_carry i (ds[i := c - nbase]) 1 else round_carry i (ds[i := c]) 0)))"

definition num_round :: "int \<Rightarrow> pgNumeric \<Rightarrow> pgNumeric" where
  "num_round rscale n0 = (let n = n0\<lparr>n_dscale := rscale\<rparr>; di = (n_weight n + 1) * 4 + rscale in
     if di < 0 then n\<lparr>n_digits := [], n_weight := 0, n_sign := numPos\<rparr>
     else (let nd = (di + 3) div 4; dm = di mod 4; len = int (length (n_digits n)) in
       if \<not> (nd < len \<or> (nd = len \<and> dm > 0)) then n
       else (let
         ds = 0 # n_digits n;
         (ds1, nd1, carry) =
           (if dm = 0 then (ds, nd, if ds ! nat (1 + nd) \<ge> 5000 then 1 else 0)
            else (let pow10 = roundPowers ! nat dm; i = nat nd; extra = ds ! i mod pow10; base = ds ! i - extra in
              if extra \<ge> pow10 div 2
              then (if pow10 + base \<ge> nbase then (ds[i := pow10 + base - nbase], nd - 1, 1) else (ds[i := pow10 + base], nd - 1, 0))
              else (ds[i := base], nd - 1, 0)));
         (ds2, j) = round_carry (nat (1 + nd1)) ds1 carry in
         if j = 0 then n\<lparr>n_digits := take (nat nd + 1) ds2, n_weight := n_weight n + 1\<rparr>
         else n\<lparr>n_digits := take (nat nd) (drop 1 ds2)\<rparr>)))"

text \<open>The digits of an unsigned number, most significant first.\<close>

fun base_digits :: "nat \<Rightarrow> int list" where
  "base_digits u = (if u = 0 then [] else base_digits (u div 10000) @ [int (u mod 10000)])"

declare base_digits.simps [simp del] round_carry.simps [simp del]

definition int64ToNumeric :: "int \<Rightarrow> pgNumeric" where
  "int64ToNumeric v = (if v = 0 then \<lparr>n_digits = [], n_weight = 0, n_sign = numPos, n_dscale = 0\<rparr>
     else (let u = (if v < 0 then wrap64 (- v) mod 2 ^ 64 else v mod 2 ^ 64); d = base_digits (nat u) in
       \<lparr>n_digits = d, n_weight = int (length d) - 1, n_sign = if v < 0 then numNeg else numPos, n_dscale = 0\<rparr>))"

text \<open>The positions left, the digits left and the negated value so far.\<close>

fun toInt64_loop :: "nat \<Rightarrow> int list \<Rightarrow> int \<Rightarrow> int option" where
  "toInt64_loop 0 ds val = Some val"
| "toInt64_loop (Suc k) ds val = (if val < - 922337203685477 then None
     else (case ds of [] \<Rightarrow> toInt64_loop k [] (wrap64 (val * nbase))
       | d # ds' \<Rightarrow> if wrap64 (val * nbase) < wrap64 (- (2 ^ 63) + d) then None
           else toInt64_loop k ds' (wrap64 (wrap64 (val * nbase) - d))))"

definition toInt64 :: "pgNumeric \<Rightarrow> int option" where
  "toInt64 n = (let r = strip (num_round 0 n) in
     (case n_digits r of [] \<Rightarrow> Some 0
      | d # ds \<Rightarrow> (case toInt64_loop (nat (n_weight r)) ds (- d) of None \<Rightarrow> None
          | Some val \<Rightarrow> if n_sign r \<noteq> numNeg then (if val = - (2 ^ 63) then None else Some (wrap64 (- val))) else Some val)))"

fun ival :: "nat \<Rightarrow> int list \<Rightarrow> int" where
  "ival (Suc k) (d # ds) = d * 10000 ^ k + ival k ds"
| "ival k ds = 0"

lemma ival_nonneg: "digits_ok ds \<Longrightarrow> 0 \<le> ival k ds"
  by (induction k ds rule: ival.induct) (auto simp: digits_ok_def)

lemma toInt64_loop_exact:
  assumes "digits_ok ds" "val \<le> 0" "- (2 ^ 63) \<le> val"
  shows "toInt64_loop k ds val = (if - (2 ^ 63) \<le> val * 10000 ^ k - ival k ds then Some (val * 10000 ^ k - ival k ds) else None)"
  using assms
proof (induction k ds val rule: toInt64_loop.induct)
  case (2 k ds val)
  have nn: "0 \<le> ival (Suc k) ds" by (rule ival_nonneg[OF 2(3)])
  have pw1: "(1 :: int) \<le> 10000 ^ k" by simp
  show ?case
  proof (cases "val < - 922337203685477")
    case True
    then have "val * nbase * 10000 ^ k \<le> - 9223372036854780000 * 10000 ^ k" by (intro mult_right_mono) simp_all
    also have "\<dots> \<le> - 9223372036854780000" using pw1 by simp
    finally have "\<not> - (2 ^ 63) \<le> val * 10000 ^ Suc k - ival (Suc k) ds" using nn by (simp add: mult.assoc)
    then show ?thesis using True by simp
  next
    case False
    have w: "wrap64 (val * nbase) = val * nbase" using False 2(4) by (intro wrap64_id) simp_all
    show ?thesis
    proof (cases ds)
      case Nil
      have "toInt64_loop k [] (val * nbase) = (if - (2 ^ 63) \<le> val * nbase * 10000 ^ k - ival k [] then Some (val * nbase * 10000 ^ k - ival k []) else None)"
        using 2(1)[OF False Nil, unfolded w] 2(3,4) False Nil by simp
      then show ?thesis using Nil False w by (simp add: mult.assoc)
    next
      case (Cons d es)
      have d: "0 \<le> d" "d < nbase" "digits_ok es" using 2(3) Cons by (simp_all add: digits_ok_def)
      have w2: "wrap64 (- (2 ^ 63) + d) = - (2 ^ 63) + d" using d by (intro wrap64_id) simp_all
      have v: "val * 10000 ^ Suc k - ival (Suc k) ds = (val * nbase - d) * 10000 ^ k - ival k es" using Cons by (simp add: algebra_simps)
      show ?thesis
      proof (cases "val * nbase < - (2 ^ 63) + d")
        case True
        then have "(val * nbase - d) * 10000 ^ k \<le> (- (2 ^ 63) - 1) * 10000 ^ k" by (intro mult_right_mono) simp_all
        also have "\<dots> \<le> - (2 ^ 63) - 1" using pw1 by simp
        finally have "\<not> - (2 ^ 63) \<le> val * 10000 ^ Suc k - ival (Suc k) ds" using ival_nonneg[OF d(3), of k] unfolding v by linarith
        then show ?thesis using True Cons w w2 by simp
      next
        case fits: False
        have w3: "wrap64 (val * nbase - d) = val * nbase - d" using fits 2(4) d by (intro wrap64_id) simp_all
        have "toInt64_loop k es (val * nbase - d) = (if - (2 ^ 63) \<le> (val * nbase - d) * 10000 ^ k - ival k es then Some ((val * nbase - d) * 10000 ^ k - ival k es) else None)"
          using 2(2)[OF False Cons, unfolded w w2 w3] fits d 2(4) by simp
        then show ?thesis using False Cons w w2 w3 fits unfolding v by simp
      qed
    qed
  qed
qed simp

lemma nval_ival: "int (length ds) \<le> int k \<Longrightarrow> nval ds (int k - 1) = of_int (ival k ds)"
proof (induction k ds rule: ival.induct)
  case (1 k d ds)
  have "pw (int k) = of_int (10000 ^ k)" by (simp add: pw_def)
  then show ?case using 1 by simp
qed auto

lemma num_round_integral:
  assumes "int (length (n_digits n)) \<le> n_weight n + 1"
  shows "num_round 0 n = n\<lparr>n_dscale := 0\<rparr>"
proof -
  have w: "0 \<le> n_weight n + 1" using assms by linarith
  have "((n_weight n + 1) * 4 + 3) div 4 = n_weight n + 1" "(n_weight n + 1) * 4 mod 4 = 0" by simp_all
  then show ?thesis using assms w by (auto simp: num_round_def Let_def)
qed

lemma toInt64_exact:
  assumes "digits_ok (n_digits n)" "n_sign n \<in> {numPos, numNeg}" "int (length (n_digits n)) \<le> n_weight n + 1" "num_value n = of_int v"
  shows "toInt64 n = (if - (2 ^ 63) \<le> v \<and> v < 2 ^ 63 then Some v else None)"
proof -
  define r where "r = strip (num_round 0 n)"
  let ?m = "n\<lparr>n_dscale := 0\<rparr>"
  have r: "r = strip ?m" unfolding r_def num_round_integral[OF assms(3)] ..
  have ok: "digits_ok (n_digits ?m)" "n_sign ?m \<in> {numPos, numNeg}" using assms(1,2) by simp_all
  note st = strip_signed[OF ok, folded r]
  have abs: "num_abs r = num_abs n" using st(2) by (simp add: num_abs_def)
  show ?thesis
  proof (cases "n_digits r")
    case Nil
    then have "num_abs n = 0" using abs by (simp add: num_abs_def)
    then have "v = 0" using assms(4) by (simp add: num_value_def split: if_splits)
    then show ?thesis using Nil by (simp add: toInt64_def r_def[symmetric])
  next
    case (Cons d ds)
    have sg: "n_sign r = n_sign n" using st(3) Cons by simp
    have dok: "0 \<le> d" "d < nbase" "digits_ok ds" using st(1) Cons by (auto simp: num_ok_def digits_ok_def)
    have len: "int (length ds) \<le> n_weight r" using st(6) Cons assms(3) by simp
    obtain k where k: "n_weight r = int k" using len by (cases "n_weight r") auto
    have "num_abs r = of_int (d * 10000 ^ k + ival k ds)"
      using nval_ival[of ds k] len k Cons by (simp add: num_abs_def pw_def)
    then have "of_int v = (if n_sign n = numNeg then - of_int (d * 10000 ^ k + ival k ds) else (of_int (d * 10000 ^ k + ival k ds) :: rat))"
      using abs assms(4) by (auto simp: num_value_def split: if_splits)
    then have v: "v = (if n_sign n = numNeg then - (d * 10000 ^ k + ival k ds) else d * 10000 ^ k + ival k ds)"
      by (metis of_int_eq_iff of_int_minus)
    have nn: "0 \<le> d * 10000 ^ k + ival k ds" using dok ival_nonneg[OF dok(3), of k] by simp
    have lp: "toInt64_loop k ds (- d) = (if - (2 ^ 63) \<le> - d * 10000 ^ k - ival k ds then Some (- d * 10000 ^ k - ival k ds) else None)"
      by (rule toInt64_loop_exact) (use dok in auto)
    let ?V = "d * 10000 ^ k + ival k ds"
    have e: "- d * 10000 ^ k - ival k ds = - ?V" by simp
    have w: "wrap64 ?V = ?V" if "?V < 2 ^ 63" using that nn by (intro wrap64_id) simp_all
    show ?thesis
      unfolding toInt64_def Let_def r_def[symmetric] Cons list.case k nat_int lp[unfolded e] sg v
      using nn w assms(2) by auto
  qed
qed

lemma base_digits_props: "digits_ok (base_digits u)" "nval (base_digits u) (int (length (base_digits u)) - 1) = of_nat u"
proof (induction u rule: base_digits.induct)
  case (1 u)
  {
    case 1
    then show ?case using "1.IH"(1) by (subst base_digits.simps) (auto simp: digits_ok_def)
  next
    case 2
    show ?case
    proof (cases "u = 0")
      case True
      then show ?thesis by (subst (1 2) base_digits.simps) simp
    next
      case False
      let ?e = "base_digits (u div 10000)"
      have b: "base_digits u = ?e @ [int (u mod 10000)]" using False by (subst base_digits.simps) simp
      have shift: "nval xs (w + 1) = 10000 * nval xs w" for xs w
        by (induction xs arbitrary: w) (simp_all add: pw_Suc algebra_simps, metis add_diff_cancel_right' diff_add_cancel)
      have "nval ?e (int (length ?e) - 1 + 1) = 10000 * of_nat (u div 10000)"
        unfolding shift using "1.IH"(2) False by simp
      then have "nval (base_digits u) (int (length (base_digits u)) - 1) = 10000 * of_nat (u div 10000) + of_nat (u mod 10000)"
        unfolding b by (simp add: nval_append pw_def)
      also have "\<dots> = of_nat (10000 * (u div 10000) + u mod 10000)" by (simp only: of_nat_add of_nat_mult of_nat_numeral)
      also have "10000 * (u div 10000) + u mod 10000 = u" by simp
      finally show ?thesis .
    qed
  }
qed

text \<open>C18: A numeric that is a whole number converts to a 64-bit integer exactly where it fits, both ends of the range included,
  and is refused where it does not, its intermediate products never wrapping; every 64-bit integer, the least included,
  converts to a numeric of its value and back to itself.\<close>

theorem int64_conversion_exact:
  assumes "digits_ok (n_digits n)" "n_sign n \<in> {numPos, numNeg}" "int (length (n_digits n)) \<le> n_weight n + 1" "num_value n = of_int v"
    and "- (2 ^ 63) \<le> i" "i < 2 ^ 63"
  shows "toInt64 n = (if - (2 ^ 63) \<le> v \<and> v < 2 ^ 63 then Some v else None) \<and>
    num_value (int64ToNumeric i) = of_int i \<and> toInt64 (int64ToNumeric i) = Some i"
proof -
  have mag: "nat (if i < 0 then wrap64 (- i) mod 2 ^ 64 else i mod 2 ^ 64) = nat (abs i)"
  proof (cases "i = - (2 ^ 63)")
    case True
    then show ?thesis by (simp add: wrap64_def)
  next
    case False
    then show ?thesis using assms(5,6) by auto
  qed
  let ?d = "base_digits (nat (abs i))"
  have eq: "int64ToNumeric i = (if i = 0 then \<lparr>n_digits = [], n_weight = 0, n_sign = numPos, n_dscale = 0\<rparr>
      else \<lparr>n_digits = ?d, n_weight = int (length ?d) - 1, n_sign = if i < 0 then numNeg else numPos, n_dscale = 0\<rparr>)"
    unfolding int64ToNumeric_def Let_def mag by (rule refl)
  have v: "num_value (int64ToNumeric i) = of_int i"
    using base_digits_props(2)[of "nat (abs i)"] unfolding eq by (auto simp: num_value_def num_abs_def)
  moreover have "toInt64 (int64ToNumeric i) = (if - (2 ^ 63) \<le> i \<and> i < 2 ^ 63 then Some i else None)"
    by (rule toInt64_exact[OF _ _ _ v]) (auto simp: eq base_digits_props digits_ok_def[of "[]"])
  ultimately show ?thesis using toInt64_exact[OF assms(1-4)] assms(5,6) by simp
qed

theorem int64_conversion_exact_witness:
  "let n = \<lparr>n_digits = [922, 3372, 368, 5477, 5808], n_weight = 4, n_sign = numPos, n_dscale = 0\<rparr> in
    toInt64 n = (if - (2 ^ 63) \<le> (9223372036854775808 :: int) \<and> (9223372036854775808 :: int) < 2 ^ 63 then Some 9223372036854775808 else None) \<and>
    num_value (int64ToNumeric (- (2 ^ 63))) = of_int (- (2 ^ 63)) \<and> toInt64 (int64ToNumeric (- (2 ^ 63))) = Some (- (2 ^ 63))"
  unfolding Let_def by (rule int64_conversion_exact) (simp_all add: digits_ok_def num_value_def num_abs_def pw_def)

end
