(* ===== verification/Encode.thy ===== *)
theory Encode
  imports Json
begin

section \<open>The canonical text of a value: pkg/encode\<close>

text \<open>
  The one text and the one JSON form every sink writes. A finite float is given by the shortest decimal
  that reads back as it at its width, which is what \<open>strconv.FormatFloat\<close> with precision -1 lays out:
  digits \<open>d1 d2 ...\<close> stand for \<open>0.d1d2... * 10 ^ dp\<close>. A time is given by its UTC text in RFC 3339 with
  nanoseconds. Any other Go value is what encoding/json makes of it and a decoder with \<open>UseNumber\<close> reads
  back, or nothing where it cannot be marshalled, and its \<open>%v\<close> text. A string is always marshalled, so
  the error returns of \<open>str\<close> and \<open>write\<close> do not arise. The main result is that what is written is a
  JSON text on one line that reads back as the value, whatever order its maps are walked in.
\<close>

datatype flt =
    NaN
  | Inf bool
  | Finite bool "nat list" int

datatype gv =
    GNil
  | GStr string
  | GBool bool
  | GNumber string
  | GFloat flt
  | GInt int
  | GTime string
  | GMap "(string \<times> gv) list"
  | GArr "gv list"
  | GOther "json option" string

subsection \<open>Operations\<close>

text \<open>The positional layout of a decimal: \<open>fmtF\<close> of package strconv at the shortest precision.\<close>

definition fmtF :: "bool \<Rightarrow> nat list \<Rightarrow> int \<Rightarrow> string" where
  "fmtF neg ds dp = (let
     nd = length ds;
     p = nat dp;
     intpart = (if dp > 0 then map digit_char (take p ds) @ replicate (p - nd) (CHR ''0'') else [CHR ''0'']);
     prec = nat (int nd - dp);
     frac = (if prec > 0 then CHR ''.'' #
       map (\<lambda>i. let j = dp + int i in if 0 \<le> j \<and> j < int nd then digit_char (ds ! nat j) else CHR ''0'') [0..<prec] else []) in
     (if neg then [CHR ''-''] else []) @ intpart @ frac)"

definition float_text :: "flt \<Rightarrow> string \<times> bool" where
  "float_text f = (case f of Finite neg ds dp \<Rightarrow> (fmtF neg ds dp, True) | _ \<Rightarrow> ([], False))"

abbreviation str :: "string \<Rightarrow> string" where
  "str \<equiv> print_str_with esc_plain"

definition write_object :: "(string \<times> string) list \<Rightarrow> string" where
  "write_object m = ''{'' @ strings_Join '','' (map (\<lambda>(k, t). str k @ '':'' @ t) (sort_key fst m)) @ ''}''"

definition write_array :: "string list \<Rightarrow> string" where
  "write_array xs = ''['' @ strings_Join '','' xs @ '']''"

definition FormatBool :: "bool \<Rightarrow> string" where
  "FormatBool b = (if b then ''true'' else ''false'')"

text \<open>The members of an object a decoder has read: of two with one name the later counts.\<close>

definition members :: "(string \<times> 'v) list \<Rightarrow> (string \<times> 'v) list" where
  "members m = fold (\<lambda>(k, v) acc. gm_set k v acc) m []"

text \<open>What \<open>write\<close> does on a value read back by a decoder, whose numbers are lexemes.\<close>

fun write_back :: "json \<Rightarrow> string" where
  "write_back JNull = ''null''"
| "write_back (JStr s) = str s"
| "write_back (JBool b) = FormatBool b"
| "write_back (JNum s) = (if s = [] then ''null'' else s)"
| "write_back (JObj m) = write_object (members (map (\<lambda>(k, v). (k, write_back v)) m))"
| "write_back (JArr xs) = write_array (map write_back xs)"

fun write_value :: "gv \<Rightarrow> string" where
  "write_value GNil = ''null''"
| "write_value (GStr s) = str s"
| "write_value (GBool b) = FormatBool b"
| "write_value (GNumber s) = (if s = [] then ''null'' else s)"
| "write_value (GFloat f) = (case float_text f of (s, ok) \<Rightarrow> if ok then s else ''null'')"
| "write_value (GInt i) = fmt_int i"
| "write_value (GTime t) = str t"
| "write_value (GMap m) = write_object (map (\<lambda>(k, v). (k, write_value v)) m)"
| "write_value (GArr xs) = write_array (map write_value xs)"
| "write_value (GOther (Some j) s) = write_back j"
| "write_value (GOther None s) = str s"

definition JSON :: "gv \<Rightarrow> string" where
  "JSON v = write_value v"

fun Text :: "gv \<Rightarrow> string \<times> bool" where
  "Text GNil = ([], False)"
| "Text (GStr s) = (s, True)"
| "Text (GBool b) = (FormatBool b, True)"
| "Text (GNumber s) = (s, True)"
| "Text (GFloat f) = float_text f"
| "Text (GInt i) = (fmt_int i, True)"
| "Text (GTime t) = (t, True)"
| "Text v = (JSON v, True)"

fun NonFinite :: "gv \<Rightarrow> bool" where
  "NonFinite (GFloat f) = (case f of Finite _ _ _ \<Rightarrow> False | _ \<Rightarrow> True)"
| "NonFinite (GMap m) = list_ex (\<lambda>(k, v). NonFinite v) m"
| "NonFinite (GArr xs) = list_ex NonFinite xs"
| "NonFinite _ = False"

subsection \<open>The document a value stands for\<close>

fun canonical :: "json \<Rightarrow> json" where
  "canonical (JNum s) = (if s = [] then JNull else JNum s)"
| "canonical (JObj m) = JObj (sort_key fst (members (map (\<lambda>(k, v). (k, canonical v)) m)))"
| "canonical (JArr xs) = JArr (map canonical xs)"
| "canonical j = j"

fun document :: "gv \<Rightarrow> json" where
  "document GNil = JNull"
| "document (GStr s) = JStr s"
| "document (GBool b) = JBool b"
| "document (GNumber s) = (if s = [] then JNull else JNum s)"
| "document (GFloat f) = (case f of Finite neg ds dp \<Rightarrow> JNum (fmtF neg ds dp) | _ \<Rightarrow> JNull)"
| "document (GInt i) = JNum (fmt_int i)"
| "document (GTime t) = JStr t"
| "document (GMap m) = JObj (sort_key fst (map (\<lambda>(k, v). (k, document v)) m))"
| "document (GArr xs) = JArr (map document xs)"
| "document (GOther (Some j) s) = canonical j"
| "document (GOther None s) = JStr s"

text \<open>Values whose numbers are JSON numbers and whose floats have decimal digits.\<close>

definition flt_ok :: "flt \<Rightarrow> bool" where
  "flt_ok f = (case f of Finite neg ds dp \<Rightarrow> list_all (\<lambda>d. d < 10) ds \<and> (dp > 0 \<longrightarrow> ds \<noteq> [] \<and> hd ds \<noteq> 0) | _ \<Rightarrow> True)"

fun wf_gv :: "gv \<Rightarrow> bool" where
  "wf_gv (GNumber s) = (s = [] \<or> printable (JNum s))"
| "wf_gv (GFloat f) = flt_ok f"
| "wf_gv (GMap m) = (distinct (map fst m) \<and> list_all (\<lambda>(k, v). wf_gv v) m)"
| "wf_gv (GArr xs) = list_all wf_gv xs"
| "wf_gv (GOther (Some j) s) = printable j"
| "wf_gv _ = True"

subsection \<open>What is written is the document\<close>

lemma sort_key_map: "sort_key fst (map (\<lambda>(k, v). (k, f v)) m) = map (\<lambda>(k, v). (k, f v)) (sort_key fst m)"
proof -
  have ins: "insort_key fst (k, f v) (map (\<lambda>(k, v). (k, f v)) m) = map (\<lambda>(k, v). (k, f v)) (insort_key fst (k, v) m)" for k v m
    by (induction m) auto
  show ?thesis by (induction m) (auto simp: sort_key_def ins)
qed

lemma members_map: "members (map (\<lambda>(k, v). (k, f v)) m) = map (\<lambda>(k, v). (k, f v)) (members m)"
proof -
  have u: "gm_set k (f v) (map (\<lambda>(k, v). (k, f v)) acc) = map (\<lambda>(k, v). (k, f v)) (gm_set k v acc)" for k v acc
    by (induction acc) auto
  have "fold (\<lambda>(k, v) acc. gm_set k v acc) (map (\<lambda>(k, v). (k, f v)) m) (map (\<lambda>(k, v). (k, f v)) acc) =
      map (\<lambda>(k, v). (k, f v)) (fold (\<lambda>(k, v) acc. gm_set k v acc) m acc)" for acc
    by (induction m arbitrary: acc) (auto simp: u)
  from this[of "[]"] show ?thesis by (simp add: members_def)
qed

lemma members_subset: "set (members m) \<subseteq> set m"
proof -
  have "set (fold (\<lambda>(k, v) acc. gm_set k v acc) m acc) \<subseteq> set m \<union> set acc" for acc
  proof (induction m arbitrary: acc)
    case (Cons p m)
    have "set (gm_set (fst p) (snd p) acc) \<subseteq> insert p (set acc)" by (induction acc) auto
    with Cons[of "gm_set (fst p) (snd p) acc"] show ?case by (auto simp: case_prod_unfold)
  qed simp
  from this[of "[]"] show ?thesis by (simp add: members_def)
qed

lemma members_distinct: "distinct (map fst (members m))"
proof -
  have "distinct (map fst (fold (\<lambda>(k, v) acc. gm_set k v acc) m acc))" if "distinct (map fst acc)" for acc
    using that by (induction m arbitrary: acc) (auto simp: distinct_update)
  then show ?thesis by (simp add: members_def)
qed

lemma members_id: "distinct (map fst m) \<Longrightarrow> members m = m"
proof -
  have "fold (\<lambda>(k, v) acc. gm_set k v acc) m acc = acc @ m" if "distinct (map fst (acc @ m))" for acc
    using that
  proof (induction m arbitrary: acc)
    case (Cons p m)
    have "gm_set (fst p) (snd p) acc = acc @ [p]" if "fst p \<notin> fst ` set acc" using that by (induction acc) auto
    with Cons show ?case by (auto simp: case_prod_unfold)
  qed simp
  from this[of "[]"] show "distinct (map fst m) \<Longrightarrow> members m = m" by (simp add: members_def)
qed

lemma print_object: "print_with esc_plain (JObj (sort_key fst (map (\<lambda>(k, v). (k, f v)) m))) =
    write_object (map (\<lambda>(k, v). (k, print_with esc_plain (f v))) m)"
proof -
  let ?p = "\<lambda>(k, v). (k, f v)" and ?q = "\<lambda>(k, v). (k, print_with esc_plain v)"
  have "map (\<lambda>(k, v). (k, print_with esc_plain (f v))) m = map ?q (map ?p m)" by (simp add: case_prod_unfold)
  then have "sort_key fst (map (\<lambda>(k, v). (k, print_with esc_plain (f v))) m) = map ?q (sort_key fst (map ?p m))"
    by (simp only: sort_key_map)
  then show ?thesis unfolding write_object_def by (simp add: case_prod_unfold comp_def)
qed

lemma write_back_canonical: "write_back j = print_with esc_plain (canonical j)"
proof (induction j)
  case (JArr xs)
  then show ?case by (simp add: write_array_def comp_def cong: map_cong)
next
  case (JObj m)
  have "map (\<lambda>(k, v). (k, write_back v)) m = map (\<lambda>(k, v). (k, print_with esc_plain (canonical v))) m"
    using JObj by (auto simp: case_prod_unfold intro!: map_cong)
  then have "write_back (JObj m) = write_object (members (map (\<lambda>(k, v). (k, print_with esc_plain (canonical v))) m))"
    by (simp only: write_back.simps)
  then show ?case
    using print_object[of canonical "members m"] members_map[of canonical m] members_map[of "\<lambda>v. print_with esc_plain (canonical v)" m]
    by (simp only: canonical.simps)
qed (simp_all add: FormatBool_def)

lemma write_document: "write_value v = print_with esc_plain (document v)"
proof (induction v)
  case (GMap m)
  have "map (\<lambda>(k, v). (k, write_value v)) m = map (\<lambda>(k, v). (k, print_with esc_plain (document v))) m"
    using GMap by (auto simp: case_prod_unfold intro!: map_cong)
  then show ?case using print_object[of document m] by (simp only: write_value.simps document.simps)
next
  case (GArr xs)
  then show ?case by (simp add: write_array_def comp_def cong: map_cong)
next
  case (GOther j s)
  show ?case by (cases j) (simp_all add: write_back_canonical)
qed (auto simp: FormatBool_def float_text_def split: flt.splits)

subsection \<open>What is written reads back\<close>

lemma valid_number_layout:
  assumes "list_all is_digit ip" "ip \<noteq> []" "hd ip = CHR ''0'' \<longrightarrow> tl ip = []"
    and "fr = [] \<or> (\<exists>fd. fr = CHR ''.'' # fd \<and> fd \<noteq> [] \<and> list_all is_digit fd)"
  shows "valid_number (ip @ fr)" "valid_number (CHR ''-'' # ip @ fr)"
proof -
  obtain c r where ip: "ip = c # r" using assms(2) by (cases ip) auto
  have c: "is_digit c" "c \<noteq> CHR ''-''" and r: "list_all is_digit r" "c = CHR ''0'' \<Longrightarrow> r = []"
    using assms(1,3) ip by (auto simp: is_digit_def)
  have dot: "\<not> is_digit CHR ''.''" by (simp add: is_digit_def)
  have dr: "dropWhile is_digit (r @ fr) = fr"
    using r(1) assms(4) dot by (auto simp: dropWhile_append2 list_all_iff)
  have fr: "valid_frac fr"
  proof (cases "fr = []")
    case False
    then obtain fd where fd: "fr = CHR ''.'' # fd" "fd \<noteq> []" "list_all is_digit fd" using assms(4) by blast
    then have tw: "takeWhile is_digit fd = fd" "dropWhile is_digit fd = []" by (simp_all add: list_all_iff)
    show ?thesis unfolding valid_frac_def fd(1) by (simp add: tw fd(2) valid_exp_def)
  qed (simp add: valid_frac_def)
  have "valid_frac (r @ fr)" if "c = CHR ''0''" using fr r(2)[OF that] by simp
  then show "valid_number (ip @ fr)" "valid_number (CHR ''-'' # ip @ fr)"
    using c dr fr unfolding ip by (auto simp: valid_number_def Let_def)
qed

lemma fmtF_parts:
  assumes "flt_ok (Finite neg ds dp)"
  obtains ip fr where "fmtF neg ds dp = (if neg then [CHR ''-''] else []) @ ip @ fr" "list_all is_digit ip" "ip \<noteq> []"
    "hd ip = CHR ''0'' \<longrightarrow> tl ip = []" "fr = [] \<or> (\<exists>fd. fr = CHR ''.'' # fd \<and> fd \<noteq> [] \<and> list_all is_digit fd)"
proof
  let ?ip = "if dp > 0 then map digit_char (take (nat dp) ds) @ replicate (nat dp - length ds) (CHR ''0'') else [CHR ''0'']"
  let ?fd = "map (\<lambda>i. let j = dp + int i in if 0 \<le> j \<and> j < int (length ds) then digit_char (ds ! nat j) else CHR ''0'') [0..<nat (int (length ds) - dp)]"
  let ?fr = "if nat (int (length ds) - dp) > 0 then CHR ''.'' # ?fd else []"
  have z: "is_digit CHR ''0''" "digit_val CHR ''0'' = 0" by (simp_all add: is_digit_def digit_val_def)
  have ok: "list_all (\<lambda>d. d < 10) ds" "dp > 0 \<Longrightarrow> ds \<noteq> [] \<and> hd ds \<noteq> 0" using assms by (simp_all add: flt_ok_def)
  show "fmtF neg ds dp = (if neg then [CHR ''-''] else []) @ ?ip @ ?fr" by (simp add: fmtF_def Let_def)
  show "list_all is_digit ?ip" using ok(1) z by (auto simp: list_all_iff dest: in_set_takeD)
  show "?ip \<noteq> []" using ok(2) by auto
  show "hd ?ip = CHR ''0'' \<longrightarrow> tl ?ip = []"
  proof (cases "dp > 0")
    case True
    then obtain d ds' where ds: "ds = d # ds'" "d \<noteq> 0" using ok(2) by (cases ds) auto
    then have "digit_val (digit_char d) \<noteq> digit_val CHR ''0''" using ok(1) z(2) by simp
    then have "digit_char d \<noteq> CHR ''0''" by metis
    moreover obtain n where "nat dp = Suc n" using True by (cases "nat dp") auto
    ultimately show ?thesis using ds True by simp
  qed simp
  show "?fr = [] \<or> (\<exists>fd. ?fr = CHR ''.'' # fd \<and> fd \<noteq> [] \<and> list_all is_digit fd)"
    using ok(1) z by (auto simp: list_all_iff Let_def nat_less_iff)
qed

text \<open>A finite float is written in positional notation, never with an exponent.\<close>

lemma fmtF_positional: "flt_ok (Finite neg ds dp) \<Longrightarrow> list_all (\<lambda>c. is_digit c \<or> c = CHR ''-'' \<or> c = CHR ''.'') (fmtF neg ds dp)"
  by (erule fmtF_parts) (auto simp: list_all_iff)

lemma printable_fmtF: "flt_ok (Finite neg ds dp) \<Longrightarrow> printable (JNum (fmtF neg ds dp))"
proof -
  assume ok: "flt_ok (Finite neg ds dp)"
  then have "valid_number (fmtF neg ds dp)"
    by (rule fmtF_parts) (use valid_number_layout in auto)
  moreover have "list_all is_num_char (fmtF neg ds dp)"
    using fmtF_positional[OF ok] by (auto simp: list_all_iff is_num_char_def)
  ultimately show ?thesis by simp
qed

lemma printable_canonical: "printable j \<Longrightarrow> printable (canonical j)"
proof (induction j)
  case (JObj m)
  have "printable v" if "(k, v) \<in> set (members (map (\<lambda>(k, v). (k, canonical v)) m))" for k v
  proof -
    have "(k, v) \<in> set (map (\<lambda>(k, v). (k, canonical v)) m)" using that members_subset by blast
    then obtain w where "(k, w) \<in> set m" "v = canonical w" by auto
    then show ?thesis using JObj.IH[of "(k, w)" w] JObj.prems by (auto simp: list_all_iff)
  qed
  then show ?case by (auto simp: list_all_iff)
qed (auto simp: list_all_iff)

lemma printable_document: "wf_gv v \<Longrightarrow> printable (document v)"
proof (induction v)
  case (GMap m)
  have "printable (document v)" if "(k, v) \<in> set m" for k v
    using GMap.IH[of "(k, v)" v] GMap.prems that by (auto simp: list_all_iff)
  then show ?case by (auto simp: list_all_iff)
next
  case (GOther j s)
  then show ?case by (cases j) (simp_all add: printable_canonical)
next
  case (GFloat f)
  then show ?case using printable_fmtF by (cases f) (simp_all del: printable.simps(1) add: printable.simps(4))
qed (auto simp: list_all_iff printable_fmt_int simp del: printable.simps(1))

subsection \<open>The order of a map does not show\<close>

text \<open>Two values that differ at most in the order their maps are walked in.\<close>

inductive same :: "gv \<Rightarrow> gv \<Rightarrow> bool" where
  same_refl: "same v v"
| same_map: "distinct (map fst m) \<Longrightarrow> distinct (map fst m') \<Longrightarrow> set (map fst m) = set (map fst m') \<Longrightarrow>
    \<forall>k\<in>set (map fst m). same (the (map_of m k)) (the (map_of m' k)) \<Longrightarrow> same (GMap m) (GMap m')"
| same_arr: "list_all2 same xs ys \<Longrightarrow> same (GArr xs) (GArr ys)"

lemma sorted_members_eq:
  assumes d: "distinct (map fst m)" "distinct (map fst m')" and k: "set (map fst m) = set (map fst m')"
    and v: "\<And>k. k \<in> set (map fst m) \<Longrightarrow> map_of m k = map_of m' k"
  shows "sort_key fst m = sort_key fst m'"
proof -
  have "(k, v) \<in> set m \<longleftrightarrow> (k, v) \<in> set m'" for k v
    using v[of k] d k by (metis fst_conv image_eqI list.set_map map_of_eq_Some_iff)
  then have "set m = set m'" by auto
  then have "set (sort_key fst m) = set (sort_key fst m')" by simp
  moreover have "distinct (map fst (sort_key fst m))" "distinct (map fst (sort_key fst m'))"
    using d by (simp_all add: distinct_map distinct_sort)
  ultimately show ?thesis by (intro map_sorted_distinct_set_unique[of fst]) (auto simp: distinct_map)
qed

lemma map_of_document: "map_of (map (\<lambda>(k, v). (k, document v)) m) k = map_option document (map_of m k)"
  by (induction m) auto

lemma same_document: "same v v' \<Longrightarrow> document v = document v'"
proof (induction rule: same.induct)
  case (same_map m m')
  have fst: "map fst (map (\<lambda>(k, v). (k, document v)) l) = map fst l" for l by (simp add: case_prod_unfold comp_def)
  have "sort_key fst (map (\<lambda>(k, v). (k, document v)) m) = sort_key fst (map (\<lambda>(k, v). (k, document v)) m')"
  proof (rule sorted_members_eq)
    show "map_of (map (\<lambda>(k, v). (k, document v)) m) k = map_of (map (\<lambda>(k, v). (k, document v)) m') k"
      if "k \<in> set (map fst (map (\<lambda>(k, v). (k, document v)) m))" for k
    proof -
      have "k \<in> set (map fst m)" "k \<in> set (map fst m')" using that same_map(3) unfolding fst by simp_all
      then obtain x y where "map_of m k = Some x" "map_of m' k = Some y"
        by (metis not_Some_eq map_of_eq_None_iff list.set_map)
      then show ?thesis using same_map(4) \<open>k \<in> set (map fst m)\<close> by (auto simp: map_of_document)
    qed
  qed (use same_map(1-3) in \<open>simp_all only: fst\<close>)
  then show ?case by (simp only: document.simps)
next
  case (same_arr xs ys)
  then have "map document xs = map document ys" by (auto simp: list_all2_conv_all_nth intro!: nth_equalityI)
  then show ?case by simp
qed simp

text \<open>C37: The JSON form of a value is one line of text without control characters that reads back as the document the value
  stands for, object members sorted by name, a non-finite float as null, a number lexeme as it was read; and it is the
  same bytes whatever order the value's maps are walked in, at any depth.\<close>

theorem encode_canonical:
  assumes "wf_gv v" "same v v'" "delim rest"
  shows "JSON v' = JSON v \<and> parse_json (JSON v @ rest) = Some (document v, rest) \<and> list_all (\<lambda>c. 32 \<le> (of_char c :: nat)) (JSON v)"
proof -
  have p: "printable (document v)" by (rule printable_document[OF assms(1)])
  have "JSON v' = JSON v" using same_document[OF assms(2)] by (simp add: JSON_def write_document)
  then show ?thesis
    using plain.parse_written[OF p assms(3)] plain.written_no_control[OF p] by (auto simp: JSON_def write_document list_all_iff)
qed

theorem encode_canonical_witness:
  "let v = GMap [(''b'', GFloat NaN), (''a'', GArr [GFloat (Finite True [1, 5] 1), GNumber ''9007199254740993''])];
       v' = GMap [(''a'', GArr [GFloat (Finite True [1, 5] 1), GNumber ''9007199254740993'']), (''b'', GFloat NaN)] in
   JSON v' = JSON v \<and> parse_json (JSON v @ [CHR 0x0A]) = Some (document v, [CHR 0x0A]) \<and> list_all (\<lambda>c. 32 \<le> (of_char c :: nat)) (JSON v)"
  unfolding Let_def
  by (rule encode_canonical)
    (auto simp: flt_ok_def delim_def is_num_char_def is_digit_def valid_number_def valid_frac_def valid_exp_def intro!: same_map intro: same_refl)

end
