(* ===== verification/Framings.thy ===== *)
theory Framings
  imports Encode
begin

section \<open>Stream framings: pkg/stream, framings\<close>

text \<open>
  How a batch of rows becomes bytes: one JSON object to a line, delimited text, OTel log requests and
  text tables. A framing's bytes are what it hands to the output in one batch; the text the standard
  library's csv writer makes of a record is modelled with it. The main results are that each framing
  that has a reader reads back: every line of jsonl is the row's object, every delimited record its fields.
\<close>

abbreviation newline :: char where "newline \<equiv> CHR 0x0A"

abbreviation quote :: char where "quote \<equiv> CHR 0x22"

subsection \<open>One JSON object to a line\<close>

definition object_text :: "string list \<Rightarrow> gv list \<Rightarrow> string" where
  "object_text columns cells = ''{'' @ strings_Join '',''
     (map (\<lambda>(c, v). JSON (GStr c) @ '':'' @ JSON v) (zip columns cells)) @ ''}''"

definition jsonl_batch :: "string list \<Rightarrow> gv list list \<Rightarrow> string" where
  "jsonl_batch columns rows = concat (map (\<lambda>r. object_text columns r @ [newline]) rows)"

subsection \<open>Delimited text\<close>

definition ValidRune :: "nat \<Rightarrow> bool" where
  "ValidRune r \<longleftrightarrow> r < 0xD800 \<or> (0xDFFF < r \<and> r \<le> 0x10FFFF)"

definition validDelimiter :: "nat \<Rightarrow> bool" where
  "validDelimiter r \<longleftrightarrow> r \<noteq> 0 \<and> r \<noteq> 34 \<and> r \<noteq> 13 \<and> r \<noteq> 10 \<and> r \<noteq> 0xFFFD \<and> ValidRune r"

definition rune_text :: "nat \<Rightarrow> string" where
  "rune_text r = (if r < 128 then [char_of r]
     else if r < 2048 then [char_of (192 + r div 64), char_of (128 + r mod 64)]
     else if r < 65536 then [char_of (224 + r div 4096), char_of (128 + r div 64 mod 64), char_of (128 + r mod 64)]
     else [char_of (240 + r div 262144), char_of (128 + r div 4096 mod 64), char_of (128 + r div 64 mod 64), char_of (128 + r mod 64)])"

text \<open>The runes that \<open>unicode.IsSpace\<close> accepts.\<close>

definition space_runes :: "nat list" where
  "space_runes = [9, 10, 11, 12, 13, 32, 0x85, 0xA0, 0x1680] @ [0x2000..<0x200B] @ [0x2028, 0x2029, 0x202F, 0x205F, 0x3000]"

definition fieldNeedsQuotes :: "nat \<Rightarrow> string \<Rightarrow> bool" where
  "fieldNeedsQuotes comma f \<longleftrightarrow> f \<noteq> [] \<and> (f = [CHR 0x5C, CHR ''.''] \<or> sublist (rune_text comma) f \<or>
     ContainsAny f [newline, CHR 0x0D, quote] \<or> list_ex (\<lambda>r. HasPrefix f (rune_text r)) space_runes)"

definition csv_field :: "nat \<Rightarrow> string \<Rightarrow> string" where
  "csv_field comma f = (if fieldNeedsQuotes comma f
     then [quote] @ concat (map (\<lambda>c. if c = quote then [quote, quote] else [c]) f) @ [quote] else f)"

definition csv_record :: "nat \<Rightarrow> string list \<Rightarrow> string" where
  "csv_record comma fs = strings_Join (rune_text comma) (map (csv_field comma) fs) @ [newline]"

record delimited =
  dl_columns :: "string list"
  dl_delimiter :: nat
  dl_headed :: bool

definition delimited_header :: "delimited \<Rightarrow> delimited \<times> string" where
  "delimited_header f = (if dl_headed f then (f, []) else (f\<lparr>dl_headed := True\<rparr>, csv_record (dl_delimiter f) (dl_columns f)))"

definition delimited_batch :: "delimited \<Rightarrow> gv list list \<Rightarrow> delimited \<times> string" where
  "delimited_batch f rows = (case delimited_header f of (f', h) \<Rightarrow>
     (f', h @ concat (map (\<lambda>r. csv_record (dl_delimiter f) (map (\<lambda>v. fst (Text v)) r)) rows)))"

definition delimited_end :: "delimited \<Rightarrow> delimited \<times> string" where
  "delimited_end f = (if dl_headed f then (f, []) else delimited_header f)"

subsection \<open>OTel logs\<close>

text \<open>A lexeme as an int64: \<open>strconv.ParseInt\<close>, an optional sign and digits, in range.\<close>

definition AsInt64 :: "string \<Rightarrow> int option" where
  "AsInt64 n = (let i = (case n of c # r \<Rightarrow> if c = CHR ''+'' then map_option int (parse_nat r) else parse_int n | [] \<Rightarrow> None) in
     (case i of None \<Rightarrow> None | Some i \<Rightarrow> if - (2 ^ 63) \<le> i \<and> i < 2 ^ 63 then Some i else None))"

definition keyValue_text :: "string \<Rightarrow> string \<Rightarrow> string" where
  "keyValue_text k v = ''{'' @ str ''key'' @ '':'' @ JSON (GStr k) @ '','' @ str ''value'' @ '':'' @ v @ ''}''"

definition wrapped :: "string \<Rightarrow> string \<Rightarrow> string" where
  "wrapped k v = ''{'' @ str k @ '':'' @ v @ ''}''"

text \<open>\<open>anyValue\<close> on what a decoder has read.\<close>

fun anyValue_back :: "json \<Rightarrow> string" where
  "anyValue_back JNull = ''{}''"
| "anyValue_back (JStr s) = wrapped ''stringValue'' (JSON (GStr s))"
| "anyValue_back (JBool b) = wrapped ''boolValue'' (FormatBool b)"
| "anyValue_back (JObj m) = wrapped ''kvlistValue'' (wrapped ''values'' (write_array
     (map (\<lambda>(k, v). keyValue_text k v) (sort_key fst (members (map (\<lambda>(k, v). (k, anyValue_back v)) m))))))"
| "anyValue_back (JArr xs) = wrapped ''arrayValue'' (wrapped ''values'' (write_array (map anyValue_back xs)))"
| "anyValue_back (JNum n) = (case AsInt64 n of Some i \<Rightarrow> wrapped ''intValue'' (str (fmt_int i)) | None \<Rightarrow> wrapped ''doubleValue'' n)"

text \<open>A value that is none of the cases is written and read back; None where what was written does not read.\<close>

fun anyValue :: "gv \<Rightarrow> string option" where
  "anyValue GNil = Some ''{}''"
| "anyValue (GStr s) = Some (wrapped ''stringValue'' (JSON (GStr s)))"
| "anyValue (GBool b) = Some (wrapped ''boolValue'' (FormatBool b))"
| "anyValue (GMap m) = map_option (\<lambda>ts. wrapped ''kvlistValue'' (wrapped ''values'' (write_array ts)))
     (those (map (\<lambda>(k, t). map_option (keyValue_text k) t) (sort_key fst (map (\<lambda>(k, v). (k, anyValue v)) m))))"
| "anyValue (GArr xs) = map_option (\<lambda>ts. wrapped ''arrayValue'' (wrapped ''values'' (write_array ts))) (those (map anyValue xs))"
| "anyValue v = map_option (\<lambda>(j, _). anyValue_back j) (parse_json (JSON v))"

definition otel_record :: "string list \<Rightarrow> int option \<Rightarrow> gv list \<Rightarrow> string option" where
  "otel_record columns now r = map_option (\<lambda>atts.
     ''{'' @ (case now of None \<Rightarrow> [] | Some t \<Rightarrow> str ''observedTimeUnixNano'' @ '':'' @ [quote] @ fmt_int t @ [quote] @ '','') @
     str ''body'' @ '':'' @ wrapped ''stringValue'' (JSON (GStr (object_text columns r))) @ '','' @
     str ''attributes'' @ '':'' @ write_array atts @ ''}'')
     (those (map (\<lambda>(c, v). map_option (keyValue_text c) (anyValue v)) (zip columns r)))"

text \<open>The clock is read once for each record: \<open>now i\<close> is what it gave for row i, None without a clock.\<close>

definition otel_batch :: "string list \<Rightarrow> string \<Rightarrow> (nat \<Rightarrow> int option) \<Rightarrow> gv list list \<Rightarrow> string option" where
  "otel_batch columns scope now rows = map_option (\<lambda>recs.
     ''{'' @ str ''resourceLogs'' @ '':'' @ ''['' @ ''{'' @ str ''resource'' @ '':'' @ ''{},'' @ str ''scopeLogs'' @ '':'' @ ''['' @ ''{'' @
     str ''scope'' @ '':'' @ wrapped ''name'' (JSON (GStr scope)) @ '','' @ str ''logRecords'' @ '':'' @ write_array recs @ ''}]}]}'' @ [newline])
     (those (map (\<lambda>(i, r). otel_record columns (now i) r) (enumerate 0 rows)))"

subsection \<open>Text tables\<close>

text \<open>\<open>utf8.RuneCountInString\<close> of valid UTF-8: the bytes that do not continue a rune.\<close>

definition RuneCount :: "string \<Rightarrow> nat" where
  "RuneCount s = length (filter (\<lambda>c. (of_char c :: nat) div 64 \<noteq> 2) s)"

definition table_cell :: "gv \<Rightarrow> string" where
  "table_cell v = (case Text v of (s, ok) \<Rightarrow> if ok then s else ''null'')"

definition table_widths :: "string list \<Rightarrow> string list list \<Rightarrow> nat list" where
  "table_widths columns cells = map (\<lambda>i. fold (\<lambda>r w. if i < length r then max w (RuneCount (r ! i)) else w) cells
     (RuneCount (columns ! i))) [0..<length columns]"

definition table_rule :: "nat list \<Rightarrow> string" where
  "table_rule width = concat (map (\<lambda>w. CHR ''+'' # replicate (w + 2) (CHR ''-'')) width) @ [CHR ''+'', newline]"

definition table_line :: "nat list \<Rightarrow> string list \<Rightarrow> string" where
  "table_line width fs = concat (map (\<lambda>(w, s). ''| '' @ s @ replicate (w - RuneCount s + 1) (CHR '' '')) (zip width fs)) @ [CHR ''|'', newline]"

definition table_batch :: "string list \<Rightarrow> gv list list \<Rightarrow> string" where
  "table_batch columns rows = (let
     cells = map (map table_cell) rows;
     width = table_widths columns cells in
     table_rule width @ table_line width columns @ table_rule width @ concat (map (table_line width) cells) @ table_rule width)"

subsection \<open>Lines of jsonl\<close>

definition row_document :: "string list \<Rightarrow> gv list \<Rightarrow> json" where
  "row_document columns cells = JObj (zip columns (map document cells))"

lemma object_text_document: "object_text columns cells = print_with esc_plain (row_document columns cells)"
  by (simp add: object_text_def row_document_def JSON_def write_document zip_map2 comp_def case_prod_unfold)

lemma row_printable: "list_all wf_gv cells \<Longrightarrow> printable (row_document columns cells)"
  by (auto simp: row_document_def list_all_iff printable_document dest!: set_zip_rightD)

lemma Split_lines: "list_all (\<lambda>l. c \<notin> set l) ls \<Longrightarrow> Split c (concat (map (\<lambda>l. l @ [c]) ls)) = ls @ [[]]"
proof (induction ls)
  case (Cons l ls)
  have "Split c (l @ c # r) = l # Split c r" if "c \<notin> set l" for l r using that by (induction l) auto
  with Cons show ?case by simp
qed simp

text \<open>A batch of jsonl is one line to a row, in order and none besides: splitting its bytes at the newlines gives the
  rows' objects, whatever the cells hold, and each of them reads back as the object of the declared columns, in declared
  order, with the documents of the row's cells.\<close>

theorem jsonl_lines_read_back:
  assumes "list_all (list_all wf_gv) rows"
  shows "\<exists>lines. Split newline (jsonl_batch columns rows) = lines @ [[]] \<and>
    list_all2 (\<lambda>l r. parse_json l = Some (row_document columns r, [])) lines rows"
proof (intro exI conjI)
  let ?lines = "map (object_text columns) rows"
  have w: "list_all wf_gv r" if "r \<in> set rows" for r using assms that by (auto simp: list_all_iff)
  have "newline \<notin> set (object_text columns r)" if "r \<in> set rows" for r
    using plain.written_no_control[OF row_printable[OF w[OF that]], of newline columns] unfolding object_text_document by auto
  then show "Split newline (jsonl_batch columns rows) = ?lines @ [[]]"
    using Split_lines[of newline ?lines] by (simp add: jsonl_batch_def list_all_iff comp_def)
  show "list_all2 (\<lambda>l r. parse_json l = Some (row_document columns r, [])) ?lines rows"
    using plain.parse_written[OF row_printable[OF w], of _ "[]" columns]
    by (auto simp: list_all2_map1 object_text_document intro!: list_all2_all_nthI)
qed

theorem jsonl_lines_read_back_witness:
  "\<exists>lines. Split newline (jsonl_batch [''id'', ''note''] [[GNumber ''7'', GStr [newline]], [GNil, GFloat NaN]]) = lines @ [[]] \<and>
    list_all2 (\<lambda>l r. parse_json l = Some (row_document [''id'', ''note''] r, [])) lines [[GNumber ''7'', GStr [newline]], [GNil, GFloat NaN]]"
  by (rule jsonl_lines_read_back) (simp add: flt_ok_def valid_number_def valid_frac_def valid_exp_def is_digit_def is_num_char_def)

subsection \<open>Delimited records read back\<close>

text \<open>
  A reader of RFC 4180 text with a one-byte delimiter: a quoted field ends at a quote that is not doubled,
  any other at the delimiter or the end of the line. Each field, and each record, spends one unit of fuel.
\<close>

fun read_quoted :: "string \<Rightarrow> (string \<times> string) option" where
  "read_quoted [] = None"
| "read_quoted (c # r) = (if c = quote
     then (case r of [] \<Rightarrow> Some ([], []) | d # r' \<Rightarrow> if d = quote then map_option (apfst (Cons quote)) (read_quoted r') else Some ([], r))
     else map_option (apfst (Cons c)) (read_quoted r))"

definition read_field :: "char \<Rightarrow> string \<Rightarrow> (string \<times> string) option" where
  "read_field comma s = (if s \<noteq> [] \<and> hd s = quote then read_quoted (tl s)
     else Some (takeWhile (\<lambda>c. c \<noteq> comma \<and> c \<noteq> newline) s, dropWhile (\<lambda>c. c \<noteq> comma \<and> c \<noteq> newline) s))"

fun read_fields :: "nat \<Rightarrow> char \<Rightarrow> string \<Rightarrow> (string list \<times> string) option" where
  "read_fields 0 comma s = None"
| "read_fields (Suc n) comma s = (case read_field comma s of None \<Rightarrow> None
     | Some (f, []) \<Rightarrow> Some ([f], [])
     | Some (f, c # r) \<Rightarrow> if c = newline then Some ([f], r)
         else if c = comma then map_option (apfst (Cons f)) (read_fields n comma r) else None)"

fun read_records :: "nat \<Rightarrow> char \<Rightarrow> string \<Rightarrow> string list list option" where
  "read_records n comma [] = Some []"
| "read_records 0 comma s = None"
| "read_records (Suc n) comma s = (case read_fields (Suc (length s)) comma s of None \<Rightarrow> None
     | Some (fs, r) \<Rightarrow> map_option (Cons fs) (read_records n comma r))"

definition read_delimited :: "char \<Rightarrow> string \<Rightarrow> string list list option" where
  "read_delimited comma s = read_records (length s) comma s"

lemma read_quoted_field:
  "d \<noteq> quote \<Longrightarrow> read_quoted (concat (map (\<lambda>c. if c = quote then [quote, quote] else [c]) f) @ quote # d # t) = Some (f, d # t)"
  by (induction f) auto

lemma read_csv_field:
  assumes "comma < 128" "validDelimiter comma" "d = char_of comma \<or> d = newline"
  shows "read_field (char_of comma) (csv_field comma f @ d # t) = Some (f, d # t)"
proof -
  have "(of_char d :: nat) = (if d = newline then 10 else comma)" using assms(1,3) by auto
  then have dq: "d \<noteq> quote" using assms(2) by (auto simp: validDelimiter_def split: if_splits)
  show ?thesis
  proof (cases "fieldNeedsQuotes comma f")
    case True
    then show ?thesis using read_quoted_field[OF dq] by (simp add: csv_field_def read_field_def)
  next
    case False
    let ?ok = "\<lambda>c. c \<noteq> char_of comma \<and> c \<noteq> newline"
    have f: "list_all ?ok f" "quote \<notin> set f"
      using False assms(1) by (cases "f = []"; auto simp: fieldNeedsQuotes_def rune_text_def ContainsAny_def list_all_iff list_ex_iff sublist_def dest!: split_list)+
    have stop: "\<not> ?ok d" using assms(3) by auto
    have "takeWhile ?ok (f @ d # t) = f" "dropWhile ?ok (f @ d # t) = d # t"
      using f(1) stop by (auto simp: takeWhile_append2 dropWhile_append2 list_all_iff)
    moreover have "\<not> (f @ d # t \<noteq> [] \<and> hd (f @ d # t) = quote)" using f(2) dq by (cases f) auto
    ultimately show ?thesis using False by (simp add: csv_field_def read_field_def)
  qed
qed

lemma read_csv_record:
  assumes "comma < 128" "validDelimiter comma" "fs \<noteq> []" "length fs \<le> n"
  shows "read_fields n (char_of comma) (csv_record comma fs @ t) = Some (fs, t)"
  using assms(3,4)
proof (induction fs arbitrary: n)
  case (Cons f fs)
  then obtain i where n: "n = Suc i" by (cases n) auto
  note rd = read_csv_field[OF assms(1,2)]
  have cn: "char_of comma \<noteq> newline"
  proof
    assume "char_of comma = newline"
    then have "(of_char (char_of comma) :: nat) = of_char newline" by simp
    then show False using assms(1,2) by (simp add: validDelimiter_def)
  qed
  show ?case
  proof (cases fs)
    case Nil
    then show ?thesis using n rd[of newline f t] by (simp add: csv_record_def)
  next
    case (Cons g gs)
    then have "read_fields i (char_of comma) (csv_record comma fs @ t) = Some (fs, t)" using Cons.IH[of i] Cons.prems n by simp
    then show ?thesis using n cn Cons assms(1) rd[of "char_of comma" f "csv_record comma fs @ t"]
      by (simp add: csv_record_def rune_text_def)
  qed
qed simp

lemma csv_record_length: "fs \<noteq> [] \<Longrightarrow> length fs \<le> length (csv_record comma fs)"
proof -
  have "length fs \<le> Suc (length (strings_Join (rune_text comma) (map (csv_field comma) fs)))"
  proof (induction fs rule: induct_list012)
    case (3 x y zs)
    have "1 \<le> length (rune_text comma)" by (simp add: rune_text_def)
    then show ?case using 3(2) by simp
  qed simp_all
  then show ?thesis by (simp add: csv_record_def)
qed

lemma read_csv_records:
  assumes "comma < 128" "validDelimiter comma" "list_all (\<lambda>fs. fs \<noteq> []) rs" "length rs \<le> n"
  shows "read_records n (char_of comma) (concat (map (csv_record comma) rs)) = Some rs"
  using assms(3,4)
proof (induction rs arbitrary: n)
  case (Cons r rs)
  then obtain i where n: "n = Suc i" by (cases n) auto
  let ?t = "concat (map (csv_record comma) rs)"
  have r: "r \<noteq> []" using Cons.prems by simp
  have "length r \<le> Suc (length (csv_record comma r @ ?t))" using csv_record_length[OF r, of comma] by simp
  note rd = read_csv_record[OF assms(1,2) r this, of ?t]
  obtain c u where cu: "csv_record comma r @ ?t = c # u" by (cases "csv_record comma r @ ?t") (auto simp: csv_record_def)
  have "read_records i (char_of comma) ?t = Some rs" using Cons n by simp
  then show ?case using rd n cu by simp
qed simp

text \<open>The bytes of a whole relation, written in some sequence of batches.\<close>

definition delimited_run :: "delimited \<Rightarrow> gv list list list \<Rightarrow> string" where
  "delimited_run f bs = (case fold (\<lambda>b (f, out). case delimited_batch f b of (f', t) \<Rightarrow> (f', out @ t)) bs (f, []) of
     (f', out) \<Rightarrow> out @ snd (delimited_end f'))"

abbreviation row_text :: "gv list \<Rightarrow> string list" where
  "row_text r \<equiv> map (\<lambda>v. fst (Text v)) r"

abbreviation delimited_step :: "gv list list \<Rightarrow> delimited \<times> string \<Rightarrow> delimited \<times> string" where
  "delimited_step b p \<equiv> (case p of (f, out) \<Rightarrow> case delimited_batch f b of (f', t) \<Rightarrow> (f', out @ t))"

lemma delimited_headed:
  "dl_headed g \<Longrightarrow> fold delimited_step bs (g, out) = (g, out @ concat (map (csv_record (dl_delimiter g)) (map row_text (concat bs))))"
  by (induction bs arbitrary: out) (simp_all add: delimited_batch_def delimited_header_def comp_def)

lemma delimited_run_records:
  assumes "\<not> dl_headed f"
  shows "delimited_run f bs = concat (map (csv_record (dl_delimiter f)) (dl_columns f # map row_text (concat bs)))"
proof (cases bs)
  case Nil
  then show ?thesis using assms by (simp add: delimited_run_def delimited_end_def delimited_header_def)
next
  case (Cons b cs)
  let ?g = "f\<lparr>dl_headed := True\<rparr>"
  have "fold delimited_step bs (f, []) =
      fold delimited_step cs (?g, csv_record (dl_delimiter f) (dl_columns f) @ concat (map (\<lambda>r. csv_record (dl_delimiter f) (row_text r)) b))"
    using assms Cons by (simp add: delimited_batch_def delimited_header_def)
  then show ?thesis using Cons by (simp add: delimited_headed delimited_run_def delimited_end_def comp_def)
qed

text \<open>However the rows were batched, one header record and then each row's fields.\<close>

lemma delimited_text_reads_back:
  assumes "dl_delimiter f < 128" "validDelimiter (dl_delimiter f)" "\<not> dl_headed f" "dl_columns f \<noteq> []"
    and "list_all (\<lambda>r. length r = length (dl_columns f)) (concat bs)"
  shows "read_delimited (char_of (dl_delimiter f)) (delimited_run f bs) = Some (dl_columns f # map row_text (concat bs))"
proof -
  let ?rs = "dl_columns f # map row_text (concat bs)"
  have ne: "list_all (\<lambda>fs. fs \<noteq> []) ?rs" using assms(4,5) by (force simp: list_all_iff)
  have "length rs \<le> length (concat (map (csv_record (dl_delimiter f)) rs))" for rs
    by (induction rs) (auto simp: csv_record_def)
  then show ?thesis
    unfolding read_delimited_def delimited_run_records[OF assms(3)] by (intro read_csv_records[OF assms(1,2) ne])
qed

subsection \<open>OTel requests are documents\<close>

abbreviation pr :: "json \<Rightarrow> string" where
  "pr \<equiv> print_with esc_plain"

definition key_value :: "string \<Rightarrow> json \<Rightarrow> json" where
  "key_value k d = JObj [(''key'', JStr k), (''value'', d)]"

definition one_member :: "string \<Rightarrow> json \<Rightarrow> json" where
  "one_member k d = JObj [(k, d)]"

fun any_document :: "json \<Rightarrow> json" where
  "any_document JNull = JObj []"
| "any_document (JStr s) = one_member ''stringValue'' (JStr s)"
| "any_document (JBool b) = one_member ''boolValue'' (JBool b)"
| "any_document (JObj m) = one_member ''kvlistValue'' (one_member ''values'' (JArr (map (\<lambda>(k, d). key_value k d)
     (sort_key fst (members (map (\<lambda>(k, v). (k, any_document v)) m))))))"
| "any_document (JArr xs) = one_member ''arrayValue'' (one_member ''values'' (JArr (map any_document xs)))"
| "any_document (JNum n) = (case AsInt64 n of Some i \<Rightarrow> one_member ''intValue'' (JStr (fmt_int i)) | None \<Rightarrow> one_member ''doubleValue'' (JNum n))"

lemma printed [simp]: "wrapped k (pr d) = pr (one_member k d)" "keyValue_text k (pr d) = pr (key_value k d)"
  "write_array (map pr ds) = pr (JArr ds)" "JSON (GStr t) = pr (JStr t)"
  by (simp_all add: wrapped_def keyValue_text_def write_array_def JSON_def one_member_def key_value_def)

lemma FormatBool_printed: "FormatBool b = pr (JBool b)" by (simp add: FormatBool_def)

lemma wrapped_JNum: "wrapped k n = pr (one_member k (JNum n))" by (simp add: wrapped_def one_member_def)

lemma anyValue_back_document: "anyValue_back j = pr (any_document j)"
proof (induction j)
  case (JArr xs)
  then have "map anyValue_back xs = map pr (map any_document xs)" by simp
  then show ?case by (simp only: anyValue_back.simps any_document.simps printed)
next
  case (JObj m)
  have "map (\<lambda>(k, v). (k, anyValue_back v)) m = map (\<lambda>(k, v). (k, pr v)) (map (\<lambda>(k, v). (k, any_document v)) m)"
    using JObj by (auto simp: case_prod_unfold)
  then have "map (\<lambda>(k, v). keyValue_text k v) (sort_key fst (members (map (\<lambda>(k, v). (k, anyValue_back v)) m))) =
      map pr (map (\<lambda>(k, d). key_value k d) (sort_key fst (members (map (\<lambda>(k, v). (k, any_document v)) m))))"
    by (simp only: members_map sort_key_map) (simp add: case_prod_unfold comp_def)
  then show ?case by (simp only: anyValue_back.simps any_document.simps printed)
next
  case (JNum n)
  show ?case by (cases "AsInt64 n") (simp_all add: wrapped_JNum one_member_def)
next
  case (JBool b)
  show ?case unfolding anyValue_back.simps any_document.simps FormatBool_printed printed by (rule refl)
next
  case (JStr s)
  show ?case unfolding anyValue_back.simps any_document.simps printed by (rule refl)
qed simp

lemma sorted_members: "distinct (map fst m) \<Longrightarrow> sort_key fst (members (map (\<lambda>(k, v). (k, f v)) (sort_key fst m))) =
    map (\<lambda>(k, v). (k, f v)) (sort_key fst m)"
proof -
  assume "distinct (map fst m)"
  then have "distinct (map fst (sort_key fst m))" by (auto simp: distinct_map)
  then have "members (map (\<lambda>(k, v). (k, f v)) (sort_key fst m)) = map (\<lambda>(k, v). (k, f v)) (sort_key fst m)"
    by (subst members_id) (auto simp: comp_def case_prod_unfold)
  moreover have "sorted (map fst (map (\<lambda>(k, v). (k, f v)) (sort_key fst m)))"
    by (simp add: comp_def case_prod_unfold)
  ultimately show ?thesis by (simp only: sort_key_id_if_sorted)
qed

lemma any_document_map: "distinct (map fst m) \<Longrightarrow> any_document (document (GMap m)) =
    one_member ''kvlistValue'' (one_member ''values'' (JArr (map (\<lambda>(k, v). key_value k (any_document (document v))) (sort_key fst m))))"
proof -
  assume d: "distinct (map fst m)"
  have s: "sort_key fst (map (\<lambda>(k, v). (k, document v)) m) = map (\<lambda>(k, v). (k, document v)) (sort_key fst m)" by (rule sort_key_map)
  have c: "map (\<lambda>(k, v). (k, any_document v)) (map (\<lambda>(k, v). (k, document v)) (sort_key fst m)) =
      map (\<lambda>(k, v). (k, any_document (document v))) (sort_key fst m)" by (simp add: case_prod_unfold)
  show ?thesis unfolding document.simps any_document.simps s c sorted_members[OF d] by (simp add: case_prod_unfold comp_def)
qed

lemma anyValue_document: "wf_gv v \<Longrightarrow> anyValue v = Some (pr (any_document (document v)))"
proof (induction v)
  case (GMap m)
  have e: "anyValue v = Some (pr (any_document (document v)))" if "(k, v) \<in> set m" for k v
    using GMap.IH[of "(k, v)" v] GMap.prems that by (auto simp: list_all_iff)
  have "map (\<lambda>(k, t). map_option (keyValue_text k) t) (sort_key fst (map (\<lambda>(k, v). (k, anyValue v)) m)) =
      map (\<lambda>p. Some (pr (key_value (fst p) (any_document (document (snd p)))))) (sort_key fst m)"
    unfolding sort_key_map using e by (auto simp: case_prod_unfold)
  then have "anyValue (GMap m) = Some (wrapped ''kvlistValue'' (wrapped ''values'' (write_array
      (map pr (map (\<lambda>p. key_value (fst p) (any_document (document (snd p)))) (sort_key fst m))))))"
    by (simp add: those_map_Some comp_def del: printed)
  then show ?case using any_document_map[of m] GMap.prems by (simp only: printed wf_gv.simps simp_thms case_prod_unfold)
next
  case (GArr xs)
  have "map anyValue xs = map (\<lambda>v. Some (pr (any_document (document v)))) xs"
    using GArr by (auto simp: list_all_iff)
  then have "those (map anyValue xs) = Some (map pr (map (\<lambda>v. any_document (document v)) xs))"
    by (simp only: those_map_Some) simp
  then show ?case by (simp only: anyValue.simps option.map(2) printed) (simp add: comp_def)
next
  case (GBool b)
  show ?case by (simp add: FormatBool_printed del: print_with.simps)
next
  case (GStr t)
  show ?case by (simp del: print_with.simps)
next
  case GNil
  show ?case by simp
qed (simp_all only: anyValue.simps JSON_def write_document plain.parse_written[OF printable_document, where rest = "[]", simplified]
  option.map(2) case_prod_conv anyValue_back_document)

lemma printable_any_document: "printable j \<Longrightarrow> printable (any_document j)"
proof (induction j)
  case (JObj m)
  have "printable d" if "(k, d) \<in> set (members (map (\<lambda>(k, v). (k, any_document v)) m))" for k d
  proof -
    have "(k, d) \<in> set (map (\<lambda>(k, v). (k, any_document v)) m)" using that members_subset by blast
    then obtain w where "(k, w) \<in> set m" "d = any_document w" by auto
    then show ?thesis using JObj.IH[of "(k, w)" w] JObj.prems by (auto simp: list_all_iff)
  qed
  then show ?case by (auto simp: list_all_iff one_member_def key_value_def)
qed (auto simp: list_all_iff one_member_def split: option.splits)

definition record_document :: "string list \<Rightarrow> int option \<Rightarrow> gv list \<Rightarrow> json" where
  "record_document columns now r = JObj ((case now of None \<Rightarrow> [] | Some t \<Rightarrow> [(''observedTimeUnixNano'', JStr (fmt_int t))]) @
     [(''body'', one_member ''stringValue'' (JStr (object_text columns r))),
      (''attributes'', JArr (map (\<lambda>(c, v). key_value c (any_document (document v))) (zip columns r)))])"

definition request_document :: "string list \<Rightarrow> string \<Rightarrow> (nat \<Rightarrow> int option) \<Rightarrow> gv list list \<Rightarrow> json" where
  "request_document columns scope now rows = one_member ''resourceLogs'' (JArr [JObj [(''resource'', JObj []), (''scopeLogs'', JArr [JObj
     [(''scope'', one_member ''name'' (JStr scope)), (''logRecords'', JArr (map (\<lambda>(i, r). record_document columns (now i) r) (enumerate 0 rows)))]])]])"

lemma quoted_int: "quote # fmt_int i @ quote # t = str (fmt_int i) @ t"
proof -
  have e: "esc_plain c = [c]" if "is_digit c \<or> c = CHR ''-''" for c
  proof -
    have n: "(of_char c :: nat) = 45 \<or> 48 \<le> (of_char c :: nat) \<and> (of_char c :: nat) \<le> 57"
      using that by (elim disjE) (simp_all add: is_digit_def)
    then have "c \<notin> {quote, CHR 0x5C, CHR 0x08, CHR 0x0C, CHR 0x0A, CHR 0x0D, CHR 0x09}" "c \<notin> {CHR ''<'', CHR ''>'', CHR ''&''}" by auto
    moreover have "\<not> (of_char c :: nat) < 32" using n by linarith
    ultimately show ?thesis by (simp add: esc_plain_def esc_char_def)
  qed
  have "concat (map esc_plain s) = s" if "list_all (\<lambda>c. is_digit c \<or> c = CHR ''-'') s" for s
    using that by (induction s) (simp_all add: e)
  moreover have "list_all (\<lambda>c. is_digit c \<or> c = CHR ''-'') (fmt_int i)"
    using fmt_nat_digits by (auto simp: fmt_int_def list_all_iff)
  ultimately show ?thesis by (simp add: print_str_with_def)
qed

lemma otel_record_document:
  assumes "list_all wf_gv r"
  shows "otel_record columns now r = Some (pr (record_document columns now r))"
proof -
  have "map (\<lambda>(c, v). map_option (keyValue_text c) (anyValue v)) (zip columns r) =
      map (\<lambda>p. Some (pr (key_value (fst p) (any_document (document (snd p)))))) (zip columns r)"
    using assms by (auto simp: anyValue_document list_all_iff dest!: set_zip_rightD)
  then have "those (map (\<lambda>(c, v). map_option (keyValue_text c) (anyValue v)) (zip columns r)) =
      Some (map pr (map (\<lambda>(c, v). key_value c (any_document (document v))) (zip columns r)))"
    by (simp only: those_map_Some) (simp add: comp_def case_prod_unfold)
  then show ?thesis unfolding otel_record_def
    by (cases now) (simp_all add: record_document_def one_member_def quoted_int wrapped_def write_array_def del: printed(1))
qed

lemma otel_batch_document:
  assumes "list_all (list_all wf_gv) rows"
  shows "otel_batch columns scope now rows = Some (pr (request_document columns scope now rows) @ [newline])"
proof -
  have "map (\<lambda>(i, r). otel_record columns (now i) r) (enumerate 0 rows) =
      map (\<lambda>p. Some (pr (record_document columns (now (fst p)) (snd p)))) (enumerate 0 rows)"
    using assms by (auto simp: otel_record_document list_all_iff enumerate_eq_zip dest!: set_zip_rightD)
  then have "those (map (\<lambda>(i, r). otel_record columns (now i) r) (enumerate 0 rows)) =
      Some (map pr (map (\<lambda>(i, r). record_document columns (now i) r) (enumerate 0 rows)))"
    by (simp only: those_map_Some) (simp add: comp_def case_prod_unfold)
  then show ?thesis unfolding otel_batch_def
    by (simp add: request_document_def one_member_def wrapped_def write_array_def del: printed(1))
qed

text \<open>An OTel batch is one line that reads back as one export request: the scope, and for each row in order one log
  record whose body is the row's jsonl object and whose attributes are its cells as typed values, an integer that fits 64
  bits as intValue, any other number as doubleValue, a null or a non-finite float as the empty value. It fails on no row
  whose numbers are JSON numbers.\<close>

theorem otel_batch_reads_back:
  assumes "list_all (list_all wf_gv) rows"
  shows "\<exists>l. otel_batch columns scope now rows = Some (l @ [newline]) \<and> newline \<notin> set l \<and>
    parse_json l = Some (request_document columns scope now rows, [])"
proof -
  have w: "list_all wf_gv r" if "(i, r) \<in> set (enumerate 0 rows)" for i r
    using assms that by (auto simp: list_all_iff enumerate_eq_zip dest!: set_zip_rightD)
  have "printable (record_document columns t r)" if "list_all wf_gv r" for t r
    using that by (auto simp: record_document_def one_member_def key_value_def list_all_iff printable_any_document printable_document
        split: option.splits dest!: set_zip_rightD)
  then have p: "printable (request_document columns scope now rows)"
    using w by (auto simp: request_document_def one_member_def list_all_iff[of printable])
  then show ?thesis
    using otel_batch_document[OF assms] plain.parse_written[OF p, of "[]"] plain.written_no_control[OF p, of newline] by auto
qed

theorem otel_batch_reads_back_witness:
  "\<exists>l. otel_batch [''n''] ''s'' (\<lambda>i. Some (int i)) [[GNumber ''12''], [GFloat (Inf True)]] = Some (l @ [newline]) \<and> newline \<notin> set l \<and>
    parse_json l = Some (request_document [''n''] ''s'' (\<lambda>i. Some (int i)) [[GNumber ''12''], [GFloat (Inf True)]], [])"
  by (rule otel_batch_reads_back) (simp add: flt_ok_def valid_number_def valid_frac_def valid_exp_def is_digit_def is_num_char_def)

subsection \<open>Tables are aligned\<close>

lemma RuneCount_append [simp]: "RuneCount (a @ b) = RuneCount a + RuneCount b"
  by (simp add: RuneCount_def)

lemma RuneCount_ascii [simp]: "(of_char c :: nat) < 128 \<Longrightarrow> RuneCount (c # s) = Suc (RuneCount s)"
  by (simp add: RuneCount_def)

lemma RuneCount_replicate [simp]: "(of_char c :: nat) < 128 \<Longrightarrow> RuneCount (replicate n c) = n"
  by (induction n) (simp_all add: RuneCount_def)

lemma RuneCount_Nil [simp]: "RuneCount [] = 0"
  by (simp add: RuneCount_def)

definition table_width :: "nat list \<Rightarrow> nat" where
  "table_width width = sum_list (map (\<lambda>w. w + 3) width) + 2"

lemma table_rule_width: "RuneCount (table_rule width) = table_width width"
  by (induction width) (simp_all add: table_rule_def table_width_def)

lemma table_line_width: "list_all2 (\<lambda>w s. RuneCount s \<le> w) width fs \<Longrightarrow> RuneCount (table_line width fs) = table_width width"
  by (induction rule: list_all2_induct) (simp_all add: table_line_def table_width_def)

lemma widest_ge:
  "(n :: nat) \<le> fold (\<lambda>r w. if i < length r then max w (f (r ! i)) else w) cells n"
  "r \<in> set cells \<Longrightarrow> i < length r \<Longrightarrow> f (r ! i) \<le> fold (\<lambda>r w. if i < length r then max w (f (r ! i)) else w) cells n"
proof -
  show ge: "(n :: nat) \<le> fold (\<lambda>r w. if i < length r then max w (f (r ! i)) else w) cells n" for cells n
  proof (induction cells arbitrary: n)
    case (Cons q qs)
    then show ?case using order_trans[OF _ Cons[of "max n (f (q ! i))"], of n] by auto
  qed simp
  show "r \<in> set cells \<Longrightarrow> i < length r \<Longrightarrow> f (r ! i) \<le> fold (\<lambda>r w. if i < length r then max w (f (r ! i)) else w) cells n"
  proof (induction cells arbitrary: n)
    case (Cons q qs)
    then show ?case using order_trans[OF _ ge[of "max n (f (r ! i))" qs], of "f (r ! i)"] by auto
  qed simp
qed

lemma table_widths_fit:
  "list_all2 (\<lambda>w s. RuneCount s \<le> w) (table_widths columns cells) columns"
  "r \<in> set cells \<Longrightarrow> length r = length columns \<Longrightarrow> list_all2 (\<lambda>w s. RuneCount s \<le> w) (table_widths columns cells) r"
  by (simp_all add: table_widths_def list_all2_conv_all_nth widest_ge cong: if_cong)

lemma table_aligned:
  assumes "list_all (\<lambda>r. length r = length columns) rows"
  defines "width \<equiv> table_widths columns (map (map table_cell) rows)"
  shows "\<exists>ls. table_batch columns rows = concat ls \<and> length ls = length rows + 4 \<and> list_all (\<lambda>l. RuneCount l = table_width width) ls"
proof (intro exI conjI)
  let ?ls = "[table_rule width, table_line width columns, table_rule width] @ map (table_line width) (map (map table_cell) rows) @ [table_rule width]"
  show "table_batch columns rows = concat ?ls" by (simp add: table_batch_def width_def Let_def comp_def)
  show "length ?ls = length rows + 4" by simp
  show "list_all (\<lambda>l. RuneCount l = table_width width) ?ls"
    using assms(1) by (auto simp: list_all_iff width_def table_rule_width intro!: table_line_width table_widths_fit)
qed

end
