(* ===== verification/Stream_Sink.thy ===== *)
theory Stream_Sink
  imports Framings
begin

section \<open>Sinks: pkg/stream\<close>

text \<open>
  The batching every framing shares. Each operation, and the callback of the flush timer, runs under the
  sink's mutex, so a history is a sequence of them; a callback is a step of its own that may come at any
  point, early, late or after the timer was stopped. A framing is its state with the bytes it makes of a
  batch and of the end, None where it fails before writing. The output takes what it is given, or fails
  after some of the bytes: its plan says so, one entry to a write, and no plan is success.
\<close>

subsection \<open>The output and the framing\<close>

record out =
  o_bytes :: string
  o_plan :: "nat option list"

definition out_Write :: "out \<Rightarrow> string \<Rightarrow> out \<times> err option" where
  "out_Write o1 b = (case o_plan o1 of
     [] \<Rightarrow> (o1\<lparr>o_bytes := o_bytes o1 @ b\<rparr>, None)
   | None # p \<Rightarrow> (o1\<lparr>o_bytes := o_bytes o1 @ b, o_plan := p\<rparr>, None)
   | Some n # p \<Rightarrow> (o1\<lparr>o_bytes := o_bytes o1 @ take n b, o_plan := p\<rparr>, Some (ErrOther ''write'')))"

record 'f framing =
  fr_batch :: "'f \<Rightarrow> gv list list \<Rightarrow> 'f \<times> string option"
  fr_end :: "'f \<Rightarrow> 'f \<times> string option"

definition framed :: "'f \<times> string option \<Rightarrow> out \<Rightarrow> 'f \<times> out \<times> err option" where
  "framed p o1 = (case p of
     (f, None) \<Rightarrow> (f, o1, Some (ErrOther ''frame''))
   | (f, Some b) \<Rightarrow> if b = [] then (f, o1, None) else (case out_Write o1 b of (o2, e) \<Rightarrow> (f, o2, e)))"

definition jsonl_framing :: "string list framing" where
  "jsonl_framing = \<lparr>fr_batch = \<lambda>c rows. (c, Some (jsonl_batch c rows)), fr_end = \<lambda>c. (c, Some [])\<rparr>"

definition delimited_framing :: "delimited framing" where
  "delimited_framing = \<lparr>fr_batch = \<lambda>f rows. map_prod id Some (delimited_batch f rows), fr_end = \<lambda>f. map_prod id Some (delimited_end f)\<rparr>"

definition table_framing :: "string list framing" where
  "table_framing = \<lparr>fr_batch = \<lambda>c rows. (c, Some (table_batch c rows)), fr_end = \<lambda>c. (c, Some [])\<rparr>"

text \<open>The OTel framing's state counts the readings of its clock, one for each record.\<close>

definition otel_framing :: "string list \<Rightarrow> string \<Rightarrow> (nat \<Rightarrow> int option) \<Rightarrow> nat framing" where
  "otel_framing columns scope clock = \<lparr>fr_batch = \<lambda>n rows. (n + length rows, otel_batch columns scope (\<lambda>i. clock (n + i)) rows), fr_end = \<lambda>n. (n, Some [])\<rparr>"

subsection \<open>The sink\<close>

record Options =
  BatchSize :: int
  FlushInterval :: int

record 'f sink =
  sk_out :: out
  sk_columns :: "string list"
  sk_frame :: 'f
  sk_opts :: Options
  sk_pending :: "gv list list"
  sk_timer :: bool
  sk_closed :: bool
  sk_err :: "err option"
  sk_warned :: "string list"
  sk_warnings :: "string list"

definition newSink :: "out option \<Rightarrow> string list \<Rightarrow> Options \<Rightarrow> 'f \<Rightarrow> err + 'f sink" where
  "newSink o1 columns opts f = (case o1 of None \<Rightarrow> Inl (ErrOther ''no output'')
   | Some o2 \<Rightarrow>
     if columns = [] then Inl (ErrOther ''no columns'')
     else if BatchSize opts < 0 \<or> FlushInterval opts < 0 then Inl (ErrOther ''negative batch size or flush interval'')
     else Inr \<lparr>sk_out = o2, sk_columns = columns, sk_frame = f, sk_opts = opts, sk_pending = [], sk_timer = False,
       sk_closed = False, sk_err = None, sk_warned = [], sk_warnings = []\<rparr>)"

definition warn :: "string \<Rightarrow> string \<Rightarrow> 'f sink \<Rightarrow> 'f sink" where
  "warn kind msg s = (if kind \<in> set (sk_warned s) then s
     else s\<lparr>sk_warned := kind # sk_warned s, sk_warnings := sk_warnings s @ [msg]\<rparr>)"

definition flushLocked :: "'f framing \<Rightarrow> 'f sink \<Rightarrow> 'f sink \<times> err option" where
  "flushLocked F s0 = (let s = s0\<lparr>sk_timer := False\<rparr> in
     if sk_err s \<noteq> None then (s, sk_err s)
     else if sk_pending s = [] then (s, None)
     else (case framed (fr_batch F (sk_frame s) (sk_pending s)) (sk_out s) of (f, o1, e) \<Rightarrow>
       (s\<lparr>sk_pending := [], sk_frame := f, sk_out := o1, sk_err := e\<rparr>, e)))"

definition row_cells :: "string list \<Rightarrow> (string, gv) gomap \<Rightarrow> gv list" where
  "row_cells columns row = map (\<lambda>c. case gm_get row c of Some v \<Rightarrow> v | None \<Rightarrow> GNil) columns"

text \<open>\<open>strconv.Quote\<close>, on text whose bytes from 128 up are printable runes.\<close>

definition quote_char :: "char \<Rightarrow> string" where
  "quote_char c = (let n = (of_char c :: nat) in
     if c = quote \<or> c = CHR 0x5C then [CHR 0x5C, c]
     else if n = 7 then [CHR 0x5C, CHR ''a''] else if n = 8 then [CHR 0x5C, CHR ''b''] else if n = 12 then [CHR 0x5C, CHR ''f'']
     else if n = 10 then [CHR 0x5C, CHR ''n''] else if n = 13 then [CHR 0x5C, CHR ''r''] else if n = 9 then [CHR 0x5C, CHR ''t'']
     else if n = 11 then [CHR 0x5C, CHR ''v'']
     else if n < 32 \<or> n = 127 then [CHR 0x5C, CHR ''x'', hex_digit (n div 16), hex_digit (n mod 16)]
     else [c])"

definition non_finite_msg :: "string \<Rightarrow> string" where
  "non_finite_msg c = ''column '' @ [quote] @ concat (map quote_char c) @ [quote] @ '' held NaN or an infinity, written as null''"

definition warn_cells :: "(string, gv) gomap \<Rightarrow> 'f sink \<Rightarrow> 'f sink" where
  "warn_cells row s = fold (\<lambda>(c, v) s. if NonFinite v then warn ''non-finite'' (non_finite_msg c) s else s)
     (zip (sk_columns s) (row_cells (sk_columns s) row)) s"

definition sink_Write :: "'f framing \<Rightarrow> (string, gv) gomap \<Rightarrow> 'f sink \<Rightarrow> 'f sink \<times> err option" where
  "sink_Write F row s0 = (let cells = row_cells (sk_columns s0) row; s = warn_cells row s0 in
     if sk_closed s then (s, Some (ErrOther ''write after close''))
     else if sk_err s \<noteq> None then (s, sk_err s)
     else (let s = s\<lparr>sk_pending := sk_pending s @ [cells]\<rparr> in
       if int (length (sk_pending s)) \<ge> max (BatchSize (sk_opts s)) 1 then flushLocked F s
       else (if FlushInterval (sk_opts s) > 0 \<and> \<not> sk_timer s then s\<lparr>sk_timer := True\<rparr> else s, None)))"

definition timer_fired :: "'f framing \<Rightarrow> 'f sink \<Rightarrow> 'f sink" where
  "timer_fired F s0 = (let s = s0\<lparr>sk_timer := False\<rparr> in if sk_closed s then s else fst (flushLocked F s))"

definition sink_Flush :: "'f framing \<Rightarrow> 'f sink \<Rightarrow> 'f sink \<times> err option" where
  "sink_Flush F s = flushLocked F s"

definition sink_Close :: "'f framing \<Rightarrow> 'f sink \<Rightarrow> 'f sink \<times> err option" where
  "sink_Close F s0 = (if sk_closed s0 then (s0, sk_err s0)
     else (case flushLocked F s0 of (s, e) \<Rightarrow> (let s = s\<lparr>sk_closed := True\<rparr> in
       if e \<noteq> None then (s, e)
       else (case framed (fr_end F (sk_frame s)) (sk_out s) of (f, o1, e) \<Rightarrow> (s\<lparr>sk_frame := f, sk_out := o1, sk_err := e\<rparr>, e)))))"

text \<open>Copying from a cursor: its rows, then its error. The errors joined are those that are not nil.\<close>

definition Join :: "err option list \<Rightarrow> err list" where
  "Join es = List.map_filter id es"

fun Copy :: "'f framing \<Rightarrow> (string, gv) gomap list \<Rightarrow> err option \<Rightarrow> 'f sink \<Rightarrow> 'f sink \<times> err list" where
  "Copy F [] serr s = (case sink_Close F s of (s, e) \<Rightarrow> (s, Join [serr, e]))"
| "Copy F (r # rs) serr s = (case sink_Write F r s of (s, e) \<Rightarrow>
     if e \<noteq> None then (case sink_Close F s of (s, e') \<Rightarrow> (s, Join [e, e'])) else Copy F rs serr s)"

subsection \<open>Histories\<close>

datatype sink_op = OWrite "(string, gv) gomap" | OFlush | OFire

fun sink_step :: "'f framing \<Rightarrow> sink_op \<Rightarrow> 'f sink \<Rightarrow> 'f sink \<times> err option" where
  "sink_step F (OWrite row) s = sink_Write F row s"
| "sink_step F OFlush s = sink_Flush F s"
| "sink_step F OFire s = (timer_fired F s, None)"

fun sink_run :: "'f framing \<Rightarrow> sink_op list \<Rightarrow> 'f sink \<Rightarrow> 'f sink \<times> err list" where
  "sink_run F [] s = (s, [])"
| "sink_run F (x # xs) s = (case sink_step F x s of (s, e) \<Rightarrow> (case sink_run F xs s of (s, es) \<Rightarrow> (s, Join [e] @ es)))"

definition rows_of :: "string list \<Rightarrow> sink_op list \<Rightarrow> gv list list" where
  "rows_of columns xs = List.map_filter (\<lambda>x. case x of OWrite row \<Rightarrow> Some (row_cells columns row) | _ \<Rightarrow> None) xs"

text \<open>The state and the bytes of a framing after some batches, None where one of them fails.\<close>

fun batches :: "'f framing \<Rightarrow> 'f \<Rightarrow> gv list list list \<Rightarrow> ('f \<times> string) option" where
  "batches F f [] = Some (f, [])"
| "batches F f (b # bs) = (case fr_batch F f b of (f', None) \<Rightarrow> None
     | (f', Some t) \<Rightarrow> map_option (apsnd (\<lambda>u. t @ u)) (batches F f' bs))"

lemma batches_append: "batches F f (bs @ cs) = (case batches F f bs of None \<Rightarrow> None | Some (f', t) \<Rightarrow> map_option (apsnd (\<lambda>u. t @ u)) (batches F f' cs))"
  by (induction bs arbitrary: f) (auto split: prod.splits option.splits simp: option.map_comp comp_def option.map_id apsnd_def map_prod_def
      intro: option.map_cong)

lemma warn_cells_only: "\<exists>w ws. warn_cells row s = s\<lparr>sk_warned := w, sk_warnings := ws\<rparr>"
proof -
  have "\<exists>w ws. fold (\<lambda>(c, v) s. if NonFinite v then warn ''non-finite'' (non_finite_msg c) s else s) cs s = s\<lparr>sk_warned := w, sk_warnings := ws\<rparr>" for cs
  proof (induction cs arbitrary: s)
    case Nil
    have "s = s\<lparr>sk_warned := sk_warned s, sk_warnings := sk_warnings s\<rparr>" by simp
    then show ?case unfolding fold_Nil id_apply by blast
  next
    case (Cons p cs)
    have "warn k m s = s\<lparr>sk_warned := (if k \<in> set (sk_warned s) then sk_warned s else k # sk_warned s),
        sk_warnings := (if k \<in> set (sk_warned s) then sk_warnings s else sk_warnings s @ [m])\<rparr>" for k m by (simp add: warn_def)
    moreover have "s = s\<lparr>sk_warned := sk_warned s, sk_warnings := sk_warnings s\<rparr>" by simp
    ultimately obtain w ws where "(if NonFinite (snd p) then warn ''non-finite'' (non_finite_msg (fst p)) s else s) = s\<lparr>sk_warned := w, sk_warnings := ws\<rparr>"
      by metis
    with Cons[of "s\<lparr>sk_warned := w, sk_warnings := ws\<rparr>"] show ?case by (auto simp: case_prod_unfold)
  qed
  then show ?thesis by (simp add: warn_cells_def)
qed

lemma warn_cells_same [simp]:
  "sk_out (warn_cells row s) = sk_out s" "sk_columns (warn_cells row s) = sk_columns s" "sk_frame (warn_cells row s) = sk_frame s"
  "sk_opts (warn_cells row s) = sk_opts s" "sk_pending (warn_cells row s) = sk_pending s" "sk_closed (warn_cells row s) = sk_closed s"
  "sk_err (warn_cells row s) = sk_err s"
  using warn_cells_only[of row s] by auto

subsection \<open>What a sink has written\<close>

abbreviation batch_bound :: "Options \<Rightarrow> nat" where
  "batch_bound opts \<equiv> nat (max (BatchSize opts) 1)"

text \<open>A sink that has not failed has framed all the rows it took, in order, less those that wait.\<close>

definition delivered :: "'f framing \<Rightarrow> 'f \<Rightarrow> string \<Rightarrow> gv list list \<Rightarrow> 'f sink \<Rightarrow> bool" where
  "delivered F f0 start acc s \<longleftrightarrow> length (sk_pending s) < batch_bound (sk_opts s) \<and> (\<exists>bs t. concat bs @ sk_pending s = acc \<and>
     list_all (\<lambda>b. b \<noteq> [] \<and> length b \<le> batch_bound (sk_opts s)) bs \<and>
     batches F f0 bs = Some (sk_frame s, t) \<and> o_bytes (sk_out s) = start @ t)"

lemma framed_None: "framed p o1 = (f, o2, None) \<Longrightarrow> \<exists>b. p = (f, Some b) \<and> o_bytes o2 = o_bytes o1 @ b"
  by (auto simp: framed_def out_Write_def split: prod.splits option.splits list.splits if_splits)

lemma flushLocked_same:
  assumes "flushLocked F s = (s', e)"
  shows "sk_opts s' = sk_opts s" "sk_columns s' = sk_columns s" "sk_closed s' = sk_closed s" "e = sk_err s'" "sk_err s \<noteq> None \<Longrightarrow> sk_err s' = sk_err s"
  using assms by (auto simp: flushLocked_def Let_def split: prod.splits if_splits)

lemma flushLocked_delivered:
  assumes fl: "flushLocked F s = (s', None)"
    and bs: "concat bs @ sk_pending s = acc" "list_all (\<lambda>b. b \<noteq> [] \<and> length b \<le> batch_bound (sk_opts s)) bs"
    and t: "batches F f0 bs = Some (sk_frame s, t)" "o_bytes (sk_out s) = start @ t"
    and n: "length (sk_pending s) \<le> batch_bound (sk_opts s)"
  shows "delivered F f0 start acc s'" "sk_pending s' = []"
proof -
  have ok: "sk_err s = None" using flushLocked_same(4,5)[OF fl] by (cases "sk_err s") auto
  have "delivered F f0 start acc s' \<and> sk_pending s' = []"
  proof (cases "sk_pending s = []")
    case True
    then have "s' = s\<lparr>sk_timer := False\<rparr>" using fl ok by (simp add: flushLocked_def)
    then show ?thesis using True bs t by (auto simp: delivered_def)
  next
    case False
    then obtain f o1 where fr: "framed (fr_batch F (sk_frame s) (sk_pending s)) (sk_out s) = (f, o1, None)"
      and s': "s' = s\<lparr>sk_timer := False, sk_pending := [], sk_frame := f, sk_out := o1, sk_err := None\<rparr>"
      using fl ok by (auto simp: flushLocked_def Let_def split: prod.splits)
    obtain b where b: "fr_batch F (sk_frame s) (sk_pending s) = (f, Some b)" "o_bytes o1 = o_bytes (sk_out s) @ b"
      using framed_None[OF fr] by blast
    have "batches F f0 (bs @ [sk_pending s]) = Some (f, t @ b)" using t(1) b(1) by (simp add: batches_append)
    moreover have "concat (bs @ [sk_pending s]) @ [] = acc" using bs(1) by simp
    moreover have "list_all (\<lambda>b. b \<noteq> [] \<and> length b \<le> batch_bound (sk_opts s)) (bs @ [sk_pending s])" using bs(2) False n by simp
    moreover have "o_bytes o1 = start @ t @ b" using b(2) t(2) by simp
    ultimately show ?thesis unfolding delivered_def s' by fastforce
  qed
  then show "delivered F f0 start acc s'" "sk_pending s' = []" by simp_all
qed

lemma delivered_cong: "delivered F f0 start acc s \<Longrightarrow> sk_opts s' = sk_opts s \<Longrightarrow> sk_pending s' = sk_pending s \<Longrightarrow> sk_frame s' = sk_frame s \<Longrightarrow>
    sk_out s' = sk_out s \<Longrightarrow> delivered F f0 start acc s'"
  by (simp add: delivered_def)

lemma delivered_flush:
  assumes "delivered F f0 start acc s" "flushLocked F s = (s', None)"
  shows "delivered F f0 start acc s'" "sk_pending s' = []"
proof -
  obtain bs t where "length (sk_pending s) < batch_bound (sk_opts s)" "concat bs @ sk_pending s = acc"
    "list_all (\<lambda>b. b \<noteq> [] \<and> length b \<le> batch_bound (sk_opts s)) bs" "batches F f0 bs = Some (sk_frame s, t)" "o_bytes (sk_out s) = start @ t"
    using assms(1) by (auto simp: delivered_def)
  then show "delivered F f0 start acc s'" "sk_pending s' = []" using flushLocked_delivered[OF assms(2), of bs acc f0 t start] by auto
qed

lemma delivered_write:
  assumes d: "delivered F f0 start acc s" and w: "sink_Write F row s = (s', None)"
  shows "delivered F f0 start (acc @ [row_cells (sk_columns s) row]) s'"
proof -
  let ?c = "row_cells (sk_columns s) row" and ?w = "warn_cells row s"
  obtain bs t where d': "length (sk_pending s) < batch_bound (sk_opts s)" "concat bs @ sk_pending s = acc"
    "list_all (\<lambda>b. b \<noteq> [] \<and> length b \<le> batch_bound (sk_opts s)) bs" "batches F f0 bs = Some (sk_frame s, t)" "o_bytes (sk_out s) = start @ t"
    using d by (auto simp: delivered_def)
  let ?s = "?w\<lparr>sk_pending := sk_pending s @ [?c]\<rparr>"
  show ?thesis
  proof (cases "int (length (sk_pending s @ [?c])) \<ge> max (BatchSize (sk_opts s)) 1")
    case True
    then have "flushLocked F ?s = (s', None)" using w by (auto simp: sink_Write_def Let_def split: if_splits)
    from flushLocked_delivered(1)[OF this, of bs "acc @ [?c]" f0 t start] show ?thesis using d' by auto
  next
    case False
    then have same: "sk_pending s' = sk_pending s @ [?c]" "sk_opts s' = sk_opts s" "sk_frame s' = sk_frame s" "sk_out s' = sk_out s"
      using w by (auto simp: sink_Write_def Let_def split: if_splits)
    moreover have "length (sk_pending s @ [?c]) < batch_bound (sk_opts s)" using False by linarith
    moreover have "concat bs @ sk_pending s @ [?c] = acc @ [?c]" using d'(2) by auto
    ultimately show ?thesis unfolding delivered_def same using d'(3-5) by blast
  qed
qed

lemma sink_step_same:
  assumes "sink_step F x s = (s', e)"
  shows "sk_columns s' = sk_columns s" "sk_closed s' = sk_closed s" "sk_err s \<noteq> None \<Longrightarrow> sk_err s' = sk_err s"
    "\<not> sk_closed s \<Longrightarrow> e \<noteq> None \<Longrightarrow> sk_err s' \<noteq> None"
proof -
  have "sk_columns s' = sk_columns s \<and> sk_closed s' = sk_closed s \<and> (sk_err s \<noteq> None \<longrightarrow> sk_err s' = sk_err s) \<and>
      (\<not> sk_closed s \<longrightarrow> e \<noteq> None \<longrightarrow> sk_err s' \<noteq> None)"
  proof (cases x)
    case (OWrite row)
    show ?thesis
    proof (cases "sk_closed s \<or> sk_err s \<noteq> None \<or> \<not> int (length (sk_pending s) + 1) \<ge> max (BatchSize (sk_opts s)) 1")
      case True
      then show ?thesis using assms OWrite by (auto simp: sink_Write_def Let_def split: if_splits)
    next
      case False
      then have "flushLocked F (warn_cells row s\<lparr>sk_pending := sk_pending s @ [row_cells (sk_columns s) row]\<rparr>) = (s', e)"
        using assms OWrite by (auto simp: sink_Write_def Let_def)
      from flushLocked_same[OF this] False show ?thesis by auto
    qed
  next
    case OFlush
    then have "flushLocked F s = (s', e)" using assms by (simp add: sink_Flush_def)
    from flushLocked_same[OF this] show ?thesis by auto
  next
    case OFire
    show ?thesis
    proof (cases "sk_closed s")
      case True
      then show ?thesis using assms OFire by (auto simp: timer_fired_def)
    next
      case False
      then obtain e' where "flushLocked F (s\<lparr>sk_timer := False\<rparr>) = (s', e')" "e = None"
        using assms OFire by (auto simp: timer_fired_def Let_def prod_eq_iff)
      with flushLocked_same[OF this(1)] show ?thesis by auto
    qed
  qed
  then show "sk_columns s' = sk_columns s" "sk_closed s' = sk_closed s" "sk_err s \<noteq> None \<Longrightarrow> sk_err s' = sk_err s"
    "\<not> sk_closed s \<Longrightarrow> e \<noteq> None \<Longrightarrow> sk_err s' \<noteq> None" by auto
qed

lemma sink_run_sticky: "sink_run F xs s = (s', es) \<Longrightarrow> sk_err s \<noteq> None \<Longrightarrow> sk_err s' = sk_err s"
  by (induction xs arbitrary: s es) (auto split: prod.splits dest!: sink_step_same(3))

lemma Join_None [simp]: "Join [None] = []"
  by (simp add: Join_def List.map_filter_def)

lemma rows_of_Cons: "rows_of columns (x # xs) = rows_of columns [x] @ rows_of columns xs"
  by (cases x) (simp_all add: rows_of_def List.map_filter_def)

lemma delivered_step:
  assumes "delivered F f0 start acc s" "sink_step F x s = (s', e)" "\<not> sk_closed s" "sk_err s' = None"
  shows "e = None" "delivered F f0 start (acc @ rows_of (sk_columns s) [x]) s'"
proof -
  show e: "e = None" using sink_step_same(4)[OF assms(2,3)] assms(4) by (cases e) auto
  show "delivered F f0 start (acc @ rows_of (sk_columns s) [x]) s'"
  proof (cases x)
    case (OWrite row)
    then show ?thesis using delivered_write[OF assms(1), of row s'] assms(2) e by (simp add: rows_of_def List.map_filter_def)
  next
    case OFlush
    then show ?thesis using delivered_flush(1)[OF assms(1), of s'] assms(2) e by (simp add: rows_of_def sink_Flush_def List.map_filter_def)
  next
    case OFire
    then obtain e' where fl: "flushLocked F (s\<lparr>sk_timer := False\<rparr>) = (s', e')"
      using assms(2,3) by (auto simp: timer_fired_def Let_def prod_eq_iff)
    then have "e' = None" using flushLocked_same(4)[OF fl] assms(4) by simp
    moreover have "delivered F f0 start acc (s\<lparr>sk_timer := False\<rparr>)" by (rule delivered_cong[OF assms(1)]) simp_all
    ultimately show ?thesis using delivered_flush(1)[of F f0 start acc "s\<lparr>sk_timer := False\<rparr>" s'] fl OFire
      by (simp add: rows_of_def List.map_filter_def)
  qed
qed

lemma delivered_run:
  assumes "delivered F f0 start acc s" "sink_run F xs s = (s', es)" "\<not> sk_closed s" "sk_err s' = None"
  shows "es = [] \<and> delivered F f0 start (acc @ rows_of (sk_columns s) xs) s' \<and> \<not> sk_closed s'"
  using assms
proof (induction xs arbitrary: s acc es)
  case Nil
  then show ?case by (simp add: rows_of_def List.map_filter_def)
next
  case (Cons x xs)
  obtain s1 e where st: "sink_step F x s = (s1, e)" by (cases "sink_step F x s")
  obtain es1 where rn: "sink_run F xs s1 = (s', es1)" "es = Join [e] @ es1" using Cons.prems(2) st by (auto split: prod.splits)
  have ok: "sk_err s1 = None" using sink_run_sticky[OF rn(1)] Cons.prems(4) by (cases "sk_err s1") auto
  note d = delivered_step[OF Cons.prems(1) st Cons.prems(3) ok]
  have "sk_columns s1 = sk_columns s" "\<not> sk_closed s1" using sink_step_same(1,2)[OF st] Cons.prems(3) by simp_all
  then show ?case using Cons.IH[OF d(2) rn(1) _ Cons.prems(4)] rn(2) d(1) rows_of_Cons[of "sk_columns s" x xs] by simp
qed

lemma flushLocked_opts [simp]: "sk_opts (fst (flushLocked F s)) = sk_opts s"
  using flushLocked_same(1)[of F s "fst (flushLocked F s)" "snd (flushLocked F s)"] by simp

lemma sink_step_opts: "sink_step F x s = (s', e) \<Longrightarrow> sk_opts s' = sk_opts s"
  by (cases x) (auto simp: sink_Write_def sink_Flush_def timer_fired_def Let_def prod_eq_iff split: if_splits)

lemma sink_run_opts: "sink_run F xs s = (s', es) \<Longrightarrow> sk_opts s' = sk_opts s"
  by (induction xs arbitrary: s es) (auto split: prod.splits dest!: sink_step_opts)

lemma newSink_delivered:
  assumes "newSink (Some o1) columns opts f = Inr s"
  shows "delivered F f (o_bytes o1) [] s" "\<not> sk_closed s" "sk_err s = None" "sk_columns s = columns" "sk_opts s = opts"
  using assms by (auto simp: newSink_def delivered_def split: if_splits intro!: exI[of _ "[]"])

lemma sink_Close_delivered:
  assumes "delivered F f0 start acc s" "\<not> sk_closed s" "sink_Close F s = (s', None)"
  shows "\<exists>bs f t u f'. concat bs = acc \<and> list_all (\<lambda>b. b \<noteq> [] \<and> length b \<le> batch_bound (sk_opts s)) bs \<and>
    batches F f0 bs = Some (f, t) \<and> fr_end F f = (f', Some u) \<and> o_bytes (sk_out s') = start @ t @ u"
proof -
  obtain s1 e where fl: "flushLocked F s = (s1, e)" by (cases "flushLocked F s")
  have e: "e = None" using assms(2,3) fl by (auto simp: sink_Close_def Let_def split: if_splits prod.splits)
  note d = delivered_flush[OF assms(1) fl[unfolded e]]
  obtain f' o2 where fr: "framed (fr_end F (sk_frame s1)) (sk_out s1) = (f', o2, None)" and o2: "sk_out s' = o2"
    using assms(2,3) fl e by (auto simp: sink_Close_def Let_def split: prod.splits)
  from framed_None[OF fr] d o2 flushLocked_same(1)[OF fl] show ?thesis by (auto simp: delivered_def)
qed

lemma sink_run_closed: "sink_run F xs s0 = (s, es) \<Longrightarrow> sk_closed s = sk_closed s0"
  by (induction xs arbitrary: s0 es) (auto split: prod.splits dest!: sink_step_same(2))

lemma sink_Close_sticky: "\<not> sk_closed s \<Longrightarrow> sk_err s \<noteq> None \<Longrightarrow> sink_Close F s = (s', e) \<Longrightarrow> e = sk_err s"
  by (auto simp: sink_Close_def flushLocked_def Let_def)

lemma sink_closed_text:
  assumes "newSink (Some o1) columns opts f = Inr s0" "sink_run F xs s0 = (s, es)" "sink_Close F s = (s', None)"
  shows "es = [] \<and> (\<exists>bs f1 t u f2. concat bs = rows_of columns xs \<and>
       list_all (\<lambda>b. b \<noteq> [] \<and> length b \<le> batch_bound opts) bs \<and> batches F f bs = Some (f1, t) \<and>
       fr_end F f1 = (f2, Some u) \<and> o_bytes (sk_out s') = o_bytes o1 @ t @ u)"
proof -
  note n = newSink_delivered(1)[OF assms(1), of F] newSink_delivered(2-5)[OF assms(1)]
  have cl: "\<not> sk_closed s" using sink_run_closed[OF assms(2)] n(2) by simp
  have ok: "sk_err s = None" using sink_Close_sticky[OF cl _ assms(3)] by (cases "sk_err s") auto
  have d: "es = []" "delivered F f (o_bytes o1) (rows_of columns xs) s"
    using delivered_run[OF n(1) assms(2) n(2) ok] n(4) by simp_all
  then show ?thesis using sink_Close_delivered[OF d(2) cl assms(3)] sink_run_opts[OF assms(2)] n(5) by simp
qed

text \<open>C35: When closing a sink succeeds nothing was lost, whatever the interleaving of writes, flushes and the flush
  timer's callbacks: no operation and no callback before it had failed, for a failure is kept and Close returns it; and
  the output holds the framing's text of every row that was written, each once and in the order written, in batches of at
  most the batch size and never empty, then the framing's end.\<close>

theorem sink_loses_no_row:
  assumes "newSink (Some o1) columns opts f = Inr s0" "sink_run F xs s0 = (s, es)" "sink_Close F s = (s', None)"
  shows "es = [] \<and> sk_err s = None \<and> (\<exists>bs f1 t u f2. concat bs = rows_of columns xs \<and>
       list_all (\<lambda>b. b \<noteq> [] \<and> length b \<le> batch_bound opts) bs \<and> batches F f bs = Some (f1, t) \<and>
       fr_end F f1 = (f2, Some u) \<and> o_bytes (sk_out s') = o_bytes o1 @ t @ u)"
proof -
  have "\<not> sk_closed s" using sink_run_closed[OF assms(2)] newSink_delivered(2)[OF assms(1)] by simp
  then have "sk_err s = None" using sink_Close_sticky[of s F s' None] assms(3) by (cases "sk_err s") auto
  then show ?thesis using sink_closed_text[OF assms] by blast
qed

definition sample_sink :: "string list sink" where
  "sample_sink = \<lparr>sk_out = \<lparr>o_bytes = [], o_plan = []\<rparr>, sk_columns = [''a''], sk_frame = [''a''], sk_opts = \<lparr>BatchSize = 2, FlushInterval = 5\<rparr>,
      sk_pending = [], sk_timer = False, sk_closed = False, sk_err = None, sk_warned = [], sk_warnings = []\<rparr>"

theorem sink_loses_no_row_witness:
  "let xs = [OWrite [(''a'', GInt 1)], OFire, OFlush, OWrite [(''b'', GNil)]];
       r = sink_run jsonl_framing xs sample_sink; c = sink_Close jsonl_framing (fst r) in
   snd r = [] \<and> sk_err (fst r) = None \<and> (\<exists>bs f1 t u f2. concat bs = rows_of [''a''] xs \<and>
       list_all (\<lambda>b. b \<noteq> [] \<and> length b \<le> batch_bound \<lparr>BatchSize = 2, FlushInterval = 5\<rparr>) bs \<and> batches jsonl_framing [''a''] bs = Some (f1, t) \<and>
       fr_end jsonl_framing f1 = (f2, Some u) \<and> o_bytes (sk_out (fst c)) = o_bytes \<lparr>o_bytes = [], o_plan = []\<rparr> @ t @ u)"
proof -
  let ?xs = "[OWrite [(''a'', GInt 1)], OFire, OFlush, OWrite [(''b'', GNil)]]"
  have new: "newSink (Some \<lparr>o_bytes = [], o_plan = []\<rparr>) [''a''] \<lparr>BatchSize = 2, FlushInterval = 5\<rparr> [''a''] = Inr sample_sink"
    by (simp add: newSink_def sample_sink_def)
  have "snd (sink_Close jsonl_framing (fst (sink_run jsonl_framing ?xs sample_sink))) = None" by code_simp
  then have "sink_Close jsonl_framing (fst (sink_run jsonl_framing ?xs sample_sink)) =
      (fst (sink_Close jsonl_framing (fst (sink_run jsonl_framing ?xs sample_sink))), None)" by (simp add: prod_eq_iff)
  from sink_loses_no_row[OF new surjective_pairing this] show ?thesis unfolding Let_def .
qed

subsection \<open>Batching does not show in lines\<close>

text \<open>A framing whose text of some rows is the same in one batch as in two.\<close>

locale row_framing =
  fixes F :: "'f framing"
  assumes split_batch: "fr_batch F f a = (f1, Some t) \<Longrightarrow> fr_batch F f1 b = (f2, Some u) \<Longrightarrow> fr_batch F f (a @ b) = (f2, Some (t @ u))"
begin

lemma batches_concat: "batches F f (b # bs) = Some (f1, t) \<Longrightarrow> fr_batch F f (concat (b # bs)) = (f1, Some t)"
proof (induction bs arbitrary: b f t)
  case Nil
  then show ?case by (auto split: prod.splits option.splits)
next
  case (Cons c bs)
  obtain f' u where u: "fr_batch F f b = (f', Some u)" using Cons.prems by (auto split: prod.splits option.splits)
  then obtain v where v: "batches F f' (c # bs) = Some (f1, v)" "t = u @ v" using Cons.prems by (auto split: option.splits)
  show ?case using split_batch[OF u Cons.IH[OF v(1)]] v(2) by simp
qed

lemma same_in_one_batch:
  assumes "batches F f bs = Some (f1, t)" "batches F f cs = Some (f2, u)" "concat bs = concat cs" "bs \<noteq> []" "cs \<noteq> []"
  shows "f1 = f2" "t = u"
proof -
  obtain b bs' c cs' where "bs = b # bs'" "cs = c # cs'" using assms(4,5) by (auto simp: neq_Nil_conv)
  then have "fr_batch F f (concat bs) = (f1, Some t)" "fr_batch F f (concat cs) = (f2, Some u)"
    using batches_concat assms(1,2) by blast+
  then show "f1 = f2" "t = u" using assms(3) by simp_all
qed

end

interpretation jsonl: row_framing jsonl_framing
  by unfold_locales (auto simp: jsonl_framing_def jsonl_batch_def)

interpretation delim: row_framing delimited_framing
  by unfold_locales (auto simp: delimited_framing_def delimited_batch_def delimited_header_def split: if_splits prod.splits)

lemma delimited_batches:
  assumes "batches delimited_framing f bs = Some (f1, t)" "fr_end delimited_framing f1 = (f2, Some u)" "\<not> dl_headed f"
  shows "t @ u = delimited_run f bs"
proof -
  have run: "batches delimited_framing f bs = Some (f1, t) \<Longrightarrow> fold delimited_step bs (f, out) = (f1, out @ t)" for f t out
  proof (induction bs arbitrary: f t out)
    case (Cons b bs)
    obtain f' v where v: "delimited_batch f b = (f', v)" by (cases "delimited_batch f b")
    then obtain w where "batches delimited_framing f' bs = Some (f1, w)" "t = v @ w"
      using Cons.prems by (auto simp: delimited_framing_def)
    with Cons.IH[of f' w "out @ v"] v show ?case by simp
  qed simp
  have "snd (delimited_end f1) = u" using assms(2) by (cases "delimited_end f1") (simp add: delimited_framing_def)
  then show ?thesis using run[OF assms(1), of "[]"] by (simp add: delimited_run_def)
qed

lemma rows_of_length: "list_all (\<lambda>r. length r = length columns) (rows_of columns xs)"
proof (induction xs)
  case (Cons x xs)
  have "list_all (\<lambda>r. length r = length columns) (rows_of columns [x])"
    by (cases x) (simp_all add: rows_of_def List.map_filter_def row_cells_def)
  with Cons show ?case unfolding rows_of_Cons[of columns x xs] list_all_append by blast
qed (simp add: rows_of_def List.map_filter_def)

text \<open>A framing that never fails over an output that never fails: neither does the sink.\<close>

definition healthy :: "'f sink \<Rightarrow> bool" where
  "healthy s \<longleftrightarrow> sk_err s = None \<and> o_plan (sk_out s) = []"

definition total_framing :: "'f framing \<Rightarrow> bool" where
  "total_framing F \<longleftrightarrow> (\<forall>f b. snd (fr_batch F f b) \<noteq> None) \<and> (\<forall>f. snd (fr_end F f) \<noteq> None)"

lemma framed_healthy: "snd p \<noteq> None \<Longrightarrow> o_plan o1 = [] \<Longrightarrow> \<exists>f o2. framed p o1 = (f, o2, None) \<and> o_plan o2 = []"
  by (cases p) (auto simp: framed_def out_Write_def)

lemma flushLocked_healthy:
  assumes "total_framing F" "healthy s"
  shows "healthy (fst (flushLocked F s))" "snd (flushLocked F s) = None"
proof -
  have "healthy (fst (flushLocked F s)) \<and> snd (flushLocked F s) = None"
  proof (cases "sk_pending s = []")
    case False
    have "snd (fr_batch F (sk_frame s) (sk_pending s)) \<noteq> None" using assms(1) by (simp add: total_framing_def)
    with framed_healthy[OF this, of "sk_out s"] assms(2) False show ?thesis by (auto simp: healthy_def flushLocked_def)
  qed (use assms(2) in \<open>simp add: flushLocked_def healthy_def\<close>)
  then show "healthy (fst (flushLocked F s))" "snd (flushLocked F s) = None" by simp_all
qed

lemma sink_run_healthy:
  assumes "total_framing F" "healthy s"
  shows "healthy (fst (sink_run F xs s))"
  using assms(2)
proof (induction xs arbitrary: s)
  case (Cons x xs)
  have "healthy (fst (sink_step F x s))"
  proof (cases x)
    case (OWrite row)
    have "healthy (fst (sink_Write F row s))"
      using Cons.prems by (auto simp: sink_Write_def Let_def healthy_def[of "warn_cells row s"] healthy_def
          intro!: flushLocked_healthy(1)[OF assms(1), unfolded healthy_def, THEN conjunct1] flushLocked_healthy(1)[OF assms(1), unfolded healthy_def, THEN conjunct2])
    then show ?thesis using OWrite by simp
  next
    case OFlush
    then show ?thesis using flushLocked_healthy(1)[OF assms(1) Cons.prems] by (simp add: sink_Flush_def)
  next
    case OFire
    have "healthy (s\<lparr>sk_timer := False\<rparr>)" using Cons.prems by (simp add: healthy_def)
    then show ?thesis using OFire flushLocked_healthy(1)[OF assms(1)] by (simp add: timer_fired_def Let_def)
  qed
  then show ?case using Cons.IH by (simp add: case_prod_unfold)
qed simp

lemma sink_Close_healthy:
  assumes "total_framing F" "healthy s"
  shows "snd (sink_Close F s) = None"
proof (cases "sk_closed s")
  case True
  then show ?thesis using assms(2) by (simp add: sink_Close_def healthy_def)
next
  case False
  obtain s1 where s1: "flushLocked F s = (s1, None)" "healthy s1"
    using flushLocked_healthy[OF assms] by (cases "flushLocked F s") auto
  have "snd (fr_end F (sk_frame s1)) \<noteq> None" using assms(1) by (simp add: total_framing_def)
  from framed_healthy[OF this, of "sk_out s1"] s1 False show ?thesis by (auto simp: sink_Close_def healthy_def)
qed

lemma framings_total: "total_framing jsonl_framing" "total_framing delimited_framing" "total_framing table_framing"
  by (simp_all add: total_framing_def jsonl_framing_def delimited_framing_def table_framing_def)



subsection \<open>Copying a cursor\<close>

lemma Copy_run: "snd (sink_run F (map OWrite rs) s) = [] \<Longrightarrow> Copy F rs serr s =
    (fst (sink_Close F (fst (sink_run F (map OWrite rs) s))), Join [serr, snd (sink_Close F (fst (sink_run F (map OWrite rs) s)))])"
proof (induction rs arbitrary: s)
  case (Cons r rs)
  obtain s1 e where w: "sink_Write F r s = (s1, e)" by (cases "sink_Write F r s")
  have j: "Join [e] = []" "snd (sink_run F (map OWrite rs) s1) = []" using Cons.prems w by (simp_all add: case_prod_unfold)
  then have "e = None" by (cases e) (simp_all add: Join_def List.map_filter_def)
  then show ?case using Cons.IH[OF j(2)] w by (simp add: case_prod_unfold)
qed (simp add: case_prod_unfold)

lemma Join_pair: "Join [a, b] = Join [a] @ Join [b]"
  by (simp add: Join_def List.map_filter_def)

lemma rows_of_writes: "rows_of columns (map OWrite rs) = map (row_cells columns) rs"
  by (induction rs) (simp_all add: rows_of_def List.map_filter_def)

text \<open>A source that fails midway still has every row it gave written, and its failure is what is returned.\<close>

theorem Copy_writes_what_was_read:
  assumes "newSink (Some o1) columns opts f = Inr s0" "total_framing F" "o_plan o1 = []"
  shows "\<exists>s' bs f1 t u f2. Copy F rs serr s0 = (s', Join [serr]) \<and> concat bs = map (row_cells columns) rs \<and>
    batches F f bs = Some (f1, t) \<and> fr_end F f1 = (f2, Some u) \<and> o_bytes (sk_out s') = o_bytes o1 @ t @ u"
proof -
  let ?r = "sink_run F (map OWrite rs) s0"
  have h: "healthy s0" using assms(1,3) by (auto simp: newSink_def healthy_def split: if_splits)
  let ?c = "sink_Close F (fst ?r)"
  have c: "snd ?c = None" by (intro sink_Close_healthy sink_run_healthy assms(2) h)
  then have "?c = (fst ?c, None)" by (simp add: prod_eq_iff)
  from sink_closed_text[OF assms(1) surjective_pairing this] have t: "snd ?r = []"
    "\<exists>bs f1 t u f2. concat bs = rows_of columns (map OWrite rs) \<and> list_all (\<lambda>b. b \<noteq> [] \<and> length b \<le> batch_bound opts) bs \<and>
      batches F f bs = Some (f1, t) \<and> fr_end F f1 = (f2, Some u) \<and> o_bytes (sk_out (fst ?c)) = o_bytes o1 @ t @ u" by simp_all
  have "Copy F rs serr s0 = (fst ?c, Join [serr])" using Copy_run[OF t(1)] c by (simp add: Join_pair)
  with t(2) show ?thesis unfolding rows_of_writes by blast
qed

end
