(* ===== verification/Secret_Store.thy ===== *)
theory Secret_Store
  imports Encode Base64
begin

section \<open>The secret file: internal/secretstore\<close>

text \<open>
  Secrets in one JSON file, names to base64 text, replaced as a whole by renaming a temporary file over it
  while an exclusive lock file keeps other writers out. Any number of parties, goroutines and processes,
  work on it at once; each call to the operating system is a step of its own and may fail, and a party may
  stop at any step for ever; the mutex of one process only takes interleavings away. Readers take no lock
  file. A rename that reports an error has not happened, and names are valid UTF-8, which \<open>Json\<close> passes through. The main result is that the store is linearizable:
  every history of committed updates and of reads is one of a plain map, and nothing is updated twice.
\<close>

record secret_file =
  sf_text :: string
  sf_regular :: bool
  sf_private :: bool

abbreviation max_store :: nat where "max_store \<equiv> 67108864"

definition validKey :: "string \<Rightarrow> bool" where
  "validKey k \<longleftrightarrow> k \<noteq> []"

subsection \<open>Reading and writing the file\<close>

text \<open>What encoding/json makes of a member of a map of byte slices: base64 text, null, or an array of bytes.\<close>

definition byte_of :: "json \<Rightarrow> char option" where
  "byte_of j = (case j of JNull \<Rightarrow> Some CHR 0x00
     | JNum n \<Rightarrow> (case parse_nat n of Some b \<Rightarrow> if b < 256 then Some (char_of b) else None | None \<Rightarrow> None)
     | _ \<Rightarrow> None)"

definition slice_of :: "json \<Rightarrow> bytes option" where
  "slice_of j = (case j of JNull \<Rightarrow> Some None
     | JStr s \<Rightarrow> map_option Some (b64_decode s)
     | JArr xs \<Rightarrow> map_option Some (those (map byte_of xs))
     | _ \<Rightarrow> None)"

definition decode_values :: "json \<Rightarrow> (string, bytes) gomap option" where
  "decode_values j = (case j of
     JObj m \<Rightarrow> map_option members (those (map (\<lambda>(k, v). map_option (Pair k) (slice_of v)) m))
   | _ \<Rightarrow> None)"

text \<open>The file's system calls are told to succeed or not; a missing file is an empty store.\<close>

definition secret_read :: "bool \<Rightarrow> bool \<Rightarrow> secret_file option \<Rightarrow> err + (string, bytes) gomap" where
  "secret_read lstat_ok open_ok f = (if \<not> lstat_ok then Inl (ErrOther ''lstat'')
     else (case f of None \<Rightarrow> Inr []
       | Some f \<Rightarrow>
         if length (sf_text f) > max_store then Inl (ErrOther ''secret store exceeds 64 MiB'')
         else if \<not> sf_regular f \<or> \<not> sf_private f then Inl (ErrOther ''secret store must be a private regular file (0600)'')
         else if \<not> open_ok then Inl (ErrOther ''open'')
         else (case parse_json (sf_text f) of None \<Rightarrow> Inl (ErrOther ''invalid secret store file'')
           | Some (j, rest) \<Rightarrow> (case decode_values j of None \<Rightarrow> Inl (ErrOther ''invalid secret store file'')
             | Some values \<Rightarrow> if list_all is_ws rest then Inr values else Inl (ErrOther ''invalid secret store trailing data'')))))"

definition secret_marshal :: "(string, bytes) gomap \<Rightarrow> string" where
  "secret_marshal m = print_json (JObj (sort_key fst (map (\<lambda>(k, v). (k, case v of None \<Rightarrow> JNull | Some b \<Rightarrow> JStr (b64_encode b))) m)))"

text \<open>The context is told to be done before the mutex is held, after it, or after the file was read.\<close>

definition secret_Get :: "bool \<Rightarrow> bool \<Rightarrow> bool \<Rightarrow> bool \<Rightarrow> secret_file option \<Rightarrow> string \<Rightarrow> err + bytes" where
  "secret_Get done_before done_after lstat_ok open_ok f key = (if \<not> validKey key then Inl (ErrOther ''secret name is required'')
     else if done_before then Inl (ErrOther ''context done'')
     else rbind (secret_read lstat_ok open_ok f) (\<lambda>values.
       if done_after then Inl (ErrOther ''context done'')
       else (case gm_get values key of None \<Rightarrow> Inl (ErrOther ''secret not found'') | Some v \<Rightarrow> Inr v)))"

datatype secret_update = USet string bytes | UDelete string

definition update_key :: "secret_update \<Rightarrow> string" where
  "update_key u = (case u of USet k _ \<Rightarrow> k | UDelete k \<Rightarrow> k)"

definition secret_edit :: "secret_update \<Rightarrow> (string, bytes) gomap \<Rightarrow> err + (string, bytes) gomap" where
  "secret_edit u m = (case u of USet k v \<Rightarrow> Inr (gm_set k v m)
     | UDelete k \<Rightarrow> if gm_get m k = None then Inl (ErrOther ''secret not found'') else Inr (gm_del k m))"

text \<open>The text an update is going to put in place: read, edit, encode, and the limit on its size.\<close>

definition secret_prepare :: "bool \<Rightarrow> bool \<Rightarrow> secret_file option \<Rightarrow> secret_update \<Rightarrow> err + string" where
  "secret_prepare lstat_ok open_ok f u = rbind (secret_read lstat_ok open_ok f) (\<lambda>values. rbind (secret_edit u values) (\<lambda>values.
     let data = secret_marshal values in
     if length data \<ge> max_store then Inl (ErrOther ''secret store exceeds 64 MiB'') else Inr data))"

subsection \<open>Parties at work\<close>

datatype phase = Idle | Waiting secret_update | Holding secret_update | Prepared secret_update string | Staged secret_update string
  | Renamed secret_update | Failing secret_update err

datatype outcome = Success | Unsynced | Failed err

datatype event = Commit nat secret_update | Got string "err + bytes"

record store_state =
  st_file :: "secret_file option"
  st_lock :: bool
  st_phase :: "nat \<Rightarrow> phase"
  st_events :: "event list"
  st_done :: "(nat \<times> secret_update \<times> outcome) list"

abbreviation at_phase :: "nat \<Rightarrow> phase \<Rightarrow> store_state \<Rightarrow> store_state" where
  "at_phase p ph s \<equiv> s\<lparr>st_phase := (st_phase s)(p := ph)\<rparr>"

text \<open>
  The steps of \<open>update\<close>: entering with a name (or being turned away, for want of a name, of the mutex or of the directory), creating the lock file, giving up the wait, reading and
  editing, writing and syncing the temporary file, renaming it, and the deferred removal of the lock file,
  which itself may fail and leave it. Any step may fail instead. Reading is one step, without the lock file.
\<close>

inductive store_step :: "store_state \<Rightarrow> store_state \<Rightarrow> bool" where
  s_enter: "st_phase s p = Idle \<Longrightarrow> validKey (update_key u) \<Longrightarrow> store_step s (at_phase p (Waiting u) s)"
| s_reject: "st_phase s p = Idle \<Longrightarrow> store_step s (s\<lparr>st_done := st_done s @ [(p, u, Failed e)]\<rparr>)"
| s_lock: "st_phase s p = Waiting u \<Longrightarrow> \<not> st_lock s \<Longrightarrow> store_step s ((at_phase p (Holding u) s)\<lparr>st_lock := True\<rparr>)"
| s_give_up: "st_phase s p = Waiting u \<Longrightarrow> store_step s ((at_phase p Idle s)\<lparr>st_done := st_done s @ [(p, u, Failed e)]\<rparr>)"
| s_prepare: "st_phase s p = Holding u \<Longrightarrow> secret_prepare l op (st_file s) u = Inr data \<Longrightarrow> store_step s (at_phase p (Prepared u data) s)"
| s_refused: "st_phase s p = Holding u \<Longrightarrow> secret_prepare l op (st_file s) u = Inl e \<Longrightarrow> store_step s (at_phase p (Failing u e) s)"
| s_stage: "st_phase s p = Prepared u data \<Longrightarrow> store_step s (at_phase p (Staged u data) s)"
| s_stage_fails: "st_phase s p = Prepared u data \<Longrightarrow> store_step s (at_phase p (Failing u e) s)"
| s_rename: "st_phase s p = Staged u data \<Longrightarrow>
    store_step s ((at_phase p (Renamed u) s)\<lparr>st_file := Some \<lparr>sf_text = data, sf_regular = True, sf_private = True\<rparr>, st_events := st_events s @ [Commit p u]\<rparr>)"
| s_rename_fails: "st_phase s p = Staged u data \<Longrightarrow> store_step s (at_phase p (Failing u e) s)"
| s_finish: "st_phase s p = Renamed u \<Longrightarrow> out = Success \<or> out = Unsynced \<Longrightarrow>
    store_step s ((at_phase p Idle s)\<lparr>st_lock := stale, st_done := st_done s @ [(p, u, out)]\<rparr>)"
| s_fail: "st_phase s p = Failing u e \<Longrightarrow>
    store_step s ((at_phase p Idle s)\<lparr>st_lock := stale, st_done := st_done s @ [(p, u, Failed e)]\<rparr>)"
| s_get: "secret_Get b a l op (st_file s) key = r \<Longrightarrow> store_step s (s\<lparr>st_events := st_events s @ [Got key r]\<rparr>)"

definition store_init :: "secret_file option \<Rightarrow> store_state" where
  "store_init f = \<lparr>st_file = f, st_lock = False, st_phase = (\<lambda>_. Idle), st_events = [], st_done = []\<rparr>"

inductive store_reach :: "secret_file option \<Rightarrow> store_state \<Rightarrow> bool" for f where
  reach_init: "store_reach f (store_init f)"
| reach_next: "store_reach f s \<Longrightarrow> store_step s t \<Longrightarrow> store_reach f t"

subsection \<open>The file reads back\<close>

definition value_json :: "bytes \<Rightarrow> json" where
  "value_json v = (case v of None \<Rightarrow> JNull | Some b \<Rightarrow> JStr (b64_encode b))"

lemma slice_of_value [simp]: "slice_of (value_json v) = Some v"
  by (cases v) (simp_all add: value_json_def slice_of_def)

lemma secret_marshal_eq: "secret_marshal m = print_json (JObj (map (\<lambda>(k, v). (k, value_json v)) (sort_key fst m)))"
  unfolding secret_marshal_def value_json_def[symmetric] sort_key_map ..

lemma secret_marshal_reads:
  assumes "gm_wf m"
  shows "parse_json (secret_marshal m) = Some (JObj (map (\<lambda>(k, v). (k, value_json v)) (sort_key fst m)), [])"
    "decode_values (JObj (map (\<lambda>(k, v). (k, value_json v)) (sort_key fst m))) = Some (sort_key fst m)"
proof -
  have "printable (value_json v)" for v by (cases v) (simp_all add: value_json_def)
  then have "printable (JObj (map (\<lambda>(k, v). (k, value_json v)) (sort_key fst m)))" by (auto simp: list_all_iff)
  from parse_print[OF this, of "[]"] show "parse_json (secret_marshal m) = Some (JObj (map (\<lambda>(k, v). (k, value_json v)) (sort_key fst m)), [])"
    by (simp add: secret_marshal_eq)
  have "map (\<lambda>(k, v). map_option (Pair k) (slice_of v)) (map (\<lambda>(k, v). (k, value_json v)) (sort_key fst m)) = map (\<lambda>p. Some (id p)) (sort_key fst m)"
    by (auto simp: case_prod_unfold)
  then have "those (map (\<lambda>(k, v). map_option (Pair k) (slice_of v)) (map (\<lambda>(k, v). (k, value_json v)) (sort_key fst m))) = Some (sort_key fst m)"
    by (simp only: those_map_Some) simp
  moreover have "distinct (map fst (sort_key fst m))" using assms by (auto simp: gm_wf_def distinct_map)
  ultimately show "decode_values (JObj (map (\<lambda>(k, v). (k, value_json v)) (sort_key fst m))) = Some (sort_key fst m)"
    by (simp add: decode_values_def members_id)
qed

text \<open>The map a file holds, where it can be read.\<close>

definition holds_map :: "secret_file option \<Rightarrow> (string \<rightharpoonup> bytes) \<Rightarrow> bool" where
  "holds_map f g \<longleftrightarrow> (\<exists>m. secret_read True True f = Inr m \<and> gm_wf m \<and> gm_get m = g)"

lemma read_any: "secret_read l op f = Inr m \<Longrightarrow> secret_read True True f = Inr m"
  by (auto simp: secret_read_def split: if_splits option.splits)

lemma sorted_lookup: "gm_wf m \<Longrightarrow> gm_get (sort_key fst m) = gm_get m"
  by (intro map_of_eqI) (auto simp: gm_wf_def distinct_map map_of_eq_Some_iff intro!: ext)

lemma holds_written:
  assumes "gm_wf m" "length (secret_marshal m) < max_store"
  shows "holds_map (Some \<lparr>sf_text = secret_marshal m, sf_regular = True, sf_private = True\<rparr>) (gm_get m)"
proof -
  have "gm_wf (sort_key fst m)" using assms(1) by (auto simp: gm_wf_def distinct_map)
  then show ?thesis
    using secret_marshal_reads[OF assms(1)] assms sorted_lookup[OF assms(1)]
    by (auto simp: holds_map_def secret_read_def)
qed

subsection \<open>The specification\<close>

definition spec_update :: "secret_update \<Rightarrow> (string \<rightharpoonup> bytes) \<Rightarrow> (string \<rightharpoonup> bytes) option" where
  "spec_update u g = (case u of USet k v \<Rightarrow> Some (g(k \<mapsto> v)) | UDelete k \<Rightarrow> if g k = None then None else Some (g(k := None)))"

definition spec_get :: "string \<Rightarrow> (string \<rightharpoonup> bytes) \<Rightarrow> err + bytes \<Rightarrow> bool" where
  "spec_get k g r \<longleftrightarrow> (case r of Inr v \<Rightarrow> k \<noteq> [] \<and> g k = Some v | Inl e \<Rightarrow> e = ErrOther ''secret not found'' \<longrightarrow> g k = None)"

text \<open>A sequence of events a plain map could have shown, and the map it ends with.\<close>

fun legal :: "(string \<rightharpoonup> bytes) \<Rightarrow> event list \<Rightarrow> (string \<rightharpoonup> bytes) \<Rightarrow> bool" where
  "legal g [] h \<longleftrightarrow> g = h"
| "legal g (Commit p u # es) h \<longleftrightarrow> (\<exists>g'. spec_update u g = Some g' \<and> legal g' es h)"
| "legal g (Got k r # es) h \<longleftrightarrow> spec_get k g r \<and> legal g es h"

lemma legal_snoc: "legal g (es @ [e]) h \<longleftrightarrow> (\<exists>g'. legal g es g' \<and> legal g' [e] h)"
  by (induction g es h rule: legal.induct) auto

lemma secret_edit_spec:
  assumes "gm_wf m"
  shows "secret_edit u m = Inr m' \<Longrightarrow> gm_wf m' \<and> spec_update u (gm_get m) = Some (gm_get m')"
  using assms by (cases u) (auto simp: secret_edit_def spec_update_def split: if_splits)

subsection \<open>Every history is one of a plain map\<close>

definition committed :: "nat \<Rightarrow> event list \<Rightarrow> secret_update list" where
  "committed p es = List.map_filter (\<lambda>e. case e of Commit q u \<Rightarrow> if q = p then Some u else None | _ \<Rightarrow> None) es"

definition reported :: "nat \<Rightarrow> (nat \<times> secret_update \<times> outcome) list \<Rightarrow> secret_update list" where
  "reported p ds = List.map_filter (\<lambda>(q, u, r). if q = p \<and> (r = Success \<or> r = Unsynced) then Some u else None) ds"

definition underway :: "phase \<Rightarrow> secret_update list" where
  "underway ph = (case ph of Renamed u \<Rightarrow> [u] | _ \<Rightarrow> [])"

fun critical :: "phase \<Rightarrow> bool" where
  "critical Idle = False"
| "critical (Waiting u) = False"
| "critical _ = True"

definition prepared_ok :: "(string \<rightharpoonup> bytes) \<Rightarrow> secret_update \<Rightarrow> string \<Rightarrow> bool" where
  "prepared_ok g u data \<longleftrightarrow> (\<exists>m. gm_wf m \<and> data = secret_marshal m \<and> length data < max_store \<and> spec_update u g = Some (gm_get m))"

definition prepared_all :: "(string \<rightharpoonup> bytes) \<Rightarrow> (nat \<Rightarrow> phase) \<Rightarrow> bool" where
  "prepared_all g ph \<longleftrightarrow> (\<forall>p u data. ph p = Prepared u data \<or> ph p = Staged u data \<longrightarrow> prepared_ok g u data)"

text \<open>What the file holds is what the events left, and what is prepared follows from it; one party at most is past the
  lock; the committed updates are those reported and those under way.\<close>

definition content_ok :: "(string \<rightharpoonup> bytes) \<Rightarrow> store_state \<Rightarrow> bool" where
  "content_ok g0 s \<longleftrightarrow> (\<exists>g. holds_map (st_file s) g \<and> legal g0 (st_events s) g \<and> prepared_all g (st_phase s))"

definition lock_ok :: "store_state \<Rightarrow> bool" where
  "lock_ok s \<longleftrightarrow> (\<forall>p. critical (st_phase s p) \<longrightarrow> st_lock s \<and> (\<forall>q. critical (st_phase s q) \<longrightarrow> q = p))"

definition account_ok :: "store_state \<Rightarrow> bool" where
  "account_ok s \<longleftrightarrow> (\<forall>p. committed p (st_events s) = reported p (st_done s) @ underway (st_phase s p))"

lemma committed_snoc [simp]: "committed p (es @ [e]) = committed p es @ (case e of Commit q u \<Rightarrow> if q = p then [u] else [] | _ \<Rightarrow> [])"
  by (cases e) (simp_all add: committed_def List.map_filter_def)

lemma reported_snoc [simp]: "reported p (ds @ [(q, u, r)]) = reported p ds @ (if q = p \<and> (r = Success \<or> r = Unsynced) then [u] else [])"
  by (simp add: reported_def List.map_filter_def)

lemma prepare_ok:
  assumes "holds_map f g" "secret_prepare l op f u = Inr data"
  shows "prepared_ok g u data"
proof -
  obtain m where m: "secret_read l op f = Inr m" "rbind (secret_edit u m) (\<lambda>values. let data = secret_marshal values in
     if length data \<ge> max_store then Inl (ErrOther ''secret store exceeds 64 MiB'') else Inr data) = Inr data"
    using assms(2) by (auto simp: secret_prepare_def rbind_Inr_iff)
  obtain m' where m': "secret_edit u m = Inr m'" "data = secret_marshal m'" "length data < max_store"
    using m(2) by (auto simp: rbind_Inr_iff Let_def split: if_splits)
  have "gm_wf m" "gm_get m = g" using assms(1) read_any[OF m(1)] by (auto simp: holds_map_def)
  then show ?thesis using secret_edit_spec[of m u m'] m' by (auto simp: prepared_ok_def)
qed

lemma get_ok:
  assumes "holds_map f g"
  shows "spec_get k g (secret_Get b a l op f k)"
proof (cases "secret_read l op f")
  case (Inl e)
  then have "e \<noteq> ErrOther ''secret not found''" by (auto simp: secret_read_def split: if_splits option.splits)
  then show ?thesis using Inl by (simp add: secret_Get_def spec_get_def)
next
  case (Inr m)
  have "gm_get m = g" using assms read_any[OF Inr] by (auto simp: holds_map_def)
  then show ?thesis using Inr by (auto simp: secret_Get_def spec_get_def validKey_def split: option.splits)
qed

lemma lock_ok_same:
  assumes "lock_ok s" "st_phase t = (st_phase s)(p := new)" "critical new \<Longrightarrow> critical (st_phase s p)"
    "st_lock t = st_lock s \<or> critical (st_phase s p) \<and> \<not> critical new"
  shows "lock_ok t"
  unfolding lock_ok_def
proof (intro allI impI)
  fix r assume "critical (st_phase t r)"
  then have r: "critical (st_phase s r)" "r = p \<longrightarrow> critical new" using assms(2,3) by (auto split: if_splits)
  have one: "q = r" if "critical (st_phase t q)" for q
  proof -
    have "critical (st_phase s q)" using that assms(2,3) by (auto split: if_splits)
    then show ?thesis using assms(1) r(1) unfolding lock_ok_def by blast
  qed
  have "st_lock s" "critical (st_phase s p) \<longrightarrow> p = r" using assms(1) r(1) unfolding lock_ok_def by blast+
  then show "st_lock t \<and> (\<forall>q. critical (st_phase t q) \<longrightarrow> q = r)" using assms(4) r(2) one by blast
qed

lemma lock_ok_step:
  assumes "store_step s t" "lock_ok s"
  shows "lock_ok t"
  using assms(1)
proof (cases rule: store_step.cases)
  case (s_lock p u)
  then have "\<not> critical (st_phase s q)" for q using assms(2) unfolding lock_ok_def by blast
  then show ?thesis using s_lock(1) by (auto simp: lock_ok_def split: if_splits)
next
  case (s_get b a l op key r)
  then show ?thesis using assms(2) by (simp add: lock_ok_def)
next
  case (s_reject p u e)
  then show ?thesis using assms(2) by (simp add: lock_ok_def)
next
  case (s_enter p u)
  show ?thesis by (rule lock_ok_same[OF assms(2), where p = p and new = "Waiting u"]) (use s_enter in auto)
next
  case (s_give_up p u e)
  show ?thesis by (rule lock_ok_same[OF assms(2), where p = p and new = "Idle"]) (use s_give_up in auto)
next
  case (s_prepare p u l op data)
  show ?thesis by (rule lock_ok_same[OF assms(2), where p = p and new = "Prepared u data"]) (use s_prepare in auto)
next
  case (s_refused p u l op e)
  show ?thesis by (rule lock_ok_same[OF assms(2), where p = p and new = "Failing u e"]) (use s_refused in auto)
next
  case (s_stage p u data)
  show ?thesis by (rule lock_ok_same[OF assms(2), where p = p and new = "Staged u data"]) (use s_stage in auto)
next
  case (s_stage_fails p u data e)
  show ?thesis by (rule lock_ok_same[OF assms(2), where p = p and new = "Failing u e"]) (use s_stage_fails in auto)
next
  case (s_rename p u data)
  show ?thesis by (rule lock_ok_same[OF assms(2), where p = p and new = "Renamed u"]) (use s_rename in auto)
next
  case (s_rename_fails p u data e)
  show ?thesis by (rule lock_ok_same[OF assms(2), where p = p and new = "Failing u e"]) (use s_rename_fails in auto)
next
  case (s_finish p u out stale)
  show ?thesis by (rule lock_ok_same[OF assms(2), where p = p and new = "Idle"]) (use s_finish in auto)
next
  case (s_fail p u e stale)
  show ?thesis by (rule lock_ok_same[OF assms(2), where p = p and new = "Idle"]) (use s_fail in auto)
qed

lemma account_ok_step: "store_step s t \<Longrightarrow> account_ok s \<Longrightarrow> account_ok t"
  by (induction rule: store_step.induct) (auto simp: account_ok_def underway_def split: phase.splits if_splits)

lemma content_same:
  assumes "content_ok g0 s" "st_file t = st_file s" "st_events t = st_events s" "st_phase t = (st_phase s)(p := new)"
    and "\<And>g u data. holds_map (st_file s) g \<Longrightarrow> prepared_all g (st_phase s) \<Longrightarrow> new = Prepared u data \<or> new = Staged u data \<Longrightarrow> prepared_ok g u data"
  shows "content_ok g0 t"
proof -
  obtain g where g: "holds_map (st_file s) g" "legal g0 (st_events s) g" "prepared_all g (st_phase s)"
    using assms(1) unfolding content_ok_def by blast
  have "prepared_all g ((st_phase s)(p := new))"
    using g(3) assms(5)[OF g(1,3)] unfolding prepared_all_def by simp
  then show ?thesis using g assms(2-4) unfolding content_ok_def by auto
qed

lemma content_rename:
  assumes "content_ok g0 s" "lock_ok s" "st_phase s p = Staged u data"
  shows "content_ok g0 ((at_phase p (Renamed u) s)\<lparr>st_file := Some \<lparr>sf_text = data, sf_regular = True, sf_private = True\<rparr>, st_events := st_events s @ [Commit p u]\<rparr>)"
proof -
  obtain g where g: "legal g0 (st_events s) g" "prepared_ok g u data"
    using assms(1,3) unfolding content_ok_def prepared_all_def by blast
  obtain m where m: "gm_wf m" "data = secret_marshal m" "length data < max_store" "spec_update u g = Some (gm_get m)"
    using g(2) by (auto simp: prepared_ok_def)
  have h: "holds_map (Some \<lparr>sf_text = data, sf_regular = True, sf_private = True\<rparr>) (gm_get m)" using holds_written[OF m(1)] m(2,3) by simp
  have l: "legal g0 (st_events s @ [Commit p u]) (gm_get m)" using g(1) m(4) by (auto simp: legal_snoc)
  have alone: "\<not> critical (st_phase s q)" if "q \<noteq> p" for q using assms(2,3) that unfolding lock_ok_def by force
  have "((st_phase s)(p := Renamed u)) q \<noteq> Prepared v d \<and> ((st_phase s)(p := Renamed u)) q \<noteq> Staged v d" for q v d
    using alone[of q] by (cases "q = p") auto
  then have "prepared_all (gm_get m) ((st_phase s)(p := Renamed u))" unfolding prepared_all_def by blast
  then show ?thesis using h l unfolding content_ok_def by auto
qed

lemma content_ok_step:
  assumes "store_step s t" "lock_ok s" "content_ok g0 s"
  shows "content_ok g0 t"
  using assms
proof (cases rule: store_step.cases)
  case (s_prepare p u l op data)
  show ?thesis
    by (rule content_same[OF assms(3), where p = p and new = "Prepared u data"]) (use s_prepare prepare_ok[OF _ s_prepare(3)] in auto)
next
  case (s_stage p u data)
  show ?thesis
    by (rule content_same[OF assms(3), where p = p and new = "Staged u data"]) (use s_stage in \<open>auto simp: prepared_all_def\<close>)
next
  case (s_rename p u data)
  then show ?thesis using content_rename[OF assms(3,2)] by simp
next
  case (s_reject p u e)
  then show ?thesis using assms(3) by (simp add: content_ok_def)
next
  case (s_get b a l op key r)
  obtain g where g: "holds_map (st_file s) g" "legal g0 (st_events s) g" "prepared_all g (st_phase s)"
    using assms(3) unfolding content_ok_def by blast
  have "legal g0 (st_events s @ [Got key r]) g" using g(2) get_ok[OF g(1), of key b a l op] s_get(2) by (auto simp: legal_snoc)
  then show ?thesis using g s_get(1) unfolding content_ok_def by auto
next
  case (s_lock p u)
  show ?thesis by (rule content_same[OF assms(3), where p = p and new = "Holding u"]) (use s_lock in auto)
next
  case (s_enter p u)
  show ?thesis by (rule content_same[OF assms(3), where p = p and new = "Waiting u"]) (use s_enter in auto)
next
  case (s_give_up p u e)
  show ?thesis by (rule content_same[OF assms(3), where p = p and new = "Idle"]) (use s_give_up in auto)
next
  case (s_refused p u l op e)
  show ?thesis by (rule content_same[OF assms(3), where p = p and new = "Failing u e"]) (use s_refused in auto)
next
  case (s_stage_fails p u data e)
  show ?thesis by (rule content_same[OF assms(3), where p = p and new = "Failing u e"]) (use s_stage_fails in auto)
next
  case (s_rename_fails p u data e)
  show ?thesis by (rule content_same[OF assms(3), where p = p and new = "Failing u e"]) (use s_rename_fails in auto)
next
  case (s_finish p u out stale)
  show ?thesis by (rule content_same[OF assms(3), where p = p and new = "Idle"]) (use s_finish in auto)
next
  case (s_fail p u e stale)
  show ?thesis by (rule content_same[OF assms(3), where p = p and new = "Idle"]) (use s_fail in auto)
qed

lemma store_reach_ok: "store_reach f s \<Longrightarrow> holds_map f g0 \<Longrightarrow> content_ok g0 s \<and> lock_ok s \<and> account_ok s"
proof (induction rule: store_reach.induct)
  case reach_init
  then show ?case
    by (auto simp: content_ok_def prepared_all_def lock_ok_def account_ok_def store_init_def underway_def committed_def reported_def List.map_filter_def)
next
  case (reach_next s t)
  then show ?case using content_ok_step lock_ok_step account_ok_step by blast
qed

text \<open>C7: The secret file is linearizable, whatever parties write and read it at once, whichever system calls fail and
  wherever a party stops for good: at every moment the file can be read, and what committed updates and reads have
  answered is a history of one plain map, which the file holds; no update is lost or applied to an outdated map. A party's
  committed updates are exactly, in order and each once, those it reported as done, or as done with the directory not
  synced, and the one it has yet to report; an update reported as failed was not applied.\<close>

theorem secret_store_linearizable:
  assumes "holds_map f g0" "store_reach f s"
  shows "\<exists>g. holds_map (st_file s) g \<and> legal g0 (st_events s) g \<and>
    (\<forall>p. committed p (st_events s) = reported p (st_done s) @ underway (st_phase s p))"
  using store_reach_ok[OF assms(2,1)] unfolding content_ok_def account_ok_def by blast

text \<open>An update that finds no lock and is left alone commits.\<close>

lemma update_alone_commits:
  assumes "store_reach f s" "st_phase s p = Idle" "\<not> st_lock s" "validKey (update_key u)" "secret_prepare True True (st_file s) u = Inr data"
  shows "\<exists>t. store_reach f t \<and> st_events t = st_events s @ [Commit p u] \<and> st_file t = Some \<lparr>sf_text = data, sf_regular = True, sf_private = True\<rparr>"
proof -
  define s1 where "s1 = at_phase p (Waiting u) s"
  have r1: "store_reach f s1" unfolding s1_def by (rule reach_next[OF assms(1) s_enter[OF assms(2,4)]])
  define s2 where "s2 = (at_phase p (Holding u) s1)\<lparr>st_lock := True\<rparr>"
  have r2: "store_reach f s2" unfolding s2_def by (rule reach_next[OF r1 s_lock]) (simp_all add: s1_def assms(3))
  define s3 where "s3 = at_phase p (Prepared u data) s2"
  have "secret_prepare True True (st_file s2) u = Inr data" using assms(5) by (simp add: s2_def s1_def)
  then have r3: "store_reach f s3" unfolding s3_def by (intro reach_next[OF r2 s_prepare]) (simp_all add: s2_def)
  define s4 where "s4 = at_phase p (Staged u data) s3"
  have r4: "store_reach f s4" unfolding s4_def by (rule reach_next[OF r3 s_stage]) (simp add: s3_def)
  define s5 where "s5 = (at_phase p (Renamed u) s4)\<lparr>st_file := Some \<lparr>sf_text = data, sf_regular = True, sf_private = True\<rparr>, st_events := st_events s4 @ [Commit p u]\<rparr>"
  have "store_reach f s5" unfolding s5_def by (rule reach_next[OF r4 s_rename]) (simp add: s4_def)
  moreover have "st_events s4 = st_events s" by (simp add: s4_def s3_def s2_def s1_def)
  ultimately show ?thesis by (intro exI[of _ s5]) (simp add: s5_def)
qed

definition one_set :: secret_update where
  "one_set = USet ''k'' (Some ''v'')"

lemma one_set_text: "secret_marshal [(''k'', Some ''v'')] = ''{\"k\":\"dg==\"}''"
  by code_simp

theorem secret_store_linearizable_witness:
  "\<exists>s :: store_state. st_events s = [Commit 1 one_set] \<and> (\<exists>g. holds_map (st_file s) g \<and> legal Map.empty (st_events s) g \<and>
    (\<forall>p. committed p (st_events s) = reported p (st_done s) @ underway (st_phase s p)))"
proof -
  have h: "holds_map None Map.empty" by (auto simp: holds_map_def secret_read_def)
  have "secret_prepare True True None one_set = Inr (secret_marshal [(''k'', Some ''v'')])"
    by (simp add: secret_prepare_def secret_read_def secret_edit_def one_set_def one_set_text)
  then obtain s where s: "store_reach None s" "st_events s = [Commit 1 one_set]"
    using update_alone_commits[OF reach_init, of None 1 one_set] by (auto simp: store_init_def validKey_def update_key_def one_set_def)
  show ?thesis using secret_store_linearizable[OF h s(1)] s(2) by blast
qed

end
