(* ===== verification/Spec2Isabelle.thy ===== *)
theory Spec2Isabelle
  imports Ledger_Memory Ledger_File Ledger_Compare Merge Lease Journal Unwind Analyze Update_Routing Resource_Bindings Scc Flow_Control Schedule Buffer Row_Cache Namespace Like Jsonpath Bind_Join Plan_Compose Plan_Output Descent Kind Dispatch Lru Pg_Timestamp Pg_Numeric Stream_Sink Secret_Store
begin

text \<open>
  Verification of omnisdk, an engine that runs declarative queries and mutations against cloud
  providers. The program has two halves. The durable half (internal/ledger, merge, apply, lease,
  journal, semantics, unwind, analyze, docsem, updaterouting, resourcebindings, sessionstate) decides
  what to change, records what was changed and undoes it. The execution half, System G
  (internal/system\_g), composes exchanges into a plan, orders them, runs them concurrently and moves
  rows between them under flow control. Libraries under pkg (rowcache, cache, namespace,
  jsonpath, sqlfn, encode, stream) serve both.

  Conventions. \<open>Omni_Prelude\<close> holds what the components share: results as a sum with the error on the
  left, Go's byte slices (nil or a string), maps as association lists (\<open>gomap\<close>) where iteration matters
  and as functions where it does not, string functions of the standard library, decimal text, 64-bit
  wrap-around and stable sorting. Files, clocks, random numbers, providers and concurrently running
  parties are arguments or step relations, so that each theorem holds for every behaviour of them.

  The durable half.
  \<^item> \<open>Facade\<close>: the contracts of facade.go and, as the locale \<open>ledger_contract\<close>, the one-cell ledger
    every implementation has to refine.
  \<^item> \<open>Ledger_Memory\<close> (ledger/memory.go) and \<open>Ledger_File\<close> (ledger/file.go): both refine the contract; the
    file ledger, over a file system whose calls may fail at any point, never overwrites a version,
    hands each version to one writer, and lists exactly the live entries. \<open>Ledger_Compare\<close> states where
    the two implementations differ, and that a durable version names one entry for ever.
  \<^item> \<open>Json\<close> and \<open>Base64\<close>: the encoders and decoders the stores rely on, with round trips. The parser
    carries fuel, twice the length of its input plus two, which is proved to be enough.
  \<^item> \<open>Merge\<close> (merge/merge.go, apply/apply.go): ownership in a three-way merge at any depth, and that an
    applied mutation passes the convergence test.
  \<^item> \<open>Lease\<close> (lease/lease.go): mutual exclusion of leases over the durable ledger, under any interleaving.
  \<^item> \<open>Journal\<close> (journal/journal.go): appends are read back in order and byte-exact; a torn append blocks.
  \<^item> \<open>Semantics\<close>, \<open>Analyze\<close> (semantics, analyze, docsem): which declarations load, and that the analyzer
    picks a runnable, permitted, most specific method and only fails where it must.
  \<^item> \<open>Unwind\<close> (unwind/unwind.go): an unwind ends, accounts for every record once, sends only declared
    compensations, and completes when the provider arbitrates.
  \<^item> \<open>Update_Routing\<close> (updaterouting, sessionstate) and \<open>Resource_Bindings\<close> (resourcebindings): routes in
    their documented stable order, and references resolved completely.

  \<^item> \<open>Kind\<close> (kind/kind.go): parsed values keep their text; each kind's comparison is an interpretation of the
    locale \<open>ordered_kind\<close> or \<open>equality_kind\<close>, whose lemmas are its laws. The reader of rationals is a parameter.
  \<^item> \<open>Secret_Store\<close> (secretstore/file.go): the secret file, replaced by rename under a lock file, is linearizable
    for any number of parties, whatever fails.
  \<^item> \<open>Dispatch\<close> (effect/dispatch): a key goes to the provider of its most specific prefix.

  System G.
  \<^item> \<open>Termination_Policy\<close>, \<open>Scc\<close> (termination, scc): well-founded policies stop every loop; a condensed
    cycle run to its fixpoint emits the closure of its seed, each key once. \<open>Descent\<close> (descent) is its
    client for recursive listings, which reach the whole tree and carry their constants.
  \<^item> \<open>Kahn\<close>: Kahn's loop over any graph, the locale \<open>kahn_deps\<close>; its fuel, the number of vertices, is
    proved enough. \<open>Schedule\<close> (schedule/schedule.go) instantiates it for the scheduler, whose coordinator
    is a step relation: nodes start once, after what they depend on, and all complete.
  \<^item> \<open>Tarjan\<close>, \<open>Condense\<close>, \<open>Levels\<close> (plan/cycle.go \<open>condense\<close>, plan/compose.go \<open>levels\<close> and \<open>Order\<close>): the
    components of a plan's graph, by Tarjan's algorithm with fuel one per exchange (the locale
    \<open>digraph\<close>), in dependency order by Kahn's, whatever order Go visits a map in, and grouped into
    levels whose members are independent.
  \<^item> \<open>Plan_Core\<close> (plan/types.go, branch.go, compose.go \<open>Validate\<close> and \<open>stage\<close>): exchanges, plans, the stage of an
    exchange on a row, and branches: a gated exchange runs on exactly the rows its gates select.
  \<^item> \<open>Plan_Section\<close> (plan/section.go): the members of a level on one row as a step relation, which ends and
    keeps every member's rows, and the combination of the rows.
  \<^item> \<open>Plan_Cycle\<close> (plan/cycle.go): the checks of a cycle, its entries and rounds. A checked cycle ends on
    every row, and run to its fixpoint emits what is reachable along its edges. The order in which a
    round's records arrive is the parameter \<open>mix\<close>, a record's key a parameter told to separate records;
    the loop's fuel is enough whenever the termination is well-founded.
  \<^item> \<open>Plan_Compose\<close> (plan/compose.go): what an accepted plan promises, and that its levels, run side by side,
    mean its stages run one after another.
  \<^item> \<open>Plan_Output\<close> (plan/output.go, merge.go): terminals that share a result limit, and merged streams.
  \<^item> \<open>Bind_Join\<close> (bind): the dependent left-outer join, its rows driven in any interleaving.
  \<^item> \<open>Buffer\<close> (buffer/buffer.go): readers see exactly the published rows, memory follows the slowest
    reader, and back-pressure cannot deadlock. Positions are natural numbers; the hypothesis that the
    number of records stays below the largest int is stated where it matters.
  \<^item> \<open>Flow_Control\<close> (retry, admit, abort): backoff ranges with 64-bit overflow, retry decisions, admission
    limits per scope, result budgets.

  Libraries.
  \<^item> \<open>Heap_Array\<close>, \<open>Row_Cache\<close> (pkg/rowcache): a bounded transactional row cache with expiry, over the
    array heap of container/heap; the managed cache is stated against the locale \<open>row_store\<close>.
  \<^item> \<open>Namespace\<close> (pkg/namespace), \<open>Jsonpath\<close> (pkg/jsonpath), \<open>Like\<close> (pkg/sqlfn/pg\_like.go): unambiguous
    names, parsing as the inverse of writing, and LIKE against the meaning of its patterns.
  \<^item> \<open>Lru\<close> (pkg/cache): the cost-weighted cache holds exactly the most recently used entries that fit; where
    the 64-bit total wraps it does not.
  \<^item> \<open>Pg_Date\<close>, \<open>Pg_Timestamp\<close> (pkg/sqlfn/pg\_datetime.go): Julian days and calendar dates, timestamps and their
    parts, as inverses of each other in the machine's arithmetic. A named zone's clock is a parameter.
  \<^item> \<open>Pg_Numeric\<close> (pkg/sqlfn/pg\_numeric.go): comparison, addition and subtraction of base-10000 numerics are exact,
    and so is their conversion from and to 64-bit integers.
  \<^item> \<open>Encode\<close> (pkg/encode): the canonical JSON of a value reads back and does not depend on the order of maps.
    A finite float is given by its shortest decimal, a time by its text.
  \<^item> \<open>Framings\<close>, \<open>Stream_Sink\<close> (pkg/stream): jsonl, delimited, OTel and table text, and the sink that batches rows
    into them under a timer: a closed sink has lost no row, and for framings of the locale \<open>row_framing\<close>
    batching does not show. The escaping of JSON strings is the locale \<open>json_escaper\<close> of \<open>Json\<close>, interpreted
    for both encoders the sources use.

  Not modelled: network, gRPC and credential code, the provider-document parsers and the public SDK
  that assembles everything from them (input and output, and third-party parsers); the rest of the SQL
  function library (ports with floating point, regular expressions and JSONB); the keychain of
  the operating system; the command line. Timers are waits of
  unknown length, so a delay appears only where its value is computed.
\<close>

end
